(* ===== verification/LuaPrelude.thy ===== *)
theory LuaPrelude
  imports Main "HOL-Library.Word"
begin

text \<open>
  Prelude of the development of the Lua 5.1 engine that kolproxy embeds (the C files of
  \<open>src/Scripting\<close>): the types every component shares (C integers, bytes, errors as
  values), the collections of rewrite rules, and the generic lemmas on words, bit fields,
  lists and results that the component theories use.
\<close>

unbundle bit_operations_syntax

section \<open>Rule collections\<close>

named_theorems field_simps_lua \<open>reading and writing bit fields of a word\<close>
named_theorems result_simps \<open>sequencing of fallible computations\<close>

section \<open>C integer types (\<open>luaconf.h\<close>, \<open>llimits.h\<close>)\<close>

text \<open>
  \<open>char\<close> of C is the 8 bit \<^typ>\<open>char\<close> of HOL. A C \<open>int\<close> that cannot overflow is an
  \<^typ>\<open>int\<close>; where the width matters the value is a word.
\<close>

type_synonym lu_byte = "8 word"
type_synonym lu_int32 = "32 word"
type_synonym size_t = "64 word"
type_synonym c_string = "char list"

definition INT_MAX :: int where "INT_MAX = 2147483647"
definition INT_MIN :: int where "INT_MIN = - 2147483648"

text \<open>\<open>MAX_INT\<close> of \<open>llimits.h\<close>, two below \<open>INT_MAX\<close> ``for safety''.\<close>

definition MAX_INT :: int where "MAX_INT = INT_MAX - 2"

text \<open>\<open>LUA_QL\<close> of \<open>luaconf.h\<close> puts a name in single quotes.\<close>

definition LUA_QL :: "c_string \<Rightarrow> c_string" where "LUA_QL x = CHR 0x27 # x @ [CHR 0x27]"

text \<open>The C string in a string that may hold zeros: it ends at the first.\<close>

definition cstr :: "c_string \<Rightarrow> c_string" where
  "cstr s = takeWhile (\<lambda>c. c \<noteq> CHR 0x00) s"

section \<open>Errors as values\<close>

text \<open>
  A Lua error is a long jump to the closest protected call (\<open>luaD_throw\<close>). A model of a
  function that may raise returns \<open>Inl\<close> of the error instead. The message of a run time
  error is the text passed to \<open>luaG_runerror\<close> or \<open>luaL_error\<close>; the position
  prefix that \<open>addinfo\<close> and \<open>luaL_where\<close> prepend is not part of it. \<open>OutOfBounds\<close>
  is no Lua error: it is the model's value for a read that leaves the object it points into,
  which C leaves undefined. \<open>NoFuel\<close> stands for a bounded definition that was cut off; the
  theorems show that the fuel given is enough.
\<close>

datatype lua_error =
    ErrRun c_string
  | ErrSyntax c_string
  | ErrMem
  | ErrErr
  | OutOfBounds
  | NoFuel

type_synonym 'a result = "lua_error + 'a"

definition bind_result :: "'a result \<Rightarrow> ('a \<Rightarrow> 'b result) \<Rightarrow> 'b result" where
  "bind_result m f = (case m of Inl e \<Rightarrow> Inl e | Inr x \<Rightarrow> f x)"

lemma bind_result_simps [simp, result_simps]:
  "bind_result (Inl e) f = Inl e"
  "bind_result (Inr x) f = f x"
  by (simp_all add: bind_result_def)

lemma bind_result_eq_Inr [result_simps]:
  "bind_result m f = Inr y \<longleftrightarrow> (\<exists>x. m = Inr x \<and> f x = Inr y)"
  by (cases m) auto

lemma bind_result_eq_Inl [result_simps]:
  "bind_result m f = Inl e \<longleftrightarrow> m = Inl e \<or> (\<exists>x. m = Inr x \<and> f x = Inl e)"
  by (cases m) auto

lemma bind_result_cong [fundef_cong]:
  "m = m' \<Longrightarrow> (\<And>x. m' = Inr x \<Longrightarrow> f x = f' x) \<Longrightarrow> bind_result m f = bind_result m' f'"
  by (cases m') auto

text \<open>
  \<open>legal\<close> errors are those of Lua. A result is \<open>safe\<close> when it is a value or such an error: the
  computation ended, and no access left the object it points into.
\<close>

definition legal :: "lua_error \<Rightarrow> bool" where
  "legal e \<longleftrightarrow> e \<noteq> OutOfBounds \<and> e \<noteq> NoFuel"

lemma legal_simps [simp]: "legal (ErrRun m)" "\<not> legal OutOfBounds" "\<not> legal NoFuel"
  by (simp_all add: legal_def)

definition safe :: "'a result \<Rightarrow> bool" where
  "safe r = (case r of Inl err \<Rightarrow> legal err | Inr _ \<Rightarrow> True)"

lemma safe_simps [simp]: "safe (Inl err) = legal err" "safe (Inr x)"
  by (simp_all add: safe_def)

lemma safe_bind: "safe m \<Longrightarrow> (\<And>x. m = Inr x \<Longrightarrow> safe (f x)) \<Longrightarrow> safe (bind_result m f)"
  by (cases m) simp_all

lemma safe_def': "safe r \<longleftrightarrow> r \<noteq> Inl OutOfBounds \<and> r \<noteq> Inl NoFuel"
  by (cases r) (auto simp: legal_def)

section \<open>Bit fields of a word\<close>

text \<open>Reading and writing the field of \<open>n\<close> bits at position \<open>p\<close>.\<close>

definition get_field :: "nat \<Rightarrow> nat \<Rightarrow> 'a::len word \<Rightarrow> 'a word" where
  "get_field p n i = drop_bit p i AND mask n"

definition put_field :: "nat \<Rightarrow> nat \<Rightarrow> 'a::len word \<Rightarrow> 'a word \<Rightarrow> 'a word" where
  "put_field p n i u = (i AND NOT (push_bit p (mask n))) OR (push_bit p u AND push_bit p (mask n))"

lemma bit_get_field [field_simps_lua]:
  "bit (get_field p n i) k \<longleftrightarrow> k < n \<and> bit i (p + k)"
  by (auto simp: get_field_def bit_simps dest: bit_imp_le_length)

lemma bit_put_field [field_simps_lua]:
  "bit (put_field p n i u) k \<longleftrightarrow>
     (if p \<le> k \<and> k < p + n then k < LENGTH('a) \<and> bit u (k - p) else bit i k)"
  for i :: "'a::len word"
  by (auto simp: put_field_def bit_simps not_le dest: bit_imp_le_length)

lemma get_put_same:
  fixes i :: "'a::len word"
  assumes "p + n \<le> LENGTH('a)"
  shows "get_field p n (put_field p n i u) = u AND mask n"
  using assms by (intro bit_word_eqI) (auto simp: field_simps_lua bit_simps)

lemma get_put_other:
  fixes i :: "'a::len word"
  assumes "p + n \<le> q \<or> q + m \<le> p"
  shows "get_field q m (put_field p n i u) = get_field q m i"
  using assms by (intro bit_word_eqI) (auto simp: field_simps_lua)

lemma put_get_same: "put_field p n i (get_field p n i) = i"
  by (intro bit_word_eqI) (auto simp: field_simps_lua)

lemma get_field_or:
  "get_field p n (i OR j) = get_field p n i OR get_field p n j"
  by (intro bit_word_eqI) (auto simp: field_simps_lua bit_simps)

lemma get_field_push_same:
  fixes u :: "'a::len word"
  assumes "p + n \<le> LENGTH('a)"
  shows "get_field p n (push_bit p u) = u AND mask n"
  using assms by (intro bit_word_eqI) (auto simp: field_simps_lua bit_simps)

lemma and_mask_small_iff:
  fixes u :: "'a::len word"
  shows "u AND mask n = u \<longleftrightarrow> (\<forall>k\<ge>n. \<not> bit u k)"
  by (auto simp: bit_eq_iff bit_simps) (meson bit_imp_le_length not_le)+

lemma uint_small_no_high_bit:
  fixes u :: "'a::len word"
  assumes "uint u < 2 ^ n" and "n \<le> k"
  shows "\<not> bit u k"
proof -
  have "uint u < 2 ^ k"
    using assms order_less_le_trans by (fastforce intro: power_increasing)
  then have "take_bit k (uint u) = uint u"
    by (simp add: take_bit_int_eq_self)
  then have "\<not> bit (uint u) k"
    by (metis bit_take_bit_iff less_irrefl)
  then show ?thesis by (simp add: bit_uint_iff) (metis bit_imp_le_length)
qed

lemma get_field_push_disjoint:
  fixes u :: "'a::len word"
  assumes "uint u < 2 ^ m" and "q + m \<le> p \<or> p + n \<le> q"
  shows "get_field p n (push_bit q u) = 0"
  using assms uint_small_no_high_bit [OF assms(1)]
  by (intro bit_word_eqI) (auto simp: field_simps_lua bit_simps)

lemma and_mask_id:
  fixes u :: "'a::len word"
  assumes "uint u < 2 ^ n"
  shows "u AND mask n = u"
  using uint_small_no_high_bit [OF assms] by (simp add: and_mask_small_iff)

lemma uint_get_field_less: "uint (get_field p n i) < 2 ^ n"
  by (simp add: get_field_def unsigned_take_bit_eq flip: take_bit_eq_mask)

section \<open>Integers\<close>

text \<open>The wrapped value of a small negative number.\<close>

lemma mod_neg: "- n \<le> x \<Longrightarrow> x < 0 \<Longrightarrow> x mod n = x + n" for x :: int
  by (smt (verit) mod_add_self2 mod_pos_pos_trivial)

end
