(* ===== verification/LuaNumber.thy ===== *)
theory LuaNumber
  imports LuaPrelude
begin

text \<open>
  The type \<open>lua_Number\<close> and the primitive operations on it that \<open>luaconf.h\<close> configures
  (\<open>LUA_NUMBER_DOUBLE\<close>): IEEE 754 binary64, kept as its 64 bits. Comparison goes through the
  order preserving integer image of the bits; the arithmetic operations compute the exact
  rational result and round it to nearest, ties to even. A NaN result is always the same
  quiet NaN, as the payload of a NaN is not observable in Lua.
\<close>

type_synonym lua_Number = "64 word"

section \<open>The fields of a double\<close>

definition num_neg :: "lua_Number \<Rightarrow> bool" where "num_neg x = bit x 63"
definition num_exp :: "lua_Number \<Rightarrow> int" where "num_exp x = uint (get_field 52 11 x)"
definition num_frac :: "lua_Number \<Rightarrow> int" where "num_frac x = uint (get_field 0 52 x)"
definition num_abs :: "lua_Number \<Rightarrow> int" where "num_abs x = uint (get_field 0 63 x)"

definition is_nan :: "lua_Number \<Rightarrow> bool" where
  "is_nan x \<longleftrightarrow> num_exp x = 2047 \<and> num_frac x \<noteq> 0"
definition is_inf :: "lua_Number \<Rightarrow> bool" where
  "is_inf x \<longleftrightarrow> num_exp x = 2047 \<and> num_frac x = 0"
definition is_zero :: "lua_Number \<Rightarrow> bool" where "is_zero x \<longleftrightarrow> num_abs x = 0"

definition num_nan :: lua_Number where "num_nan = 0x7FF8000000000000"
definition sign_bits :: "bool \<Rightarrow> lua_Number" where
  "sign_bits s = (if s then 0x8000000000000000 else 0)"
definition num_inf :: "bool \<Rightarrow> lua_Number" where
  "num_inf s = sign_bits s OR 0x7FF0000000000000"

text \<open>A finite double is \<open>num_mant x * 2 ^ (num_pow x - 1074)\<close> up to its sign.\<close>

definition num_mant :: "lua_Number \<Rightarrow> int" where
  "num_mant x = (if num_exp x = 0 then num_frac x else 2 ^ 52 + num_frac x)"
definition num_pow :: "lua_Number \<Rightarrow> int" where
  "num_pow x = (if num_exp x = 0 then 0 else num_exp x - 1)"

definition num_signed :: "lua_Number \<Rightarrow> int" where
  "num_signed x = (if num_neg x then - num_mant x else num_mant x)"

section \<open>Comparison\<close>

definition num_key :: "lua_Number \<Rightarrow> int" where
  "num_key x = (if num_neg x then - num_abs x else num_abs x)"

definition luai_numeq :: "lua_Number \<Rightarrow> lua_Number \<Rightarrow> bool" where
  "luai_numeq a b \<longleftrightarrow> \<not> is_nan a \<and> \<not> is_nan b \<and> num_key a = num_key b"
definition luai_numlt :: "lua_Number \<Rightarrow> lua_Number \<Rightarrow> bool" where
  "luai_numlt a b \<longleftrightarrow> \<not> is_nan a \<and> \<not> is_nan b \<and> num_key a < num_key b"
definition luai_numle :: "lua_Number \<Rightarrow> lua_Number \<Rightarrow> bool" where
  "luai_numle a b \<longleftrightarrow> \<not> is_nan a \<and> \<not> is_nan b \<and> num_key a \<le> num_key b"
definition luai_numisnan :: "lua_Number \<Rightarrow> bool" where
  "luai_numisnan a \<longleftrightarrow> \<not> luai_numeq a a"

section \<open>Rounding\<close>

function ilog2 :: "int \<Rightarrow> int" where
  "ilog2 n = (if n < 2 then 0 else 1 + ilog2 (n div 2))"
  by pat_completeness auto
termination by (relation "measure nat") auto

declare ilog2.simps [simp del]

text \<open>
  \<open>round_pos n d\<close> is the double nearest to \<open>n / d\<close> (both positive), without its sign bit:
  \<open>k\<close> is the exponent of the unit in the last place, counted from \<open>-1074\<close>, and \<open>q\<close> the
  rounded number of such units. Adding the two in one word carries a mantissa of \<open>2 ^ 53\<close>
  into the exponent.
\<close>

definition round_half_even :: "int \<Rightarrow> int \<Rightarrow> int" where
  "round_half_even n d =
     (let q = n div d; r = n mod d
      in if 2 * r > d \<or> (2 * r = d \<and> odd q) then q + 1 else q)"

definition ulp_exp :: "int \<Rightarrow> int \<Rightarrow> int" where
  "ulp_exp n d =
     (let l = ilog2 n - ilog2 d;
          l' = (if n * 2 ^ nat (- l) < d * 2 ^ nat l then l - 1 else l)
      in max 0 (l' + 1022))"

definition round_pos :: "int \<Rightarrow> int \<Rightarrow> int" where
  "round_pos n d =
     (let k = ulp_exp n d;
          q = round_half_even (n * 2 ^ nat (1074 - k)) (d * 2 ^ nat (k - 1074))
      in min (k * 2 ^ 52 + q) (2047 * 2 ^ 52))"

definition make_num :: "bool \<Rightarrow> int \<Rightarrow> int \<Rightarrow> lua_Number" where
  "make_num s n d =
     sign_bits s OR (if n = 0 then 0 else word_of_int (round_pos n d))"

section \<open>Arithmetic\<close>

definition luai_numunm :: "lua_Number \<Rightarrow> lua_Number" where
  "luai_numunm a = a XOR 0x8000000000000000"

text \<open>A sum is exact as an integer number of the smaller unit of the two operands.\<close>

definition luai_numadd :: "lua_Number \<Rightarrow> lua_Number \<Rightarrow> lua_Number" where
  "luai_numadd a b =
     (if is_nan a \<or> is_nan b then num_nan
      else if is_inf a then (if is_inf b \<and> num_neg a \<noteq> num_neg b then num_nan else a)
      else if is_inf b then b
      else if is_zero a \<and> is_zero b then sign_bits (num_neg a \<and> num_neg b)
      else let m = min (num_pow a) (num_pow b);
               s = num_signed a * 2 ^ nat (num_pow a - m) + num_signed b * 2 ^ nat (num_pow b - m)
           in make_num (s < 0) (\<bar>s\<bar> * 2 ^ nat (m - 1074)) (2 ^ nat (1074 - m)))"

definition luai_numsub :: "lua_Number \<Rightarrow> lua_Number \<Rightarrow> lua_Number" where
  "luai_numsub a b = (if is_nan b then num_nan else luai_numadd a (luai_numunm b))"

definition luai_nummul :: "lua_Number \<Rightarrow> lua_Number \<Rightarrow> lua_Number" where
  "luai_nummul a b =
     (let s = (num_neg a \<noteq> num_neg b)
      in if is_nan a \<or> is_nan b then num_nan
      else if is_inf a then (if is_zero b then num_nan else num_inf s)
      else if is_inf b then (if is_zero a then num_nan else num_inf s)
      else let m = num_mant a * num_mant b; p = num_pow a + num_pow b
           in make_num s (m * 2 ^ nat (p - 2148)) (2 ^ nat (2148 - p)))"

definition luai_numdiv :: "lua_Number \<Rightarrow> lua_Number \<Rightarrow> lua_Number" where
  "luai_numdiv a b =
     (let s = (num_neg a \<noteq> num_neg b)
      in if is_nan a \<or> is_nan b then num_nan
      else if is_inf a then (if is_inf b then num_nan else num_inf s)
      else if is_inf b then sign_bits s
      else if is_zero b then (if is_zero a then num_nan else num_inf s)
      else make_num s (num_mant a * 2 ^ nat (num_pow a - num_pow b))
                      (num_mant b * 2 ^ nat (num_pow b - num_pow a)))"

text \<open>The C library's \<open>floor\<close>.\<close>

definition num_floor :: "lua_Number \<Rightarrow> lua_Number" where
  "num_floor a =
     (if is_nan a then num_nan
      else if is_inf a \<or> is_zero a \<or> num_pow a \<ge> 1074 then a
      else let q = num_signed a div 2 ^ nat (1074 - num_pow a)
           in if q = 0 then 0 else make_num (q < 0) \<bar>q\<bar> 1)"

definition luai_nummod :: "lua_Number \<Rightarrow> lua_Number \<Rightarrow> lua_Number" where
  "luai_nummod a b = luai_numsub a (luai_nummul (num_floor (luai_numdiv a b)) b)"

section \<open>Conversions between numbers and integers\<close>

text \<open>\<open>cast_num\<close> of an integer.\<close>

definition cast_num :: "int \<Rightarrow> lua_Number" where
  "cast_num k = make_num (k < 0) \<bar>k\<bar> 1"

text \<open>
  \<open>lua_number2int\<close> where the Pentium trick does not apply: the C conversion, which
  truncates. A value out of the range of \<open>int\<close> is undefined in C; the instruction the
  compilers emit on x86-64 gives \<open>INT_MIN\<close>.
\<close>

definition num_trunc :: "lua_Number \<Rightarrow> int" where
  "num_trunc d =
     (let m = num_mant d * 2 ^ nat (num_pow d - 1074) div 2 ^ nat (1074 - num_pow d)
      in if num_neg d then - m else m)"

definition lua_number2int :: "lua_Number \<Rightarrow> int" where
  "lua_number2int d =
     (if is_nan d \<or> is_inf d then INT_MIN
      else let k = num_trunc d in if INT_MIN \<le> k \<and> k \<le> INT_MAX then k else INT_MIN)"

section \<open>Equality of numbers\<close>

lemma num_eq_fields:
  assumes "num_neg a = num_neg b" and "num_abs a = num_abs b"
  shows "a = b"
proof (intro bit_word_eqI)
  fix k assume k: "k < LENGTH(64)"
  from assms(2) have "get_field 0 63 a = get_field 0 63 b"
    by (simp only: num_abs_def word_uint_eq_iff)
  then have low: "k < 63 \<Longrightarrow> bit a k = bit b k" for k
    by (metis add_0 bit_get_field)
  show "bit a k = bit b k"
  proof (cases "k < 63")
    case True
    then show ?thesis by (rule low)
  next
    case False
    with k have "k = 63" by simp
    with assms(1) show ?thesis by (simp add: num_neg_def)
  qed
qed

lemma num_abs_nonneg [simp]: "0 \<le> num_abs a"
  by (simp add: num_abs_def)

lemma num_key_eq:
  assumes "num_key a = num_key b"
  shows "a = b \<or> (is_zero a \<and> is_zero b)"
proof -
  from assms have abs: "num_abs a = num_abs b"
    and neg: "num_neg a = num_neg b \<or> num_abs a = 0"
    using num_abs_nonneg [of a] num_abs_nonneg [of b]
    by (cases "num_neg a"; cases "num_neg b"; simp add: num_key_def; linarith)+
  then show ?thesis by (auto simp: is_zero_def intro: num_eq_fields)
qed

lemma luai_numeq_refl [simp]: "luai_numeq a a \<longleftrightarrow> \<not> is_nan a"
  by (simp add: luai_numeq_def)

lemma luai_numisnan_iff [simp]: "luai_numisnan a \<longleftrightarrow> is_nan a"
  by (simp add: luai_numisnan_def)

lemma luai_numeq_sym: "luai_numeq a b \<longleftrightarrow> luai_numeq b a"
  by (auto simp: luai_numeq_def)

lemma luai_numeq_trans: "luai_numeq a b \<Longrightarrow> luai_numeq b c \<Longrightarrow> luai_numeq a c"
  by (simp add: luai_numeq_def)

lemma is_zero_cases: "is_zero a \<Longrightarrow> a = 0 \<or> a = 0x8000000000000000"
proof -
  assume z: "is_zero a"
  have "num_abs (0x8000000000000000 :: lua_Number) = 0" "num_neg (0x8000000000000000 :: lua_Number)"
    "num_abs (0 :: lua_Number) = 0" "\<not> num_neg (0 :: lua_Number)"
    by code_simp+
  with z show ?thesis
    by (cases "num_neg a") (auto simp: is_zero_def intro: num_eq_fields)
qed

text \<open>Two equal numbers are the same bits, or zeros of the two signs.\<close>

lemma luai_numeq_cases:
  assumes "luai_numeq a b"
  obtains "a = b" | "a = 0" "b = 0x8000000000000000" | "a = 0x8000000000000000" "b = 0"
  using assms num_key_eq [of a b] is_zero_cases [of a] is_zero_cases [of b]
  by (auto simp: luai_numeq_def)

section \<open>Conversion of integers\<close>

lemma ilog2_bounds: "1 \<le> n \<Longrightarrow> 0 \<le> ilog2 n \<and> 2 ^ nat (ilog2 n) \<le> n \<and> n < 2 ^ nat (ilog2 n + 1)"
proof (induction n rule: ilog2.induct)
  case (1 n)
  show ?case
  proof (cases "n < 2")
    case True
    with 1 show ?thesis by (simp add: ilog2.simps [of n])
  next
    case False
    with 1 have IH: "0 \<le> ilog2 (n div 2)" "2 ^ nat (ilog2 (n div 2)) \<le> n div 2"
      "n div 2 < 2 ^ nat (ilog2 (n div 2) + 1)"
      by auto
    have eq: "ilog2 n = 1 + ilog2 (n div 2)" using False by (simp add: ilog2.simps [of n])
    have "nat (ilog2 n) = Suc (nat (ilog2 (n div 2)))"
      and "nat (ilog2 n + 1) = Suc (nat (ilog2 (n div 2) + 1))"
      using IH(1) eq by linarith+
    then have "2 ^ nat (ilog2 n) = (2::int) * 2 ^ nat (ilog2 (n div 2))"
      and "2 ^ nat (ilog2 n + 1) = (2::int) * 2 ^ nat (ilog2 (n div 2) + 1)"
      by simp_all
    with IH eq show ?thesis by linarith
  qed
qed

lemma uint_get_field: "uint (get_field p n x) = uint x div 2 ^ p mod 2 ^ n"
  by (simp only: get_field_def unsigned_take_bit_eq unsigned_drop_bit_eq flip: take_bit_eq_mask)
    (simp add: take_bit_eq_mod drop_bit_eq_div)

lemma uint_get_field_of_int:
  assumes "0 \<le> w" and "w < 2 ^ 64" and "p + n \<le> 64"
  shows "uint (get_field p n (word_of_int w :: 64 word)) = (w div 2 ^ p) mod 2 ^ n"
proof -
  have "uint (word_of_int w :: 64 word) = w"
    using assms by (simp add: unsigned_of_int take_bit_int_eq_self_iff)
  then show ?thesis by (simp only: uint_get_field)
qed

lemma sign_bits_alt: "sign_bits s = (if s then push_bit 63 1 else 0)"
  by (simp add: sign_bits_def)

lemma bit_sign_bits: "bit (sign_bits s) k \<longleftrightarrow> s \<and> k = 63"
proof -
  have "bit (push_bit 63 (1 :: lua_Number)) k \<longleftrightarrow> k = 63"
    by (simp only: bit_push_bit_iff bit_1_iff) (auto simp: not_le)
  then show ?thesis by (simp only: sign_bits_alt) simp
qed

lemma get_field_sign [simp]: "p + n \<le> 63 \<Longrightarrow> get_field p n (sign_bits s OR x) = get_field p n x"
  by (intro bit_word_eqI) (auto simp: field_simps_lua bit_simps bit_sign_bits)

lemma num_neg_sign [simp]: "\<not> bit x 63 \<Longrightarrow> num_neg (sign_bits s OR x) = s"
  by (simp add: num_neg_def bit_or_iff bit_sign_bits)

lemma no_sign_bit: "0 \<le> w \<Longrightarrow> w < 2 ^ 63 \<Longrightarrow> \<not> bit (word_of_int w :: lua_Number) 63"
  by (rule uint_small_no_high_bit [of _ 63])
    (simp_all add: unsigned_of_int take_bit_int_eq_self)

lemma sign_word_fields:
  assumes "x = sign_bits s OR word_of_int w" and w: "0 \<le> w" "w < 2 ^ 63"
  shows "num_exp x = w div 2 ^ 52" and "num_frac x = w mod 2 ^ 52" and "num_neg x = s"
proof -
  have "w div 2 ^ 52 mod 2 ^ 11 = w div 2 ^ 52" using w by simp
  then show "num_exp x = w div 2 ^ 52" and "num_frac x = w mod 2 ^ 52"
    using w by (simp_all add: assms(1) num_exp_def num_frac_def uint_get_field_of_int)
  show "num_neg x = s" using no_sign_bit [OF w] by (simp add: assms(1))
qed

text \<open>An integer below \<open>2 ^ 53\<close> is represented exactly.\<close>

lemma round_pos_exact:
  assumes n: "1 \<le> n" "n < 2 ^ 53"
  shows "round_pos n 1 = (ilog2 n + 1022) * 2 ^ 52 + n * 2 ^ nat (52 - ilog2 n)"
    and "2 ^ 52 \<le> n * 2 ^ nat (52 - ilog2 n)" and "n * 2 ^ nat (52 - ilog2 n) < 2 ^ 53"
    and "0 \<le> ilog2 n" and "ilog2 n \<le> 52"
proof -
  let ?l = "ilog2 n"
  have l: "0 \<le> ?l" "2 ^ nat ?l \<le> n" "n < 2 ^ nat (?l + 1)"
    using ilog2_bounds n by blast+
  then have "(2::int) ^ nat ?l < 2 ^ 53" using n by linarith
  then have "nat ?l < 53" by (rule power_less_imp_less_exp [rotated]) simp
  then show l52: "?l \<le> 52" and "0 \<le> ?l" using l by linarith+
  have split: "(2::int) ^ nat ?l * 2 ^ nat (52 - ?l) = 2 ^ 52"
    "(2::int) ^ nat (?l + 1) * 2 ^ nat (52 - ?l) = 2 ^ 53"
    using l l52 by (simp_all flip: power_add nat_add_distrib)
  have "2 ^ nat ?l * 2 ^ nat (52 - ?l) \<le> n * 2 ^ nat (52 - ?l)"
    using l by (intro mult_right_mono) auto
  then show lo: "2 ^ 52 \<le> n * 2 ^ nat (52 - ?l)" by (simp only: split)
  have "n * 2 ^ nat (52 - ?l) < 2 ^ nat (?l + 1) * 2 ^ nat (52 - ?l)"
    using l by (intro mult_strict_right_mono) auto
  then show hi: "n * 2 ^ nat (52 - ?l) < 2 ^ 53" by (simp only: split)
  have "ilog2 1 = 0" by (simp add: ilog2.simps)
  then have k: "ulp_exp n 1 = ?l + 1022" using l by (simp add: ulp_exp_def Let_def)
  show "round_pos n 1 = (?l + 1022) * 2 ^ 52 + n * 2 ^ nat (52 - ?l)"
    using lo hi l l52 by (simp add: round_pos_def k round_half_even_def Let_def min_def)
qed

lemma cast_num_fields:
  assumes k: "k \<noteq> 0" "\<bar>k\<bar> < 2 ^ 53"
  shows "num_exp (cast_num k) = ilog2 \<bar>k\<bar> + 1023"
    and "num_frac (cast_num k) = \<bar>k\<bar> * 2 ^ nat (52 - ilog2 \<bar>k\<bar>) - 2 ^ 52"
    and "num_neg (cast_num k) \<longleftrightarrow> k < 0"
proof -
  let ?l = "ilog2 \<bar>k\<bar>" and ?q = "\<bar>k\<bar> * 2 ^ nat (52 - ilog2 \<bar>k\<bar>)"
  let ?w = "(?l + 1022) * 2 ^ 52 + ?q"
  have r: "round_pos \<bar>k\<bar> 1 = ?w" "2 ^ 52 \<le> ?q" "?q < 2 ^ 53" "0 \<le> ?l" "?l \<le> 52"
    using round_pos_exact [of "\<bar>k\<bar>"] k by auto
  have eq: "cast_num k = sign_bits (k < 0) OR word_of_int ?w"
    using k r(1) by (simp add: cast_num_def make_num_def)
  have w: "?w = (?l + 1023) * 2 ^ 52 + (?q - 2 ^ 52)" and f: "0 \<le> ?q - 2 ^ 52" "?q - 2 ^ 52 < 2 ^ 52"
    using r by simp_all
  have wb: "0 \<le> ?w" "?w < 2 ^ 63" using r by simp_all
  have dm: "(x * 2 ^ 52 + y) div 2 ^ 52 = x \<and> (x * 2 ^ 52 + y) mod 2 ^ 52 = y"
    if "0 \<le> y" "y < 2 ^ 52" for x y :: int
    using that by simp
  have d: "?w div 2 ^ 52 = ?l + 1023" and m: "?w mod 2 ^ 52 = ?q - 2 ^ 52"
    unfolding w using dm [OF f] by blast+
  from sign_word_fields [OF eq wb]
  show "num_exp (cast_num k) = ?l + 1023" and "num_frac (cast_num k) = ?q - 2 ^ 52"
    and "num_neg (cast_num k) \<longleftrightarrow> k < 0"
    by (simp_all only: d m)
qed

lemma cast_num_finite:
  assumes "\<bar>k\<bar> < 2 ^ 53"
  shows "\<not> is_nan (cast_num k)" and "\<not> is_inf (cast_num k)" and "num_trunc (cast_num k) = k"
proof -
  have "\<not> is_nan (cast_num k) \<and> \<not> is_inf (cast_num k) \<and> num_trunc (cast_num k) = k"
  proof (cases "k = 0")
    case True
    then show ?thesis
      by (simp add: cast_num_def make_num_def sign_bits_def is_nan_def is_inf_def num_exp_def
          num_trunc_def num_mant_def num_frac_def num_neg_def get_field_def Let_def)
  next
    case False
    let ?l = "ilog2 \<bar>k\<bar>"
    have l: "0 \<le> ?l" "?l \<le> 52" using round_pos_exact [of "\<bar>k\<bar>"] assms False by auto
    note f = cast_num_fields [OF False assms]
    have "nat (?l + 1022 - 1074) = 0" and "nat (1074 - (?l + 1022)) = nat (52 - ?l)"
      using l by simp_all
    with l show ?thesis
      by (simp add: is_nan_def is_inf_def f num_trunc_def num_mant_def num_pow_def Let_def)
  qed
  then show "\<not> is_nan (cast_num k)" and "\<not> is_inf (cast_num k)" and "num_trunc (cast_num k) = k"
    by simp_all
qed

lemma lua_number2int_cast_num:
  assumes "INT_MIN \<le> k" and "k \<le> INT_MAX"
  shows "lua_number2int (cast_num k) = k"
  using assms cast_num_finite [of k]
  by (simp add: lua_number2int_def INT_MIN_def INT_MAX_def)

end
