(* ===== verification/LuaObject.thy ===== *)
theory LuaObject
  imports LuaNumber
begin

text \<open>
  \<open>lobject.h\<close> and \<open>lobject.c\<close>: the tagged values of Lua and the generic functions over
  them: raw equality, the ``floating point byte'' that encodes the sizes of a table
  constructor in an instruction, the integer logarithm behind the sizes of tables, and the
  printable name of a chunk.
\<close>

section \<open>Tagged values (\<open>lobject.h\<close>, \<open>lua.h\<close>)\<close>

type_synonym ptr = "64 word"

text \<open>
  A collectable object is identified by its address. Strings are interned (theory
  \<open>LuaString\<close>), so a string is identified by its contents. \<open>TDeadKey\<close> is the tag
  \<open>LUA_TDEADKEY\<close> that the collector leaves on the key of an empty table entry.
\<close>

datatype GCObject =
    GString c_string
  | GTable ptr
  | GFunction ptr
  | GUserdata ptr
  | GThread ptr

datatype TValue =
    TNil
  | TBoolean int
  | TLightUserdata ptr
  | TNumber lua_Number
  | TGC GCObject
  | TDeadKey GCObject

definition LUA_TNIL :: int where "LUA_TNIL = 0"
definition LUA_TBOOLEAN :: int where "LUA_TBOOLEAN = 1"
definition LUA_TLIGHTUSERDATA :: int where "LUA_TLIGHTUSERDATA = 2"
definition LUA_TNUMBER :: int where "LUA_TNUMBER = 3"
definition LUA_TSTRING :: int where "LUA_TSTRING = 4"
definition LUA_TTABLE :: int where "LUA_TTABLE = 5"
definition LUA_TFUNCTION :: int where "LUA_TFUNCTION = 6"
definition LUA_TUSERDATA :: int where "LUA_TUSERDATA = 7"
definition LUA_TTHREAD :: int where "LUA_TTHREAD = 8"
definition LUA_TDEADKEY :: int where "LUA_TDEADKEY = LUA_TTHREAD + 3"

lemmas tag_defs = LUA_TNIL_def LUA_TBOOLEAN_def LUA_TLIGHTUSERDATA_def LUA_TNUMBER_def
  LUA_TSTRING_def LUA_TTABLE_def LUA_TFUNCTION_def LUA_TUSERDATA_def LUA_TTHREAD_def
  LUA_TDEADKEY_def

fun ttype :: "TValue \<Rightarrow> int" where
  "ttype TNil = LUA_TNIL"
| "ttype (TBoolean _) = LUA_TBOOLEAN"
| "ttype (TLightUserdata _) = LUA_TLIGHTUSERDATA"
| "ttype (TNumber _) = LUA_TNUMBER"
| "ttype (TGC (GString _)) = LUA_TSTRING"
| "ttype (TGC (GTable _)) = LUA_TTABLE"
| "ttype (TGC (GFunction _)) = LUA_TFUNCTION"
| "ttype (TGC (GUserdata _)) = LUA_TUSERDATA"
| "ttype (TGC (GThread _)) = LUA_TTHREAD"
| "ttype (TDeadKey _) = LUA_TDEADKEY"

definition ttisnil :: "TValue \<Rightarrow> bool" where "ttisnil v \<longleftrightarrow> ttype v = LUA_TNIL"
definition ttisnumber :: "TValue \<Rightarrow> bool" where "ttisnumber v \<longleftrightarrow> ttype v = LUA_TNUMBER"
definition ttisstring :: "TValue \<Rightarrow> bool" where "ttisstring v \<longleftrightarrow> ttype v = LUA_TSTRING"
definition iscollectable :: "TValue \<Rightarrow> bool" where "iscollectable v \<longleftrightarrow> ttype v \<ge> LUA_TSTRING"

fun l_isfalse :: "TValue \<Rightarrow> bool" where
  "l_isfalse TNil = True"
| "l_isfalse (TBoolean b) = (b = 0)"
| "l_isfalse _ = False"

lemma ttype_iff [simp]:
  "ttisnil v \<longleftrightarrow> v = TNil"
  "ttisnumber v \<longleftrightarrow> (\<exists>n. v = TNumber n)"
  "ttisstring v \<longleftrightarrow> (\<exists>s. v = TGC (GString s))"
  "iscollectable v \<longleftrightarrow> (\<exists>g. v = TGC g \<or> v = TDeadKey g)"
  by (cases v rule: ttype.cases;
      simp add: ttisnil_def ttisnumber_def ttisstring_def iscollectable_def tag_defs)+

section \<open>\<open>luaO_rawequalObj\<close>\<close>

text \<open>
  The comparison first compares the tags, then the values of that tag. The identity of a
  collectable object carries its tag, so comparing identities compares the tags too.
\<close>

fun luaO_rawequalObj :: "TValue \<Rightarrow> TValue \<Rightarrow> bool" where
  "luaO_rawequalObj TNil TNil = True"
| "luaO_rawequalObj (TNumber a) (TNumber b) = luai_numeq a b"
| "luaO_rawequalObj (TBoolean a) (TBoolean b) = (a = b)"
| "luaO_rawequalObj (TLightUserdata a) (TLightUserdata b) = (a = b)"
| "luaO_rawequalObj (TGC a) (TGC b) = (a = b)"
| "luaO_rawequalObj (TDeadKey a) (TDeadKey b) = (a = b)"
| "luaO_rawequalObj _ _ = False"

lemma rawequal_sym: "luaO_rawequalObj a b \<longleftrightarrow> luaO_rawequalObj b a"
  by (cases a; cases b) (auto simp: luai_numeq_sym)

lemma rawequal_trans: "luaO_rawequalObj a b \<Longrightarrow> luaO_rawequalObj b c \<Longrightarrow> luaO_rawequalObj a c"
  by (cases a; cases b; cases c) (auto intro: luai_numeq_trans)

lemma rawequal_refl: "luaO_rawequalObj a a \<longleftrightarrow> (\<forall>n. a = TNumber n \<longrightarrow> \<not> is_nan n)"
  by (cases a) auto

section \<open>The floating point byte\<close>

text \<open>The loop of \<open>luaO_int2fb\<close>: \<open>x\<close> is an \<open>unsigned int\<close>, so \<open>x + 1\<close> wraps.\<close>

function int2fb_loop :: "int \<Rightarrow> int \<Rightarrow> int \<times> int" where
  "int2fb_loop x e =
     (if x \<ge> 16 then int2fb_loop (drop_bit 1 ((x + 1) mod 2 ^ 32)) (e + 1) else (x, e))"
  by pat_completeness auto
termination
proof (relation "measure (\<lambda>(x, e). nat x)", goal_cases)
  case (2 x e)
  have "(x + 1) mod 2 ^ 32 \<le> x + 1" using 2 by (intro zmod_le_nonneg_dividend) simp
  then have "drop_bit 1 ((x + 1) mod 2 ^ 32) < x" using 2 by (simp add: drop_bit_eq_div)
  then show ?case using 2 by simp
qed simp

declare int2fb_loop.simps [simp del]

definition luaO_int2fb :: "int \<Rightarrow> int" where
  "luaO_int2fb x =
     (case int2fb_loop x 0 of (x, e) \<Rightarrow>
        if x < 8 then x else push_bit 3 (e + 1) OR (x - 8))"

definition luaO_fb2int :: "int \<Rightarrow> int" where
  "luaO_fb2int x =
     (let e = drop_bit 3 x AND 31
      in if e = 0 then x else push_bit (nat (e - 1)) ((x AND 7) + 8))"

section \<open>\<open>luaO_log2\<close>\<close>

text \<open>The table \<open>log_2\<close> of \<open>luaO_log2\<close>, written by its runs of equal entries.\<close>

definition log_2_table :: "int list" where
  "log_2_table = [0, 1] @ replicate 2 2 @ replicate 4 3 @ replicate 8 4 @ replicate 16 5
     @ replicate 32 6 @ replicate 64 7 @ replicate 128 8"

function log2_loop :: "int \<Rightarrow> int \<Rightarrow> int \<times> int" where
  "log2_loop x l = (if x \<ge> 256 then log2_loop (drop_bit 8 x) (l + 8) else (x, l))"
  by pat_completeness auto
termination
  by (relation "measure (\<lambda>(x, l). nat x)") (auto simp: drop_bit_eq_div)

declare log2_loop.simps [simp del]

definition luaO_log2 :: "int \<Rightarrow> int" where
  "luaO_log2 x = (case log2_loop x (- 1) of (x, l) \<Rightarrow> l + log_2_table ! nat x)"

definition ceillog2 :: "int \<Rightarrow> int" where
  "ceillog2 x = luaO_log2 (x - 1) + 1"

section \<open>\<open>luaO_chunkid\<close>\<close>

definition LUA_IDSIZE :: nat where "LUA_IDSIZE = 60"

text \<open>
  The result is the C string left in \<open>out\<close>, the terminating zero left out. The two
  \<open>sizeof\<close> of the source count the zero of the literal.
\<close>

definition luaO_chunkid :: "c_string \<Rightarrow> nat \<Rightarrow> c_string" where
  "luaO_chunkid source bufflen =
     (if source \<noteq> [] \<and> hd source = CHR ''='' then
        take (bufflen - 1) (tl source)
      else if source \<noteq> [] \<and> hd source = CHR ''@'' then
        let source = tl source; bufflen = bufflen - (length '' '...' '' + 1); l = length source
        in if l > bufflen then ''...'' @ drop (l - bufflen) source else source
      else
        let len = length (takeWhile (\<lambda>c. c \<noteq> CHR 0x0A \<and> c \<noteq> CHR 0x0D) source);
            bufflen = bufflen - (length '' [string \"...\"] '' + 1);
            len = (if len > bufflen then bufflen else len)
        in ''[string \"'' @
           (if len < length source then take len source @ ''...'' else source) @ ''\"]'')"

section \<open>Properties\<close>

subsection \<open>The integer logarithm\<close>

lemma length_log_2_table: "length log_2_table = 256"
  by (simp add: log_2_table_def)

lemma log_2_table_zip:
  "list_all (\<lambda>(n, t). 1 \<le> n \<longrightarrow> 1 \<le> t \<and> 2 ^ nat (t - 1) \<le> n \<and> n < 2 ^ nat t)
     (zip [0..255] log_2_table)"
  by code_simp

lemma log_2_table_entries:
  assumes "1 \<le> n" and "n < 256"
  shows "1 \<le> log_2_table ! nat n" "2 ^ nat (log_2_table ! nat n - 1) \<le> n"
    "n < 2 ^ nat (log_2_table ! nat n)"
proof -
  have "nat n < length (zip [0..255::int] log_2_table)"
    and "zip [0..255] log_2_table ! nat n = (n, log_2_table ! nat n)"
    using assms by (simp_all add: length_log_2_table)
  with log_2_table_zip assms
  show "1 \<le> log_2_table ! nat n" "2 ^ nat (log_2_table ! nat n - 1) \<le> n"
    "n < 2 ^ nat (log_2_table ! nat n)"
    unfolding list_all_length by fastforce+
qed

lemma log2_loop_shift:
  "1 \<le> x \<Longrightarrow> \<exists>k y. log2_loop x l = (y, l + 8 * int k) \<and> 1 \<le> y \<and> y < 256
     \<and> y * 2 ^ (8 * k) \<le> x \<and> x < (y + 1) * 2 ^ (8 * k)"
proof (induction x l rule: log2_loop.induct)
  case (1 x l)
  show ?case
  proof (cases "x \<ge> 256")
    case False
    with 1 show ?thesis by (intro exI [of _ 0] exI [of _ x]) (simp add: log2_loop.simps [of x])
  next
    case True
    let ?x = "drop_bit 8 x"
    have x: "?x = x div 256" by (simp add: drop_bit_eq_div)
    with True have "1 \<le> ?x" by simp
    with 1 True obtain k y where IH: "log2_loop ?x (l + 8) = (y, l + 8 + 8 * int k)" "1 \<le> y" "y < 256"
      "y * 2 ^ (8 * k) \<le> ?x" "?x < (y + 1) * 2 ^ (8 * k)"
      by blast
    have "y * 2 ^ (8 * k) * 256 \<le> x" "x < (y + 1) * 2 ^ (8 * k) * 256"
      using IH(4,5) unfolding x by linarith+
    moreover have "(2::int) ^ (8 * Suc k) = 2 ^ (8 * k) * 256" by (simp add: power_add)
    ultimately show ?thesis using IH(1-3) True
      by (intro exI [of _ "Suc k"] exI [of _ y]) (simp add: log2_loop.simps [of x] mult.assoc)
  qed
qed

lemma luaO_log2_bounds:
  assumes "1 \<le> x"
  shows "0 \<le> luaO_log2 x" and "2 ^ nat (luaO_log2 x) \<le> x" and "x < 2 ^ nat (luaO_log2 x + 1)"
proof -
  obtain k y where ky: "log2_loop x (- 1) = (y, - 1 + 8 * int k)" "1 \<le> y" "y < 256"
    "y * 2 ^ (8 * k) \<le> x" "x < (y + 1) * 2 ^ (8 * k)"
    using log2_loop_shift [OF assms] by blast
  let ?t = "log_2_table ! nat y"
  note t = log_2_table_entries [OF ky(2,3)]
  have r: "luaO_log2 x = ?t - 1 + 8 * int k" using ky by (simp add: luaO_log2_def)
  show "0 \<le> luaO_log2 x" using t r by simp
  have p: "(2::int) ^ nat (luaO_log2 x) = 2 ^ nat (?t - 1) * 2 ^ (8 * k)"
    "(2::int) ^ nat (luaO_log2 x + 1) = 2 ^ nat ?t * 2 ^ (8 * k)"
    using t r by (simp_all flip: power_add add: nat_add_distrib nat_mult_distrib)
  have "2 ^ nat (?t - 1) * 2 ^ (8 * k) \<le> y * 2 ^ (8 * k)" using t by simp
  then show "2 ^ nat (luaO_log2 x) \<le> x" using ky p by linarith
  have "(y + 1) * 2 ^ (8 * k) \<le> 2 ^ nat ?t * 2 ^ (8 * k)" using t by (intro mult_right_mono) auto
  then show "x < 2 ^ nat (luaO_log2 x + 1)" using ky p by linarith
qed

lemma luaO_log2_0: "luaO_log2 0 = - 1"
  by (simp add: luaO_log2_def log2_loop.simps log_2_table_def)

text \<open>\<open>ceillog2\<close> rounds up: the least power of two that is at least \<open>x\<close>.\<close>

lemma ceillog2_bounds:
  assumes "1 \<le> x"
  shows "0 \<le> ceillog2 x" and "x \<le> 2 ^ nat (ceillog2 x)" and "x \<noteq> 1 \<Longrightarrow> 2 ^ nat (ceillog2 x - 1) < x"
  using assms luaO_log2_bounds [of "x - 1"] luaO_log2_0
  by (cases "x = 1"; simp add: ceillog2_def)+

subsection \<open>The floating point byte\<close>

lemma int2fb_loop_bounds:
  assumes "0 \<le> x" and "x < 2 ^ 31"
  shows "\<exists>k y. int2fb_loop x e = (y, e + int k) \<and> 0 \<le> y \<and> y < 16 \<and> x \<le> y * 2 ^ k
     \<and> y * 2 ^ k < x + 2 ^ k \<and> (k = 0 \<or> 8 \<le> y)"
  using assms
proof (induction x e rule: int2fb_loop.induct)
  case (1 x e)
  show ?case
  proof (cases "x \<ge> 16")
    case False
    with 1 show ?thesis by (intro exI [of _ 0] exI [of _ x]) (simp add: int2fb_loop.simps [of x])
  next
    case True
    let ?x = "drop_bit 1 ((x + 1) mod 2 ^ 32)"
    have x: "?x = (x + 1) div 2" using 1(2,3) by (simp add: drop_bit_eq_div)
    have "?x < 2 ^ 31" "0 \<le> ?x" "8 \<le> ?x" using 1(2,3) True unfolding x by simp_all
    with 1 True obtain k y where IH: "int2fb_loop ?x (e + 1) = (y, e + 1 + int k)" "0 \<le> y" "y < 16"
      "?x \<le> y * 2 ^ k" "y * 2 ^ k < ?x + 2 ^ k" "k = 0 \<or> 8 \<le> y"
      by blast
    then have "8 \<le> y" using \<open>8 \<le> ?x\<close> by (cases "k = 0") auto
    moreover have "x \<le> 2 * (y * 2 ^ k)" using IH(4) unfolding x by linarith
    moreover have "2 * (y * 2 ^ k) < x + 2 * 2 ^ k" using IH(5) unfolding x by linarith
    ultimately show ?thesis using IH(1-3) True
      by (intro exI [of _ "Suc k"] exI [of _ y]) (simp add: int2fb_loop.simps [of x] ac_simps)
  qed
qed

lemma fb2int_normal:
  assumes "8 \<le> y" and "y < 16" and "0 \<le> e" and "e < 31"
  shows "luaO_fb2int (push_bit 3 (e + 1) OR (y - 8)) = y * 2 ^ nat e"
proof -
  have or: "push_bit 3 (e + 1) OR (y - 8) = (e + 1) * 8 + (y - 8)"
  proof -
    have "push_bit 3 (e + 1) AND (y - 8) = 0"
    proof -
      have "take_bit 3 (y - 8) = y - 8" using assms by (simp add: take_bit_int_eq_self)
      then have "push_bit 3 (e + 1) AND (y - 8) = push_bit 3 (e + 1) AND take_bit 3 (y - 8)" by simp
      also have "\<dots> = 0" by (auto simp: bit_eq_iff bit_simps)
      finally show ?thesis .
    qed
    then show ?thesis by (simp add: disjunctive_add_eq_or push_bit_eq_mult flip: disjunctive_add_eq_or)
  qed
  have "drop_bit 3 ((e + 1) * 8 + (y - 8)) = e + 1" using assms by (simp add: drop_bit_eq_div)
  moreover have "(e + 1) AND 31 = e + 1"
    using assms take_bit_int_eq_self [of "e + 1" 5] by (simp add: take_bit_eq_mask mask_eq_exp_minus_1)
  moreover have "y mod 8 = y - 8" using assms by presburger
  then have "((e + 1) * 8 + (y - 8)) AND 7 = y - 8"
    using take_bit_eq_mod [of 3 "(e + 1) * 8 + (y - 8)"]
    by (simp add: take_bit_eq_mask mask_eq_exp_minus_1)
  ultimately show ?thesis using assms unfolding luaO_fb2int_def or by (simp add: push_bit_eq_mult)
qed



subsection \<open>Chunk names\<close>

text \<open>
  Claim \<open>C12\<close>. The name \<open>luaO_chunkid\<close> writes fits into the buffer, its final zero
  included, for every source and every buffer that holds the fixed text; \<open>LUA_IDSIZE\<close> does.
\<close>

theorem chunkid_fits:
  assumes "17 \<le> bufflen"
  shows "length (luaO_chunkid source bufflen) < bufflen"
proof -
  have "length (takeWhile P source) \<le> length source" for P :: "char \<Rightarrow> bool"
    by (rule length_takeWhile_le)
  with assms show ?thesis by (auto simp: luaO_chunkid_def Let_def min_def not_less)
qed

theorem chunkid_fits_witness:
  "length (luaO_chunkid (CHR ''@'' # replicate 100 (CHR ''x'')) LUA_IDSIZE) < LUA_IDSIZE"
  using chunkid_fits [of LUA_IDSIZE] by (simp add: LUA_IDSIZE_def)

end
