(* ===== verification/LuaOpcodes.thy ===== *)
theory LuaOpcodes
  imports LuaPrelude
begin

text \<open>
  \<open>lopcodes.h\<close> and \<open>lopcodes.c\<close>: the 32 bit instructions of the virtual machine, the
  macros that read and write their fields, the \<open>RK\<close> operands and the table of operation
  modes that the code generator and the bytecode checker consult.
\<close>

section \<open>Instruction formats (\<open>lopcodes.h\<close>)\<close>

type_synonym Instruction = lu_int32

datatype OpMode = iABC | iABx | iAsBx

definition SIZE_C :: nat where "SIZE_C = 9"
definition SIZE_B :: nat where "SIZE_B = 9"
definition SIZE_Bx :: nat where "SIZE_Bx = SIZE_C + SIZE_B"
definition SIZE_A :: nat where "SIZE_A = 8"
definition SIZE_OP :: nat where "SIZE_OP = 6"

definition POS_OP :: nat where "POS_OP = 0"
definition POS_A :: nat where "POS_A = POS_OP + SIZE_OP"
definition POS_C :: nat where "POS_C = POS_A + SIZE_A"
definition POS_B :: nat where "POS_B = POS_C + SIZE_C"
definition POS_Bx :: nat where "POS_Bx = POS_C"

text \<open>The limits of the arguments; an \<open>int\<close> has 32 bits, more than \<open>SIZE_Bx + 1\<close>.\<close>

definition MAXARG_Bx :: int where "MAXARG_Bx = 2 ^ SIZE_Bx - 1"
definition MAXARG_sBx :: int where "MAXARG_sBx = drop_bit 1 MAXARG_Bx"
definition MAXARG_A :: int where "MAXARG_A = 2 ^ SIZE_A - 1"
definition MAXARG_B :: int where "MAXARG_B = 2 ^ SIZE_B - 1"
definition MAXARG_C :: int where "MAXARG_C = 2 ^ SIZE_C - 1"

lemmas size_defs = SIZE_C_def SIZE_B_def SIZE_Bx_def SIZE_A_def SIZE_OP_def
  POS_OP_def POS_A_def POS_C_def POS_B_def POS_Bx_def

lemmas maxarg_defs = MAXARG_Bx_def MAXARG_sBx_def MAXARG_A_def MAXARG_B_def MAXARG_C_def

text \<open>Masks with \<open>n\<close> bits one (\<open>MASK1\<close>) or zero (\<open>MASK0\<close>) at position \<open>p\<close>.\<close>

definition MASK1 :: "nat \<Rightarrow> nat \<Rightarrow> Instruction" where
  "MASK1 n p = push_bit p (NOT (push_bit n (NOT 0)))"

definition MASK0 :: "nat \<Rightarrow> nat \<Rightarrow> Instruction" where
  "MASK0 n p = NOT (MASK1 n p)"

lemma MASK1_eq: "MASK1 n p = push_bit p (mask n)"
proof -
  have "NOT (push_bit n (NOT 0)) = (mask n :: Instruction)"
    by (intro bit_word_eqI) (auto simp: bit_simps)
  then show ?thesis by (simp add: MASK1_def)
qed

section \<open>Reading and writing fields\<close>

text \<open>The getters cast to \<open>int\<close>, the setters take an \<open>int\<close> and cast it to \<open>Instruction\<close>.\<close>

definition GET_OPCODE :: "Instruction \<Rightarrow> int" where
  "GET_OPCODE i = uint (drop_bit POS_OP i AND MASK1 SIZE_OP 0)"

definition SET_OPCODE :: "Instruction \<Rightarrow> int \<Rightarrow> Instruction" where
  "SET_OPCODE i op = (i AND MASK0 SIZE_OP POS_OP) OR
     (push_bit POS_OP (word_of_int op) AND MASK1 SIZE_OP POS_OP)"

definition GETARG_A :: "Instruction \<Rightarrow> int" where
  "GETARG_A i = uint (drop_bit POS_A i AND MASK1 SIZE_A 0)"

definition SETARG_A :: "Instruction \<Rightarrow> int \<Rightarrow> Instruction" where
  "SETARG_A i u = (i AND MASK0 SIZE_A POS_A) OR
     (push_bit POS_A (word_of_int u) AND MASK1 SIZE_A POS_A)"

definition GETARG_B :: "Instruction \<Rightarrow> int" where
  "GETARG_B i = uint (drop_bit POS_B i AND MASK1 SIZE_B 0)"

definition SETARG_B :: "Instruction \<Rightarrow> int \<Rightarrow> Instruction" where
  "SETARG_B i b = (i AND MASK0 SIZE_B POS_B) OR
     (push_bit POS_B (word_of_int b) AND MASK1 SIZE_B POS_B)"

definition GETARG_C :: "Instruction \<Rightarrow> int" where
  "GETARG_C i = uint (drop_bit POS_C i AND MASK1 SIZE_C 0)"

definition SETARG_C :: "Instruction \<Rightarrow> int \<Rightarrow> Instruction" where
  "SETARG_C i b = (i AND MASK0 SIZE_C POS_C) OR
     (push_bit POS_C (word_of_int b) AND MASK1 SIZE_C POS_C)"

definition GETARG_Bx :: "Instruction \<Rightarrow> int" where
  "GETARG_Bx i = uint (drop_bit POS_Bx i AND MASK1 SIZE_Bx 0)"

definition SETARG_Bx :: "Instruction \<Rightarrow> int \<Rightarrow> Instruction" where
  "SETARG_Bx i b = (i AND MASK0 SIZE_Bx POS_Bx) OR
     (push_bit POS_Bx (word_of_int b) AND MASK1 SIZE_Bx POS_Bx)"

definition GETARG_sBx :: "Instruction \<Rightarrow> int" where
  "GETARG_sBx i = GETARG_Bx i - MAXARG_sBx"

definition SETARG_sBx :: "Instruction \<Rightarrow> int \<Rightarrow> Instruction" where
  "SETARG_sBx i b = SETARG_Bx i (b + MAXARG_sBx)"

definition CREATE_ABC :: "int \<Rightarrow> int \<Rightarrow> int \<Rightarrow> int \<Rightarrow> Instruction" where
  "CREATE_ABC op a b c =
     push_bit POS_OP (word_of_int op) OR push_bit POS_A (word_of_int a)
     OR push_bit POS_B (word_of_int b) OR push_bit POS_C (word_of_int c)"

definition CREATE_ABx :: "int \<Rightarrow> int \<Rightarrow> int \<Rightarrow> Instruction" where
  "CREATE_ABx op a bc =
     push_bit POS_OP (word_of_int op) OR push_bit POS_A (word_of_int a)
     OR push_bit POS_Bx (word_of_int bc)"

section \<open>RK operands\<close>

definition BITRK :: int where "BITRK = push_bit (SIZE_B - 1) 1"

definition ISK :: "int \<Rightarrow> bool" where "ISK x \<longleftrightarrow> x AND BITRK \<noteq> 0"

definition INDEXK :: "int \<Rightarrow> int" where "INDEXK r = r AND NOT BITRK"

definition MAXINDEXRK :: int where "MAXINDEXRK = BITRK - 1"

definition RKASK :: "int \<Rightarrow> int" where "RKASK x = x OR BITRK"

definition NO_REG :: int where "NO_REG = MAXARG_A"

section \<open>Operation codes\<close>

datatype OpCode =
    OP_MOVE
  | OP_LOADK
  | OP_LOADBOOL
  | OP_LOADNIL
  | OP_GETUPVAL
  | OP_GETGLOBAL
  | OP_GETTABLE
  | OP_SETGLOBAL
  | OP_SETUPVAL
  | OP_SETTABLE
  | OP_NEWTABLE
  | OP_SELF
  | OP_ADD
  | OP_SUB
  | OP_MUL
  | OP_DIV
  | OP_MOD
  | OP_POW
  | OP_UNM
  | OP_NOT
  | OP_LEN
  | OP_CONCAT
  | OP_JMP
  | OP_EQ
  | OP_LT
  | OP_LE
  | OP_TEST
  | OP_TESTSET
  | OP_CALL
  | OP_TAILCALL
  | OP_RETURN
  | OP_FORLOOP
  | OP_FORPREP
  | OP_TFORLOOP
  | OP_SETLIST
  | OP_CLOSE
  | OP_CLOSURE
  | OP_VARARG

text \<open>The enumeration in order, and a cast of an \<open>int\<close> to it.\<close>

definition opcodes :: "OpCode list" where
  "opcodes = [
     OP_MOVE, OP_LOADK, OP_LOADBOOL, OP_LOADNIL, OP_GETUPVAL, OP_GETGLOBAL,
     OP_GETTABLE, OP_SETGLOBAL, OP_SETUPVAL, OP_SETTABLE, OP_NEWTABLE, OP_SELF,
     OP_ADD, OP_SUB, OP_MUL, OP_DIV, OP_MOD, OP_POW,
     OP_UNM, OP_NOT, OP_LEN, OP_CONCAT, OP_JMP, OP_EQ,
     OP_LT, OP_LE, OP_TEST, OP_TESTSET, OP_CALL, OP_TAILCALL,
     OP_RETURN, OP_FORLOOP, OP_FORPREP, OP_TFORLOOP, OP_SETLIST, OP_CLOSE,
     OP_CLOSURE, OP_VARARG]"

definition NUM_OPCODES :: int where "NUM_OPCODES = int (length opcodes)"

fun op_num :: "OpCode \<Rightarrow> int" where
  "op_num OP_MOVE = 0"
| "op_num OP_LOADK = 1"
| "op_num OP_LOADBOOL = 2"
| "op_num OP_LOADNIL = 3"
| "op_num OP_GETUPVAL = 4"
| "op_num OP_GETGLOBAL = 5"
| "op_num OP_GETTABLE = 6"
| "op_num OP_SETGLOBAL = 7"
| "op_num OP_SETUPVAL = 8"
| "op_num OP_SETTABLE = 9"
| "op_num OP_NEWTABLE = 10"
| "op_num OP_SELF = 11"
| "op_num OP_ADD = 12"
| "op_num OP_SUB = 13"
| "op_num OP_MUL = 14"
| "op_num OP_DIV = 15"
| "op_num OP_MOD = 16"
| "op_num OP_POW = 17"
| "op_num OP_UNM = 18"
| "op_num OP_NOT = 19"
| "op_num OP_LEN = 20"
| "op_num OP_CONCAT = 21"
| "op_num OP_JMP = 22"
| "op_num OP_EQ = 23"
| "op_num OP_LT = 24"
| "op_num OP_LE = 25"
| "op_num OP_TEST = 26"
| "op_num OP_TESTSET = 27"
| "op_num OP_CALL = 28"
| "op_num OP_TAILCALL = 29"
| "op_num OP_RETURN = 30"
| "op_num OP_FORLOOP = 31"
| "op_num OP_FORPREP = 32"
| "op_num OP_TFORLOOP = 33"
| "op_num OP_SETLIST = 34"
| "op_num OP_CLOSE = 35"
| "op_num OP_CLOSURE = 36"
| "op_num OP_VARARG = 37"

definition opcode_of :: "int \<Rightarrow> OpCode option" where
  "opcode_of n = (if 0 \<le> n \<and> n < NUM_OPCODES then Some (opcodes ! nat n) else None)"

section \<open>Operation modes\<close>

datatype OpArgMask = OpArgN | OpArgU | OpArgR | OpArgK

fun arg_num :: "OpArgMask \<Rightarrow> int" where
  "arg_num OpArgN = 0" | "arg_num OpArgU = 1" | "arg_num OpArgR = 2" | "arg_num OpArgK = 3"

fun mode_num :: "OpMode \<Rightarrow> int" where
  "mode_num iABC = 0" | "mode_num iABx = 1" | "mode_num iAsBx = 2"

text \<open>The macro \<open>opmode\<close> of \<open>lopcodes.c\<close> packs a row of the table into a byte.\<close>

definition opmode :: "int \<Rightarrow> int \<Rightarrow> OpArgMask \<Rightarrow> OpArgMask \<Rightarrow> OpMode \<Rightarrow> lu_byte" where
  "opmode t a b c m = word_of_int
     (push_bit 7 t OR push_bit 6 a OR push_bit 4 (arg_num b) OR push_bit 2 (arg_num c)
      OR mode_num m)"

definition luaP_opmodes :: "lu_byte list" where
  "luaP_opmodes = [
     opmode 0 1 OpArgR OpArgN iABC,
     opmode 0 1 OpArgK OpArgN iABx,
     opmode 0 1 OpArgU OpArgU iABC,
     opmode 0 1 OpArgR OpArgN iABC,
     opmode 0 1 OpArgU OpArgN iABC,
     opmode 0 1 OpArgK OpArgN iABx,
     opmode 0 1 OpArgR OpArgK iABC,
     opmode 0 0 OpArgK OpArgN iABx,
     opmode 0 0 OpArgU OpArgN iABC,
     opmode 0 0 OpArgK OpArgK iABC,
     opmode 0 1 OpArgU OpArgU iABC,
     opmode 0 1 OpArgR OpArgK iABC,
     opmode 0 1 OpArgK OpArgK iABC,
     opmode 0 1 OpArgK OpArgK iABC,
     opmode 0 1 OpArgK OpArgK iABC,
     opmode 0 1 OpArgK OpArgK iABC,
     opmode 0 1 OpArgK OpArgK iABC,
     opmode 0 1 OpArgK OpArgK iABC,
     opmode 0 1 OpArgR OpArgN iABC,
     opmode 0 1 OpArgR OpArgN iABC,
     opmode 0 1 OpArgR OpArgN iABC,
     opmode 0 1 OpArgR OpArgR iABC,
     opmode 0 0 OpArgR OpArgN iAsBx,
     opmode 1 0 OpArgK OpArgK iABC,
     opmode 1 0 OpArgK OpArgK iABC,
     opmode 1 0 OpArgK OpArgK iABC,
     opmode 1 1 OpArgR OpArgU iABC,
     opmode 1 1 OpArgR OpArgU iABC,
     opmode 0 1 OpArgU OpArgU iABC,
     opmode 0 1 OpArgU OpArgU iABC,
     opmode 0 0 OpArgU OpArgN iABC,
     opmode 0 1 OpArgR OpArgN iAsBx,
     opmode 0 1 OpArgR OpArgN iAsBx,
     opmode 1 0 OpArgN OpArgU iABC,
     opmode 0 0 OpArgU OpArgU iABC,
     opmode 0 0 OpArgN OpArgN iABC,
     opmode 0 1 OpArgU OpArgN iABx,
     opmode 0 1 OpArgU OpArgN iABC]"

definition luaP_opnames :: "c_string option list" where
  "luaP_opnames = [
     Some ''MOVE'', Some ''LOADK'', Some ''LOADBOOL'', Some ''LOADNIL'', Some ''GETUPVAL'', Some ''GETGLOBAL'',
     Some ''GETTABLE'', Some ''SETGLOBAL'', Some ''SETUPVAL'', Some ''SETTABLE'', Some ''NEWTABLE'', Some ''SELF'',
     Some ''ADD'', Some ''SUB'', Some ''MUL'', Some ''DIV'', Some ''MOD'', Some ''POW'',
     Some ''UNM'', Some ''NOT'', Some ''LEN'', Some ''CONCAT'', Some ''JMP'', Some ''EQ'',
     Some ''LT'', Some ''LE'', Some ''TEST'', Some ''TESTSET'', Some ''CALL'', Some ''TAILCALL'',
     Some ''RETURN'', Some ''FORLOOP'', Some ''FORPREP'', Some ''TFORLOOP'', Some ''SETLIST'', Some ''CLOSE'',
     Some ''CLOSURE'', Some ''VARARG'',
     None]"

definition opmode_entry :: "OpCode \<Rightarrow> int" where
  "opmode_entry m = uint (luaP_opmodes ! nat (op_num m))"

definition getOpMode :: "OpCode \<Rightarrow> OpMode" where
  "getOpMode m = [iABC, iABx, iAsBx] ! nat (opmode_entry m AND 3)"

definition getBMode :: "OpCode \<Rightarrow> OpArgMask" where
  "getBMode m = [OpArgN, OpArgU, OpArgR, OpArgK] ! nat (drop_bit 4 (opmode_entry m) AND 3)"

definition getCMode :: "OpCode \<Rightarrow> OpArgMask" where
  "getCMode m = [OpArgN, OpArgU, OpArgR, OpArgK] ! nat (drop_bit 2 (opmode_entry m) AND 3)"

definition testAMode :: "OpCode \<Rightarrow> bool" where
  "testAMode m \<longleftrightarrow> opmode_entry m AND push_bit 6 1 \<noteq> 0"

definition testTMode :: "OpCode \<Rightarrow> bool" where
  "testTMode m \<longleftrightarrow> opmode_entry m AND push_bit 7 1 \<noteq> 0"

definition LFIELDS_PER_FLUSH :: int where "LFIELDS_PER_FLUSH = 50"
section \<open>Lemmas on fields\<close>

lemma GET_OPCODE_field: "GET_OPCODE i = uint (get_field 0 6 i)"
  and GETARG_A_field: "GETARG_A i = uint (get_field 6 8 i)"
  and GETARG_C_field: "GETARG_C i = uint (get_field 14 9 i)"
  and GETARG_B_field: "GETARG_B i = uint (get_field 23 9 i)"
  and GETARG_Bx_field: "GETARG_Bx i = uint (get_field 14 18 i)"
  by (simp_all add: GET_OPCODE_def GETARG_A_def GETARG_C_def GETARG_B_def GETARG_Bx_def
      MASK1_eq get_field_def size_defs)

lemma SET_OPCODE_field: "SET_OPCODE i u = put_field 0 6 i (word_of_int u)"
  and SETARG_A_field: "SETARG_A i u = put_field 6 8 i (word_of_int u)"
  and SETARG_C_field: "SETARG_C i u = put_field 14 9 i (word_of_int u)"
  and SETARG_B_field: "SETARG_B i u = put_field 23 9 i (word_of_int u)"
  and SETARG_Bx_field: "SETARG_Bx i u = put_field 14 18 i (word_of_int u)"
  by (simp_all add: SET_OPCODE_def SETARG_A_def SETARG_C_def SETARG_B_def SETARG_Bx_def
      MASK0_def MASK1_eq put_field_def size_defs)

lemmas get_fields = GET_OPCODE_field GETARG_A_field GETARG_B_field GETARG_C_field GETARG_Bx_field
lemmas set_fields = SET_OPCODE_field SETARG_A_field SETARG_B_field SETARG_C_field SETARG_Bx_field

lemma arg_ranges:
  "0 \<le> GET_OPCODE i" "GET_OPCODE i < 64" "0 \<le> GETARG_A i" "GETARG_A i < 256"
  "0 \<le> GETARG_B i" "GETARG_B i < 512" "0 \<le> GETARG_C i" "GETARG_C i < 512"
  "0 \<le> GETARG_Bx i" "GETARG_Bx i < 262144"
  using uint_get_field_less [of 0 6 i] uint_get_field_less [of 6 8 i]
    uint_get_field_less [of 23 9 i] uint_get_field_less [of 14 9 i]
    uint_get_field_less [of 14 18 i]
  by (simp_all add: get_fields)

lemma uint_word_of_int_32:
  assumes "0 \<le> u" and "u < 2 ^ n" and "n \<le> 32"
  shows "uint (word_of_int u :: Instruction) = u"
proof -
  have "(2::int) ^ n \<le> 2 ^ 32" using assms by (intro power_increasing) auto
  then have "u < 2 ^ 32" using assms by linarith
  then show ?thesis using assms by (simp add: unsigned_of_int take_bit_int_eq_self_iff)
qed

lemma uint_word_of_int_mask:
  assumes "0 \<le> u" and "u < 2 ^ n" and "n \<le> 32"
  shows "uint ((word_of_int u :: Instruction) AND mask n) = u"
  using assms by (simp add: and_mask_id uint_word_of_int_32)

lemma uint_word_of_int_small:
  assumes "0 \<le> u" and "u < 2 ^ n" and "n \<le> 32"
  shows "uint (word_of_int u :: Instruction) < 2 ^ n"
  using assms by (simp add: uint_word_of_int_32)

text \<open>A freshly created instruction has the fields it was created with.\<close>

lemma get_field_create:
  fixes x y z w :: int
  assumes "0 \<le> x" "x < 64" "0 \<le> y" "y < 256" "0 \<le> z" "z < 512" "0 \<le> w" "w < 512"
  shows "GET_OPCODE (CREATE_ABC x y z w) = x" "GETARG_A (CREATE_ABC x y z w) = y"
    "GETARG_B (CREATE_ABC x y z w) = z" "GETARG_C (CREATE_ABC x y z w) = w"
proof -
  note small = uint_word_of_int_small [of x 6] uint_word_of_int_small [of y 8]
    uint_word_of_int_small [of z 9] uint_word_of_int_small [of w 9]
  note disj = get_field_push_disjoint [of "word_of_int x :: Instruction" 6 0]
    get_field_push_disjoint [of "word_of_int y :: Instruction" 8 6]
    get_field_push_disjoint [of "word_of_int z :: Instruction" 9 23]
    get_field_push_disjoint [of "word_of_int w :: Instruction" 9 14]
  note same = get_field_push_same [of 0 6 "word_of_int x :: Instruction"]
    get_field_push_same [of 6 8 "word_of_int y :: Instruction"]
    get_field_push_same [of 23 9 "word_of_int z :: Instruction"]
    get_field_push_same [of 14 9 "word_of_int w :: Instruction"]
  show "GET_OPCODE (CREATE_ABC x y z w) = x" "GETARG_A (CREATE_ABC x y z w) = y"
    "GETARG_B (CREATE_ABC x y z w) = z" "GETARG_C (CREATE_ABC x y z w) = w"
    using assms small disj same
    by (simp_all add: get_fields CREATE_ABC_def size_defs get_field_or uint_word_of_int_mask)
qed

lemma get_field_create_ABx:
  fixes x y z :: int
  assumes "0 \<le> x" "x < 64" "0 \<le> y" "y < 256" "0 \<le> z" "z < 262144"
  shows "GET_OPCODE (CREATE_ABx x y z) = x" "GETARG_A (CREATE_ABx x y z) = y"
    "GETARG_Bx (CREATE_ABx x y z) = z"
proof -
  note small = uint_word_of_int_small [of x 6] uint_word_of_int_small [of y 8]
    uint_word_of_int_small [of z 18]
  note disj = get_field_push_disjoint [of "word_of_int x :: Instruction" 6 0]
    get_field_push_disjoint [of "word_of_int y :: Instruction" 8 6]
    get_field_push_disjoint [of "word_of_int z :: Instruction" 18 14]
  note same = get_field_push_same [of 0 6 "word_of_int x :: Instruction"]
    get_field_push_same [of 6 8 "word_of_int y :: Instruction"]
    get_field_push_same [of 14 18 "word_of_int z :: Instruction"]
  show "GET_OPCODE (CREATE_ABx x y z) = x" "GETARG_A (CREATE_ABx x y z) = y"
    "GETARG_Bx (CREATE_ABx x y z) = z"
    using assms small disj same
    by (simp_all add: get_fields CREATE_ABx_def size_defs get_field_or uint_word_of_int_mask)
qed

lemma create_of_fields:
  "CREATE_ABC (GET_OPCODE i) (GETARG_A i) (GETARG_B i) (GETARG_C i) = i"
  by (intro bit_word_eqI)
    (auto simp: CREATE_ABC_def get_fields size_defs bit_simps field_simps_lua)

text \<open>The opcode table.\<close>

lemma opcodes_nth: "nat (op_num m) < length opcodes \<and> opcodes ! nat (op_num m) = m"
  by (cases m) (simp_all add: opcodes_def)

lemma op_num_bounds: "0 \<le> op_num m" "op_num m < NUM_OPCODES"
  by (cases m; simp add: NUM_OPCODES_def opcodes_def)+

lemma opcode_of_op_num [simp]: "opcode_of (op_num m) = Some m"
  using op_num_bounds opcodes_nth by (simp add: opcode_of_def)

lemma op_num_opcode_of: "opcode_of n = Some m \<Longrightarrow> op_num m = n"
proof -
  assume a: "opcode_of n = Some m"
  then have n: "0 \<le> n" "n < 38" and m: "m = opcodes ! nat n"
    by (auto simp: opcode_of_def NUM_OPCODES_def opcodes_def split: if_splits)
  have "\<forall>k<38. op_num (opcodes ! k) = int k"
    by (simp add: opcodes_def All_less_Suc numeral_eq_Suc del: upt_Suc)
  with n m show ?thesis by auto
qed

text \<open>The modes of every operation, read back from the packed table.\<close>

lemma opmode_entry_simps:
  "opmode_entry OP_MOVE = 96"
  "opmode_entry OP_LOADK = 113"
  "opmode_entry OP_LOADBOOL = 84"
  "opmode_entry OP_LOADNIL = 96"
  "opmode_entry OP_GETUPVAL = 80"
  "opmode_entry OP_GETGLOBAL = 113"
  "opmode_entry OP_GETTABLE = 108"
  "opmode_entry OP_SETGLOBAL = 49"
  "opmode_entry OP_SETUPVAL = 16"
  "opmode_entry OP_SETTABLE = 60"
  "opmode_entry OP_NEWTABLE = 84"
  "opmode_entry OP_SELF = 108"
  "opmode_entry OP_ADD = 124"
  "opmode_entry OP_SUB = 124"
  "opmode_entry OP_MUL = 124"
  "opmode_entry OP_DIV = 124"
  "opmode_entry OP_MOD = 124"
  "opmode_entry OP_POW = 124"
  "opmode_entry OP_UNM = 96"
  "opmode_entry OP_NOT = 96"
  "opmode_entry OP_LEN = 96"
  "opmode_entry OP_CONCAT = 104"
  "opmode_entry OP_JMP = 34"
  "opmode_entry OP_EQ = 188"
  "opmode_entry OP_LT = 188"
  "opmode_entry OP_LE = 188"
  "opmode_entry OP_TEST = 228"
  "opmode_entry OP_TESTSET = 228"
  "opmode_entry OP_CALL = 84"
  "opmode_entry OP_TAILCALL = 84"
  "opmode_entry OP_RETURN = 16"
  "opmode_entry OP_FORLOOP = 98"
  "opmode_entry OP_FORPREP = 98"
  "opmode_entry OP_TFORLOOP = 132"
  "opmode_entry OP_SETLIST = 20"
  "opmode_entry OP_CLOSE = 0"
  "opmode_entry OP_CLOSURE = 81"
  "opmode_entry OP_VARARG = 80"
  by code_simp+

lemma getOpMode_simps [simp]:
  "getOpMode OP_MOVE = iABC"
  "getOpMode OP_LOADK = iABx"
  "getOpMode OP_LOADBOOL = iABC"
  "getOpMode OP_LOADNIL = iABC"
  "getOpMode OP_GETUPVAL = iABC"
  "getOpMode OP_GETGLOBAL = iABx"
  "getOpMode OP_GETTABLE = iABC"
  "getOpMode OP_SETGLOBAL = iABx"
  "getOpMode OP_SETUPVAL = iABC"
  "getOpMode OP_SETTABLE = iABC"
  "getOpMode OP_NEWTABLE = iABC"
  "getOpMode OP_SELF = iABC"
  "getOpMode OP_ADD = iABC"
  "getOpMode OP_SUB = iABC"
  "getOpMode OP_MUL = iABC"
  "getOpMode OP_DIV = iABC"
  "getOpMode OP_MOD = iABC"
  "getOpMode OP_POW = iABC"
  "getOpMode OP_UNM = iABC"
  "getOpMode OP_NOT = iABC"
  "getOpMode OP_LEN = iABC"
  "getOpMode OP_CONCAT = iABC"
  "getOpMode OP_JMP = iAsBx"
  "getOpMode OP_EQ = iABC"
  "getOpMode OP_LT = iABC"
  "getOpMode OP_LE = iABC"
  "getOpMode OP_TEST = iABC"
  "getOpMode OP_TESTSET = iABC"
  "getOpMode OP_CALL = iABC"
  "getOpMode OP_TAILCALL = iABC"
  "getOpMode OP_RETURN = iABC"
  "getOpMode OP_FORLOOP = iAsBx"
  "getOpMode OP_FORPREP = iAsBx"
  "getOpMode OP_TFORLOOP = iABC"
  "getOpMode OP_SETLIST = iABC"
  "getOpMode OP_CLOSE = iABC"
  "getOpMode OP_CLOSURE = iABx"
  "getOpMode OP_VARARG = iABC"
  by (simp_all add: getOpMode_def opmode_entry_simps)

lemma getBMode_simps [simp]:
  "getBMode OP_MOVE = OpArgR"
  "getBMode OP_LOADK = OpArgK"
  "getBMode OP_LOADBOOL = OpArgU"
  "getBMode OP_LOADNIL = OpArgR"
  "getBMode OP_GETUPVAL = OpArgU"
  "getBMode OP_GETGLOBAL = OpArgK"
  "getBMode OP_GETTABLE = OpArgR"
  "getBMode OP_SETGLOBAL = OpArgK"
  "getBMode OP_SETUPVAL = OpArgU"
  "getBMode OP_SETTABLE = OpArgK"
  "getBMode OP_NEWTABLE = OpArgU"
  "getBMode OP_SELF = OpArgR"
  "getBMode OP_ADD = OpArgK"
  "getBMode OP_SUB = OpArgK"
  "getBMode OP_MUL = OpArgK"
  "getBMode OP_DIV = OpArgK"
  "getBMode OP_MOD = OpArgK"
  "getBMode OP_POW = OpArgK"
  "getBMode OP_UNM = OpArgR"
  "getBMode OP_NOT = OpArgR"
  "getBMode OP_LEN = OpArgR"
  "getBMode OP_CONCAT = OpArgR"
  "getBMode OP_JMP = OpArgR"
  "getBMode OP_EQ = OpArgK"
  "getBMode OP_LT = OpArgK"
  "getBMode OP_LE = OpArgK"
  "getBMode OP_TEST = OpArgR"
  "getBMode OP_TESTSET = OpArgR"
  "getBMode OP_CALL = OpArgU"
  "getBMode OP_TAILCALL = OpArgU"
  "getBMode OP_RETURN = OpArgU"
  "getBMode OP_FORLOOP = OpArgR"
  "getBMode OP_FORPREP = OpArgR"
  "getBMode OP_TFORLOOP = OpArgN"
  "getBMode OP_SETLIST = OpArgU"
  "getBMode OP_CLOSE = OpArgN"
  "getBMode OP_CLOSURE = OpArgU"
  "getBMode OP_VARARG = OpArgU"
  by (simp_all add: getBMode_def opmode_entry_simps)

lemma getCMode_simps [simp]:
  "getCMode OP_MOVE = OpArgN"
  "getCMode OP_LOADK = OpArgN"
  "getCMode OP_LOADBOOL = OpArgU"
  "getCMode OP_LOADNIL = OpArgN"
  "getCMode OP_GETUPVAL = OpArgN"
  "getCMode OP_GETGLOBAL = OpArgN"
  "getCMode OP_GETTABLE = OpArgK"
  "getCMode OP_SETGLOBAL = OpArgN"
  "getCMode OP_SETUPVAL = OpArgN"
  "getCMode OP_SETTABLE = OpArgK"
  "getCMode OP_NEWTABLE = OpArgU"
  "getCMode OP_SELF = OpArgK"
  "getCMode OP_ADD = OpArgK"
  "getCMode OP_SUB = OpArgK"
  "getCMode OP_MUL = OpArgK"
  "getCMode OP_DIV = OpArgK"
  "getCMode OP_MOD = OpArgK"
  "getCMode OP_POW = OpArgK"
  "getCMode OP_UNM = OpArgN"
  "getCMode OP_NOT = OpArgN"
  "getCMode OP_LEN = OpArgN"
  "getCMode OP_CONCAT = OpArgR"
  "getCMode OP_JMP = OpArgN"
  "getCMode OP_EQ = OpArgK"
  "getCMode OP_LT = OpArgK"
  "getCMode OP_LE = OpArgK"
  "getCMode OP_TEST = OpArgU"
  "getCMode OP_TESTSET = OpArgU"
  "getCMode OP_CALL = OpArgU"
  "getCMode OP_TAILCALL = OpArgU"
  "getCMode OP_RETURN = OpArgN"
  "getCMode OP_FORLOOP = OpArgN"
  "getCMode OP_FORPREP = OpArgN"
  "getCMode OP_TFORLOOP = OpArgU"
  "getCMode OP_SETLIST = OpArgU"
  "getCMode OP_CLOSE = OpArgN"
  "getCMode OP_CLOSURE = OpArgN"
  "getCMode OP_VARARG = OpArgN"
  by (simp_all add: getCMode_def opmode_entry_simps)

lemma testAMode_simps [simp]:
  "testAMode OP_MOVE"
  "testAMode OP_LOADK"
  "testAMode OP_LOADBOOL"
  "testAMode OP_LOADNIL"
  "testAMode OP_GETUPVAL"
  "testAMode OP_GETGLOBAL"
  "testAMode OP_GETTABLE"
  "\<not> testAMode OP_SETGLOBAL"
  "\<not> testAMode OP_SETUPVAL"
  "\<not> testAMode OP_SETTABLE"
  "testAMode OP_NEWTABLE"
  "testAMode OP_SELF"
  "testAMode OP_ADD"
  "testAMode OP_SUB"
  "testAMode OP_MUL"
  "testAMode OP_DIV"
  "testAMode OP_MOD"
  "testAMode OP_POW"
  "testAMode OP_UNM"
  "testAMode OP_NOT"
  "testAMode OP_LEN"
  "testAMode OP_CONCAT"
  "\<not> testAMode OP_JMP"
  "\<not> testAMode OP_EQ"
  "\<not> testAMode OP_LT"
  "\<not> testAMode OP_LE"
  "testAMode OP_TEST"
  "testAMode OP_TESTSET"
  "testAMode OP_CALL"
  "testAMode OP_TAILCALL"
  "\<not> testAMode OP_RETURN"
  "testAMode OP_FORLOOP"
  "testAMode OP_FORPREP"
  "\<not> testAMode OP_TFORLOOP"
  "\<not> testAMode OP_SETLIST"
  "\<not> testAMode OP_CLOSE"
  "testAMode OP_CLOSURE"
  "testAMode OP_VARARG"
  by (simp_all add: testAMode_def opmode_entry_simps)

lemma testTMode_simps [simp]:
  "\<not> testTMode OP_MOVE"
  "\<not> testTMode OP_LOADK"
  "\<not> testTMode OP_LOADBOOL"
  "\<not> testTMode OP_LOADNIL"
  "\<not> testTMode OP_GETUPVAL"
  "\<not> testTMode OP_GETGLOBAL"
  "\<not> testTMode OP_GETTABLE"
  "\<not> testTMode OP_SETGLOBAL"
  "\<not> testTMode OP_SETUPVAL"
  "\<not> testTMode OP_SETTABLE"
  "\<not> testTMode OP_NEWTABLE"
  "\<not> testTMode OP_SELF"
  "\<not> testTMode OP_ADD"
  "\<not> testTMode OP_SUB"
  "\<not> testTMode OP_MUL"
  "\<not> testTMode OP_DIV"
  "\<not> testTMode OP_MOD"
  "\<not> testTMode OP_POW"
  "\<not> testTMode OP_UNM"
  "\<not> testTMode OP_NOT"
  "\<not> testTMode OP_LEN"
  "\<not> testTMode OP_CONCAT"
  "\<not> testTMode OP_JMP"
  "testTMode OP_EQ"
  "testTMode OP_LT"
  "testTMode OP_LE"
  "testTMode OP_TEST"
  "testTMode OP_TESTSET"
  "\<not> testTMode OP_CALL"
  "\<not> testTMode OP_TAILCALL"
  "\<not> testTMode OP_RETURN"
  "\<not> testTMode OP_FORLOOP"
  "\<not> testTMode OP_FORPREP"
  "testTMode OP_TFORLOOP"
  "\<not> testTMode OP_SETLIST"
  "\<not> testTMode OP_CLOSE"
  "\<not> testTMode OP_CLOSURE"
  "\<not> testTMode OP_VARARG"
  by (simp_all add: testTMode_def opmode_entry_simps)

end
