(* ===== verification/LuaProto.thy ===== *)
theory LuaProto
  imports LuaObject LuaOpcodes
begin

text \<open>
  Function prototypes (\<open>lobject.h\<close>): the compiled form of a Lua function, which the code
  generator builds, \<open>ldump.c\<close> writes, \<open>lundump.c\<close> reads, \<open>ldebug.c\<close> checks and
  \<open>lvm.c\<close> runs. An array and its size field are one list; a \<open>TString *\<close> that may be
  \<open>NULL\<close> is an option.
\<close>

record LocVar =
  varname :: "c_string option"
  startpc :: int
  endpc :: int

datatype Proto = Proto
  (pr_k: "TValue list")
  (pr_code: "Instruction list")
  (pr_p: "Proto list")
  (pr_lineinfo: "int list")
  (pr_locvars: "LocVar list")
  (pr_upvalues: "c_string option list")
  (pr_source: "c_string option")
  (linedefined: int)
  (lastlinedefined: int)
  (nups: lu_byte)
  (numparams: lu_byte)
  (is_vararg: lu_byte)
  (maxstacksize: lu_byte)

definition VARARG_HASARG :: int where "VARARG_HASARG = 1"
definition VARARG_ISVARARG :: int where "VARARG_ISVARARG = 2"
definition VARARG_NEEDSARG :: int where "VARARG_NEEDSARG = 4"

definition sizek :: "Proto \<Rightarrow> int" where "sizek f = int (length (pr_k f))"
definition sizecode :: "Proto \<Rightarrow> int" where "sizecode f = int (length (pr_code f))"
definition sizep :: "Proto \<Rightarrow> int" where "sizep f = int (length (pr_p f))"
definition sizelineinfo :: "Proto \<Rightarrow> int" where "sizelineinfo f = int (length (pr_lineinfo f))"
definition sizelocvars :: "Proto \<Rightarrow> int" where "sizelocvars f = int (length (pr_locvars f))"
definition sizeupvalues :: "Proto \<Rightarrow> int" where "sizeupvalues f = int (length (pr_upvalues f))"

lemmas proto_sizes = sizek_def sizecode_def sizep_def sizelineinfo_def sizelocvars_def
  sizeupvalues_def

text \<open>\<open>luaF_newproto\<close>: every array empty, every number zero.\<close>

definition luaF_newproto :: Proto where
  "luaF_newproto = Proto [] [] [] [] [] [] None 0 0 0 0 0 0"

text \<open>
  \<open>luaF_getlocalname\<close>: the variables are sorted by \<open>startpc\<close>; the \<open>n\<close>-th one that is
  active at \<open>pc\<close>, counted from 1.
\<close>

fun getlocalname_loop :: "LocVar list \<Rightarrow> int \<Rightarrow> int \<Rightarrow> c_string option option" where
  "getlocalname_loop [] n pc = None"
| "getlocalname_loop (v # vs) n pc =
     (if startpc v \<le> pc then
        if pc < endpc v then
          if n - 1 = 0 then Some (varname v) else getlocalname_loop vs (n - 1) pc
        else getlocalname_loop vs n pc
      else None)"

definition luaF_getlocalname :: "Proto \<Rightarrow> int \<Rightarrow> int \<Rightarrow> c_string option option" where
  "luaF_getlocalname f local_number pc = getlocalname_loop (pr_locvars f) local_number pc"

end
