(* ===== verification/LuaDump.thy ===== *)
theory LuaDump
  imports LuaProto
begin

text \<open>
  \<open>ldump.c\<close>: writing a function as a precompiled chunk. The layout is that of the machine
  (x86-64): \<open>int\<close> and instructions of 4 bytes, \<open>size_t\<close> and numbers of 8, little endian. The
  writer is the client's; it is part of the state, with the client's data it updates.
\<close>

section \<open>Bytes of the basic types\<close>

definition le_bytes :: "nat \<Rightarrow> int \<Rightarrow> c_string" where
  "le_bytes n x = map (\<lambda>i. char_of (x div 256 ^ i)) [0..<n]"

abbreviation int_bytes :: "int \<Rightarrow> c_string" where "int_bytes \<equiv> le_bytes 4"
abbreviation size_bytes :: "int \<Rightarrow> c_string" where "size_bytes \<equiv> le_bytes 8"

definition instr_bytes :: "Instruction \<Rightarrow> c_string" where "instr_bytes i = le_bytes 4 (uint i)"
definition number_bytes :: "lua_Number \<Rightarrow> c_string" where "number_bytes x = le_bytes 8 (uint x)"

section \<open>The dump state and its primitives\<close>

record 's DumpState =
  d_writer :: "c_string \<Rightarrow> 's \<Rightarrow> int \<times> 's"
  d_data :: 's
  d_strip :: bool
  d_status :: int

definition DumpBlock :: "c_string \<Rightarrow> 's DumpState \<Rightarrow> 's DumpState" where
  "DumpBlock b D =
     (if d_status D = 0 then
        case d_writer D b (d_data D) of (st, s) \<Rightarrow> D\<lparr>d_status := st, d_data := s\<rparr>
      else D)"

definition DumpChar :: "int \<Rightarrow> 's DumpState \<Rightarrow> 's DumpState" where
  "DumpChar y D = DumpBlock [char_of y] D"

definition DumpInt :: "int \<Rightarrow> 's DumpState \<Rightarrow> 's DumpState" where
  "DumpInt x D = DumpBlock (int_bytes x) D"

definition DumpNumber :: "lua_Number \<Rightarrow> 's DumpState \<Rightarrow> 's DumpState" where
  "DumpNumber x D = DumpBlock (number_bytes x) D"

text \<open>\<open>DumpVector\<close> of the first \<open>n\<close> elements of an array, given the bytes of an element.\<close>

definition DumpVector :: "('a \<Rightarrow> c_string) \<Rightarrow> 'a list \<Rightarrow> nat \<Rightarrow> 's DumpState \<Rightarrow> 's DumpState" where
  "DumpVector bytes b n D = DumpBlock (concat (map bytes (take n b))) (DumpInt (int n) D)"

definition DumpString :: "c_string option \<Rightarrow> 's DumpState \<Rightarrow> 's DumpState" where
  "DumpString s D =
     (case s of
        None \<Rightarrow> DumpBlock (size_bytes 0) D
      | Some s \<Rightarrow>
          DumpBlock (s @ [CHR 0x00]) (DumpBlock (size_bytes (int (length s) + 1)) D))"

definition DumpCode :: "Proto \<Rightarrow> 's DumpState \<Rightarrow> 's DumpState" where
  "DumpCode f D = DumpVector instr_bytes (pr_code f) (length (pr_code f)) D"

section \<open>Constants, debug information, functions\<close>

text \<open>One round of the loop of \<open>DumpConstants\<close>; other tags cannot happen, and write nothing more.\<close>

definition DumpConstant :: "TValue \<Rightarrow> 's DumpState \<Rightarrow> 's DumpState" where
  "DumpConstant k D =
     (let D = DumpChar (ttype k) D
      in case k of
        TNil \<Rightarrow> D
      | TBoolean b \<Rightarrow> DumpChar b D
      | TNumber n \<Rightarrow> DumpNumber n D
      | TGC (GString s) \<Rightarrow> DumpString (Some s) D
      | _ \<Rightarrow> D)"

definition DumpLocVar :: "LocVar \<Rightarrow> 's DumpState \<Rightarrow> 's DumpState" where
  "DumpLocVar v D = DumpInt (endpc v) (DumpInt (startpc v) (DumpString (varname v) D))"

definition DumpDebug :: "Proto \<Rightarrow> 's DumpState \<Rightarrow> 's DumpState" where
  "DumpDebug f D =
     (let n = (if d_strip D then 0 else length (pr_lineinfo f));
          D = DumpVector int_bytes (pr_lineinfo f) n D;
          n = (if d_strip D then 0 else length (pr_locvars f));
          D = fold DumpLocVar (take n (pr_locvars f)) (DumpInt (int n) D);
          n = (if d_strip D then 0 else length (pr_upvalues f))
      in fold DumpString (take n (pr_upvalues f)) (DumpInt (int n) D))"

text \<open>
  \<open>DumpFunction\<close>, with \<open>DumpConstants\<close> written out where it is called: the nested functions
  are dumped with the source of this one, so that they need not repeat it.
\<close>

fun DumpFunction :: "Proto \<Rightarrow> c_string option \<Rightarrow> 's DumpState \<Rightarrow> 's DumpState"
and DumpProtos :: "Proto list \<Rightarrow> c_string option \<Rightarrow> 's DumpState \<Rightarrow> 's DumpState" where
  "DumpFunction (Proto k code ps li lv uv src ld lld nu np va ms) p D =
     (let f = Proto k code ps li lv uv src ld lld nu np va ms;
          D = DumpString (if src = p \<or> d_strip D then None else src) D;
          D = DumpInt ld D;
          D = DumpInt lld D;
          D = DumpChar (uint nu) D;
          D = DumpChar (uint np) D;
          D = DumpChar (uint va) D;
          D = DumpChar (uint ms) D;
          D = DumpCode f D;
          D = fold DumpConstant k (DumpInt (int (length k)) D);
          D = DumpProtos ps src (DumpInt (int (length ps)) D)
      in DumpDebug f D)"
| "DumpProtos [] p D = D"
| "DumpProtos (f # fs) p D = DumpProtos fs p (DumpFunction f p D)"

definition LUAC_VERSION :: int where "LUAC_VERSION = 0x51"
definition LUAC_FORMAT :: int where "LUAC_FORMAT = 0"
definition LUAC_HEADERSIZE :: nat where "LUAC_HEADERSIZE = 12"
definition LUA_SIGNATURE :: c_string where "LUA_SIGNATURE = CHR 0x1B # ''Lua''"

text \<open>\<open>luaU_header\<close> of \<open>lundump.c\<close>: the byte after the format is the first byte of the \<open>int\<close> 1.\<close>

definition luaU_header :: c_string where
  "luaU_header = LUA_SIGNATURE @
     [char_of LUAC_VERSION, char_of LUAC_FORMAT, hd (int_bytes 1),
      char_of (4 :: int), char_of (8 :: int), char_of (4 :: int), char_of (8 :: int), char_of (0 :: int)]"

definition DumpHeader :: "'s DumpState \<Rightarrow> 's DumpState" where
  "DumpHeader D = DumpBlock luaU_header D"

definition luaU_dump ::
    "Proto \<Rightarrow> (c_string \<Rightarrow> 's \<Rightarrow> int \<times> 's) \<Rightarrow> 's \<Rightarrow> bool \<Rightarrow> int \<times> 's" where
  "luaU_dump f w s strip =
     (let D = \<lparr>d_writer = w, d_data = s, d_strip = strip, d_status = 0\<rparr>;
          D = DumpFunction f None (DumpHeader D)
      in (d_status D, d_data D))"

text \<open>
  The writer of \<open>lstrlib.c\<close> (\<open>string.dump\<close>) appends each block to a buffer and never fails.
\<close>

definition strlib_writer :: "c_string \<Rightarrow> c_string \<Rightarrow> int \<times> c_string" where
  "strlib_writer b B = (0, B @ b)"

section \<open>The bytes a dump consists of\<close>

definition string_enc :: "c_string option \<Rightarrow> c_string" where
  "string_enc s = (case s of None \<Rightarrow> size_bytes 0
     | Some s \<Rightarrow> size_bytes (int (length s) + 1) @ s @ [CHR 0x00])"

definition constant_enc :: "TValue \<Rightarrow> c_string" where
  "constant_enc k = char_of (ttype k) #
     (case k of TBoolean b \<Rightarrow> [char_of b] | TNumber n \<Rightarrow> number_bytes n
      | TGC (GString s) \<Rightarrow> string_enc (Some s) | _ \<Rightarrow> [])"

definition locvar_enc :: "LocVar \<Rightarrow> c_string" where
  "locvar_enc v = string_enc (varname v) @ int_bytes (startpc v) @ int_bytes (endpc v)"

definition list_enc :: "('a \<Rightarrow> c_string) \<Rightarrow> 'a list \<Rightarrow> c_string" where
  "list_enc enc xs = int_bytes (int (length xs)) @ concat (map enc xs)"

definition debug_enc :: "bool \<Rightarrow> Proto \<Rightarrow> c_string" where
  "debug_enc strip f =
     list_enc int_bytes (if strip then [] else pr_lineinfo f)
     @ list_enc locvar_enc (if strip then [] else pr_locvars f)
     @ list_enc string_enc (if strip then [] else pr_upvalues f)"

fun function_enc :: "bool \<Rightarrow> c_string option \<Rightarrow> Proto \<Rightarrow> c_string" where
  "function_enc strip p (Proto k code ps li lv uv src ld lld nu np va ms) =
     string_enc (if src = p \<or> strip then None else src) @ int_bytes ld @ int_bytes lld
     @ [char_of (uint nu), char_of (uint np), char_of (uint va), char_of (uint ms)]
     @ list_enc instr_bytes code @ list_enc constant_enc k
     @ int_bytes (int (length ps)) @ concat (map (function_enc strip src) ps)
     @ debug_enc strip (Proto k code ps li lv uv src ld lld nu np va ms)"

section \<open>The contract of the writer\<close>

definition ready :: "(c_string \<Rightarrow> 's \<Rightarrow> int \<times> 's) \<Rightarrow> 's DumpState \<Rightarrow> bool" where
  "ready w D \<longleftrightarrow> d_writer D = w \<and> d_status D = 0"

text \<open>
  The client of a dump is a writer; \<open>out\<close> says what it has received so far. A writer that
  accepts every block receives exactly the bytes of the function, in order.
\<close>

locale dump_writer =
  fixes w :: "c_string \<Rightarrow> 's \<Rightarrow> int \<times> 's"
    and out :: "'s \<Rightarrow> c_string"
  assumes accepts: "fst (w b s) = 0"
    and appends: "out (snd (w b s)) = out s @ b"
begin

lemma block_writes [simp]:
  assumes "ready w D"
  shows "ready w (DumpBlock b D)" "d_strip (DumpBlock b D) = d_strip D"
    "out (d_data (DumpBlock b D)) = out (d_data D) @ b"
  using assms accepts [of b "d_data D"] appends [of b "d_data D"]
  by (auto simp: ready_def DumpBlock_def split: prod.splits)

lemma prim_writes [simp]:
  assumes "ready w D"
  shows "ready w (DumpChar c D)" "d_strip (DumpChar c D) = d_strip D"
    "out (d_data (DumpChar c D)) = out (d_data D) @ [char_of c]"
    "ready w (DumpInt n D)" "d_strip (DumpInt n D) = d_strip D"
    "out (d_data (DumpInt n D)) = out (d_data D) @ int_bytes n"
    "ready w (DumpNumber x D)" "d_strip (DumpNumber x D) = d_strip D"
    "out (d_data (DumpNumber x D)) = out (d_data D) @ number_bytes x"
  using assms by (simp_all add: DumpChar_def DumpInt_def DumpNumber_def)

lemma string_writes [simp]:
  assumes "ready w D"
  shows "ready w (DumpString s D)" "d_strip (DumpString s D) = d_strip D"
    "out (d_data (DumpString s D)) = out (d_data D) @ string_enc s"
  using assms by (simp_all add: DumpString_def string_enc_def split: option.splits)

lemma vector_writes [simp]:
  assumes "ready w D" and "n \<le> length b"
  shows "ready w (DumpVector bytes b n D)" "d_strip (DumpVector bytes b n D) = d_strip D"
    "out (d_data (DumpVector bytes b n D)) = out (d_data D) @ list_enc bytes (take n b)"
  using assms by (simp_all add: DumpVector_def list_enc_def)

lemma const_writes [simp]:
  assumes "ready w D"
  shows "ready w (DumpConstant k D)" "d_strip (DumpConstant k D) = d_strip D"
    "out (d_data (DumpConstant k D)) = out (d_data D) @ constant_enc k"
  using assms by (simp_all add: DumpConstant_def constant_enc_def Let_def split: TValue.splits GCObject.splits)

lemma locvar_writes [simp]:
  assumes "ready w D"
  shows "ready w (DumpLocVar v D)" "d_strip (DumpLocVar v D) = d_strip D"
    "out (d_data (DumpLocVar v D)) = out (d_data D) @ locvar_enc v"
  using assms by (simp_all add: DumpLocVar_def locvar_enc_def)

text \<open>A loop over an array writes the elements one after the other.\<close>

lemma fold_writes:
  assumes "ready w D"
    and "\<And>x D. ready w D \<Longrightarrow> ready w (f x D) \<and> d_strip (f x D) = d_strip D
      \<and> out (d_data (f x D)) = out (d_data D) @ enc x"
  shows "ready w (fold f xs D)" "d_strip (fold f xs D) = d_strip D"
    "out (d_data (fold f xs D)) = out (d_data D) @ concat (map enc xs)"
  using assms by (induction xs arbitrary: D) auto

lemmas fold_prims [simp] = fold_writes [of _ DumpString string_enc]
  fold_writes [of _ DumpLocVar locvar_enc] fold_writes [of _ DumpConstant constant_enc]

lemma debug_writes [simp]:
  assumes "ready w D"
  shows "ready w (DumpDebug f D)" "d_strip (DumpDebug f D) = d_strip D"
    "out (d_data (DumpDebug f D)) = out (d_data D) @ debug_enc (d_strip D) f"
  using assms by (simp_all add: DumpDebug_def debug_enc_def Let_def list_enc_def)

lemma function_writes:
  "ready w D \<Longrightarrow> ready w (DumpFunction f p D) \<and> d_strip (DumpFunction f p D) = d_strip D
     \<and> out (d_data (DumpFunction f p D)) = out (d_data D) @ function_enc (d_strip D) p f"
  "ready w D \<Longrightarrow> ready w (DumpProtos fs p D) \<and> d_strip (DumpProtos fs p D) = d_strip D
     \<and> out (d_data (DumpProtos fs p D)) = out (d_data D) @ concat (map (function_enc (d_strip D) p) fs)"
proof (induction f p D and fs p D rule: DumpFunction_DumpProtos.induct)
  case (1 k code ps li lv uv src ld lld nu np va ms p D)
  then show ?case by (simp add: Let_def DumpCode_def list_enc_def)
qed auto

lemma dump_writes:
  "fst (luaU_dump f w s strip) = 0"
  "out (snd (luaU_dump f w s strip)) = out s @ luaU_header @ function_enc strip None f"
  using function_writes(1) [of "DumpHeader \<lparr>d_writer = w, d_data = s, d_strip = strip, d_status = 0\<rparr>" f None]
    block_writes [of "\<lparr>d_writer = w, d_data = s, d_strip = strip, d_status = 0\<rparr>" luaU_header]
  by (simp_all add: luaU_dump_def Let_def DumpHeader_def ready_def)

end

interpretation strlib: dump_writer strlib_writer "\<lambda>B. B"
  by unfold_locales (simp_all add: strlib_writer_def)

end
