(* ===== verification/LuaVerify.thy ===== *)
theory LuaVerify
  imports LuaProto
begin

text \<open>
  The bytecode checker of \<open>ldebug.c\<close>: \<open>luaG_checkcode\<close> runs the symbolic execution
  \<open>symbexec\<close> over the code of a prototype before the loader of precompiled chunks accepts
  it; the error messages use the same routine to find the instruction that last changed a
  register. A read outside an array is the value \<open>OutOfBounds\<close>; a failed check, which makes
  \<open>symbexec\<close> return 0, is \<open>Inr None\<close>.
\<close>

section \<open>Reads of the arrays of a prototype\<close>

definition code_at :: "Proto \<Rightarrow> int \<Rightarrow> Instruction result" where
  "code_at pt pc = (if 0 \<le> pc \<and> pc < sizecode pt then Inr (pr_code pt ! nat pc) else Inl OutOfBounds)"

definition k_at :: "Proto \<Rightarrow> int \<Rightarrow> TValue result" where
  "k_at pt i = (if 0 \<le> i \<and> i < sizek pt then Inr (pr_k pt ! nat i) else Inl OutOfBounds)"

definition p_at :: "Proto \<Rightarrow> int \<Rightarrow> Proto result" where
  "p_at pt i = (if 0 \<le> i \<and> i < sizep pt then Inr (pr_p pt ! nat i) else Inl OutOfBounds)"

section \<open>Checks\<close>

definition MAXSTACK :: int where "MAXSTACK = 250"
definition LUA_MULTRET :: int where "LUA_MULTRET = - 1"

definition checkreg :: "Proto \<Rightarrow> int \<Rightarrow> bool" where
  "checkreg pt reg \<longleftrightarrow> reg < uint (maxstacksize pt)"

definition precheck :: "Proto \<Rightarrow> bool result" where
  "precheck pt =
     (if \<not> uint (maxstacksize pt) \<le> MAXSTACK then Inr False
      else if \<not> sizeupvalues pt \<le> uint (nups pt) then Inr False
      else if \<not> (sizelineinfo pt = sizecode pt \<or> sizelineinfo pt = 0) then Inr False
      else bind_result (code_at pt (sizecode pt - 1))
             (\<lambda>i. Inr (GET_OPCODE i = op_num OP_RETURN)))"

definition luaG_checkopenop :: "Instruction \<Rightarrow> bool" where
  "luaG_checkopenop i =
     (if GET_OPCODE i \<in> {op_num OP_CALL, op_num OP_TAILCALL, op_num OP_RETURN, op_num OP_SETLIST}
      then GETARG_B i = 0 else False)"

fun checkArgMode :: "Proto \<Rightarrow> int \<Rightarrow> OpArgMask \<Rightarrow> bool" where
  "checkArgMode pt r OpArgN = (r = 0)"
| "checkArgMode pt r OpArgU = True"
| "checkArgMode pt r OpArgR = checkreg pt r"
| "checkArgMode pt r OpArgK =
     (if ISK r then INDEXK r < sizek pt else r < uint (maxstacksize pt))"

section \<open>Symbolic execution\<close>

text \<open>\<open>check c k\<close> is the macro \<open>check\<close> in front of the rest \<open>k\<close> of the body.\<close>

definition check :: "bool \<Rightarrow> 'a option result \<Rightarrow> 'a option result" where
  "check c k = (if c then k else Inr None)"

text \<open>The operands, decoded and checked by the mode of the instruction.\<close>

definition sym_args :: "Proto \<Rightarrow> int \<Rightarrow> Instruction \<Rightarrow> OpCode \<Rightarrow> (int \<times> int) option result" where
  "sym_args pt pc i op =
     (case getOpMode op of
        iABC \<Rightarrow>
          (let b = GETARG_B i; c = GETARG_C i
           in check (checkArgMode pt b (getBMode op))
                (check (checkArgMode pt c (getCMode op)) (Inr (Some (b, c)))))
      | iABx \<Rightarrow>
          (let b = GETARG_Bx i
           in if getBMode op = OpArgK then check (b < sizek pt) (Inr (Some (b, 0)))
              else Inr (Some (b, 0)))
      | iAsBx \<Rightarrow>
          (let b = GETARG_sBx i
           in if getBMode op = OpArgR then
                let dest = pc + 1 + b
                in check (0 \<le> dest \<and> dest < sizecode pt)
                     (if dest > 0 then
                        bind_result (code_at pt (dest - 1)) (\<lambda>d.
                          check (\<not> (GET_OPCODE d = op_num OP_SETLIST \<and> GETARG_C d = 0))
                            (Inr (Some (b, 0))))
                      else Inr (Some (b, 0)))
              else Inr (Some (b, 0))))"

text \<open>A test instruction must be followed by a jump.\<close>

definition sym_test :: "Proto \<Rightarrow> int \<Rightarrow> OpCode \<Rightarrow> unit option result" where
  "sym_test pt pc op =
     (if testTMode op then
        check (pc + 2 < sizecode pt)
          (bind_result (code_at pt (pc + 1)) (\<lambda>d.
             check (GET_OPCODE d = op_num OP_JMP) (Inr (Some ()))))
      else Inr (Some ()))"

text \<open>The upvalue pseudo instructions behind \<open>OP_CLOSURE\<close>, from \<open>j\<close> to \<open>nup\<close>.\<close>

function sym_upvals :: "Proto \<Rightarrow> int \<Rightarrow> int \<Rightarrow> int \<Rightarrow> unit option result" where
  "sym_upvals pt pc j nup =
     (if j \<le> nup then
        bind_result (code_at pt (pc + j)) (\<lambda>d.
          check (GET_OPCODE d = op_num OP_GETUPVAL \<or> GET_OPCODE d = op_num OP_MOVE)
            (sym_upvals pt pc (j + 1) nup))
      else Inr (Some ()))"
  by pat_completeness auto
termination by (relation "measure (\<lambda>(pt, pc, j, nup). nat (nup + 1 - j))") auto

declare sym_upvals.simps [simp del]

text \<open>
  The \<open>switch\<close> on the operation: the new \<open>pc\<close> (before the increment of the loop) and the
  new \<open>last\<close>.
\<close>

definition sym_op :: "Proto \<Rightarrow> int \<Rightarrow> int \<Rightarrow> int \<Rightarrow> int \<Rightarrow> OpCode \<Rightarrow> int \<Rightarrow> int \<Rightarrow> int
    \<Rightarrow> (int \<times> int) option result" where
  "sym_op pt lastpc reg pc lst op a b c =
     (let next = Inr (Some (pc, lst)); setlast = (\<lambda>t. Inr (Some (pc, if t then pc else lst)));
          jump = (let dest = pc + 1 + b
                  in if reg \<noteq> NO_REG \<and> pc < dest \<and> dest \<le> lastpc
                     then Inr (Some (pc + b, lst)) else next);
          openop = (\<lambda>k. bind_result (code_at pt (pc + 1)) (\<lambda>d. check (luaG_checkopenop d) k))
      in case op of
        OP_LOADBOOL \<Rightarrow> check (c = 0 \<or> pc + 2 < sizecode pt) next
      | OP_LOADNIL \<Rightarrow> setlast (a \<le> reg \<and> reg \<le> b)
      | OP_GETUPVAL \<Rightarrow> check (b < uint (nups pt)) next
      | OP_SETUPVAL \<Rightarrow> check (b < uint (nups pt)) next
      | OP_GETGLOBAL \<Rightarrow> bind_result (k_at pt b) (\<lambda>k. check (ttisstring k) next)
      | OP_SETGLOBAL \<Rightarrow> bind_result (k_at pt b) (\<lambda>k. check (ttisstring k) next)
      | OP_SELF \<Rightarrow> check (checkreg pt (a + 1)) (setlast (reg = a + 1))
      | OP_CONCAT \<Rightarrow> check (b < c) next
      | OP_TFORLOOP \<Rightarrow> check (c \<ge> 1) (check (checkreg pt (a + 2 + c)) (setlast (reg \<ge> a + 2)))
      | OP_FORLOOP \<Rightarrow> check (checkreg pt (a + 3)) jump
      | OP_FORPREP \<Rightarrow> check (checkreg pt (a + 3)) jump
      | OP_JMP \<Rightarrow> jump
      | OP_CALL \<Rightarrow>
          check (b \<noteq> 0 \<longrightarrow> checkreg pt (a + b - 1))
            (let c = c - 1; next = setlast (reg \<ge> a)
             in if c = LUA_MULTRET then openop next
                else if c \<noteq> 0 then check (checkreg pt (a + c - 1)) next else next)
      | OP_TAILCALL \<Rightarrow>
          check (b \<noteq> 0 \<longrightarrow> checkreg pt (a + b - 1))
            (let c = c - 1; next = setlast (reg \<ge> a)
             in if c = LUA_MULTRET then openop next
                else if c \<noteq> 0 then check (checkreg pt (a + c - 1)) next else next)
      | OP_RETURN \<Rightarrow> (let b = b - 1 in check (b > 0 \<longrightarrow> checkreg pt (a + b - 1)) next)
      | OP_SETLIST \<Rightarrow>
          check (b > 0 \<longrightarrow> checkreg pt (a + b))
            (Inr (Some (if c = 0 then pc + 1 else pc, lst)))
      | OP_CLOSURE \<Rightarrow>
          check (b < sizep pt)
            (bind_result (p_at pt b) (\<lambda>p.
               let nup = uint (nups p)
               in check (pc + nup < sizecode pt)
                    (bind_result (sym_upvals pt pc 1 nup) (\<lambda>u. case u of
                        None \<Rightarrow> Inr None
                      | Some _ \<Rightarrow> Inr (Some (if reg \<noteq> NO_REG then pc + nup else pc, lst))))))
      | OP_VARARG \<Rightarrow>
          check (uint (is_vararg pt) AND VARARG_ISVARARG \<noteq> 0
                 \<and> \<not> uint (is_vararg pt) AND VARARG_NEEDSARG \<noteq> 0)
            (let b = b - 1; next = check (checkreg pt (a + b - 1)) next
             in if b = LUA_MULTRET then openop next else next)
      | _ \<Rightarrow> next)"

text \<open>The body of the loop.\<close>

definition sym_step :: "Proto \<Rightarrow> int \<Rightarrow> int \<Rightarrow> int \<Rightarrow> int \<Rightarrow> (int \<times> int) option result" where
  "sym_step pt lastpc reg pc lst =
     bind_result (code_at pt pc) (\<lambda>i.
       case opcode_of (GET_OPCODE i) of
         None \<Rightarrow> Inr None
       | Some op \<Rightarrow>
           let a = GETARG_A i
           in check (checkreg pt a)
                (bind_result (sym_args pt pc i op) (\<lambda>bc. case bc of
                   None \<Rightarrow> Inr None
                 | Some (b, c) \<Rightarrow>
                     let lst = (if testAMode op \<and> a = reg then pc else lst)
                     in bind_result (sym_test pt pc op) (\<lambda>t. case t of
                          None \<Rightarrow> Inr None
                        | Some _ \<Rightarrow> sym_op pt lastpc reg pc lst op a b c))))"

text \<open>No step of the body moves \<open>pc\<close> back, so the loop ends.\<close>

lemma check_eq_Some: "check c k = Inr (Some r) \<longleftrightarrow> c \<and> k = Inr (Some r)"
  by (simp add: check_def)

lemma check_eq_Inl: "check c k = Inl e \<longleftrightarrow> c \<and> k = Inl e"
  by (simp add: check_def)

lemma sym_op_pc:
  "sym_op pt lastpc reg pc lst op a b c = Inr (Some (pc', lst')) \<Longrightarrow> pc \<le> pc'"
  by (cases op)
    (auto simp: sym_op_def Let_def check_eq_Some bind_result_eq_Inr split: if_splits option.splits)

lemma sym_step_pc: "sym_step pt lastpc reg pc lst = Inr (Some (pc', lst')) \<Longrightarrow> pc \<le> pc'"
  by (auto simp: sym_step_def Let_def check_eq_Some bind_result_eq_Inr
      split: option.splits prod.splits dest: sym_op_pc)

function sym_loop :: "Proto \<Rightarrow> int \<Rightarrow> int \<Rightarrow> int \<Rightarrow> int \<Rightarrow> int option result" where
  "sym_loop pt lastpc reg pc lst =
     (if pc < lastpc then
        case sym_step pt lastpc reg pc lst of
          Inl e \<Rightarrow> Inl e
        | Inr None \<Rightarrow> Inr None
        | Inr (Some (pc', lst')) \<Rightarrow> sym_loop pt lastpc reg (pc' + 1) lst'
      else Inr (Some lst))"
  by pat_completeness auto
termination
  by (relation "measure (\<lambda>(pt, lastpc, reg, pc, lst). nat (lastpc - pc))")
    (auto dest: sym_step_pc)

declare sym_loop.simps [simp del]

definition symbexec :: "Proto \<Rightarrow> int \<Rightarrow> int \<Rightarrow> Instruction result" where
  "symbexec pt lastpc reg =
     (let lst = sizecode pt - 1
      in bind_result (precheck pt) (\<lambda>ok.
           if \<not> ok then Inr 0
           else bind_result (sym_loop pt lastpc reg 0 lst) (\<lambda>r. case r of
                  None \<Rightarrow> Inr 0 | Some lst \<Rightarrow> code_at pt lst)))"

definition luaG_checkcode :: "Proto \<Rightarrow> bool result" where
  "luaG_checkcode pt = bind_result (symbexec pt (sizecode pt) NO_REG) (\<lambda>i. Inr (i \<noteq> 0))"

section \<open>What the interpreter does with an instruction\<close>

text \<open>
  The control flow of \<open>luaV_execute\<close> (\<open>lvm.c\<close>): the places in the code where execution of
  this function may continue after the instruction at \<open>pc\<close>. The interpreter has already
  incremented \<open>pc\<close> when it dispatches. A test reads the jump that follows it. \<open>OP_RETURN\<close>
  leaves the function; a tail call of a C function continues with the next instruction.
\<close>

definition vm_succs :: "Proto \<Rightarrow> int \<Rightarrow> Instruction \<Rightarrow> OpCode \<Rightarrow> int list result" where
  "vm_succs pt pc i op =
     (let pc = pc + 1;
          test = bind_result (code_at pt pc) (\<lambda>d. Inr [pc + 1, pc + GETARG_sBx d + 1])
      in case op of
        OP_LOADBOOL \<Rightarrow> Inr [if GETARG_C i \<noteq> 0 then pc + 1 else pc]
      | OP_JMP \<Rightarrow> Inr [pc + GETARG_sBx i]
      | OP_EQ \<Rightarrow> test
      | OP_LT \<Rightarrow> test
      | OP_LE \<Rightarrow> test
      | OP_TEST \<Rightarrow> test
      | OP_TESTSET \<Rightarrow> test
      | OP_TFORLOOP \<Rightarrow> test
      | OP_RETURN \<Rightarrow> Inr []
      | OP_FORLOOP \<Rightarrow> Inr [pc, pc + GETARG_sBx i]
      | OP_FORPREP \<Rightarrow> Inr [pc + GETARG_sBx i]
      | OP_SETLIST \<Rightarrow>
          (if GETARG_C i = 0 then bind_result (code_at pt pc) (\<lambda>_. Inr [pc + 1]) else Inr [pc])
      | OP_CLOSURE \<Rightarrow> bind_result (p_at pt (GETARG_Bx i)) (\<lambda>p. Inr [pc + uint (nups p)])
      | _ \<Rightarrow> Inr [pc])"

text \<open>
  The registers that \<open>luaV_execute\<close> reads or writes by their number in the instruction. Where
  \<open>B\<close> is 0 the upper end is the top of the stack and not part of the instruction.
\<close>

definition rk_regs :: "int \<Rightarrow> int list" where
  "rk_regs x = (if ISK x then [] else [x])"

definition vm_regs :: "Instruction \<Rightarrow> OpCode \<Rightarrow> int list" where
  "vm_regs i op =
     (let a = GETARG_A i; b = GETARG_B i; c = GETARG_C i;
          arith = [a] @ rk_regs b @ rk_regs c; comp = rk_regs b @ rk_regs c;
          call = a # (if b \<noteq> 0 then [a .. a + b - 1] else []) @ [a .. a + c - 2]
      in case op of
        OP_MOVE \<Rightarrow> [a, b] | OP_LOADK \<Rightarrow> [a] | OP_LOADBOOL \<Rightarrow> [a]
      | OP_LOADNIL \<Rightarrow> b # [a .. b]
      | OP_GETUPVAL \<Rightarrow> [a] | OP_GETGLOBAL \<Rightarrow> [a]
      | OP_GETTABLE \<Rightarrow> [a, b] @ rk_regs c
      | OP_SETGLOBAL \<Rightarrow> [a] | OP_SETUPVAL \<Rightarrow> [a]
      | OP_SETTABLE \<Rightarrow> arith | OP_NEWTABLE \<Rightarrow> [a]
      | OP_SELF \<Rightarrow> [a, a + 1, b] @ rk_regs c
      | OP_ADD \<Rightarrow> arith | OP_SUB \<Rightarrow> arith | OP_MUL \<Rightarrow> arith | OP_DIV \<Rightarrow> arith
      | OP_MOD \<Rightarrow> arith | OP_POW \<Rightarrow> arith
      | OP_UNM \<Rightarrow> [a, b] | OP_NOT \<Rightarrow> [a, b] | OP_LEN \<Rightarrow> [a, b]
      | OP_CONCAT \<Rightarrow> a # [b .. c]
      | OP_JMP \<Rightarrow> []
      | OP_EQ \<Rightarrow> comp | OP_LT \<Rightarrow> comp | OP_LE \<Rightarrow> comp
      | OP_TEST \<Rightarrow> [a] | OP_TESTSET \<Rightarrow> [a, b]
      | OP_CALL \<Rightarrow> call | OP_TAILCALL \<Rightarrow> call
      | OP_RETURN \<Rightarrow> (if b \<noteq> 0 then [a .. a + b - 2] else [a])
      | OP_FORLOOP \<Rightarrow> [a .. a + 3] | OP_FORPREP \<Rightarrow> [a .. a + 2]
      | OP_TFORLOOP \<Rightarrow> [a .. a + 2] @ [a + 3 .. a + 2 + c]
      | OP_SETLIST \<Rightarrow> a # (if b \<noteq> 0 then [a + 1 .. a + b] else [])
      | OP_CLOSE \<Rightarrow> [a] | OP_CLOSURE \<Rightarrow> [a]
      | OP_VARARG \<Rightarrow> a # (if b \<noteq> 0 then [a .. a + b - 2] else []))"

text \<open>
  The call frame that \<open>OP_TFORLOOP\<close> builds above its control variables may pass the
  registers of the function; the stack keeps \<open>EXTRA_STACK\<close> slots for such uses.
\<close>

definition EXTRA_STACK :: int where "EXTRA_STACK = 5"

definition vm_extra_regs :: "Instruction \<Rightarrow> OpCode \<Rightarrow> int list" where
  "vm_extra_regs i op = (if op = OP_TFORLOOP then [GETARG_A i + 3 .. GETARG_A i + 5] else [])"

text \<open>Constants, upvalues and nested functions an instruction refers to.\<close>

definition vm_consts :: "Instruction \<Rightarrow> OpCode \<Rightarrow> int list" where
  "vm_consts i op =
     (if op \<in> {OP_LOADK, OP_GETGLOBAL, OP_SETGLOBAL} then [GETARG_Bx i]
      else [INDEXK x. x \<leftarrow> (if getBMode op = OpArgK then [GETARG_B i] else [])
                        @ (if getCMode op = OpArgK then [GETARG_C i] else []), ISK x])"

definition vm_upvals :: "Instruction \<Rightarrow> OpCode \<Rightarrow> int list" where
  "vm_upvals i op = (if op = OP_GETUPVAL \<or> op = OP_SETUPVAL then [GETARG_B i] else [])"

definition instr_safe :: "Proto \<Rightarrow> int \<Rightarrow> bool" where
  "instr_safe pt pc =
     (case code_at pt pc of
        Inl _ \<Rightarrow> False
      | Inr i \<Rightarrow>
          (case opcode_of (GET_OPCODE i) of
             None \<Rightarrow> False
           | Some op \<Rightarrow>
               list_all (\<lambda>r. r < uint (maxstacksize pt)) (vm_regs i op)
               \<and> list_all (\<lambda>r. r < uint (maxstacksize pt) + EXTRA_STACK) (vm_extra_regs i op)
               \<and> list_all (\<lambda>k. k < sizek pt) (vm_consts i op)
               \<and> (op = OP_GETGLOBAL \<or> op = OP_SETGLOBAL \<longrightarrow> ttisstring (pr_k pt ! nat (GETARG_Bx i)))
               \<and> list_all (\<lambda>u. u < uint (nups pt)) (vm_upvals i op)
               \<and> (op = OP_CLOSURE \<longrightarrow> GETARG_Bx i < sizep pt)
               \<and> (case vm_succs pt pc i op of
                    Inl _ \<Rightarrow> False
                  | Inr pcs \<Rightarrow> list_all (\<lambda>p. 0 \<le> p \<and> p < sizecode pt) pcs)))"

text \<open>The places control can reach from the first instruction.\<close>

inductive vm_reaches :: "Proto \<Rightarrow> int \<Rightarrow> bool" for pt where
  entry: "vm_reaches pt 0"
| step: "vm_reaches pt pc \<Longrightarrow> code_at pt pc = Inr i \<Longrightarrow> opcode_of (GET_OPCODE i) = Some op \<Longrightarrow>
    vm_succs pt pc i op = Inr pcs \<Longrightarrow> pc' \<in> set pcs \<Longrightarrow> vm_reaches pt pc'"

text \<open>
  A \<open>SETLIST\<close> with \<open>C = 0\<close> takes the next word of the code as its count. The checker skips
  that word without checking that something follows it.
\<close>

definition ext_setlist :: "Proto \<Rightarrow> int \<Rightarrow> bool" where
  "ext_setlist pt pc = (case code_at pt pc of
     Inl _ \<Rightarrow> False | Inr i \<Rightarrow> GET_OPCODE i = op_num OP_SETLIST \<and> GETARG_C i = 0)"

definition no_ext_setlist :: "Proto \<Rightarrow> bool" where
  "no_ext_setlist pt \<longleftrightarrow>
     list_all (\<lambda>i. \<not> (GET_OPCODE i = op_num OP_SETLIST \<and> GETARG_C i = 0)) (pr_code pt)"

section \<open>The checker does not leave the arrays it reads\<close>

lemma code_at_Inr [simp]:
  "code_at pt pc = Inr i \<longleftrightarrow> 0 \<le> pc \<and> pc < sizecode pt \<and> i = pr_code pt ! nat pc"
  "code_at pt pc = Inl e \<longleftrightarrow> \<not> (0 \<le> pc \<and> pc < sizecode pt) \<and> e = OutOfBounds"
  by (auto simp: code_at_def)

lemma k_at_Inr [simp]:
  "k_at pt pc = Inr i \<longleftrightarrow> 0 \<le> pc \<and> pc < sizek pt \<and> i = pr_k pt ! nat pc"
  "k_at pt pc = Inl e \<longleftrightarrow> \<not> (0 \<le> pc \<and> pc < sizek pt) \<and> e = OutOfBounds"
  by (auto simp: k_at_def)

lemma p_at_Inr [simp]:
  "p_at pt pc = Inr i \<longleftrightarrow> 0 \<le> pc \<and> pc < sizep pt \<and> i = pr_p pt ! nat pc"
  "p_at pt pc = Inl e \<longleftrightarrow> \<not> (0 \<le> pc \<and> pc < sizep pt) \<and> e = OutOfBounds"
  by (auto simp: p_at_def)

lemma precheck_True:
  "precheck pt = Inr True \<longleftrightarrow> uint (maxstacksize pt) \<le> MAXSTACK \<and> sizeupvalues pt \<le> uint (nups pt)
     \<and> (sizelineinfo pt = sizecode pt \<or> sizelineinfo pt = 0) \<and> 0 < sizecode pt
     \<and> GET_OPCODE (pr_code pt ! nat (sizecode pt - 1)) = op_num OP_RETURN"
  by (auto simp: precheck_def bind_result_eq_Inr)

lemma precheck_Inl: "precheck pt = Inl e \<Longrightarrow> sizecode pt \<le> 0"
  by (auto simp: precheck_def bind_result_eq_Inl split: if_splits)

text \<open>Only the last instruction is known to be a return, so any other has a successor.\<close>

lemma not_last:
  assumes "precheck pt = Inr True" and "0 \<le> pc" "pc < sizecode pt"
    and "opcode_of (GET_OPCODE (pr_code pt ! nat pc)) = Some op" and "op \<noteq> OP_RETURN"
  shows "pc + 1 < sizecode pt"
proof (rule ccontr)
  assume "\<not> pc + 1 < sizecode pt"
  with assms(3) have "pc = sizecode pt - 1" by linarith
  with assms(1) have "GET_OPCODE (pr_code pt ! nat pc) = op_num OP_RETURN"
    by (simp only: precheck_True)
  with assms(4,5) show False by (simp only: opcode_of_op_num) simp
qed

lemma sym_upvals_Some:
  assumes "sym_upvals pt pc j nup = Inr (Some u)" and "j \<le> m" and "m \<le> nup"
  shows "0 \<le> pc + m \<and> pc + m < sizecode pt \<and> GET_OPCODE (pr_code pt ! nat (pc + m)) \<noteq> op_num OP_RETURN"
  using assms
proof (induction pt pc j nup rule: sym_upvals.induct)
  case (1 pt pc j nup)
  then have j: "j \<le> nup" by simp
  with 1(2) have st: "0 \<le> pc + j" "pc + j < sizecode pt"
    "GET_OPCODE (pr_code pt ! nat (pc + j)) \<noteq> op_num OP_RETURN"
    "sym_upvals pt pc (j + 1) nup = Inr (Some u)"
    by (auto simp: sym_upvals.simps [of pt pc j nup] bind_result_eq_Inr check_eq_Some)
  show ?case
  proof (cases "m = j")
    case True
    with st show ?thesis by simp
  next
    case False
    with 1 st j show ?thesis by simp
  qed
qed

lemma sym_upvals_Inl:
  assumes "0 \<le> pc" "1 \<le> j" "pc + nup < sizecode pt"
  shows "sym_upvals pt pc j nup \<noteq> Inl e"
  using assms
proof (induction pt pc j nup rule: sym_upvals.induct)
  case (1 pt pc j nup)
  then show ?case
    by (cases "j \<le> nup") (auto simp: sym_upvals.simps [of pt pc j nup] bind_result_eq_Inl check_eq_Inl)
qed

lemma sym_args_Inl:
  assumes "0 \<le> pc" "pc < sizecode pt"
  shows "sym_args pt pc i op \<noteq> Inl e"
  using assms
  by (auto simp: sym_args_def Let_def check_eq_Inl bind_result_eq_Inl split: OpMode.splits if_splits)

lemma sym_test_Inl:
  assumes "0 \<le> pc" "pc < sizecode pt"
  shows "sym_test pt pc op \<noteq> Inl e"
  using assms by (auto simp: sym_test_def check_eq_Inl bind_result_eq_Inl split: if_splits)

lemma GETARG_nonneg [simp]: "0 \<le> GETARG_A i" "0 \<le> GETARG_B i" "0 \<le> GETARG_C i" "0 \<le> GETARG_Bx i"
  by (simp_all add: arg_ranges)

lemma sym_args_global:
  assumes "sym_args pt pc i op = Inr (Some (b, c))" and "op = OP_GETGLOBAL \<or> op = OP_SETGLOBAL"
  shows "0 \<le> b \<and> b < sizek pt"
  using assms by (auto simp: sym_args_def Let_def check_eq_Some)

lemma sym_args_Bx:
  assumes "sym_args pt pc i op = Inr (Some (b, c))" and "getOpMode op = iABx"
  shows "b = GETARG_Bx i"
  using assms by (auto simp: sym_args_def Let_def check_eq_Some split: if_splits)

lemma sym_op_Inl:
  assumes "pc + 1 < sizecode pt \<or> op = OP_RETURN" and "0 \<le> pc"
    and "op = OP_GETGLOBAL \<or> op = OP_SETGLOBAL \<longrightarrow> 0 \<le> b \<and> b < sizek pt"
    and "op = OP_CLOSURE \<longrightarrow> 0 \<le> b"
  shows "sym_op pt lastpc reg pc lst op a b c \<noteq> Inl e"
  using assms
  by (cases op)
    (auto simp: sym_op_def Let_def check_eq_Inl bind_result_eq_Inl sym_upvals_Inl
      split: if_splits option.splits)

lemma sym_step_Inl:
  assumes "precheck pt = Inr True" and "0 \<le> pc" "pc < sizecode pt"
  shows "sym_step pt lastpc reg pc lst \<noteq> Inl e"
proof
  assume e: "sym_step pt lastpc reg pc lst = Inl e"
  let ?i = "pr_code pt ! nat pc"
  from e assms sym_args_Inl [of pc pt] sym_test_Inl [of pc pt]
  obtain op b c lst' where op: "opcode_of (GET_OPCODE ?i) = Some op"
    and args: "sym_args pt pc ?i op = Inr (Some (b, c))"
    and fail: "sym_op pt lastpc reg pc lst' op (GETARG_A ?i) b c = Inl e"
    by (auto simp: sym_step_def Let_def check_eq_Inl bind_result_eq_Inl split: option.splits prod.splits)
  have "pc + 1 < sizecode pt \<or> op = OP_RETURN" using not_last assms op by blast
  moreover have "op = OP_CLOSURE \<longrightarrow> 0 \<le> b" using sym_args_Bx [OF args] by auto
  ultimately show False using sym_op_Inl fail assms(2) sym_args_global [OF args] by blast
qed

lemma sym_op_last:
  "sym_op pt lastpc reg pc lst op a b c = Inr (Some (pc', lst')) \<Longrightarrow> lst' = lst \<or> lst' = pc"
  by (cases op)
    (auto simp: sym_op_def Let_def check_eq_Some bind_result_eq_Inr split: if_splits option.splits)

lemma sym_step_last:
  "sym_step pt lastpc reg pc lst = Inr (Some (pc', lst')) \<Longrightarrow> lst' = lst \<or> lst' = pc"
  by (auto simp: sym_step_def Let_def check_eq_Some bind_result_eq_Inr
      split: option.splits prod.splits if_splits dest: sym_op_last)

lemma sym_loop_safe:
  assumes "precheck pt = Inr True" and "lastpc \<le> sizecode pt" and "0 \<le> pc"
    and "0 \<le> lst" "lst < sizecode pt"
  shows "\<exists>r. sym_loop pt lastpc reg pc lst = Inr r \<and> (\<forall>l. r = Some l \<longrightarrow> 0 \<le> l \<and> l < sizecode pt)"
  using assms
proof (induction pt lastpc reg pc lst rule: sym_loop.induct)
  case (1 pt lastpc reg pc lst)
  show ?case
  proof (cases "pc < lastpc")
    case False
    with 1 show ?thesis by (simp add: sym_loop.simps [of pt lastpc reg pc lst])
  next
    case True
    consider e where "sym_step pt lastpc reg pc lst = Inl e" | "sym_step pt lastpc reg pc lst = Inr None"
      | pc' lst' where "sym_step pt lastpc reg pc lst = Inr (Some (pc', lst'))"
      by (metis obj_sumE option.exhaust surj_pair)
    then show ?thesis
    proof cases
      case 1
      with True \<open>0 \<le> pc\<close> \<open>lastpc \<le> sizecode pt\<close> \<open>precheck pt = Inr True\<close> show ?thesis
        using sym_step_Inl by simp
    next
      case 2
      with True show ?thesis by (simp add: sym_loop.simps [of pt lastpc reg pc lst])
    next
      case 3
      have "pc \<le> pc'" and "lst' = lst \<or> lst' = pc"
        using sym_step_pc [OF 3] sym_step_last [OF 3] by auto
      with "1.IH" [OF True 3 refl refl] "1.prems" True 3 show ?thesis
        by (auto simp: sym_loop.simps [of pt lastpc reg pc lst])
    qed
  qed
qed



section \<open>What an accepted function does\<close>

text \<open>A full check (\<open>reg\<close> is \<open>NO_REG\<close>) without extended \<open>SETLIST\<close> visits every instruction.\<close>

lemma sym_op_full_pc:
  assumes "sym_op pt lastpc NO_REG pc lst op a b c = Inr (Some (pc', lst'))"
    and "op = OP_SETLIST \<longrightarrow> c \<noteq> 0"
  shows "pc' = pc"
  using assms
  by (cases op)
    (auto simp: sym_op_def Let_def check_eq_Some bind_result_eq_Inr split: if_splits option.splits)

lemma sym_args_iABC:
  assumes "sym_args pt pc i op = Inr (Some (b, c))" and "getOpMode op = iABC"
  shows "b = GETARG_B i" and "c = GETARG_C i"
    and "checkArgMode pt b (getBMode op)" and "checkArgMode pt c (getCMode op)"
  using assms by (auto simp: sym_args_def Let_def check_eq_Some)

lemma sym_args_iAsBx:
  assumes "sym_args pt pc i op = Inr (Some (b, c))" and "getOpMode op = iAsBx"
  shows "b = GETARG_sBx i" and "c = 0"
    and "getBMode op = OpArgR \<longrightarrow> 0 \<le> pc + 1 + b \<and> pc + 1 + b < sizecode pt"
  using assms
  by (auto simp: sym_args_def Let_def check_eq_Some bind_result_eq_Inr split: if_splits)

lemma sym_args_iABx:
  assumes "sym_args pt pc i op = Inr (Some (b, c))" and "getOpMode op = iABx"
  shows "b = GETARG_Bx i" and "getBMode op = OpArgK \<longrightarrow> b < sizek pt"
  using assms by (auto simp: sym_args_def Let_def check_eq_Some split: if_splits)

text \<open>What a successful step of the checker has established of the instruction at \<open>pc\<close>.\<close>

definition checked :: "Proto \<Rightarrow> int \<Rightarrow> OpCode \<Rightarrow> int \<Rightarrow> int \<Rightarrow> bool" where
  "checked pt pc op b c \<longleftrightarrow> 0 \<le> pc \<and> pc < sizecode pt
     \<and> opcode_of (GET_OPCODE (pr_code pt ! nat pc)) = Some op
     \<and> checkreg pt (GETARG_A (pr_code pt ! nat pc))
     \<and> sym_args pt pc (pr_code pt ! nat pc) op = Inr (Some (b, c))
     \<and> sym_test pt pc op = Inr (Some ())
     \<and> (\<exists>lst r. sym_op pt (sizecode pt) NO_REG pc lst op (GETARG_A (pr_code pt ! nat pc)) b c
           = Inr (Some r))"

lemma sym_step_checked:
  assumes "sym_step pt (sizecode pt) NO_REG pc lst = Inr (Some (pc', lst'))"
  shows "\<exists>op b c. checked pt pc op b c \<and> (\<not> ext_setlist pt pc \<longrightarrow> pc' = pc)"
proof -
  let ?i = "pr_code pt ! nat pc"
  from assms obtain op b c lst2 where *: "0 \<le> pc" "pc < sizecode pt"
    "opcode_of (GET_OPCODE ?i) = Some op" "checkreg pt (GETARG_A ?i)"
    "sym_args pt pc ?i op = Inr (Some (b, c))" "sym_test pt pc op = Inr (Some ())"
    "sym_op pt (sizecode pt) NO_REG pc lst2 op (GETARG_A ?i) b c = Inr (Some (pc', lst'))"
    by (auto simp: sym_step_def Let_def check_eq_Some bind_result_eq_Inr split: option.splits prod.splits)
  then have "checked pt pc op b c" unfolding checked_def by blast
  moreover have "pc' = pc" if "\<not> ext_setlist pt pc"
  proof (rule sym_op_full_pc [OF *(7)], intro impI)
    assume op: "op = OP_SETLIST"
    with *(3) have "GET_OPCODE ?i = op_num OP_SETLIST" by (metis op_num_opcode_of)
    with that *(1,2) have "GETARG_C ?i \<noteq> 0" by (auto simp: ext_setlist_def code_at_def)
    with sym_args_iABC(2) [OF *(5)] op show "c \<noteq> 0" by simp
  qed
  ultimately show ?thesis by blast
qed

lemma no_ext_setlistD: "no_ext_setlist pt \<Longrightarrow> \<not> ext_setlist pt pc"
  by (auto simp: no_ext_setlist_def ext_setlist_def list_all_length sizecode_def split: sum.splits)

lemma sym_loop_checked:
  assumes "sym_loop pt lastpc reg pc lst = Inr (Some r)" and "no_ext_setlist pt"
    and "lastpc = sizecode pt" and "reg = NO_REG" and "pc \<le> p" and "p < sizecode pt"
  shows "\<exists>op b c. checked pt p op b c"
  using assms
proof (induction pt lastpc reg pc lst rule: sym_loop.induct)
  case (1 pt lastpc reg pc lst)
  then have lt: "pc < lastpc" by simp
  with "1.prems"(1) obtain pc' lst' where st: "sym_step pt lastpc reg pc lst = Inr (Some (pc', lst'))"
    and rest: "sym_loop pt lastpc reg (pc' + 1) lst' = Inr (Some r)"
    by (auto simp: sym_loop.simps [of pt lastpc reg pc lst] split: sum.splits option.splits)
  obtain op b c where c: "checked pt pc op b c" and eq: "pc' = pc"
    using sym_step_checked st 1 no_ext_setlistD by metis
  show ?case
  proof (cases "p = pc")
    case True
    with c show ?thesis by blast
  next
    case False
    then show ?thesis using "1.IH" [OF lt st refl refl rest] 1 eq by simp
  qed
qed

lemma checkcode_checked:
  assumes "luaG_checkcode pt = Inr True" and "no_ext_setlist pt" and "0 \<le> p" and "p < sizecode pt"
  shows "precheck pt = Inr True" and "\<exists>op b c. checked pt p op b c"
proof -
  from assms(1) obtain r where r: "precheck pt = Inr True"
    "sym_loop pt (sizecode pt) NO_REG 0 (sizecode pt - 1) = Inr (Some r)"
    by (auto simp: luaG_checkcode_def symbexec_def Let_def bind_result_eq_Inr split: if_splits option.splits)
  then show "precheck pt = Inr True" by simp
  from sym_loop_checked [OF r(2)] assms show "\<exists>op b c. checked pt p op b c" by simp
qed

text \<open>Each operand check makes the registers and constants of the operand exist.\<close>

lemma rk_regs_ok: "checkArgMode pt r OpArgK \<Longrightarrow> list_all (\<lambda>x. x < uint (maxstacksize pt)) (rk_regs r)"
  by (auto simp: rk_regs_def split: if_splits)

lemma checked_vm_regs:
  assumes "checked pt pc op b c"
  shows "list_all (\<lambda>r. r < uint (maxstacksize pt)) (vm_regs (pr_code pt ! nat pc) op)"
  using assms sym_args_iABC [of pt pc "pr_code pt ! nat pc" op b c]
  by (cases op)
    (auto simp: checked_def vm_regs_def Let_def list_all_iff checkreg_def sym_op_def check_eq_Some
      rk_regs_def bind_result_eq_Inr LUA_MULTRET_def split: if_splits)

lemma checked_vm_consts:
  assumes "checked pt pc op b c"
  shows "list_all (\<lambda>k. k < sizek pt) (vm_consts (pr_code pt ! nat pc) op)"
  using assms sym_args_iABC [of pt pc "pr_code pt ! nat pc" op b c]
    sym_args_iABx [of pt pc "pr_code pt ! nat pc" op b c]
  by (cases op) (auto simp: checked_def vm_consts_def split: if_splits)

lemma checked_vm_refs:
  assumes "checked pt pc op b c"
  defines "i \<equiv> pr_code pt ! nat pc"
  shows "list_all (\<lambda>r. r < uint (maxstacksize pt) + EXTRA_STACK) (vm_extra_regs i op)"
    and "op = OP_GETGLOBAL \<or> op = OP_SETGLOBAL \<longrightarrow> ttisstring (pr_k pt ! nat (GETARG_Bx i))"
    and "list_all (\<lambda>u. u < uint (nups pt)) (vm_upvals i op)"
    and "op = OP_CLOSURE \<longrightarrow> GETARG_Bx i < sizep pt"
  using assms(1) sym_args_iABC [of pt pc i op b c] sym_args_iABx [of pt pc i op b c]
  by (auto simp: checked_def i_def vm_extra_regs_def vm_upvals_def list_all_iff checkreg_def
      sym_op_def Let_def check_eq_Some bind_result_eq_Inr EXTRA_STACK_def split: if_splits)

text \<open>The instruction after a checked test is a jump to a place in the code.\<close>

lemma checked_jump_dest:
  assumes "checked pt pc op b c" and "op \<in> {OP_JMP, OP_FORLOOP, OP_FORPREP}"
  shows "0 \<le> pc + 1 + GETARG_sBx (pr_code pt ! nat pc)"
    and "pc + 1 + GETARG_sBx (pr_code pt ! nat pc) < sizecode pt"
  using assms sym_args_iAsBx [of pt pc "pr_code pt ! nat pc" op b c]
  by (auto simp: checked_def)

lemma checked_closure:
  assumes "checked pt pc OP_CLOSURE b c" and "precheck pt = Inr True"
  shows "GETARG_Bx (pr_code pt ! nat pc) < sizep pt"
    and "pc + 1 + uint (nups (pr_p pt ! nat (GETARG_Bx (pr_code pt ! nat pc)))) < sizecode pt"
proof -
  let ?i = "pr_code pt ! nat pc"
  let ?n = "uint (nups (pr_p pt ! nat (GETARG_Bx ?i)))"
  have b: "b = GETARG_Bx ?i" using assms sym_args_iABx [of pt pc ?i OP_CLOSURE b c] by (simp add: checked_def)
  with assms show "GETARG_Bx ?i < sizep pt"
    by (auto simp: checked_def sym_op_def check_eq_Some bind_result_eq_Inr)
  have up: "pc + ?n < sizecode pt" and "sym_upvals pt pc 1 ?n = Inr (Some ())"
    using assms b
    by (auto simp: checked_def sym_op_def check_eq_Some bind_result_eq_Inr Let_def split: option.splits)
  then have "1 \<le> ?n \<Longrightarrow> GET_OPCODE (pr_code pt ! nat (pc + ?n)) \<noteq> op_num OP_RETURN"
    using sym_upvals_Some by blast
  moreover have "GET_OPCODE ?i \<noteq> op_num OP_RETURN"
    using assms op_num_opcode_of [of "GET_OPCODE ?i" OP_CLOSURE] by (simp add: checked_def)
  ultimately have "GET_OPCODE (pr_code pt ! nat (pc + ?n)) \<noteq> op_num OP_RETURN"
    by (cases "?n = 0") (auto simp: int_one_le_iff_zero_less order_less_le)
  then have "pc + ?n \<noteq> sizecode pt - 1" using assms(2) by (auto simp: precheck_True)
  with up show "pc + 1 + ?n < sizecode pt" by linarith
qed

lemma checked_succs:
  assumes all: "\<And>p. 0 \<le> p \<Longrightarrow> p < sizecode pt \<Longrightarrow> \<exists>op b c. checked pt p op b c"
    and pre: "precheck pt = Inr True" and ch: "checked pt pc op b c" and no: "no_ext_setlist pt"
  shows "\<exists>pcs. vm_succs pt pc (pr_code pt ! nat pc) op = Inr pcs
     \<and> list_all (\<lambda>p. 0 \<le> p \<and> p < sizecode pt) pcs"
proof -
  let ?i = "pr_code pt ! nat pc"
  have pc: "0 \<le> pc" "pc < sizecode pt" "opcode_of (GET_OPCODE ?i) = Some op"
    using ch by (auto simp: checked_def)
  have nxt: "op \<noteq> OP_RETURN \<Longrightarrow> pc + 1 < sizecode pt" using not_last [OF pre pc] by blast
  have test: "testTMode op \<Longrightarrow> pc + 2 < sizecode pt
      \<and> 0 \<le> pc + 1 + GETARG_sBx (pr_code pt ! nat (pc + 1)) + 1
      \<and> pc + 1 + GETARG_sBx (pr_code pt ! nat (pc + 1)) + 1 < sizecode pt"
  proof -
    assume t: "testTMode op"
    have two: "pc + 2 < sizecode pt" and "GET_OPCODE (pr_code pt ! nat (pc + 1)) = op_num OP_JMP"
      using ch t by (auto simp: checked_def sym_test_def check_eq_Some bind_result_eq_Inr)
    moreover from two pc all [of "pc + 1"] obtain op' b' c' where ch': "checked pt (pc + 1) op' b' c'" by auto
    ultimately have "op' = OP_JMP" by (simp add: checked_def) (metis opcode_of_op_num op_num.simps(23) option.inject)
    with checked_jump_dest [OF ch'] two show ?thesis by (simp add: algebra_simps)
  qed
  have setlist: "op = OP_SETLIST \<Longrightarrow> GETARG_C ?i \<noteq> 0"
    using no_ext_setlistD [OF no, of pc] op_num_opcode_of [OF pc(3)] pc
    by (auto simp: ext_setlist_def code_at_def)
  have bool: "op = OP_LOADBOOL \<Longrightarrow> GETARG_C ?i = 0 \<or> pc + 2 < sizecode pt"
    using ch sym_args_iABC [of pt pc ?i op b c] by (auto simp: checked_def sym_op_def check_eq_Some)
  show ?thesis
    using pc nxt test setlist bool checked_jump_dest [OF ch] checked_closure [of pt pc b c] ch pre
    by (cases op) (auto simp: vm_succs_def Let_def bind_result_eq_Inr p_at_def code_at_def algebra_simps)
qed

lemma checkcode_safe:
  assumes "luaG_checkcode pt = Inr True" and "no_ext_setlist pt" and "vm_reaches pt pc"
  shows "instr_safe pt pc"
proof -
  have safe: "instr_safe pt p" if p: "0 \<le> p" "p < sizecode pt" for p
  proof -
    note chk = checkcode_checked [OF assms(1,2)]
    from chk(2) [OF p] obtain op b c where ch: "checked pt p op b c" by blast
    obtain pcs where "vm_succs pt p (pr_code pt ! nat p) op = Inr pcs"
      "list_all (\<lambda>p. 0 \<le> p \<and> p < sizecode pt) pcs"
      using checked_succs [OF _ chk(1) ch assms(2)] chk(2) p by blast
    with ch checked_vm_regs [OF ch] checked_vm_consts [OF ch] checked_vm_refs [OF ch] p
    show ?thesis by (simp add: instr_safe_def code_at_def checked_def)
  qed
  have "0 < sizecode pt"
    using assms(1)
    by (auto simp: luaG_checkcode_def symbexec_def Let_def bind_result_eq_Inr precheck_True split: if_splits)
  with assms(3) have "0 \<le> pc \<and> pc < sizecode pt"
  proof (induction rule: vm_reaches.induct)
    case (step pc i op pcs pc')
    with safe [of pc] show ?case by (auto simp: instr_safe_def code_at_def list_all_iff)
  qed simp
  with safe show ?thesis by blast
qed


text \<open>A function that returns its first constant, for the witnesses.\<close>

definition example_proto :: Proto where
  "example_proto = Proto [TNumber 0]
     [CREATE_ABx (op_num OP_LOADK) 0 0, CREATE_ABC (op_num OP_RETURN) 0 2 0, CREATE_ABC (op_num OP_RETURN) 0 1 0]
     [] [1, 1, 1] [] [] (Some ''=stdin'') 0 0 0 0 0 2"

lemma example_checkcode: "luaG_checkcode example_proto = Inr True"
  by code_simp


text \<open>A \<open>SETLIST\<close> whose extended count is the final return.\<close>

definition ext_setlist_proto :: Proto where
  "ext_setlist_proto = Proto []
     [CREATE_ABC (op_num OP_NEWTABLE) 0 0 0, CREATE_ABC (op_num OP_SETLIST) 0 1 0,
      CREATE_ABC (op_num OP_RETURN) 0 1 0]
     [] [] [] [] (Some ''=stdin'') 0 0 0 0 0 2"

text \<open>
  Claim \<open>C27\<close>. Without that restriction the statement fails: the checker accepts a function whose
  control leaves its code. The count of a \<open>SETLIST\<close> with \<open>C = 0\<close> may be the final return, and
  then execution continues behind the end of the code.
\<close>

theorem checkcode_misses_end_of_code:
  "luaG_checkcode ext_setlist_proto = Inr True
   \<and> vm_reaches ext_setlist_proto (sizecode ext_setlist_proto)
   \<and> \<not> instr_safe ext_setlist_proto (sizecode ext_setlist_proto)"
proof (intro conjI)
  let ?p = ext_setlist_proto
  let ?i0 = "CREATE_ABC (op_num OP_NEWTABLE) 0 0 0" and ?i1 = "CREATE_ABC (op_num OP_SETLIST) 0 1 0"
  show "luaG_checkcode ?p = Inr True" by code_simp
  show "\<not> instr_safe ?p (sizecode ?p)" by code_simp
  have "code_at ?p 0 = Inr ?i0" "opcode_of (GET_OPCODE ?i0) = Some OP_NEWTABLE"
    "vm_succs ?p 0 ?i0 OP_NEWTABLE = Inr [1]"
    by code_simp+
  then have one: "vm_reaches ?p 1"
    using vm_reaches.step [OF vm_reaches.entry] by fastforce
  have "code_at ?p 1 = Inr ?i1" "opcode_of (GET_OPCODE ?i1) = Some OP_SETLIST"
    "vm_succs ?p 1 ?i1 OP_SETLIST = Inr [3]" and size: "sizecode ?p = 3"
    by code_simp+
  then have "vm_reaches ?p 3"
    using vm_reaches.step [OF one] by fastforce
  then show "vm_reaches ?p (sizecode ?p)" by (simp add: size)
qed

text \<open>
  A function without any instruction makes the checker read in front of its code:
  \<open>precheck\<close> looks at the last instruction before anything has established that there is one.
\<close>

lemma checkcode_reads_before_empty_code:
  assumes "sizecode pt = 0" and "uint (maxstacksize pt) \<le> MAXSTACK"
    and "sizeupvalues pt \<le> uint (nups pt)" and "sizelineinfo pt = 0"
  shows "luaG_checkcode pt = Inl OutOfBounds"
  using assms by (simp add: luaG_checkcode_def symbexec_def precheck_def code_at_def Let_def)

end
