(* ===== verification/LuaZio.thy ===== *)
theory LuaZio
  imports LuaPrelude
begin

text \<open>
  \<open>lzio.c\<close>: the buffered input stream that feeds the lexer and the loader of precompiled
  chunks. The stream pulls blocks from a reader function; the reader is modelled by the list
  of blocks it will return, an empty block (or the end of the list) standing for its end
  of stream answer. \<open>zn\<close> is the counter \<open>n\<close> of unread bytes and \<open>zp\<close> the bytes from the
  pointer \<open>p\<close> to the end of the current block: C keeps both, and reading where \<open>zp\<close> is
  empty leaves the block.
\<close>

record ZIO =
  zn :: int
  zp :: c_string
  zdata :: "c_string list"

definition EOZ :: int where "EOZ = - 1"

definition char2int :: "char \<Rightarrow> int" where "char2int c = of_char c"

definition luaZ_init :: "c_string list \<Rightarrow> ZIO" where
  "luaZ_init reader = \<lparr>zn = 0, zp = [], zdata = reader\<rparr>"

fun luaZ_fill :: "ZIO \<Rightarrow> int \<times> ZIO" where
  "luaZ_fill z =
     (case zdata z of
        [] \<Rightarrow> (EOZ, z)
      | buff # rest \<Rightarrow>
          (case buff of
             [] \<Rightarrow> (EOZ, z\<lparr>zdata := rest\<rparr>)
           | c # p \<Rightarrow> (char2int c, z\<lparr>zn := int (length p), zp := p, zdata := rest\<rparr>)))"

text \<open>\<open>luaZ_lookahead\<close> puts the byte that \<open>luaZ_fill\<close> took back in front of \<open>p\<close>.\<close>

definition luaZ_lookahead :: "ZIO \<Rightarrow> (int \<times> ZIO) result" where
  "luaZ_lookahead z =
     (case (if zn z = 0 then
              case luaZ_fill z of (c, z') \<Rightarrow>
                if c = EOZ then (True, z')
                else (False, z'\<lparr>zn := zn z' + 1, zp := char_of c # zp z'\<rparr>)
            else (False, z)) of
        (True, z') \<Rightarrow> Inr (EOZ, z')
      | (False, z') \<Rightarrow>
          (case zp z' of [] \<Rightarrow> Inl OutOfBounds | c # _ \<Rightarrow> Inr (char2int c, z')))"

text \<open>The macro \<open>zgetc\<close>: the counter, a \<open>size_t\<close>, is decremented before the test.\<close>

definition zgetc :: "ZIO \<Rightarrow> (int \<times> ZIO) result" where
  "zgetc z =
     (let z' = z\<lparr>zn := (zn z - 1) mod 2 ^ 64\<rparr>
      in if zn z > 0 then
           (case zp z of [] \<Rightarrow> Inl OutOfBounds
            | c # p \<Rightarrow> Inr (char2int c, z'\<lparr>zp := p\<rparr>))
         else Inr (luaZ_fill z'))"

text \<open>
  \<open>luaZ_read\<close> returns the number of missing bytes, the bytes it copied and the stream.
  \<open>memcpy\<close> of more bytes than the block holds is out of bounds. Every round copies at least
  one byte, as \<open>luaZ_lookahead\<close> has just found one.
\<close>

function luaZ_read :: "ZIO \<Rightarrow> nat \<Rightarrow> (nat \<times> c_string \<times> ZIO) result" where
  "luaZ_read z n =
     (if n = 0 then Inr (0, [], z)
      else case luaZ_lookahead z of
        Inl e \<Rightarrow> Inl e
      | Inr (c, z1) \<Rightarrow>
          if c = EOZ then Inr (n, [], z1)
          else let m = (if int n \<le> zn z1 then n else nat (zn z1))
               in if m > length (zp z1) \<or> m = 0 then Inl OutOfBounds
                  else case luaZ_read (z1\<lparr>zn := zn z1 - int m, zp := drop m (zp z1)\<rparr>) (n - m) of
                         Inl e \<Rightarrow> Inl e
                       | Inr (k, b, z2) \<Rightarrow> Inr (k, take m (zp z1) @ b, z2))"
  by pat_completeness auto
termination
  by (relation "measure (\<lambda>(z, n). n)") auto

declare luaZ_read.simps [simp del]

section \<open>The string buffer\<close>

record Mbuffer =
  mb_buffer :: c_string
  mb_n :: nat
  mb_buffsize :: nat

definition LUA_MINBUFFER :: nat where "LUA_MINBUFFER = 32"

definition luaZ_resetbuffer :: "Mbuffer \<Rightarrow> Mbuffer" where
  "luaZ_resetbuffer b = b\<lparr>mb_n := 0\<rparr>"

text \<open>
  Reallocation keeps the common part of the old contents; new bytes are not initialised, so
  their values are a parameter \<open>fresh\<close>. The allocation succeeds in this model.
\<close>

definition luaZ_resizebuffer :: "c_string \<Rightarrow> Mbuffer \<Rightarrow> nat \<Rightarrow> Mbuffer" where
  "luaZ_resizebuffer fresh b sz =
     b\<lparr>mb_buffer := take sz (mb_buffer b @ take (sz - mb_buffsize b) fresh),
       mb_buffsize := sz\<rparr>"

definition luaZ_openspace :: "c_string \<Rightarrow> Mbuffer \<Rightarrow> nat \<Rightarrow> Mbuffer" where
  "luaZ_openspace fresh b n =
     (if n > mb_buffsize b then
        luaZ_resizebuffer fresh b (if n < LUA_MINBUFFER then LUA_MINBUFFER else n)
      else b)"

section \<open>Properties\<close>

text \<open>
  The invariant of a stream that has not reported its end through \<open>zgetc\<close>, and the bytes it
  will still deliver: the rest of the block and the blocks before the first empty one.
\<close>

definition zio_ok :: "ZIO \<Rightarrow> bool" where
  "zio_ok z \<longleftrightarrow> zn z = int (length (zp z)) \<and> zn z < 2 ^ 64
     \<and> (\<forall>b \<in> set (zdata z). int (length b) < 2 ^ 64)"

definition zcontent :: "ZIO \<Rightarrow> c_string" where
  "zcontent z = zp z @ concat (takeWhile (\<lambda>b. b \<noteq> []) (zdata z))"

lemma char2int_bounds: "0 \<le> char2int c" "char2int c < 256" "char2int c \<noteq> EOZ"
proof -
  have eq: "char2int c = int (of_char c)" by (simp add: char2int_def of_nat_of_char)
  show "0 \<le> char2int c" "char2int c < 256" "char2int c \<noteq> EOZ"
    using nat_of_char_less_256 [of c] unfolding eq EOZ_def by linarith+
qed

lemma char_of_char2int [simp]: "char_of (char2int c) = c"
  by (simp add: char2int_def)

lemma luaZ_init_ok: "\<forall>b \<in> set reader. int (length b) < 2 ^ 64 \<Longrightarrow> zio_ok (luaZ_init reader)"
  by (simp add: zio_ok_def luaZ_init_def)

text \<open>Looking ahead delivers the first byte of the contents without consuming it.\<close>

lemma luaZ_lookahead_content:
  assumes "zio_ok z"
  shows "case zcontent z of
      [] \<Rightarrow> \<exists>z'. luaZ_lookahead z = Inr (EOZ, z') \<and> zio_ok z'
    | c # r \<Rightarrow> \<exists>z'. luaZ_lookahead z = Inr (char2int c, z') \<and> zio_ok z' \<and> zcontent z' = c # r
        \<and> zp z' \<noteq> []"
proof (cases "zp z")
  case Nil
  then have "zn z = 0" using assms by (simp add: zio_ok_def)
  with Nil assms show ?thesis
    by (auto simp: luaZ_lookahead_def zcontent_def zio_ok_def char2int_bounds
        split: list.splits)
next
  case (Cons c p)
  then show ?thesis using assms
    by (auto simp: luaZ_lookahead_def zcontent_def zio_ok_def)
qed

lemma luaZ_read_delivers:
  assumes "zio_ok z"
  shows "\<exists>z'. luaZ_read z n = Inr (n - length (zcontent z), take n (zcontent z), z')
     \<and> zio_ok z' \<and> (n \<le> length (zcontent z) \<longrightarrow> zcontent z' = drop n (zcontent z))"
  using assms
proof (induction z n rule: luaZ_read.induct)
  case (1 z n)
  show ?case
  proof (cases "n = 0")
    case True
    with 1 show ?thesis by (simp add: luaZ_read.simps)
  next
    case n: False
    show ?thesis
    proof (cases "zcontent z")
      case Nil
      with n luaZ_lookahead_content [OF 1(2)] show ?thesis
        by (auto simp: luaZ_read.simps [of z n])
    next
      case (Cons c r)
      with luaZ_lookahead_content [OF 1(2)] obtain z1
        where z1: "luaZ_lookahead z = Inr (char2int c, z1)" "zio_ok z1" "zcontent z1 = zcontent z"
          "zp z1 \<noteq> []"
        by auto
      let ?m = "if int n \<le> zn z1 then n else nat (zn z1)"
      let ?z = "z1\<lparr>zn := zn z1 - int ?m, zp := drop ?m (zp z1)\<rparr>"
      have m: "0 < ?m" "?m \<le> n" "?m \<le> length (zp z1)" and ok: "zio_ok ?z"
        and "zcontent z1 = take ?m (zp z1) @ zcontent ?z"
        using n z1(2,4) by (auto simp: zio_ok_def zcontent_def)
      then have co: "zcontent z = take ?m (zp z1) @ zcontent ?z" using z1(3) by simp
      obtain z' where z': "luaZ_read ?z (n - ?m) =
          Inr (n - ?m - length (zcontent ?z), take (n - ?m) (zcontent ?z), z')"
        "zio_ok z'" "n - ?m \<le> length (zcontent ?z) \<longrightarrow> zcontent z' = drop (n - ?m) (zcontent ?z)"
        using 1(1) [OF n z1(1) refl _ refl _ ok] m char2int_bounds by auto
      have lc: "length (zcontent z) = ?m + length (zcontent ?z)" using co m by simp
      have tk: "take n (zcontent z) = take ?m (zp z1) @ take (n - ?m) (zcontent ?z)"
        and dr: "drop n (zcontent z) = drop (n - ?m) (zcontent ?z)"
        using co m by simp_all
      have "luaZ_read z n = Inr (n - length (zcontent z), take n (zcontent z), z')"
        using n z1(1) m z'(1) char2int_bounds(3)
        by (simp add: luaZ_read.simps [of z n] Let_def tk lc)
      then show ?thesis using z'(2,3) m lc dr by auto
    qed
  qed
qed

text \<open>
  Claim \<open>C10\<close>. However the reader cuts the input into blocks, \<open>luaZ_read\<close> delivers the next
  \<open>n\<close> bytes of the contents, or all that is left with the number of missing bytes, never
  leaves a block, and keeps the invariant.
\<close>

theorem luaZ_read_content:
  assumes "zio_ok z"
  shows "\<exists>z'. luaZ_read z n = Inr (n - length (zcontent z), take n (zcontent z), z')
     \<and> zio_ok z' \<and> (n \<le> length (zcontent z) \<longrightarrow> zcontent z' = drop n (zcontent z))"
  using assms by (rule luaZ_read_delivers)

theorem luaZ_read_content_witness:
  "\<exists>z'. luaZ_read (luaZ_init [''ab'', ''cd'', [], ''x'']) 3 = Inr (0, ''abc'', z')"
  using luaZ_read_content [of "luaZ_init [''ab'', ''cd'', [], ''x'']" 3]
  by (auto simp: luaZ_init_ok luaZ_init_def zio_ok_def zcontent_def)

text \<open>\<open>zgetc\<close> delivers the contents byte by byte as well.\<close>

lemma zgetc_content:
  assumes "zio_ok z"
  shows "case zcontent z of
      [] \<Rightarrow> \<exists>z'. zgetc z = Inr (EOZ, z')
    | c # r \<Rightarrow> \<exists>z'. zgetc z = Inr (char2int c, z') \<and> zio_ok z' \<and> zcontent z' = r"
proof (cases "zp z")
  case Nil
  then have "zn z = 0" using assms by (simp add: zio_ok_def)
  with Nil assms show ?thesis
    by (auto simp: zgetc_def zcontent_def zio_ok_def Let_def split: list.splits)
next
  case (Cons c p)
  then show ?thesis using assms
    by (auto simp: zgetc_def zcontent_def zio_ok_def Let_def)
qed

lemma luaZ_openspace_size:
  assumes "length (mb_buffer b) = mb_buffsize b" and "max n LUA_MINBUFFER \<le> length fresh"
  shows "n \<le> mb_buffsize (luaZ_openspace fresh b n)"
    and "length (mb_buffer (luaZ_openspace fresh b n)) = mb_buffsize (luaZ_openspace fresh b n)"
    and "take (mb_buffsize b) (mb_buffer (luaZ_openspace fresh b n)) = mb_buffer b"
  using assms by (auto simp: luaZ_openspace_def luaZ_resizebuffer_def min_def)

end
