(* ===== verification/LuaUndump.thy ===== *)
theory LuaUndump
  imports LuaDump LuaVerify LuaZio "HOL-Library.Sublist"
begin

text \<open>
  \<open>lundump.c\<close>: reading a precompiled chunk from a stream. A loader takes the stream and
  returns its result with the rest of the stream, or the error it raises. The allocation of the
  arrays and of the strings succeeds in this model.
\<close>

section \<open>Loading the basic types\<close>

type_synonym 'a loader = "ZIO \<Rightarrow> ('a \<times> ZIO) result"

definition bindL :: "'a loader \<Rightarrow> ('a \<Rightarrow> 'b loader) \<Rightarrow> 'b loader" where
  "bindL m f z = (case m z of Inl e \<Rightarrow> Inl e | Inr (x, z') \<Rightarrow> f x z')"

definition returnL :: "'a \<Rightarrow> 'a loader" where "returnL x z = Inr (x, z)"

text \<open>The function \<open>error\<close> of \<open>lundump.c\<close>; \<open>name\<close> is the name of the chunk.\<close>

definition undump_error :: "c_string \<Rightarrow> c_string \<Rightarrow> lua_error" where
  "undump_error name why = ErrSyntax (name @ '': '' @ why @ '' in precompiled chunk'')"

definition LoadBlock :: "c_string \<Rightarrow> nat \<Rightarrow> c_string loader" where
  "LoadBlock name n z =
     (case luaZ_read z n of
        Inl e \<Rightarrow> Inl e
      | Inr (r, b, z') \<Rightarrow> if r \<noteq> 0 then Inl (undump_error name ''unexpected end'') else Inr (b, z'))"

fun le_value :: "c_string \<Rightarrow> int" where
  "le_value [] = 0"
| "le_value (c # cs) = of_char c + 256 * le_value cs"

text \<open>A \<open>char\<close> is signed; assigning it to an \<open>int\<close> extends its sign.\<close>

definition schar :: "char \<Rightarrow> int" where
  "schar c = (let n = of_char c in if n < 128 then n else n - 256)"

definition sint_value :: "c_string \<Rightarrow> int" where
  "sint_value b = (let n = le_value b in if n < 2 ^ 31 then n else n - 2 ^ 32)"

definition LoadChar :: "c_string \<Rightarrow> int loader" where
  "LoadChar name = bindL (LoadBlock name 1) (\<lambda>b. returnL (schar (hd b)))"

definition LoadByte :: "c_string \<Rightarrow> lu_byte loader" where
  "LoadByte name = bindL (LoadChar name) (\<lambda>x. returnL (word_of_int x))"

definition LoadInt :: "c_string \<Rightarrow> int loader" where
  "LoadInt name = bindL (LoadBlock name 4) (\<lambda>b.
     let x = sint_value b
     in if x < 0 then (\<lambda>z. Inl (undump_error name ''bad integer'')) else returnL x)"

definition LoadNumber :: "c_string \<Rightarrow> lua_Number loader" where
  "LoadNumber name = bindL (LoadBlock name 8) (\<lambda>b. returnL (word_of_int (le_value b)))"

text \<open>The trailing zero of a string is loaded and removed; size 0 stands for \<open>NULL\<close>.\<close>

definition LoadString :: "c_string \<Rightarrow> c_string option loader" where
  "LoadString name = bindL (LoadBlock name 8) (\<lambda>b.
     let sz = le_value b
     in if sz = 0 then returnL None
        else bindL (LoadBlock name (nat sz)) (\<lambda>s. returnL (Some (take (nat sz - 1) s))))"

text \<open>A loop \<open>for (i=0; i<n; i++)\<close> that loads one element in each round.\<close>

primrec LoadN :: "'a loader \<Rightarrow> nat \<Rightarrow> 'a list loader" where
  "LoadN load 0 = returnL []"
| "LoadN load (Suc n) = bindL load (\<lambda>x. bindL (LoadN load n) (\<lambda>xs. returnL (x # xs)))"

text \<open>\<open>LoadVector\<close>: one block, cut into the \<open>n\<close> elements of \<open>w\<close> bytes.\<close>

primrec chunks :: "nat \<Rightarrow> nat \<Rightarrow> c_string \<Rightarrow> c_string list" where
  "chunks w 0 b = []"
| "chunks w (Suc n) b = take w b # chunks w n (drop w b)"

definition LoadVector :: "c_string \<Rightarrow> nat \<Rightarrow> nat \<Rightarrow> c_string list loader" where
  "LoadVector name n w = bindL (LoadBlock name (n * w)) (\<lambda>b. returnL (chunks w n b))"

section \<open>Loading a function\<close>

definition LoadCode :: "c_string \<Rightarrow> Instruction list loader" where
  "LoadCode name = bindL (LoadInt name) (\<lambda>n.
     bindL (LoadVector name (nat n) 4) (\<lambda>bs. returnL (map (\<lambda>b. word_of_int (le_value b)) bs)))"

text \<open>
  One round of the loop of \<open>LoadConstants\<close>. A string constant of size 0 gives a value with a
  \<open>NULL\<close> string, which no value of the model stands for; using it is undefined.
\<close>

definition LoadConstant :: "c_string \<Rightarrow> TValue loader" where
  "LoadConstant name = bindL (LoadChar name) (\<lambda>t.
     if t = LUA_TNIL then returnL TNil
     else if t = LUA_TBOOLEAN then bindL (LoadChar name) (\<lambda>b. returnL (TBoolean b))
     else if t = LUA_TNUMBER then bindL (LoadNumber name) (\<lambda>n. returnL (TNumber n))
     else if t = LUA_TSTRING then bindL (LoadString name) (\<lambda>s. case s of
         None \<Rightarrow> (\<lambda>z. Inl OutOfBounds) | Some s \<Rightarrow> returnL (TGC (GString s)))
     else (\<lambda>z. Inl (undump_error name ''bad constant'')))"

definition LoadLocVar :: "c_string \<Rightarrow> LocVar loader" where
  "LoadLocVar name = bindL (LoadString name) (\<lambda>v. bindL (LoadInt name) (\<lambda>s.
     bindL (LoadInt name) (\<lambda>e. returnL \<lparr>varname = v, startpc = s, endpc = e\<rparr>)))"

definition LoadDebug ::
    "c_string \<Rightarrow> (int list \<times> LocVar list \<times> c_string option list) loader" where
  "LoadDebug name = bindL (LoadInt name) (\<lambda>n.
     bindL (LoadVector name (nat n) 4) (\<lambda>li.
     bindL (LoadInt name) (\<lambda>n. bindL (LoadN (LoadLocVar name) (nat n)) (\<lambda>lv.
     bindL (LoadInt name) (\<lambda>n. bindL (LoadN (LoadString name) (nat n)) (\<lambda>uv.
       returnL (map sint_value li, lv, uv)))))))"

text \<open>
  The fields of \<open>LoadFunction\<close> up to the nested functions: source, lines, the four bytes, code,
  constants and the number of nested functions. \<open>p\<close> is the source of the enclosing function.
\<close>

definition LoadHead :: "c_string \<Rightarrow> c_string option \<Rightarrow> (Proto \<times> nat) loader" where
  "LoadHead name p = bindL (LoadString name) (\<lambda>s. let src = (if s = None then p else s) in
     bindL (LoadInt name) (\<lambda>ld. bindL (LoadInt name) (\<lambda>lld.
     bindL (LoadByte name) (\<lambda>nu. bindL (LoadByte name) (\<lambda>np.
     bindL (LoadByte name) (\<lambda>va. bindL (LoadByte name) (\<lambda>ms.
     bindL (LoadCode name) (\<lambda>code.
     bindL (LoadInt name) (\<lambda>n. bindL (LoadN (LoadConstant name) (nat n)) (\<lambda>k.
     bindL (LoadInt name) (\<lambda>n.
       returnL (Proto k code [] [] [] [] src ld lld nu np va ms, nat n))))))))))))"

text \<open>The end of \<open>LoadFunction\<close>: debug information, then the check of the code.\<close>

definition LoadTail :: "c_string \<Rightarrow> Proto \<Rightarrow> Proto list \<Rightarrow> Proto loader" where
  "LoadTail name f ps = bindL (LoadDebug name) (\<lambda>(li, lv, uv).
     let f = Proto (pr_k f) (pr_code f) ps li lv uv (pr_source f) (linedefined f)
               (lastlinedefined f) (nups f) (numparams f) (is_vararg f) (maxstacksize f)
     in (\<lambda>z. case luaG_checkcode f of
               Inl e \<Rightarrow> Inl e
             | Inr ok \<Rightarrow> if \<not> ok then Inl (undump_error name ''bad code'') else Inr (f, z)))"

text \<open>
  \<open>LoadFunction\<close> recurses through the loop over the nested functions. Each call consumes
  bytes of the stream, so the recursion ends with the input.
\<close>

definition zsize :: "ZIO \<Rightarrow> nat" where
  "zsize z = length (zp z) + sum_list (map length (zdata z))"

function LoadFunction :: "c_string \<Rightarrow> c_string option \<Rightarrow> Proto loader"
and LoadProtos :: "c_string \<Rightarrow> c_string option \<Rightarrow> nat \<Rightarrow> Proto list loader" where
  "LoadFunction name p z =
     (case LoadHead name p z of
        Inl e \<Rightarrow> Inl e
      | Inr ((f, n), z1) \<Rightarrow>
          (case LoadProtos name (pr_source f) n z1 of
             Inl e \<Rightarrow> Inl e
           | Inr (ps, z2) \<Rightarrow> LoadTail name f ps z2))"
| "LoadProtos name p 0 z = Inr ([], z)"
| "LoadProtos name p (Suc n) z =
     (case LoadFunction name p z of
        Inl e \<Rightarrow> Inl e
      | Inr (f, z1) \<Rightarrow>
          (case LoadProtos name p n z1 of
             Inl e \<Rightarrow> Inl e
           | Inr (fs, z2) \<Rightarrow> Inr (f # fs, z2)))"
  by pat_completeness auto

text \<open>\<open>consumes k m\<close>: the loader \<open>m\<close> takes at least \<open>k\<close> bytes when it succeeds.\<close>

definition consumes :: "nat \<Rightarrow> 'a loader \<Rightarrow> bool" where
  "consumes k m \<longleftrightarrow> (\<forall>z x z'. m z = Inr (x, z') \<longrightarrow> zsize z' + k \<le> zsize z)"

lemma luaZ_lookahead_size: "luaZ_lookahead z = Inr (c, z') \<Longrightarrow> zsize z' \<le> zsize z"
  by (auto simp: luaZ_lookahead_def zsize_def split: if_splits list.splits prod.splits bool.splits)

lemma luaZ_read_size: "luaZ_read z n = Inr (0, b, z') \<Longrightarrow> zsize z' + n \<le> zsize z"
proof (induction z n arbitrary: b z' rule: luaZ_read.induct)
  case (1 z n)
  show ?case
  proof (cases "n = 0")
    case True
    with 1 show ?thesis by (simp add: luaZ_read.simps)
  next
    case False
    with "1.prems" obtain c z1 where z1: "luaZ_lookahead z = Inr (c, z1)" "c \<noteq> EOZ"
      by (auto simp: luaZ_read.simps [of z n] split: sum.splits if_splits)
    let ?m = "if int n \<le> zn z1 then n else nat (zn z1)"
    let ?z = "z1\<lparr>zn := zn z1 - int ?m, zp := drop ?m (zp z1)\<rparr>"
    from False z1 "1.prems" obtain b' where m: "\<not> (?m > length (zp z1) \<or> ?m = 0)"
      and r: "luaZ_read ?z (n - ?m) = Inr (0, b', z')"
      by (auto simp: luaZ_read.simps [of z n] Let_def split: sum.splits if_splits)
    have "zsize z' + (n - ?m) \<le> zsize ?z"
      using "1.IH" [OF False z1(1) refl z1(2) refl m r] by simp
    moreover have "zsize ?z + ?m = zsize z1" using m by (simp add: zsize_def)
    moreover have "?m \<le> n" by (simp add: nat_le_iff not_le)
    ultimately show ?thesis using luaZ_lookahead_size [OF z1(1)] by linarith
  qed
qed

named_theorems consumes_rules

lemma consumes_block: "consumes n (LoadBlock name n)"
  by (auto simp: consumes_def LoadBlock_def split: sum.splits if_splits dest: luaZ_read_size)

lemma consumes_weaken: "consumes k m \<Longrightarrow> consumes 0 m"
  by (force simp: consumes_def)

lemmas consumes_block_0 [consumes_rules] = consumes_weaken [OF consumes_block]

lemma consumes_return [consumes_rules]: "consumes 0 (returnL x)"
  by (simp add: consumes_def returnL_def)

lemma consumes_bind:
  assumes "consumes k m" and "\<And>x. consumes 0 (f x)"
  shows "consumes k (bindL m f)"
  unfolding consumes_def
proof (intro allI impI)
  fix z y z'
  assume "bindL m f z = Inr (y, z')"
  then obtain x z1 where "m z = Inr (x, z1)" "f x z1 = Inr (y, z')"
    by (auto simp: bindL_def split: sum.splits)
  with assms show "zsize z' + k \<le> zsize z" unfolding consumes_def by fastforce
qed

lemma consumes_fail [consumes_rules]: "consumes 0 (\<lambda>z. Inl e)"
  by (simp add: consumes_def)

lemma consumes_N: "consumes 0 m \<Longrightarrow> consumes 0 (LoadN m n)"
  by (induction n) (auto intro!: consumes_bind consumes_return)

lemma consumes_string: "consumes 8 (LoadString name)"
  unfolding LoadString_def Let_def
  by (rule consumes_bind [OF consumes_block]) (auto intro!: consumes_bind intro: consumes_rules)

lemmas consumes_string_0 [consumes_rules] = consumes_weaken [OF consumes_string]

lemma consumes_prims [consumes_rules]:
  "consumes 0 (LoadChar name)" "consumes 0 (LoadByte name)" "consumes 0 (LoadInt name)"
  "consumes 0 (LoadNumber name)" "consumes 0 (LoadVector name n w)"
  unfolding LoadByte_def LoadChar_def LoadInt_def LoadNumber_def LoadVector_def Let_def
  by (auto intro!: consumes_bind intro: consumes_rules)

lemma consumes_if [consumes_rules]:
  "consumes 0 m \<Longrightarrow> consumes 0 m' \<Longrightarrow> consumes 0 (if b then m else m')"
  by simp

lemma consumes_case_option [consumes_rules]:
  "consumes 0 m \<Longrightarrow> (\<And>x. consumes 0 (f x)) \<Longrightarrow> consumes 0 (case v of None \<Rightarrow> m | Some x \<Rightarrow> f x)"
  by (simp split: option.split)

lemma consumes_parts [consumes_rules]:
  "consumes 0 (LoadCode name)" "consumes 0 (LoadConstant name)" "consumes 0 (LoadLocVar name)"
  unfolding LoadCode_def LoadConstant_def LoadLocVar_def
  by (intro consumes_bind consumes_rules)+

lemma consumes_debug [consumes_rules]: "consumes 0 (LoadDebug name)"
  unfolding LoadDebug_def
  by (auto intro!: consumes_bind consumes_N intro: consumes_rules)

lemma consumes_head: "consumes 8 (LoadHead name p)"
  unfolding LoadHead_def Let_def
  by (rule consumes_bind [OF consumes_string]) (auto intro!: consumes_bind consumes_N intro: consumes_rules)

lemma consumes_tail: "consumes 0 (LoadTail name f ps)"
proof -
  have "consumes 0 (\<lambda>z. case luaG_checkcode g of Inl e \<Rightarrow> Inl e
      | Inr ok \<Rightarrow> if \<not> ok then Inl (undump_error name ''bad code'') else Inr (g, z))" for g
    by (auto simp: consumes_def split: sum.splits if_splits)
  then show ?thesis
    unfolding LoadTail_def Let_def by (auto intro!: consumes_bind intro: consumes_rules)
qed

lemma LoadFunction_consumes:
  "LoadFunction_LoadProtos_dom (Inl (name, p, z)) \<Longrightarrow> LoadFunction name p z = Inr (f, z') \<Longrightarrow>
     zsize z' < zsize z"
  "LoadFunction_LoadProtos_dom (Inr (name, p, n, z)) \<Longrightarrow> LoadProtos name p n z = Inr (fs, z') \<Longrightarrow>
     zsize z' \<le> zsize z"
proof (induction name p z and name p n z arbitrary: f z' and fs z' rule: LoadFunction_LoadProtos.pinduct)
  case (1 name p z)
  from "1.prems" obtain g n z1 ps z2 where h: "LoadHead name p z = Inr ((g, n), z1)"
    and ps: "LoadProtos name (pr_source g) n z1 = Inr (ps, z2)" and t: "LoadTail name g ps z2 = Inr (f, z')"
    by (auto simp: LoadFunction.psimps [OF "1.hyps"] split: sum.splits)
  have "zsize z1 + 8 \<le> zsize z" using consumes_head h unfolding consumes_def by blast
  moreover have "zsize z2 \<le> zsize z1" using "1.IH" [OF h refl refl ps] .
  moreover have "zsize z' \<le> zsize z2" using consumes_tail t unfolding consumes_def by fastforce
  ultimately show ?case by linarith
next
  case (2 name p z)
  then show ?case by (simp add: LoadProtos.psimps)
next
  case (3 name p n z)
  from "3.prems" obtain g z1 gs where g: "LoadFunction name p z = Inr (g, z1)"
    and gs: "LoadProtos name p n z1 = Inr (gs, z')"
    by (auto simp: LoadProtos.psimps(2) [OF "3.hyps"] split: sum.splits)
  show ?case using "3.IH"(1) [OF g] "3.IH"(2) [OF g refl gs] by linarith
qed

termination LoadFunction
proof (relation "measure (case_sum (\<lambda>(name, p, z). 2 * zsize z) (\<lambda>(name, p, n, z). 2 * zsize z + 1))",
    goal_cases)
  case (2 name p z x y f n z1)
  then show ?case using consumes_head unfolding consumes_def by fastforce
next
  case (4 name p n z x f z1)
  then show ?case using LoadFunction_consumes(1) by fastforce
qed auto

declare LoadFunction.simps [simp del] LoadProtos.simps [simp del]

section \<open>The header and the chunk\<close>

definition LoadHeader :: "c_string \<Rightarrow> unit loader" where
  "LoadHeader name = bindL (LoadBlock name LUAC_HEADERSIZE) (\<lambda>s.
     if luaU_header \<noteq> s then (\<lambda>z. Inl (undump_error name ''bad header'')) else returnL ())"

definition undump_name :: "c_string \<Rightarrow> c_string" where
  "undump_name name =
     (case name of
        [] \<Rightarrow> []
      | c # cs \<Rightarrow>
          if c = CHR ''@'' \<or> c = CHR ''='' then cs
          else if c = hd LUA_SIGNATURE then ''binary string'' else name)"

definition luaU_undump :: "c_string \<Rightarrow> Proto loader" where
  "luaU_undump name = (let name = undump_name name in
     bindL (LoadHeader name) (\<lambda>_. LoadFunction name (Some ''=?'')))"

section \<open>Reading back what was written\<close>

text \<open>
  \<open>parses e m b x\<close>: on a stream that starts with the bytes \<open>b\<close> the loader \<open>m\<close> returns \<open>x\<close>
  and leaves exactly the rest; on a stream that ends inside \<open>b\<close> it raises \<open>e\<close>.
\<close>

definition parses :: "lua_error \<Rightarrow> 'a loader \<Rightarrow> c_string \<Rightarrow> 'a \<Rightarrow> bool" where
  "parses e m b x \<longleftrightarrow> (\<forall>z. zio_ok z \<longrightarrow>
     (\<forall>r. zcontent z = b @ r \<longrightarrow> (\<exists>z'. m z = Inr (x, z') \<and> zio_ok z' \<and> zcontent z' = r))
     \<and> (strict_prefix (zcontent z) b \<longrightarrow> m z = Inl e))"

lemma parses_delivers:
  "parses e m b x \<Longrightarrow> zio_ok z \<Longrightarrow> zcontent z = b @ r \<Longrightarrow>
    \<exists>z'. m z = Inr (x, z') \<and> zio_ok z' \<and> zcontent z' = r"
  by (simp add: parses_def)

lemma parses_return: "parses e (returnL x) [] x"
  by (auto simp: parses_def returnL_def)

lemma parses_bind:
  assumes m: "parses e m b x" and f: "parses e (f x) b' y"
  shows "parses e (bindL m f) (b @ b') y"
  unfolding parses_def
proof (intro allI impI conjI)
  fix z r
  assume z: "zio_ok z" "zcontent z = (b @ b') @ r"
  then obtain z1 where z1: "m z = Inr (x, z1)" "zio_ok z1" "zcontent z1 = b' @ r"
    using m by (metis parses_def append_assoc)
  then obtain z2 where "f x z1 = Inr (y, z2)" "zio_ok z2" "zcontent z2 = r"
    using f by (metis parses_def)
  with z1 show "\<exists>z'. bindL m f z = Inr (y, z') \<and> zio_ok z' \<and> zcontent z' = r"
    by (simp add: bindL_def)
next
  fix z
  assume z: "zio_ok z" and "strict_prefix (zcontent z) (b @ b')"
  then consider "strict_prefix (zcontent z) b"
    | c where "zcontent z = b @ c" "strict_prefix c b'"
    by (cases "zcontent z = b") (auto simp: strict_prefix_def prefix_append)
  then show "bindL m f z = Inl e"
  proof cases
    case 1
    with m z show ?thesis by (simp add: parses_def bindL_def)
  next
    case 2
    then obtain z1 where "m z = Inr (x, z1)" "zio_ok z1" "zcontent z1 = c"
      using m z by (metis parses_def)
    with 2 f show ?thesis by (simp add: parses_def bindL_def)
  qed
qed

lemma parses_bind_return:
  "parses e m b x \<Longrightarrow> f x = returnL y \<Longrightarrow> parses e (bindL m f) b y"
  using parses_bind [of e m b x f "[]" y] parses_return [of e y] by simp

lemma parses_block:
  assumes "length b = n"
  shows "parses (undump_error name ''unexpected end'') (LoadBlock name n) b b"
  unfolding parses_def
proof (intro allI impI conjI)
  fix z r
  assume z: "zio_ok z" "zcontent z = b @ r"
  then show "\<exists>z'. LoadBlock name n z = Inr (b, z') \<and> zio_ok z' \<and> zcontent z' = r"
    using luaZ_read_delivers [OF z(1), of n] assms by (auto simp: LoadBlock_def)
next
  fix z
  assume z: "zio_ok z" "strict_prefix (zcontent z) b"
  then have "length (zcontent z) < n" using assms prefix_length_less by blast
  then show "LoadBlock name n z = Inl (undump_error name ''unexpected end'')"
    using luaZ_read_delivers [OF z(1), of n] by (auto simp: LoadBlock_def)
qed

section \<open>The codecs of the basic types\<close>

lemma length_le_bytes [simp]: "length (le_bytes n x) = n"
  by (simp add: le_bytes_def)

lemma le_bytes_Suc: "le_bytes (Suc n) x = char_of x # le_bytes n (x div 256)"
  by (simp add: le_bytes_def upt_conv_Cons map_Suc_upt [symmetric] o_def zdiv_zmult2_eq del: upt_Suc)

lemma le_value_le_bytes: "le_value (le_bytes n x) = x mod 256 ^ n"
proof (induction n arbitrary: x)
  case 0
  then show ?case by (simp add: le_bytes_def)
next
  case (Suc n)
  have "x mod (256 * 256 ^ n) = x mod 256 + 256 * (x div 256 mod 256 ^ n)"
    by (simp add: zmod_zmult2_eq)
  then show ?case by (simp add: le_bytes_Suc Suc.IH)
qed

lemma sint_value_int_bytes:
  "- (2 ^ 31) \<le> x \<Longrightarrow> x < 2 ^ 31 \<Longrightarrow> sint_value (int_bytes x) = x"
  by (cases "0 \<le> x") (simp_all add: sint_value_def le_value_le_bytes Let_def mod_neg)

lemma instr_bytes_value: "(word_of_int (le_value (instr_bytes i)) :: Instruction) = i"
  using uint_lt2p [of i] by (simp add: instr_bytes_def le_value_le_bytes)

lemma number_bytes_value: "(word_of_int (le_value (number_bytes x)) :: lua_Number) = x"
  using uint_lt2p [of x] by (simp add: number_bytes_def le_value_le_bytes)

lemma number_bytes_length: "length (number_bytes x) = 8" by (simp add: number_bytes_def)

lemma schar_char_of: "- 128 \<le> x \<Longrightarrow> x < 128 \<Longrightarrow> schar (char_of x) = x"
  by (cases "0 \<le> x") (simp_all add: schar_def Let_def mod_neg)

lemma schar_byte: "(word_of_int (schar (char_of (uint x))) :: lu_byte) = x"
proof -
  have "uint x < 256" using uint_lt2p [of x] by simp
  then show ?thesis
    by (simp add: schar_def Let_def mod_pos_pos_trivial)
qed

definition int_ok :: "int \<Rightarrow> bool" where "int_ok x \<longleftrightarrow> 0 \<le> x \<and> x < 2 ^ 31"

definition string_ok :: "c_string option \<Rightarrow> bool" where
  "string_ok s \<longleftrightarrow> (case s of None \<Rightarrow> True | Some s \<Rightarrow> int (length s) + 1 < 2 ^ 64)"

fun const_ok :: "TValue \<Rightarrow> bool" where
  "const_ok TNil = True"
| "const_ok (TBoolean b) = (- 128 \<le> b \<and> b < 128)"
| "const_ok (TNumber n) = True"
| "const_ok (TGC (GString s)) = string_ok (Some s)"
| "const_ok _ = False"

definition locvar_ok :: "LocVar \<Rightarrow> bool" where
  "locvar_ok v \<longleftrightarrow> string_ok (varname v) \<and> int_ok (startpc v) \<and> int_ok (endpc v)"

abbreviation unexpected_end :: "c_string \<Rightarrow> lua_error" where
  "unexpected_end name \<equiv> undump_error name ''unexpected end''"

lemma parses_char: "- 128 \<le> x \<Longrightarrow> x < 128 \<Longrightarrow> parses (unexpected_end name) (LoadChar name) [char_of x] x"
  unfolding LoadChar_def
  by (rule parses_bind_return [OF parses_block]) (simp_all add: schar_char_of)

lemma parses_byte:
  "parses (unexpected_end name) (LoadByte name) [char_of (uint x)] x"
  unfolding LoadByte_def LoadChar_def
  by (rule parses_bind_return [OF parses_bind_return [OF parses_block]]) (simp, rule refl, simp add: schar_byte)

lemma parses_int: "int_ok x \<Longrightarrow> parses (unexpected_end name) (LoadInt name) (int_bytes x) x"
  unfolding LoadInt_def
  by (rule parses_bind_return [OF parses_block]) (auto simp: sint_value_int_bytes int_ok_def Let_def)

lemma parses_number: "parses (unexpected_end name) (LoadNumber name) (number_bytes x) x"
  unfolding LoadNumber_def
  by (rule parses_bind_return [OF parses_block]) (simp_all add: number_bytes_value number_bytes_length)

lemma parses_string:
  assumes "string_ok s"
  shows "parses (unexpected_end name) (LoadString name) (string_enc s) s"
proof (cases s)
  case None
  then show ?thesis unfolding LoadString_def
    by (simp add: string_enc_def)
      (rule parses_bind_return [OF parses_block], simp_all add: le_value_le_bytes)
next
  case (Some t)
  let ?n = "int (length t) + 1"
  have n: "le_value (size_bytes ?n) = ?n"
    using assms Some by (simp add: le_value_le_bytes string_ok_def)
  show ?thesis unfolding LoadString_def Some string_enc_def option.case
    by (rule parses_bind [OF parses_block], simp, simp only: n Let_def)
      (auto intro!: parses_bind_return [OF parses_block] simp: nat_add_distrib)
qed

section \<open>Codecs\<close>

text \<open>
  A codec is an encoding and a loader that reads it back for the values that are \<open>ok\<close>. A
  codec gives one for arrays: the count, then the elements.
\<close>

locale codec =
  fixes name :: c_string and load :: "'a loader" and enc :: "'a \<Rightarrow> c_string" and ok :: "'a \<Rightarrow> bool"
  assumes decodes: "ok x \<Longrightarrow> parses (unexpected_end name) load (enc x) x"
begin

lemma list_decodes:
  "list_all ok xs \<Longrightarrow> parses (unexpected_end name) (LoadN load (length xs)) (concat (map enc xs)) xs"
proof (induction xs)
  case Nil
  then show ?case by (simp add: parses_return)
next
  case (Cons x xs)
  then show ?case using decodes [of x]
    by (auto intro!: parses_bind parses_bind_return [where x = xs])
qed

lemma counted_decodes:
  assumes "list_all ok xs" and "int_ok (int (length xs))"
    and "parses (unexpected_end name) (f xs) b y"
  shows "parses (unexpected_end name) (bindL (LoadInt name) (\<lambda>n. bindL (LoadN load (nat n)) f))
     (list_enc enc xs @ b) y"
  unfolding list_enc_def append_assoc
  using assms(3) parses_bind [OF list_decodes [OF assms(1)]]
  by (intro parses_bind [OF parses_int [OF assms(2)]]) simp

end

interpretation int_codec: codec name "LoadInt name" int_bytes int_ok for name
  by unfold_locales (rule parses_int)

interpretation string_codec: codec name "LoadString name" string_enc string_ok for name
  by unfold_locales (rule parses_string)

interpretation locvar_codec: codec name "LoadLocVar name" locvar_enc locvar_ok for name
proof unfold_locales
  fix v assume v: "locvar_ok v"
  show "parses (unexpected_end name) (LoadLocVar name) (locvar_enc v) v"
    unfolding LoadLocVar_def locvar_enc_def using v
    by (intro parses_bind [OF parses_string] parses_bind [OF parses_int]
        parses_bind_return [OF parses_int]) (simp_all add: locvar_ok_def, cases v, simp)
qed

lemma parses_constant:
  assumes "const_ok k"
  shows "parses (unexpected_end name) (LoadConstant name) (constant_enc k) k"
proof -
  have step: "parses (unexpected_end name) (LoadConstant name) ([char_of (ttype k)] @ b) k"
    if "parses (unexpected_end name) ((\<lambda>t.
     if t = LUA_TNIL then returnL TNil
     else if t = LUA_TBOOLEAN then bindL (LoadChar name) (\<lambda>b. returnL (TBoolean b))
     else if t = LUA_TNUMBER then bindL (LoadNumber name) (\<lambda>n. returnL (TNumber n))
     else if t = LUA_TSTRING then bindL (LoadString name) (\<lambda>s. case s of
         None \<Rightarrow> (\<lambda>z. Inl OutOfBounds) | Some s \<Rightarrow> returnL (TGC (GString s)))
     else (\<lambda>z. Inl (undump_error name ''bad constant''))) (ttype k)) b k"
    and "- 128 \<le> ttype k" "ttype k < 128" for b
    unfolding LoadConstant_def using that by (intro parses_bind [OF parses_char])
  show ?thesis
  proof (cases k rule: const_ok.cases)
    case 1
    then show ?thesis using step [of "[]"]
      by (simp add: constant_enc_def parses_return tag_defs)
  next
    case (2 b)
    then show ?thesis using step [of "[char_of b]"] assms
      by (simp add: constant_enc_def tag_defs parses_bind_return [OF parses_char])
  next
    case (3 n)
    then show ?thesis using step [of "number_bytes n"]
      by (simp add: constant_enc_def tag_defs parses_bind_return [OF parses_number])
  next
    case (4 s)
    then show ?thesis using step [of "string_enc (Some s)"] assms
      by (simp add: constant_enc_def tag_defs parses_bind_return [OF parses_string])
  qed (use assms in simp_all)
qed

interpretation constant_codec: codec name "LoadConstant name" constant_enc const_ok for name
  by unfold_locales (rule parses_constant)

text \<open>Arrays of fixed size elements are one block.\<close>

lemma length_concat_fixed: "\<forall>x\<in>set xs. length (f x) = w \<Longrightarrow> length (concat (map f xs)) = length xs * w"
  by (induction xs) auto

lemma chunks_concat: "\<forall>x\<in>set xs. length (f x) = w \<Longrightarrow> chunks w (length xs) (concat (map f xs)) = map f xs"
  by (induction xs) auto

lemma parses_vector:
  assumes w: "\<And>x. length (bytes x) = w" and n: "int_ok (int (length xs))"
    and f: "parses (unexpected_end name) (f (map bytes xs)) b y"
  shows "parses (unexpected_end name) (bindL (LoadInt name) (\<lambda>n. bindL (LoadVector name (nat n) w) f))
     (list_enc bytes xs @ b) y"
proof -
  have "parses (unexpected_end name) (LoadVector name (length xs) w) (concat (map bytes xs)) (map bytes xs)"
    unfolding LoadVector_def
    by (rule parses_bind_return [OF parses_block]) (simp_all add: w length_concat_fixed chunks_concat)
  with f show ?thesis unfolding list_enc_def append_assoc
    by (intro parses_bind [OF parses_int [OF n]]) (simp add: parses_bind)
qed


section \<open>Stripping keeps the verdict of the checker\<close>

text \<open>\<open>same_code\<close>: the two prototypes agree on all that the checker's loop reads.\<close>

definition same_code :: "Proto \<Rightarrow> Proto \<Rightarrow> bool" where
  "same_code f g \<longleftrightarrow> pr_code f = pr_code g \<and> pr_k f = pr_k g \<and> map nups (pr_p f) = map nups (pr_p g)
     \<and> maxstacksize f = maxstacksize g \<and> nups f = nups g \<and> is_vararg f = is_vararg g"

lemma same_code_arrays:
  assumes "same_code f g"
  shows "code_at f = code_at g" "k_at f = k_at g" "checkreg f = checkreg g" "sizecode f = sizecode g"
    "sizek f = sizek g" "sizep f = sizep g" "maxstacksize f = maxstacksize g" "nups f = nups g"
    "is_vararg f = is_vararg g" "checkArgMode f = checkArgMode g"
proof -
  show c: "code_at f = code_at g" "k_at f = k_at g" "checkreg f = checkreg g" "sizecode f = sizecode g"
    "sizek f = sizek g" "maxstacksize f = maxstacksize g" "nups f = nups g" "is_vararg f = is_vararg g"
    using assms by (auto simp: same_code_def code_at_def k_at_def checkreg_def proto_sizes fun_eq_iff)
  show "sizep f = sizep g"
    using assms by (metis same_code_def length_map sizep_def)
  have "checkArgMode f r m = checkArgMode g r m" for r m by (cases m) (simp_all add: c)
  then show "checkArgMode f = checkArgMode g" by (simp add: fun_eq_iff)
qed

lemma same_code_upvals:
  assumes "same_code f g"
  shows "sym_upvals f pc j n = sym_upvals g pc j n"
  using assms
proof (induction g pc j n rule: sym_upvals.induct)
  case (1 g pc j nup)
  note c = same_code_arrays [OF "1.prems"]
  show ?case
  proof (cases "code_at g (pc + j)")
    case (Inr d)
    then show ?thesis using 1 c
      by (simp add: sym_upvals.simps [of f pc j nup] sym_upvals.simps [of g pc j nup] check_def)
  qed (auto simp: c sym_upvals.simps [of f pc j nup] sym_upvals.simps [of g pc j nup] code_at_def)
qed

lemma same_code_step:
  assumes "same_code f g"
  shows "sym_step f lastpc reg pc lst = sym_step g lastpc reg pc lst"
proof -
  note [simp] = same_code_arrays [OF assms]
  have p: "bind_result (p_at f b) (\<lambda>p. h (nups p)) = bind_result (p_at g b) (\<lambda>p. h (nups p))" for b h
  proof (cases "0 \<le> b \<and> b < sizep g")
    case True
    moreover have "length (pr_p f) = length (pr_p g)"
      using assms unfolding same_code_def by (metis length_map)
    moreover have "map nups (pr_p f) ! nat b = map nups (pr_p g) ! nat b"
      using assms by (simp add: same_code_def)
    ultimately have "nups (pr_p f ! nat b) = nups (pr_p g ! nat b)" by (simp add: sizep_def nat_less_iff)
    with True show ?thesis by (simp add: p_at_def)
  qed (auto simp: p_at_def)
  have ops: "sym_op f lastpc reg pc = sym_op g lastpc reg pc"
  proof (intro ext)
    fix lst op a b c
    show "sym_op f lastpc reg pc lst op a b c = sym_op g lastpc reg pc lst op a b c"
  proof (cases "op = OP_CLOSURE")
    case True
    show ?thesis
      using p [of b "\<lambda>n. check (pc + uint n < sizecode g) (bind_result (sym_upvals g pc 1 (uint n))
        (\<lambda>u. case u of None \<Rightarrow> Inr None
          | Some _ \<Rightarrow> Inr (Some (if reg \<noteq> NO_REG then pc + uint n else pc, lst))))"]
      by (simp add: True sym_op_def Let_def same_code_upvals [OF assms])
  next
    case False
    then show ?thesis by (cases op) (simp_all add: sym_op_def Let_def)
  qed
  qed
  have "sym_args f pc i op = sym_args g pc i op" for i op
    by (cases "getOpMode op") (simp_all add: sym_args_def Let_def)
  then have args: "sym_args f pc = sym_args g pc" by (intro ext)
  have tests: "sym_test f pc = sym_test g pc" by (intro ext) (simp add: sym_test_def)
  show ?thesis
    unfolding sym_step_def ops args tests same_code_arrays [OF assms] by (rule refl)
qed


lemma same_code_check:
  assumes "same_code f g" and "luaG_checkcode f = Inr True"
    and "sizeupvalues g \<le> uint (nups g)" and "sizelineinfo g = sizecode g \<or> sizelineinfo g = 0"
  shows "luaG_checkcode g = Inr True"
proof -
  note c = same_code_arrays [OF assms(1)]
  have loop: "sym_loop f l reg pc lst = sym_loop g l reg pc lst" for l reg pc lst
    using assms(1)
  proof (induction g l reg pc lst rule: sym_loop.induct)
    case (1 g l reg pc lst)
    then show ?case
      by (simp add: sym_loop.simps [of f l reg pc lst] sym_loop.simps [of g l reg pc lst]
          same_code_step [OF "1.prems"] split: sum.splits option.splits)
  qed
  have "precheck f = Inr True"
    using assms(2) by (auto simp: luaG_checkcode_def symbexec_def bind_result_eq_Inr split: if_splits)
  moreover have "precheck g = precheck f"
    using calculation assms(3,4) by (simp add: precheck_def c split: if_splits)
  ultimately show ?thesis
    using assms(2) by (simp add: luaG_checkcode_def symbexec_def c loop)
qed

section \<open>The round trip\<close>

text \<open>\<open>Forall_proto P\<close>: \<open>P\<close> holds of a function and of all the functions nested in it.\<close>

fun Forall_proto :: "(Proto \<Rightarrow> bool) \<Rightarrow> Proto \<Rightarrow> bool" where
  "Forall_proto P (Proto k code ps li lv uv src ld lld nu np va ms) \<longleftrightarrow>
     P (Proto k code ps li lv uv src ld lld nu np va ms) \<and> list_all (Forall_proto P) ps"

text \<open>
  What the compiler guarantees of a function: sizes and line numbers are non-negative
  \<open>int\<close>s, every function has a source, constants are of the four kinds, and the checker
  accepts the code.
\<close>

definition dumpable :: "Proto \<Rightarrow> bool" where
  "dumpable f \<longleftrightarrow>
     list_all const_ok (pr_k f) \<and> int_ok (sizek f) \<and> int_ok (sizecode f) \<and> int_ok (sizep f)
     \<and> list_all (\<lambda>n. - (2 ^ 31) \<le> n \<and> n < 2 ^ 31) (pr_lineinfo f) \<and> int_ok (sizelineinfo f)
     \<and> list_all locvar_ok (pr_locvars f) \<and> int_ok (sizelocvars f)
     \<and> list_all string_ok (pr_upvalues f) \<and> int_ok (sizeupvalues f)
     \<and> pr_source f \<noteq> None \<and> string_ok (pr_source f)
     \<and> int_ok (linedefined f) \<and> int_ok (lastlinedefined f)
     \<and> luaG_checkcode f = Inr True"

text \<open>What is left of a function after stripping: no debug information, and source \<open>=?\<close>.\<close>

fun strip_debug :: "Proto \<Rightarrow> Proto" where
  "strip_debug (Proto k code ps li lv uv src ld lld nu np va ms) =
     Proto k code (map strip_debug ps) [] [] [] (Some ''=?'') ld lld nu np va ms"

definition undumped :: "bool \<Rightarrow> Proto \<Rightarrow> Proto" where
  "undumped strip f = (if strip then strip_debug f else f)"

lemma nups_strip [simp]: "nups (strip_debug f) = nups f" by (cases f) simp

lemma LoadFunction_bind: "LoadFunction name p =
   bindL (LoadHead name p) (\<lambda>(f, n). bindL (LoadProtos name (pr_source f) n) (LoadTail name f))"
  by (rule ext) (simp add: LoadFunction.simps bindL_def split: sum.split prod.split)

lemma LoadProtos_bind: "LoadProtos name p (Suc n) =
   bindL (LoadFunction name p) (\<lambda>f. bindL (LoadProtos name p n) (\<lambda>fs. returnL (f # fs)))"
  by (rule ext) (simp add: LoadProtos.simps bindL_def returnL_def split: sum.split prod.split)

lemma LoadProtos_0: "LoadProtos name p 0 = returnL []"
  by (rule ext) (simp add: LoadProtos.simps returnL_def)

lemma parses_head:
  assumes "int_ok ld" "int_ok lld" "int_ok (int (length code))" "list_all const_ok k"
    "int_ok (int (length k))" "int_ok (int n)" "string_ok s"
  shows "parses (unexpected_end name) (LoadHead name p)
    (string_enc s @ int_bytes ld @ int_bytes lld @ [char_of (uint nu)] @ [char_of (uint np)]
     @ [char_of (uint va)] @ [char_of (uint ms)] @ list_enc instr_bytes code @ list_enc constant_enc k
     @ int_bytes (int n))
    (Proto k code [] [] [] [] (if s = None then p else s) ld lld nu np va ms, n)"
proof -
  have "parses (unexpected_end name)
      (bindL (LoadInt name) (\<lambda>n. bindL (LoadN (LoadConstant name) (nat n)) (\<lambda>k.
       bindL (LoadInt name) (\<lambda>n. returnL (h k n)))))
      (list_enc constant_enc k @ int_bytes (int n)) (h k (int n))" for h :: "TValue list \<Rightarrow> int \<Rightarrow> Proto \<times> nat"
    using assms by (intro constant_codec.counted_decodes parses_bind_return [OF parses_int]) simp_all
  note kloop = this
  have "parses (unexpected_end name)
      (bindL (LoadCode name) (\<lambda>code. bindL (LoadInt name) (\<lambda>n. bindL (LoadN (LoadConstant name) (nat n)) (\<lambda>k.
       bindL (LoadInt name) (\<lambda>n. returnL (h code k n))))))
      (list_enc instr_bytes code @ list_enc constant_enc k @ int_bytes (int n)) (h code k (int n))"
    for h :: "Instruction list \<Rightarrow> TValue list \<Rightarrow> int \<Rightarrow> Proto \<times> nat"
  proof (rule parses_bind [where x = code], goal_cases)
    case 1
    show ?case
      unfolding LoadCode_def
      using parses_vector [of instr_bytes 4 code name "\<lambda>bs. returnL (map (\<lambda>b. word_of_int (le_value b)) bs)" "[]" code]
        assms(3)
      by (simp add: parses_return o_def instr_bytes_value) (simp add: instr_bytes_def parses_return)
  next
    case 2
    show ?case by (rule kloop)
  qed
  note cloop = this [of "\<lambda>code k n.
    (Proto k code [] [] [] [] (if s = None then p else s) ld lld nu np va ms, nat n)"]
  show ?thesis unfolding LoadHead_def Let_def using assms cloop
    by (intro parses_bind [OF parses_string] parses_bind [OF parses_int] parses_bind [OF parses_byte]) simp_all
qed


lemma parses_debug:
  assumes "list_all (\<lambda>n. - (2 ^ 31) \<le> n \<and> n < 2 ^ 31) li" "int_ok (int (length li))"
    "list_all locvar_ok lv" "int_ok (int (length lv))"
    "list_all string_ok uv" "int_ok (int (length uv))"
  shows "parses (unexpected_end name) (LoadDebug name)
    (list_enc int_bytes li @ list_enc locvar_enc lv @ list_enc string_enc uv) (li, lv, uv)"
proof -
  have li: "map sint_value (map int_bytes li) = li"
    using assms(1) by (induction li) (simp_all add: sint_value_int_bytes)
  have "parses (unexpected_end name)
     (bindL (LoadInt name) (\<lambda>n. bindL (LoadN (LoadString name) (nat n)) (\<lambda>uv. returnL (li, lv, uv))))
     (list_enc string_enc uv @ []) (li, lv, uv)"
    using assms by (intro string_codec.counted_decodes parses_return)
  then show ?thesis unfolding LoadDebug_def using assms li
    by (intro parses_vector locvar_codec.counted_decodes) simp_all
qed

lemma parses_tail:
  assumes "parses (unexpected_end name) (LoadDebug name) b (li, lv, uv)"
    and "luaG_checkcode (Proto k code ps li lv uv src ld lld nu np va ms) = Inr True"
  shows "parses (unexpected_end name)
    (LoadTail name (Proto k code [] [] [] [] src ld lld nu np va ms) ps) b
    (Proto k code ps li lv uv src ld lld nu np va ms)"
  unfolding LoadTail_def
  by (rule parses_bind_return [OF assms(1)]) (simp add: assms(2) Let_def returnL_def fun_eq_iff)

text \<open>
  The source the loader inherits: that of the enclosing function, which the dump leaves out
  where it is the same; the constant \<open>=?\<close> at the top and in a stripped dump.
\<close>

definition inherits :: "bool \<Rightarrow> c_string option \<Rightarrow> c_string option \<Rightarrow> bool" where
  "inherits strip pd pl \<longleftrightarrow> (if strip then pl = Some ''=?'' else pd = None \<or> pd = pl)"

lemma strip_same_code:
  "same_code (Proto k code ps li lv uv src ld lld nu np va ms)
     (Proto k code (map (undumped strip) ps) li' lv' uv' src' ld lld nu np va ms)"
  by (simp add: same_code_def undumped_def o_def)

lemma parses_function:
  "Forall_proto dumpable f \<Longrightarrow> inherits strip pd pl \<Longrightarrow>
    parses (unexpected_end name) (LoadFunction name pl) (function_enc strip pd f) (undumped strip f)"
proof (induction strip pd f arbitrary: pl rule: function_enc.induct)
  case (1 strip pd k code ps li lv uv src ld lld nu np va ms)
  let ?f = "Proto k code ps li lv uv src ld lld nu np va ms"
  let ?s = "if src = pd \<or> strip then None else src"
  let ?src = "if ?s = None then pl else ?s"
  have f: "dumpable ?f" and nested: "list_all (Forall_proto dumpable) ps"
    using "1.prems" by simp_all
  have src: "?src = (if strip then Some ''=?'' else src)"
    using "1.prems"(2) f by (auto simp: inherits_def dumpable_def)
  have inh: "inherits strip src ?src" unfolding src by (simp add: inherits_def)
  have ps: "parses (unexpected_end name) (LoadProtos name ?src (length qs))
      (concat (map (function_enc strip src) qs)) (map (undumped strip) qs)" if "set qs \<subseteq> set ps" for qs
    using that
  proof (induction qs)
    case Nil
    then show ?case by (simp add: LoadProtos_0 parses_return)
  next
    case (Cons q qs)
    then have "parses (unexpected_end name) (LoadFunction name ?src) (function_enc strip src q) (undumped strip q)"
      using "1.IH" inh nested by (simp add: list_all_iff)
    with Cons show ?case
      by (auto simp only: LoadProtos_bind list.map length_Cons concat.simps set_simps insert_subset
          intro!: parses_bind parses_bind_return [where x = "map (undumped strip) qs"])
  qed
  let ?li = "if strip then [] else li" and ?lv = "if strip then [] else lv" and ?uv = "if strip then [] else uv"
  let ?g = "Proto k code (map (undumped strip) ps) ?li ?lv ?uv ?src ld lld nu np va ms"
  have g: "undumped strip ?f = ?g"
    unfolding src by (simp add: undumped_def) (simp add: undumped_def [abs_def])
  have "luaG_checkcode ?g = Inr True"
  proof (rule same_code_check [OF strip_same_code])
    show "luaG_checkcode ?f = Inr True" using f by (simp add: dumpable_def)
    then have "precheck ?f = Inr True"
      by (auto simp: luaG_checkcode_def symbexec_def bind_result_eq_Inr split: if_splits)
    then show "sizeupvalues ?g \<le> uint (nups ?g)" "sizelineinfo ?g = sizecode ?g \<or> sizelineinfo ?g = 0"
      by (auto simp: precheck_True proto_sizes)
  qed
  then have tail: "parses (unexpected_end name)
      (LoadTail name (Proto k code [] [] [] [] ?src ld lld nu np va ms) (map (undumped strip) ps))
      (debug_enc strip ?f) ?g"
    using f by (intro parses_tail)
      (auto simp: debug_enc_def dumpable_def proto_sizes int_ok_def intro!: parses_debug)
  have "string_ok ?s" using f by (simp add: dumpable_def string_ok_def)
  then have head: "parses (unexpected_end name) (LoadHead name pl)
    (string_enc ?s @ int_bytes ld @ int_bytes lld @ [char_of (uint nu)] @ [char_of (uint np)]
     @ [char_of (uint va)] @ [char_of (uint ms)] @ list_enc instr_bytes code @ list_enc constant_enc k
     @ int_bytes (int (length ps)))
    (Proto k code [] [] [] [] ?src ld lld nu np va ms, length ps)"
    using f by (intro parses_head) (simp_all add: dumpable_def proto_sizes)
  have "parses (unexpected_end name) (LoadFunction name pl)
     ((string_enc ?s @ int_bytes ld @ int_bytes lld @ [char_of (uint nu)] @ [char_of (uint np)]
     @ [char_of (uint va)] @ [char_of (uint ms)] @ list_enc instr_bytes code @ list_enc constant_enc k
     @ int_bytes (int (length ps)))
     @ concat (map (function_enc strip src) ps) @ debug_enc strip ?f) ?g"
    unfolding LoadFunction_bind
    by (rule parses_bind [OF head]) (simp only: prod.case Proto.sel, rule parses_bind [OF ps [OF order_refl]], rule tail)
  then show ?case unfolding g by simp
qed


lemma parses_header:
  "parses (unexpected_end name) (LoadHeader name) luaU_header ()"
  unfolding LoadHeader_def
  by (rule parses_bind_return [OF parses_block])
    (simp_all add: LUAC_HEADERSIZE_def luaU_header_def LUA_SIGNATURE_def)

lemma parses_chunk:
  assumes "Forall_proto dumpable f"
  shows "parses (unexpected_end (undump_name name)) (luaU_undump name)
    (snd (luaU_dump f strlib_writer [] strip)) (undumped strip f)"
proof -
  have "parses (unexpected_end (undump_name name)) (LoadFunction (undump_name name) (Some ''=?''))
      (function_enc strip None f) (undumped strip f)"
    by (rule parses_function [OF assms]) (simp add: inherits_def)
  from parses_bind [OF parses_header, of _ "\<lambda>_. LoadFunction (undump_name name) (Some ''=?'')", OF this]
  show ?thesis by (simp add: luaU_undump_def Let_def strlib.dump_writes(2))
qed

lemma luaZ_init_single:
  "b \<noteq> [] \<Longrightarrow> int (length b) < 2 ^ 64 \<Longrightarrow> zio_ok (luaZ_init [b])"
  "b \<noteq> [] \<Longrightarrow> zcontent (luaZ_init [b]) = b"
  by (simp_all add: luaZ_init_ok zcontent_def) (simp_all add: luaZ_init_def)

text \<open>
  Claim \<open>C1\<close>. Reading back a dump gives the function that was dumped, with all its nested
  functions, or that function without its debug information when it was stripped. It holds for
  every function the compiler may produce and however the reader cuts the bytes into blocks,
  and exactly the dump is consumed.
\<close>

theorem undump_dump:
  assumes "Forall_proto dumpable f" and "zio_ok z"
    and "zcontent z = snd (luaU_dump f strlib_writer [] strip) @ r"
  shows "\<exists>z'. luaU_undump name z = Inr (if strip then strip_debug f else f, z') \<and> zcontent z' = r"
  using parses_chunk [OF assms(1)] assms(2,3) by (fastforce simp: parses_def undumped_def)

definition sample_proto :: Proto where
  "sample_proto = Proto [TNumber 0x3FF0000000000000, TGC (GString ''print'')]
     [CREATE_ABx (op_num OP_CLOSURE) 0 0, CREATE_ABC (op_num OP_RETURN) 0 1 0]
     [Proto [TNil] [CREATE_ABC (op_num OP_RETURN) 0 1 0] [] [7] [] [] (Some ''@f.lua'') 7 7 0 0 0 2]
     [7, 9] [\<lparr>varname = Some ''x'', startpc = 1, endpc = 2\<rparr>] [] (Some ''@f.lua'') 0 0 0 0 2 2"

lemma sample_proto_dumpable: "Forall_proto dumpable sample_proto"
  by code_simp

theorem undump_dump_witness:
  "\<exists>z'. luaU_undump ''@f.lua'' (luaZ_init [snd (luaU_dump sample_proto strlib_writer [] False)]) =
     Inr (sample_proto, z') \<and> zcontent z' = []"
proof -
  let ?b = "snd (luaU_dump sample_proto strlib_writer [] False)"
  have "?b \<noteq> [] \<and> int (length ?b) < 2 ^ 64" by code_simp
  then have "zio_ok (luaZ_init [?b])" and "zcontent (luaZ_init [?b]) = ?b @ []"
    by (simp_all add: luaZ_init_single)
  from undump_dump [OF sample_proto_dumpable this] show ?thesis by simp
qed

text \<open>
  Claim \<open>C9\<close>. A dump that was cut off anywhere, in the header too, is refused with the
  error "unexpected end"; it is never taken for a shorter function.
\<close>

theorem undump_truncated:
  assumes "Forall_proto dumpable f" and "zio_ok z"
    and "strict_prefix (zcontent z) (snd (luaU_dump f strlib_writer [] strip))"
  shows "luaU_undump name z =
    Inl (ErrSyntax (undump_name name @ '': unexpected end in precompiled chunk''))"
  using parses_chunk [OF assms(1)] assms(2,3) by (simp add: parses_def undump_error_def)

theorem undump_truncated_witness:
  "luaU_undump ''=x'' (luaZ_init [take 40 (snd (luaU_dump sample_proto strlib_writer [] True))]) =
    Inl (ErrSyntax ''x: unexpected end in precompiled chunk'')"
proof -
  let ?b = "snd (luaU_dump sample_proto strlib_writer [] True)"
  have b: "40 < length ?b \<and> int (length ?b) < 2 ^ 64" by code_simp
  then have "take 40 ?b \<noteq> []" "int (length (take 40 ?b)) < 2 ^ 64" by auto
  note t = luaZ_init_single [OF this(1)]
  have "strict_prefix (take 40 ?b) ?b"
    using b by (metis length_take less_irrefl min.strict_order_iff strict_prefix_def take_is_prefix min.commute)
  with t(2) have "strict_prefix (zcontent (luaZ_init [take 40 ?b])) ?b" by simp
  from undump_truncated [OF sample_proto_dumpable t(1) this] b show ?thesis
    by (simp add: undump_name_def LUA_SIGNATURE_def)
qed

section \<open>What is accepted has been checked\<close>

lemma LoadTail_checked:
  assumes "LoadTail name f ps z = Inr (g, z')"
  shows "luaG_checkcode g = Inr True" "pr_p g = ps"
proof -
  obtain r z1 where "LoadDebug name z = Inr (r, z1)" using assms
    by (auto simp: LoadTail_def bindL_def split: sum.splits)
  with assms show "luaG_checkcode g = Inr True" "pr_p g = ps"
    by (cases r; auto simp: LoadTail_def bindL_def Let_def split: sum.splits if_splits)+
qed

lemma LoadFunction_checked:
  "LoadFunction name p z = Inr (f, z') \<Longrightarrow> Forall_proto (\<lambda>g. luaG_checkcode g = Inr True) f"
  "LoadProtos name p n z = Inr (fs, z') \<Longrightarrow>
     list_all (Forall_proto (\<lambda>g. luaG_checkcode g = Inr True)) fs"
proof (induction name p z and name p n z arbitrary: f z' and fs z' rule: LoadFunction_LoadProtos.induct)
  case (1 name p z)
  from "1.prems" obtain g n z1 ps z2 where h: "LoadHead name p z = Inr ((g, n), z1)"
    and ps: "LoadProtos name (pr_source g) n z1 = Inr (ps, z2)" and t: "LoadTail name g ps z2 = Inr (f, z')"
    by (auto simp: LoadFunction.simps split: sum.splits)
  show ?case using "1.IH" [OF h refl refl ps] LoadTail_checked [OF t] by (cases f) simp
next
  case (2 name p z)
  then show ?case by (simp add: LoadProtos.simps)
next
  case (3 name p n z)
  then show ?case by (auto simp: LoadProtos.simps split: sum.splits)
qed

lemma Forall_proto_mono:
  "Forall_proto P f \<Longrightarrow> (\<And>g. P g \<Longrightarrow> Q g) \<Longrightarrow> Forall_proto Q f"
proof (induction f)
  case (Proto k code ps li lv uv src ld lld nu np va ms)
  then show ?case by (auto simp: list_all_iff)
qed

lemma luaU_undump_Inr:
  "luaU_undump name z = Inr (f, z') \<Longrightarrow> \<exists>z1. LoadFunction (undump_name name) (Some ''=?'') z1 = Inr (f, z')"
  by (auto simp: luaU_undump_def Let_def bindL_def split: sum.splits)



end
