(* ===== verification/LuaString.thy ===== *)
theory LuaString
  imports LuaObject "HOL-Library.Multiset"
begin

text \<open>
  \<open>lstring.c\<close>: the table of all strings. Every string of the engine lives in one hash table,
  so that two equal strings are one object. A string carries its address, to say that; the
  address of a new string is the choice of the allocator and a parameter \<open>a\<close>. The theories
  that use strings identify a string with its contents, which the theorem of this theory
  justifies.
\<close>

section \<open>Strings and their table\<close>

record TString =
  ts_addr :: ptr
  ts_marked :: lu_byte
  ts_reserved :: lu_byte
  ts_hash :: lu_int32
  ts_str :: c_string

record stringtable =
  st_hash :: "TString list list"
  st_nuse :: lu_int32
  st_size :: int

text \<open>The parts of \<open>global_State\<close> this file uses.\<close>

record str_state =
  strt :: stringtable
  currentwhite :: lu_byte
  gc_sweepstring :: bool

definition WHITEBITS :: lu_byte where "WHITEBITS = 3"

definition otherwhite :: "str_state \<Rightarrow> lu_byte" where
  "otherwhite g = currentwhite g XOR WHITEBITS"

definition isdead :: "str_state \<Rightarrow> TString \<Rightarrow> bool" where
  "isdead g v \<longleftrightarrow> ts_marked v AND otherwhite g AND WHITEBITS \<noteq> 0"

definition changewhite :: "TString \<Rightarrow> TString" where
  "changewhite x = x\<lparr>ts_marked := ts_marked x XOR WHITEBITS\<rparr>"

definition luaC_white :: "str_state \<Rightarrow> lu_byte" where
  "luaC_white g = currentwhite g AND WHITEBITS"

text \<open>\<open>lmod\<close> for an unsigned \<open>s\<close>; the conversion to \<open>int\<close> does not change the value.\<close>

definition lmod :: "lu_int32 \<Rightarrow> int \<Rightarrow> int" where
  "lmod s sz = uint s AND (sz - 1)"

section \<open>Resizing\<close>

definition rehash_string :: "int \<Rightarrow> TString \<Rightarrow> TString list list \<Rightarrow> TString list list" where
  "rehash_string newsize p newhash =
     (let h1 = lmod (ts_hash p) newsize in newhash[nat h1 := p # newhash ! nat h1])"

definition luaS_resize :: "int \<Rightarrow> str_state \<Rightarrow> str_state" where
  "luaS_resize newsize g =
     (if gc_sweepstring g then g
      else let tb = strt g;
               newhash = replicate (nat newsize) [];
               newhash = fold (\<lambda>bucket. fold (rehash_string newsize) bucket)
                           (take (nat (st_size tb)) (st_hash tb)) newhash
           in g\<lparr>strt := tb\<lparr>st_size := newsize, st_hash := newhash\<rparr>\<rparr>)"

section \<open>New strings\<close>

definition sizeof_TString :: int where "sizeof_TString = 24"
definition MAX_SIZET :: int where "MAX_SIZET = 2 ^ 64 - 3"

definition newlstr :: "ptr \<Rightarrow> c_string \<Rightarrow> lu_int32 \<Rightarrow> str_state \<Rightarrow> (TString \<times> str_state) result" where
  "newlstr a str h g =
     (if int (length str) + 1 > MAX_SIZET - sizeof_TString
      then Inl (ErrRun ''memory allocation error: block too big'')
      else let ts = \<lparr>ts_addr = a, ts_marked = luaC_white g, ts_reserved = 0, ts_hash = h, ts_str = str\<rparr>;
               tb = strt g;
               i = nat (lmod h (st_size tb));
               tb = tb\<lparr>st_hash := (st_hash tb)[i := ts # st_hash tb ! i], st_nuse := st_nuse tb + 1\<rparr>;
               g = g\<lparr>strt := tb\<rparr>
           in Inr (ts, if uint (st_nuse tb) > st_size tb \<and> st_size tb \<le> MAX_INT div 2
                       then luaS_resize (st_size tb * 2) g else g))"

text \<open>The hash of a string; \<open>s\<close> is one less than the step.\<close>

function hash_loop :: "c_string \<Rightarrow> nat \<Rightarrow> nat \<Rightarrow> lu_int32 \<Rightarrow> lu_int32" where
  "hash_loop str s l1 h =
     (if l1 \<ge> Suc s
      then hash_loop str s (l1 - Suc s)
             (h XOR (push_bit 5 h + drop_bit 2 h + of_char (str ! (l1 - 1))))
      else h)"
  by pat_completeness auto
termination by (relation "measure (\<lambda>(str, s, l1, h). l1)") auto

declare hash_loop.simps [simp del]

definition luaS_hash :: "c_string \<Rightarrow> lu_int32" where
  "luaS_hash str = (let l = length str in hash_loop str (drop_bit 5 l) l (of_nat l))"

text \<open>The search in a bucket revives the string it finds when the collector had given it up.\<close>

fun find_string :: "str_state \<Rightarrow> c_string \<Rightarrow> TString list \<Rightarrow> (TString \<times> TString list) option" where
  "find_string g str [] = None"
| "find_string g str (ts # l) =
     (if length (ts_str ts) = length str \<and> ts_str ts = str then
        (let ts = (if isdead g ts then changewhite ts else ts) in Some (ts, ts # l))
      else case find_string g str l of None \<Rightarrow> None | Some (r, l') \<Rightarrow> Some (r, ts # l'))"

definition luaS_newlstr :: "ptr \<Rightarrow> c_string \<Rightarrow> str_state \<Rightarrow> (TString \<times> str_state) result" where
  "luaS_newlstr a str g =
     (let h = luaS_hash str; tb = strt g; i = nat (lmod h (st_size tb))
      in case find_string g str (st_hash tb ! i) of
           Some (ts, l) \<Rightarrow> Inr (ts, g\<lparr>strt := tb\<lparr>st_hash := (st_hash tb)[i := l]\<rparr>\<rparr>)
         | None \<Rightarrow> newlstr a str h g)"

section \<open>The invariant\<close>

definition all_strings :: "str_state \<Rightarrow> TString list" where
  "all_strings g = concat (st_hash (strt g))"

definition strt_ok :: "str_state \<Rightarrow> bool" where
  "strt_ok g \<longleftrightarrow>
     (\<exists>k. st_size (strt g) = 2 ^ k \<and> k < 32) \<and> length (st_hash (strt g)) = nat (st_size (strt g))
     \<and> (\<forall>i < length (st_hash (strt g)). \<forall>ts \<in> set (st_hash (strt g) ! i).
          ts_hash ts = luaS_hash (ts_str ts) \<and> nat (lmod (luaS_hash (ts_str ts)) (st_size (strt g))) = i)
     \<and> distinct (map ts_str (all_strings g)) \<and> distinct (map ts_addr (all_strings g))"

text \<open>What the rest of the engine sees of the table: which object has which contents.\<close>

definition interned :: "str_state \<Rightarrow> (ptr \<times> c_string) set" where
  "interned g = (\<lambda>ts. (ts_addr ts, ts_str ts)) ` set (all_strings g)"

section \<open>Buckets\<close>

text \<open>\<open>placed n xs\<close>: each string of the \<open>n\<close> buckets is in the bucket of its hash.\<close>

definition placed :: "int \<Rightarrow> TString list list \<Rightarrow> bool" where
  "placed n xs \<longleftrightarrow> length xs = nat n
     \<and> (\<forall>i < length xs. \<forall>ts \<in> set (xs ! i).
          ts_hash ts = luaS_hash (ts_str ts) \<and> nat (lmod (luaS_hash (ts_str ts)) n) = i)"

lemma strt_ok_placed: "strt_ok g \<longleftrightarrow>
  (\<exists>k. st_size (strt g) = 2 ^ k \<and> k < 32) \<and> placed (st_size (strt g)) (st_hash (strt g))
   \<and> distinct (map ts_str (all_strings g)) \<and> distinct (map ts_addr (all_strings g))"
  by (auto simp: strt_ok_def placed_def)

lemma lmod_bounds:
  assumes "n = 2 ^ k"
  shows "0 \<le> lmod s n" "lmod s n < n"
proof -
  have "lmod s n = uint s mod n"
    using take_bit_eq_mask [of k "uint s"] assms
    by (simp add: lmod_def take_bit_eq_mod mask_eq_exp_minus_1)
  then show "0 \<le> lmod s n" "lmod s n < n" using assms by simp_all
qed

lemma mset_concat_update:
  "i < length xs \<Longrightarrow> mset (concat (xs[i := l])) + mset (xs ! i) = mset (concat xs) + mset l"
proof (induction xs arbitrary: i)
  case (Cons x xs)
  then show ?case by (cases i) (simp_all add: add.commute add.assoc)
qed simp

lemma mset_concat_push:
  "i < length xs \<Longrightarrow> mset (concat (xs[i := p # xs ! i])) = add_mset p (mset (concat xs))"
  using mset_concat_update [of i xs "p # xs ! i"] by simp

lemma placed_push:
  assumes "placed n xs" and "ts_hash p = luaS_hash (ts_str p)" and "i = nat (lmod (ts_hash p) n)"
    and "i < length xs"
  shows "placed n (xs[i := p # xs ! i])"
  using assms unfolding placed_def by (simp add: nth_list_update)

lemma fold_rehash:
  assumes n: "n = 2 ^ k" and "\<forall>p \<in> set ps. ts_hash p = luaS_hash (ts_str p)" and "placed n xs"
  shows "placed n (fold (rehash_string n) ps xs)
    \<and> mset (concat (fold (rehash_string n) ps xs)) = mset ps + mset (concat xs)"
  using assms(2,3)
proof (induction ps arbitrary: xs)
  case (Cons p ps)
  let ?i = "nat (lmod (ts_hash p) n)" and ?xs = "rehash_string n p xs"
  have "?i < length xs"
    using lmod_bounds [OF n] Cons.prems(2) n by (simp add: placed_def nat_less_iff)
  then have "mset (concat ?xs) = add_mset p (mset (concat xs))"
    by (simp add: rehash_string_def Let_def mset_concat_push)
  moreover have "placed n ?xs"
    using Cons.prems \<open>?i < length xs\<close> placed_push [of n xs p] by (simp add: rehash_string_def Let_def)
  ultimately show ?case using Cons.IH [of ?xs] Cons.prems by simp
qed simp

lemma fold_fold_concat: "fold (\<lambda>l. fold f l) ls s = fold f (concat ls) s"
  by (induction ls arbitrary: s) simp_all

lemma placed_hash: "placed n xs \<Longrightarrow> p \<in> set (concat xs) \<Longrightarrow> ts_hash p = luaS_hash (ts_str p)"
  by (clarsimp simp: placed_def) (metis in_set_conv_nth)

lemma mset_distinct_map: "mset xs = mset ys \<Longrightarrow> distinct (map f xs) = distinct (map f ys)"
  by (metis mset_eq_imp_distinct_iff mset_map)

text \<open>Resizing to a power of two keeps the table and exactly its strings.\<close>

lemma luaS_resize_strings:
  assumes "strt_ok g"
  shows "mset (all_strings (luaS_resize (2 ^ k) g)) = mset (all_strings g)"
    and "k < 32 \<Longrightarrow> strt_ok (luaS_resize (2 ^ k) g)"
    and "currentwhite (luaS_resize (2 ^ k) g) = currentwhite g"
proof -
  let ?g = "luaS_resize (2 ^ k) g" and ?n = "2 ^ k :: int"
  let ?hs = "st_hash (strt g)"
  show "currentwhite ?g = currentwhite g" by (simp add: luaS_resize_def Let_def)
  have "mset (all_strings ?g) = mset (all_strings g) \<and> (k < 32 \<longrightarrow> strt_ok ?g)"
  proof (cases "gc_sweepstring g")
    case True
    with assms show ?thesis by (simp add: luaS_resize_def)
  next
    case False
    let ?e = "replicate (nat ?n) [] :: TString list list"
    let ?nh = "fold (rehash_string ?n) (concat ?hs) ?e"
    have len: "length ?hs = nat (st_size (strt g))" using assms by (simp add: strt_ok_def)
    have g': "strt ?g = (strt g)\<lparr>st_size := ?n, st_hash := ?nh\<rparr>"
      using False len by (simp add: luaS_resize_def Let_def fold_fold_concat)
    have "placed ?n ?e" by (simp add: placed_def)
    with assms have nh: "placed ?n ?nh" "mset (concat ?nh) = mset (concat ?hs) + mset (concat ?e)"
      using fold_rehash [of ?n k "concat ?hs" ?e] placed_hash [of "st_size (strt g)" ?hs]
      by (auto simp: strt_ok_placed)
    have "mset (concat ?e) = {#}" by (simp add: concat_replicate_trivial)
    with nh have eq: "mset (all_strings ?g) = mset (all_strings g)"
      by (simp add: all_strings_def g')
    moreover have "strt_ok ?g" if "k < 32"
      using nh(1) assms that mset_distinct_map [OF eq, of ts_str] mset_distinct_map [OF eq, of ts_addr]
      unfolding strt_ok_placed by (simp add: g')
    ultimately show ?thesis by blast
  qed
  then show "mset (all_strings ?g) = mset (all_strings g)" "k < 32 \<Longrightarrow> strt_ok ?g" by blast+
qed


section \<open>Interning\<close>

text \<open>The part of a string that the collector does not change.\<close>

definition core :: "TString \<Rightarrow> ptr \<times> c_string \<times> lu_int32" where
  "core ts = (ts_addr ts, ts_str ts, ts_hash ts)"

lemma core_changewhite [simp]: "core (changewhite ts) = core ts"
  by (simp add: core_def changewhite_def)

lemma find_string_Some:
  "find_string g str l = Some (r, l') \<Longrightarrow>
     map core l' = map core l \<and> r \<in> set l' \<and> ts_str r = str"
proof (induction l arbitrary: l')
  case (Cons ts l)
  show ?case
  proof (cases "ts_str ts = str")
    case True
    with Cons.prems show ?thesis
      by (auto simp: Let_def split: if_splits) (simp_all add: changewhite_def)
  next
    case False
    with Cons show ?thesis by (auto split: option.splits)
  qed
qed simp

lemma find_string_None: "find_string g str l = None \<longleftrightarrow> (\<forall>ts \<in> set l. ts_str ts \<noteq> str)"
  by (induction l) (auto simp: Let_def split: option.splits)


text \<open>Two tables whose strings have the same cores are the same to the invariant.\<close>

lemma map_core_update:
  assumes "map core l = map core (xs ! i)" and "i < length xs"
  shows "map core (concat (xs[i := l])) = map core (concat xs)"
  using assms
proof (induction xs arbitrary: i)
  case (Cons x xs)
  then show ?case by (cases i) simp_all
qed simp

lemma core_set: "map core l = map core l' \<Longrightarrow> ts \<in> set l \<Longrightarrow>
  \<exists>ts' \<in> set l'. ts_hash ts = ts_hash ts' \<and> ts_str ts = ts_str ts' \<and> ts_addr ts = ts_addr ts'"
proof -
  assume eq: "map core l = map core l'" and ts: "ts \<in> set l"
  have "core ts \<in> set (map core l')" using ts by (simp flip: eq)
  then show ?thesis by (auto simp: core_def)
qed

lemma core_maps:
  assumes "map core l = map core l'"
  shows "map ts_str l = map ts_str l'" and "map ts_addr l = map ts_addr l'"
proof -
  have eq: "map f (map core l) = map f (map core l')" for f :: "ptr \<times> c_string \<times> lu_int32 \<Rightarrow> 'b"
    using assms by simp
  show "map ts_str l = map ts_str l'" using eq [of "\<lambda>c. fst (snd c)"] by (simp add: core_def o_def)
  show "map ts_addr l = map ts_addr l'" using eq [of fst] by (simp add: core_def o_def)
qed

lemma interned_maps: "interned g = set (zip (map ts_addr (all_strings g)) (map ts_str (all_strings g)))"
  by (auto simp: interned_def zip_map_map zip_same_conv_map)

lemma strt_ok_update:
  assumes ok: "strt_ok g" and "map core l = map core (st_hash (strt g) ! i)" and i: "i < length (st_hash (strt g))"
  defines "g' \<equiv> g\<lparr>strt := strt g\<lparr>st_hash := (st_hash (strt g))[i := l]\<rparr>\<rparr>"
  shows "strt_ok g'" and "interned g' = interned g"
proof -
  have all: "map core (all_strings g') = map core (all_strings g)"
    using map_core_update [OF assms(2,3)] by (simp add: all_strings_def g'_def)
  note maps = core_maps [OF all]
  show "interned g' = interned g" by (simp only: interned_maps maps)
  have "placed (st_size (strt g)) ((st_hash (strt g))[i := l])"
    unfolding placed_def
  proof (intro conjI allI impI ballI)
    fix j ts
    assume j: "j < length ((st_hash (strt g))[i := l])" and ts: "ts \<in> set ((st_hash (strt g))[i := l] ! j)"
    obtain ts' where "ts' \<in> set (st_hash (strt g) ! j)" "ts_hash ts = ts_hash ts'" "ts_str ts = ts_str ts'"
      using ts core_set [OF assms(2), of ts] i by (cases "j = i") (auto simp: nth_list_update)
    with ok j show "ts_hash ts = luaS_hash (ts_str ts)"
      "nat (lmod (luaS_hash (ts_str ts)) (st_size (strt g))) = j"
      by (auto simp: strt_ok_def)
  qed (use ok in \<open>simp add: strt_ok_def\<close>)
  then show "strt_ok g'"
    using ok maps unfolding strt_ok_placed by (simp add: g'_def)
qed

lemma string_bucket:
  assumes "strt_ok g" and "ts \<in> set (all_strings g)"
  shows "ts \<in> set (st_hash (strt g) ! nat (lmod (luaS_hash (ts_str ts)) (st_size (strt g))))"
proof -
  obtain i where "i < length (st_hash (strt g))" "ts \<in> set (st_hash (strt g) ! i)"
    using assms(2) by (auto simp: all_strings_def in_set_conv_nth [of _ "st_hash (strt g)"])
  with assms(1) show ?thesis by (auto simp: strt_ok_def)
qed

lemma newlstr_strings:
  assumes ok: "strt_ok g" and new: "str \<notin> ts_str ` set (all_strings g)"
    and fresh: "a \<notin> ts_addr ` set (all_strings g)"
    and r: "newlstr a str (luaS_hash str) g = Inr (ts, g')"
  shows "strt_ok g'" and "mset (all_strings g') = add_mset ts (mset (all_strings g))"
    and "ts_str ts = str" and "ts_addr ts = a"
proof -
  let ?tb = "strt g" and ?i = "nat (lmod (luaS_hash str) (st_size (strt g)))"
  let ?ts = "\<lparr>ts_addr = a, ts_marked = luaC_white g, ts_reserved = 0, ts_hash = luaS_hash str, ts_str = str\<rparr>"
  let ?g = "g\<lparr>strt := ?tb\<lparr>st_hash := (st_hash ?tb)[?i := ?ts # st_hash ?tb ! ?i], st_nuse := st_nuse ?tb + 1\<rparr>\<rparr>"
  obtain k where k: "st_size ?tb = 2 ^ k" "k < 32" using ok by (auto simp: strt_ok_def)
  have i: "?i < length (st_hash ?tb)"
    using lmod_bounds [OF k(1)] ok k by (auto simp: strt_ok_def nat_less_iff)
  have ts: "ts = ?ts" and g': "g' = (if uint (st_nuse ?tb + 1) > st_size ?tb \<and> st_size ?tb \<le> MAX_INT div 2
      then luaS_resize (st_size ?tb * 2) ?g else ?g)"
    using r by (auto simp: newlstr_def Let_def split: if_splits)
  show "ts_str ts = str" "ts_addr ts = a" by (simp_all add: ts)
  have eq: "mset (all_strings ?g) = add_mset ts (mset (all_strings g))"
    using mset_concat_push [OF i, of ?ts] by (simp add: all_strings_def ts)
  have maps: "mset (map f (all_strings ?g)) = add_mset (f ts) (mset (map f (all_strings g)))" for f :: "TString \<Rightarrow> 'a"
    by (simp only: mset_map eq image_mset_add_mset)
  have "distinct (map ts_str (all_strings ?g))" "distinct (map ts_addr (all_strings ?g))"
    using mset_eq_imp_distinct_iff [of "map ts_str (all_strings ?g)" "ts_str ts # map ts_str (all_strings g)"]
      mset_eq_imp_distinct_iff [of "map ts_addr (all_strings ?g)" "ts_addr ts # map ts_addr (all_strings g)"]
      maps [of ts_str] maps [of ts_addr] new fresh ok by (simp_all add: strt_ok_def ts)
  moreover have "placed (st_size ?tb) ((st_hash ?tb)[?i := ?ts # st_hash ?tb ! ?i])"
    using ok i placed_push [of "st_size ?tb" "st_hash ?tb" ?ts ?i] by (simp add: strt_ok_placed)
  ultimately have ok': "strt_ok ?g" using k by (auto simp: strt_ok_placed)
  show "mset (all_strings g') = add_mset ts (mset (all_strings g))"
    using eq luaS_resize_strings(1) [OF ok', of "Suc k"] k by (simp add: g' mult.commute)
  show "strt_ok g'"
  proof (cases "uint (st_nuse ?tb + 1) > st_size ?tb \<and> st_size ?tb \<le> MAX_INT div 2")
    case True
    have "k < 31"
    proof (rule ccontr)
      assume "\<not> k < 31"
      with k have "k = 31" by simp
      with k True show False by (simp add: MAX_INT_def INT_MAX_def)
    qed
    with luaS_resize_strings(2) [OF ok', of "Suc k"] True k show ?thesis by (simp add: g' mult.commute)
  next
    case False
    with ok' show ?thesis by (auto simp: g')
  qed
qed


lemma luaS_newlstr_interned:
  assumes ok: "strt_ok g" and fresh: "a \<notin> ts_addr ` set (all_strings g)"
    and r: "luaS_newlstr a str g = Inr (ts, g')"
  shows "strt_ok g'" and "ts_str ts = str" and "(ts_addr ts, str) \<in> interned g'"
    and "interned g' = (if str \<in> snd ` interned g then interned g else insert (a, str) (interned g))"
proof -
  let ?i = "nat (lmod (luaS_hash str) (st_size (strt g)))"
  let ?b = "st_hash (strt g) ! ?i"
  obtain k where k: "st_size (strt g) = 2 ^ k" using ok by (auto simp: strt_ok_def)
  have i: "?i < length (st_hash (strt g))"
    using lmod_bounds [OF k] ok k by (auto simp: strt_ok_def nat_less_iff)
  have known: "str \<in> snd ` interned g \<longleftrightarrow> (\<exists>ts \<in> set ?b. ts_str ts = str)"
  proof
    assume "str \<in> snd ` interned g"
    then obtain t where "t \<in> set (all_strings g)" "ts_str t = str" by (auto simp: interned_def)
    with string_bucket [OF ok, of t] show "\<exists>ts \<in> set ?b. ts_str ts = str" by auto
  next
    assume "\<exists>ts \<in> set ?b. ts_str ts = str"
    then obtain t where "t \<in> set ?b" "ts_str t = str" by blast
    moreover then have "t \<in> set (all_strings g)" using i by (auto simp: all_strings_def)
    ultimately show "str \<in> snd ` interned g" by (auto simp: interned_def image_iff)
  qed
  have "strt_ok g' \<and> ts_str ts = str \<and> (ts_addr ts, str) \<in> interned g'
    \<and> interned g' = (if str \<in> snd ` interned g then interned g else insert (a, str) (interned g))"
  proof (cases "find_string g str ?b")
    case None
    then have new: "str \<notin> snd ` interned g" by (simp add: known find_string_None)
    then have nostr: "str \<notin> ts_str ` set (all_strings g)" by (simp add: interned_def image_image)
    from None r have "newlstr a str (luaS_hash str) g = Inr (ts, g')"
      by (simp add: luaS_newlstr_def Let_def)
    note * = newlstr_strings [OF ok nostr fresh this]
    then have "set (all_strings g') = insert ts (set (all_strings g))"
      by (metis set_mset_add_mset_insert set_mset_mset)
    then have "interned g' = insert (a, str) (interned g)" using *(3,4) unfolding interned_def by simp
    with *(1,3,4) new show ?thesis by simp
  next
    case (Some p)
    then obtain l where l: "find_string g str ?b = Some (ts, l)"
      and g': "g' = g\<lparr>strt := strt g\<lparr>st_hash := (st_hash (strt g))[?i := l]\<rparr>\<rparr>"
      using r by (cases p) (auto simp: luaS_newlstr_def Let_def)
    note f = find_string_Some [OF l]
    then have "strt_ok g'" "interned g' = interned g"
      using strt_ok_update [OF ok _ i] by (auto simp: g')
    moreover have "ts \<in> set (all_strings g')" using f i by (auto simp: all_strings_def g' set_update_memI)
    then have "(ts_addr ts, str) \<in> interned g'" using f by (auto simp: interned_def)
    moreover have "str \<in> snd ` interned g"
      using l find_string_None [of g str ?b] by (auto simp: known)
    ultimately show ?thesis using f \<open>(ts_addr ts, str) \<in> interned g'\<close> by simp
  qed
  then show "strt_ok g'" "ts_str ts = str" "(ts_addr ts, str) \<in> interned g'"
    "interned g' = (if str \<in> snd ` interned g then interned g else insert (a, str) (interned g))"
    by blast+
qed

lemma interned_unique:
  assumes "strt_ok g" and "(a, s) \<in> interned g" and "(b, t) \<in> interned g"
  shows "a = b \<longleftrightarrow> s = t"
  using assms by (auto simp: interned_def strt_ok_def distinct_map inj_on_def)

text \<open>
  Claim \<open>C26\<close>. Strings are interned: \<open>luaS_newlstr\<close> returns a string with the given contents,
  the one the table already has if there is one, adds no other, keeps the invariant of the
  table through any resize, and afterwards two strings of the table are the same object
  exactly if their contents are equal.
\<close>

theorem newlstr_interns:
  assumes "strt_ok g" and "a \<notin> ts_addr ` set (all_strings g)"
    and "luaS_newlstr a str g = Inr (ts, g')"
  shows "strt_ok g' \<and> ts_str ts = str \<and> (ts_addr ts, str) \<in> interned g'
    \<and> interned g' = (if str \<in> snd ` interned g then interned g else insert (a, str) (interned g))
    \<and> (\<forall>(p, s) \<in> interned g'. \<forall>(q, t) \<in> interned g'. p = q \<longleftrightarrow> s = t)"
proof -
  note new = luaS_newlstr_interned [OF assms]
  have "\<forall>(p, s) \<in> interned g'. \<forall>(q, t) \<in> interned g'. p = q \<longleftrightarrow> s = t"
    using interned_unique [OF new(1)] by blast
  with new show ?thesis by blast
qed

text \<open>Only a string that does not fit into the address space is refused.\<close>

lemma luaS_newlstr_small:
  assumes "length str < 2 ^ 32"
  shows "\<exists>ts g'. luaS_newlstr a str g = Inr (ts, g')"
proof (cases "find_string g str (st_hash (strt g) ! nat (lmod (luaS_hash str) (st_size (strt g))))")
  case None
  with assms show ?thesis
    by (simp add: luaS_newlstr_def newlstr_def MAX_SIZET_def sizeof_TString_def Let_def)
next
  case (Some p)
  then show ?thesis by (cases p) (simp add: luaS_newlstr_def Let_def)
qed

definition empty_strt :: str_state where
  "empty_strt = \<lparr>strt = \<lparr>st_hash = [[]], st_nuse = 0, st_size = 1\<rparr>, currentwhite = 1, gc_sweepstring = False\<rparr>"

theorem newlstr_interns_witness:
  "\<exists>ts g ts' g'. luaS_newlstr 16 ''while'' empty_strt = Inr (ts, g)
     \<and> luaS_newlstr 24 ''end'' g = Inr (ts', g') \<and> interned g' = {(24, ''end''), (16, ''while'')}"
proof -
  have "strt_ok empty_strt" and e: "all_strings empty_strt = []" "interned empty_strt = {}"
    by (auto simp: strt_ok_def empty_strt_def all_strings_def interned_def intro: exI [of _ 0])
  obtain ts g where g: "luaS_newlstr 16 ''while'' empty_strt = Inr (ts, g)"
    using luaS_newlstr_small [of "''while''" 16 empty_strt] by auto
  from newlstr_interns [OF \<open>strt_ok empty_strt\<close> _ g] e
  have ok: "strt_ok g" and i: "interned g = {(16, ''while'')}" by auto
  have "ts_addr ` set (all_strings g) = fst ` interned g" by (simp add: interned_def image_image)
  then have fresh: "24 \<notin> ts_addr ` set (all_strings g)" by (simp add: i)
  obtain ts' g' where g': "luaS_newlstr 24 ''end'' g = Inr (ts', g')"
    using luaS_newlstr_small [of "''end''" 24 g] by auto
  from newlstr_interns [OF ok fresh g'] i have "interned g' = {(24, ''end''), (16, ''while'')}"
    by auto
  with g g' show ?thesis by blast
qed

end
