(* ===== verification/LuaTable.thy ===== *)
theory LuaTable
  imports LuaString
begin

text \<open>
  \<open>ltable.c\<close>: Lua tables. A table has an array part, for the keys \<open>1\<close> to \<open>sizearray\<close>, and a
  hash part, an array of nodes chained through their index (chained scatter with Brent's
  variation). A pointer to a node is its index; a pointer to a value is a \<open>slot\<close>. The
  allocation of the two arrays succeeds in this model, and the write barrier of the
  incremental collector, which only colours objects, is left out.
\<close>

section \<open>Data (\<open>lobject.h\<close>)\<close>

record Node =
  gval :: TValue
  gkey :: TValue
  gnext :: "nat option"

record Table =
  flags :: lu_byte
  lsizenode :: nat
  metatable :: "ptr option"
  t_array :: "TValue list"
  t_node :: "Node list"
  is_dummy :: bool
  lastfree :: int

text \<open>\<open>is_dummy\<close> says that \<open>node\<close> points to the node \<open>dummynode\<close> all empty hash parts share.\<close>

definition sizearray :: "Table \<Rightarrow> int" where "sizearray t = int (length (t_array t))"
definition twoto :: "nat \<Rightarrow> int" where "twoto x = push_bit x 1"
definition sizenode :: "Table \<Rightarrow> int" where "sizenode t = twoto (lsizenode t)"

definition MAXBITS :: int where "MAXBITS = 26"
definition MAXASIZE :: int where "MAXASIZE = push_bit 26 1"

definition dummynode :: Node where "dummynode = \<lparr>gval = TNil, gkey = TNil, gnext = None\<rparr>"

datatype slot = InArray nat | InNode nat | NilObject

definition slot_val :: "Table \<Rightarrow> slot \<Rightarrow> TValue" where
  "slot_val t s = (case s of InArray i \<Rightarrow> t_array t ! i | InNode i \<Rightarrow> gval (t_node t ! i) | NilObject \<Rightarrow> TNil)"

text \<open>\<open>setobj\<close> through a pointer to a value of the table.\<close>

definition set_slot :: "Table \<Rightarrow> slot \<Rightarrow> TValue \<Rightarrow> Table" where
  "set_slot t s v =
     (case s of
        InArray i \<Rightarrow> t\<lparr>t_array := (t_array t)[i := v]\<rparr>
      | InNode i \<Rightarrow> t\<lparr>t_node := (t_node t)[i := (t_node t ! i)\<lparr>gval := v\<rparr>]\<rparr>
      | NilObject \<Rightarrow> t)"

section \<open>Hashing\<close>

definition hashpow2 :: "Table \<Rightarrow> lu_int32 \<Rightarrow> nat" where
  "hashpow2 t n = nat (lmod n (sizenode t))"

definition hashmod :: "Table \<Rightarrow> lu_int32 \<Rightarrow> nat" where
  "hashmod t n = nat (uint n mod ((sizenode t - 1) OR 1))"

definition hashstr :: "Table \<Rightarrow> c_string \<Rightarrow> nat" where
  "hashstr t str = hashpow2 t (luaS_hash str)"

definition hashboolean :: "Table \<Rightarrow> int \<Rightarrow> nat" where
  "hashboolean t p = hashpow2 t (word_of_int p)"

definition hashpointer :: "Table \<Rightarrow> ptr \<Rightarrow> nat" where
  "hashpointer t p = hashmod t (word_of_int (uint p))"

text \<open>The two halves of the bits of \<open>n + 1\<close> are added as unsigned integers.\<close>

definition hashnum :: "Table \<Rightarrow> lua_Number \<Rightarrow> nat" where
  "hashnum t n =
     (let n = luai_numadd n (cast_num 1)
      in hashmod t (word_of_int (uint n) + word_of_int (uint (drop_bit 32 n))))"

text \<open>
  \<open>mainposition\<close>. It is never asked for \<open>nil\<close> or for a dead key, whose address the model does
  not have: \<open>findindex\<close> returns before, \<open>luaH_set\<close> refuses \<open>nil\<close>, and \<open>newkey\<close> asks for the
  key of a node only when its value is not \<open>nil\<close>.
\<close>

fun mainposition :: "Table \<Rightarrow> TValue \<Rightarrow> nat" where
  "mainposition t (TNumber n) = hashnum t n"
| "mainposition t (TGC (GString s)) = hashstr t s"
| "mainposition t (TBoolean b) = hashboolean t b"
| "mainposition t (TLightUserdata p) = hashpointer t p"
| "mainposition t (TGC (GTable p)) = hashpointer t p"
| "mainposition t (TGC (GFunction p)) = hashpointer t p"
| "mainposition t (TGC (GUserdata p)) = hashpointer t p"
| "mainposition t (TGC (GThread p)) = hashpointer t p"
| "mainposition t TNil = 0"
| "mainposition t (TDeadKey _) = 0"

definition arrayindex :: "TValue \<Rightarrow> int" where
  "arrayindex key =
     (case key of
        TNumber n \<Rightarrow> (let k = lua_number2int n in if luai_numeq (cast_num k) n then k else - 1)
      | _ \<Rightarrow> - 1)"

section \<open>Searching\<close>

text \<open>
  The loop \<open>do ... while (n)\<close> along a chain, from node \<open>i\<close> to the first node that satisfies
  \<open>P\<close>. The fuel bounds the number of nodes visited.
\<close>

fun find_node :: "nat \<Rightarrow> Node list \<Rightarrow> (Node \<Rightarrow> bool) \<Rightarrow> nat \<Rightarrow> nat option result" where
  "find_node 0 nodes P i = Inl NoFuel"
| "find_node (Suc f) nodes P i =
     (if i \<ge> length nodes then Inl OutOfBounds
      else if P (nodes ! i) then Inr (Some i)
      else case gnext (nodes ! i) of None \<Rightarrow> Inr None | Some j \<Rightarrow> find_node f nodes P j)"

definition search_chain :: "Table \<Rightarrow> (Node \<Rightarrow> bool) \<Rightarrow> nat \<Rightarrow> slot result" where
  "search_chain t P i =
     bind_result (find_node (length (t_node t)) (t_node t) P i) (\<lambda>r.
       Inr (case r of None \<Rightarrow> NilObject | Some j \<Rightarrow> InNode j))"

text \<open>The comparison of \<open>key - 1\<close> with the size is one of unsigned integers.\<close>

definition luaH_getnum :: "Table \<Rightarrow> int \<Rightarrow> slot result" where
  "luaH_getnum t key =
     (if (key - 1) mod 2 ^ 32 < sizearray t mod 2 ^ 32 then Inr (InArray (nat (key - 1)))
      else let nk = cast_num key
           in search_chain t (\<lambda>n. case gkey n of TNumber m \<Rightarrow> luai_numeq m nk | _ \<Rightarrow> False) (hashnum t nk))"

definition luaH_getstr :: "Table \<Rightarrow> c_string \<Rightarrow> slot result" where
  "luaH_getstr t key = search_chain t (\<lambda>n. gkey n = TGC (GString key)) (hashstr t key)"

definition luaH_get :: "Table \<Rightarrow> TValue \<Rightarrow> slot result" where
  "luaH_get t key =
     (let generic = search_chain t (\<lambda>n. luaO_rawequalObj (gkey n) key) (mainposition t key)
      in case key of
        TNil \<Rightarrow> Inr NilObject
      | TGC (GString s) \<Rightarrow> luaH_getstr t s
      | TNumber n \<Rightarrow>
          (let k = lua_number2int n
           in if luai_numeq (cast_num k) n then luaH_getnum t k else generic)
      | _ \<Rightarrow> generic)"

section \<open>Allocating the parts\<close>

definition setarrayvector :: "Table \<Rightarrow> int \<Rightarrow> Table" where
  "setarrayvector t sz =
     t\<lparr>t_array := take (nat sz) (t_array t) @ replicate (nat sz - length (t_array t)) TNil\<rparr>"

definition setnodevector :: "Table \<Rightarrow> int \<Rightarrow> Table result" where
  "setnodevector t sz =
     (if sz = 0 then Inr (t\<lparr>t_node := [dummynode], is_dummy := True, lsizenode := 0, lastfree := 0\<rparr>)
      else let lsize = ceillog2 sz
           in if lsize > MAXBITS then Inl (ErrRun ''table overflow'')
              else let sz = twoto (nat lsize)
                   in Inr (t\<lparr>t_node := replicate (nat sz) \<lparr>gval = TNil, gkey = TNil, gnext = None\<rparr>,
                             is_dummy := False, lsizenode := nat lsize, lastfree := sz\<rparr>))"

definition luaH_new :: "int \<Rightarrow> int \<Rightarrow> Table result" where
  "luaH_new narray nhash =
     (let t = \<lparr>flags = NOT 0, lsizenode = 0, metatable = None, t_array = [], t_node = [dummynode],
               is_dummy = True, lastfree = 0\<rparr>
      in setnodevector (setarrayvector t narray) nhash)"

section \<open>Inserting a key\<close>

text \<open>\<open>while (t->lastfree-- > t->node)\<close>: the decrement happens also when the test fails.\<close>

function getfreepos :: "Table \<Rightarrow> nat option \<times> Table" where
  "getfreepos t =
     (if lastfree t > 0 then
        let t = t\<lparr>lastfree := lastfree t - 1\<rparr>
        in if ttisnil (gkey (t_node t ! nat (lastfree t))) then (Some (nat (lastfree t)), t)
           else getfreepos t
      else (None, t\<lparr>lastfree := lastfree t - 1\<rparr>))"
  by pat_completeness auto
termination by (relation "measure (\<lambda>t. nat (lastfree t))") auto

declare getfreepos.simps [simp del]

text \<open>The loop \<open>while (gnext(othern) != mp) othern = gnext(othern);\<close>.\<close>

fun find_prev :: "nat \<Rightarrow> Node list \<Rightarrow> nat \<Rightarrow> nat \<Rightarrow> nat result" where
  "find_prev 0 nodes mp i = Inl NoFuel"
| "find_prev (Suc f) nodes mp i =
     (if i \<ge> length nodes then Inl OutOfBounds
      else if gnext (nodes ! i) = Some mp then Inr i
      else case gnext (nodes ! i) of None \<Rightarrow> Inl OutOfBounds | Some j \<Rightarrow> find_prev f nodes mp j)"

text \<open>
  What \<open>newkey\<close> does when there is no free position, rehashing the table and setting the key
  again, leads back to \<open>newkey\<close>: it is a parameter \<open>g\<close> of the operations, which \<open>grow\<close> below
  provides.
\<close>

type_synonym grower = "Table \<Rightarrow> TValue \<Rightarrow> (slot \<times> Table) result"

definition put_key :: "Table \<Rightarrow> nat \<Rightarrow> TValue \<Rightarrow> slot \<times> Table" where
  "put_key t mp key = (InNode mp, t\<lparr>t_node := (t_node t)[mp := (t_node t ! mp)\<lparr>gkey := key\<rparr>]\<rparr>)"

definition newkey :: "grower \<Rightarrow> Table \<Rightarrow> TValue \<Rightarrow> (slot \<times> Table) result" where
  "newkey g t key =
     (let mp = mainposition t key
      in if \<not> ttisnil (gval (t_node t ! mp)) \<or> is_dummy t then
           case getfreepos t of
             (None, t) \<Rightarrow> g t key
           | (Some n, t) \<Rightarrow>
               let othern = mainposition t (gkey (t_node t ! mp))
               in if othern \<noteq> mp then
                    bind_result (find_prev (length (t_node t)) (t_node t) mp othern) (\<lambda>othern.
                      let nodes = t_node t;
                          nodes = nodes[othern := (nodes ! othern)\<lparr>gnext := Some n\<rparr>];
                          nodes = nodes[n := nodes ! mp];
                          nodes = nodes[mp := (nodes ! mp)\<lparr>gnext := None\<rparr>];
                          nodes = nodes[mp := (nodes ! mp)\<lparr>gval := TNil\<rparr>]
                      in Inr (put_key (t\<lparr>t_node := nodes\<rparr>) mp key))
                  else
                    let nodes = t_node t;
                        nodes = nodes[n := (nodes ! n)\<lparr>gnext := gnext (nodes ! mp)\<rparr>];
                        nodes = nodes[mp := (nodes ! mp)\<lparr>gnext := Some n\<rparr>]
                    in Inr (put_key (t\<lparr>t_node := nodes\<rparr>) n key)
         else Inr (put_key t mp key))"

definition luaH_set :: "grower \<Rightarrow> Table \<Rightarrow> TValue \<Rightarrow> (slot \<times> Table) result" where
  "luaH_set g t key =
     bind_result (luaH_get t key) (\<lambda>p.
       let t = t\<lparr>flags := 0\<rparr>
       in if p \<noteq> NilObject then Inr (p, t)
          else if ttisnil key then Inl (ErrRun ''table index is nil'')
          else case key of
            TNumber n \<Rightarrow> if luai_numisnan n then Inl (ErrRun ''table index is NaN'') else newkey g t key
          | _ \<Rightarrow> newkey g t key)"

definition luaH_setnum :: "grower \<Rightarrow> Table \<Rightarrow> int \<Rightarrow> (slot \<times> Table) result" where
  "luaH_setnum g t key =
     bind_result (luaH_getnum t key) (\<lambda>p.
       if p \<noteq> NilObject then Inr (p, t) else newkey g t (TNumber (cast_num key)))"

definition luaH_setstr :: "grower \<Rightarrow> Table \<Rightarrow> c_string \<Rightarrow> (slot \<times> Table) result" where
  "luaH_setstr g t key =
     bind_result (luaH_getstr t key) (\<lambda>p.
       if p \<noteq> NilObject then Inr (p, t) else newkey g t (TGC (GString key)))"

section \<open>Rehashing\<close>

text \<open>The number of values of the array with a C index from \<open>i\<close> to \<open>lim\<close> (counted from 1).\<close>

function count_range :: "TValue list \<Rightarrow> int \<Rightarrow> int \<Rightarrow> int" where
  "count_range a i lim =
     (if i \<le> lim then (if \<not> ttisnil (a ! nat (i - 1)) then 1 else 0) + count_range a (i + 1) lim else 0)"
  by pat_completeness auto
termination by (relation "measure (\<lambda>(a, i, lim). nat (lim + 1 - i))") auto

declare count_range.simps [simp del]

function numusearray_loop :: "TValue list \<Rightarrow> int \<Rightarrow> int \<Rightarrow> int \<Rightarrow> int list \<Rightarrow> int \<Rightarrow> int \<times> int list" where
  "numusearray_loop a lg ttlg i nums ause =
     (if lg \<le> MAXBITS then
        let lim = (if ttlg > int (length a) then int (length a) else ttlg)
        in if ttlg > int (length a) \<and> i > lim then (ause, nums)
           else let lc = count_range a i lim
                in numusearray_loop a (lg + 1) (ttlg * 2) (max i (lim + 1))
                     (nums[nat lg := nums ! nat lg + lc]) (ause + lc)
      else (ause, nums))"
  by pat_completeness auto
termination by (relation "measure (\<lambda>(a, lg, _). nat (MAXBITS + 1 - lg))") (auto simp: MAXBITS_def)

declare numusearray_loop.simps [simp del]

definition numusearray :: "Table \<Rightarrow> int list \<Rightarrow> int \<times> int list" where
  "numusearray t nums = numusearray_loop (t_array t) 0 1 1 nums 0"

definition countint :: "TValue \<Rightarrow> int list \<Rightarrow> int \<times> int list" where
  "countint key nums =
     (let k = arrayindex key
      in if 0 < k \<and> k \<le> MAXASIZE
         then let l = nat (ceillog2 k) in (1, nums[l := nums ! l + 1])
         else (0, nums))"

text \<open>One round of the loop of \<open>numusehash\<close>, on \<open>totaluse\<close>, \<open>ause\<close> and \<open>nums\<close>.\<close>

definition count_node :: "Node \<Rightarrow> int \<times> int \<times> int list \<Rightarrow> int \<times> int \<times> int list" where
  "count_node n = (\<lambda>(totaluse, ause, nums).
     if \<not> ttisnil (gval n) then
       case countint (gkey n) nums of (c, nums) \<Rightarrow> (totaluse + 1, ause + c, nums)
     else (totaluse, ause, nums))"

text \<open>The result: the total, the new value of \<open>*pnasize\<close> and \<open>nums\<close>.\<close>

definition numusehash :: "Table \<Rightarrow> int list \<Rightarrow> int \<Rightarrow> int \<times> int \<times> int list" where
  "numusehash t nums pnasize =
     (case fold count_node (rev (t_node t)) (0, 0, nums) of
        (totaluse, ause, nums) \<Rightarrow> (totaluse, pnasize + ause, nums))"

text \<open>
  The loop of \<open>computesizes\<close>; \<open>narray\<close> is \<open>*narray\<close>. An index past the array \<open>nums\<close> would be
  out of bounds. The result is the pair of \<open>na\<close> and the new \<open>*narray\<close>.
\<close>

function computesizes_loop :: "int list \<Rightarrow> int \<Rightarrow> nat \<Rightarrow> int \<Rightarrow> int \<Rightarrow> int \<Rightarrow> int \<Rightarrow> (int \<times> int) result" where
  "computesizes_loop nums narray i twotoi a na n =
     (if twotoi div 2 < narray then
        if i \<ge> length nums then Inl OutOfBounds
        else
          (case (if nums ! i > 0 then
                   let a = a + nums ! i
                   in if a > twotoi div 2 then (a, a, twotoi) else (a, na, n)
                 else (a, na, n)) of
             (a, na, n) \<Rightarrow>
               if a = narray then Inr (na, n)
               else computesizes_loop nums narray (i + 1) (twotoi * 2) a na n)
      else Inr (na, n))"
  by pat_completeness auto
termination by (relation "measure (\<lambda>(nums, narray, i, _). length nums - i)") auto

declare computesizes_loop.simps [simp del]

definition computesizes :: "int list \<Rightarrow> int \<Rightarrow> (int \<times> int) result" where
  "computesizes nums narray = computesizes_loop nums narray 0 1 0 0 0"

text \<open>
  \<open>setobjt2t(L, luaH_set(L, t, k), v)\<close> for the elements of a list of old nodes, and
  \<open>luaH_setnum\<close> for the elements of the array from index \<open>i\<close> on.
\<close>

fun reinsert_nodes :: "grower \<Rightarrow> Table \<Rightarrow> Node list \<Rightarrow> Table result" where
  "reinsert_nodes g t [] = Inr t"
| "reinsert_nodes g t (old # ns) =
     (if \<not> ttisnil (gval old) then
        bind_result (luaH_set g t (gkey old)) (\<lambda>(s, t). reinsert_nodes g (set_slot t s (gval old)) ns)
      else reinsert_nodes g t ns)"

fun reinsert_array :: "grower \<Rightarrow> Table \<Rightarrow> int \<Rightarrow> TValue list \<Rightarrow> Table result" where
  "reinsert_array g t i [] = Inr t"
| "reinsert_array g t i (v # vs) =
     (if \<not> ttisnil v then
        bind_result (luaH_setnum g t (i + 1)) (\<lambda>(s, t). reinsert_array g (set_slot t s v) (i + 1) vs)
      else reinsert_array g t (i + 1) vs)"

definition resize :: "grower \<Rightarrow> Table \<Rightarrow> int \<Rightarrow> int \<Rightarrow> Table result" where
  "resize g t nasize nhsize =
     (let oldasize = sizearray t; nold = t_node t; array = t_array t;
          t = (if nasize > oldasize then setarrayvector t nasize else t)
      in bind_result (setnodevector t nhsize) (\<lambda>t.
           bind_result
             (if nasize < oldasize
              then reinsert_array g (t\<lparr>t_array := take (nat nasize) (t_array t)\<rparr>) nasize (drop (nat nasize) array)
              else Inr t) (\<lambda>t.
           reinsert_nodes g t (rev nold))))"

definition luaH_resizearray :: "grower \<Rightarrow> Table \<Rightarrow> int \<Rightarrow> Table result" where
  "luaH_resizearray g t nasize = resize g t nasize (if is_dummy t then 0 else sizenode t)"

definition rehash :: "grower \<Rightarrow> Table \<Rightarrow> TValue \<Rightarrow> Table result" where
  "rehash g t ek =
     (let nums = replicate 27 0
      in case numusearray t nums of
           (nasize, nums) \<Rightarrow>
             (case numusehash t nums nasize of
                (tu, nasize', nums) \<Rightarrow>
                  (case countint ek nums of
                     (c, nums) \<Rightarrow>
                       let totaluse = nasize + tu + 1
                       in bind_result (computesizes nums (nasize' + c)) (\<lambda>(na, n).
                            resize g t n (totaluse - na)))))"

text \<open>The end of the recursion: rehash, then set the key in the new table.\<close>

primrec grow :: "nat \<Rightarrow> grower" where
  "grow 0 t key = Inl NoFuel"
| "grow (Suc f) t key = bind_result (rehash (grow f) t key) (\<lambda>t. luaH_set (grow f) t key)"

section \<open>Traversal\<close>

definition findindex :: "Table \<Rightarrow> TValue \<Rightarrow> int result" where
  "findindex t key =
     (if ttisnil key then Inr (- 1)
      else let i = arrayindex key
           in if 0 < i \<and> i \<le> sizearray t then Inr (i - 1)
              else bind_result
                (find_node (length (t_node t)) (t_node t)
                  (\<lambda>n. luaO_rawequalObj (gkey n) key
                     \<or> (case (gkey n, key) of (TDeadKey a, TGC b) \<Rightarrow> a = b | _ \<Rightarrow> False))
                  (mainposition t key))
                (\<lambda>r. case r of
                   None \<Rightarrow> Inl (ErrRun (''invalid key to '' @ LUA_QL ''next''))
                 | Some j \<Rightarrow> Inr (int j + sizearray t)))"

text \<open>The two loops of \<open>luaH_next\<close>, from index \<open>i\<close> on.\<close>

fun next_array :: "int \<Rightarrow> TValue list \<Rightarrow> (TValue \<times> TValue) option" where
  "next_array i [] = None"
| "next_array i (v # vs) =
     (if \<not> ttisnil v then Some (TNumber (cast_num (i + 1)), v) else next_array (i + 1) vs)"

fun next_hash :: "Node list \<Rightarrow> (TValue \<times> TValue) option" where
  "next_hash [] = None"
| "next_hash (n # ns) = (if \<not> ttisnil (gval n) then Some (gkey n, gval n) else next_hash ns)"

definition luaH_next :: "Table \<Rightarrow> TValue \<Rightarrow> (TValue \<times> TValue) option result" where
  "luaH_next t key =
     bind_result (findindex t key) (\<lambda>i.
       let i = i + 1
       in Inr (case next_array i (drop (nat i) (t_array t)) of
            Some r \<Rightarrow> Some r
          | None \<Rightarrow> next_hash (drop (nat (max i (sizearray t) - sizearray t)) (t_node t))))"

section \<open>The length of a table\<close>

definition isnil_at :: "Table \<Rightarrow> int \<Rightarrow> bool result" where
  "isnil_at t i = bind_result (luaH_getnum t i) (\<lambda>s. Inr (ttisnil (slot_val t s)))"

text \<open>The binary search of \<open>luaH_getn\<close> in the array, and of \<open>unbound_search\<close> in the table.\<close>

function array_search :: "Table \<Rightarrow> int \<Rightarrow> int \<Rightarrow> int" where
  "array_search t i j =
     (if j - i > 1 then
        let m = (i + j) div 2
        in if ttisnil (t_array t ! nat (m - 1)) then array_search t i m else array_search t m j
      else i)"
  by pat_completeness auto
termination by (relation "measure (\<lambda>(t, i, j). nat (j - i))") auto

function binary_search :: "Table \<Rightarrow> int \<Rightarrow> int \<Rightarrow> int result" where
  "binary_search t i j =
     (if j - i > 1 then
        let m = (i + j) div 2
        in bind_result (isnil_at t m) (\<lambda>nil. if nil then binary_search t i m else binary_search t m j)
      else Inr i)"
  by pat_completeness auto
termination by (relation "measure (\<lambda>(t, i, j). nat (j - i))") auto

fun linear_search :: "nat \<Rightarrow> Table \<Rightarrow> int \<Rightarrow> int result" where
  "linear_search 0 t i = Inl NoFuel"
| "linear_search (Suc f) t i =
     bind_result (isnil_at t i) (\<lambda>nil. if nil then Inr (i - 1) else linear_search f t (i + 1))"

text \<open>
  The search for a bound doubles \<open>j\<close>, which is positive (the second test only tells the model
  so). The linear search has fuel for one more index than the table has values.
\<close>

function unbound_loop :: "Table \<Rightarrow> int \<Rightarrow> int \<Rightarrow> int result" where
  "unbound_loop t i j =
     bind_result (isnil_at t j) (\<lambda>nil.
       if nil then binary_search t i j
       else let i = j; j = j * 2
            in if j > MAX_INT \<or> j \<le> 0 then linear_search (length (t_array t) + length (t_node t) + 1) t 1
               else unbound_loop t i j)"
  by pat_completeness auto
termination
  by (relation "measure (\<lambda>(t, i, j). nat (MAX_INT - j))") (auto simp: MAX_INT_def)

declare array_search.simps [simp del] binary_search.simps [simp del] unbound_loop.simps [simp del]

definition unbound_search :: "Table \<Rightarrow> int \<Rightarrow> int result" where
  "unbound_search t j = unbound_loop t j (j + 1)"

definition luaH_getn :: "Table \<Rightarrow> int result" where
  "luaH_getn t =
     (let j = sizearray t
      in if j > 0 \<and> ttisnil (t_array t ! nat (j - 1)) then Inr (array_search t 0 j)
         else if is_dummy t then Inr j
         else unbound_search t j)"

end
