(* ===== verification/LuaTableInv.thy ===== *)
theory LuaTableInv
  imports LuaTable
begin

text \<open>
  The invariant of tables and what the operations of \<open>ltable.c\<close> keep of it: chains are
  acyclic and disjoint, every key is reachable from its main position, a node in the main
  position of some key is itself in its main position, no key is there twice, and no node
  above \<open>lastfree\<close> is free.
\<close>

section \<open>Keys\<close>

definition intact :: "TValue \<Rightarrow> bool" where
  "intact k \<longleftrightarrow> k \<noteq> TNil \<and> (\<forall>g. k \<noteq> TDeadKey g)"

definition valid_key :: "TValue \<Rightarrow> bool" where
  "valid_key k \<longleftrightarrow> intact k \<and> luaO_rawequalObj k k"

lemma intact_nil [simp]: "\<not> intact TNil" "intact k \<Longrightarrow> k \<noteq> TNil"
  by (auto simp: intact_def)

lemma valid_key_intact: "valid_key k \<Longrightarrow> intact k"
  by (simp add: valid_key_def)

lemma hashnum_zero: "hashnum t 0 = hashnum t 0x8000000000000000"
proof -
  let ?z = "0x8000000000000000 :: lua_Number"
  have "\<not> is_nan ?z" "\<not> is_nan 0" "\<not> is_inf ?z" "\<not> is_inf 0" "\<not> is_zero (cast_num 1)"
    "num_pow ?z = 0" "num_pow 0 = 0" "num_signed ?z = 0" "num_signed 0 = 0"
    by code_simp+
  then have "luai_numadd 0 (cast_num 1) = luai_numadd ?z (cast_num 1)"
    by (simp add: luai_numadd_def)
  then show ?thesis by (simp add: hashnum_def)
qed

text \<open>Raw equal keys have the same main position: hashing adds 1, which joins the two zeros.\<close>

lemma mainposition_rawequal:
  "luaO_rawequalObj a b \<Longrightarrow> mainposition t a = mainposition t b"
  by (cases "(a, b)" rule: luaO_rawequalObj.cases)
    (auto elim!: luai_numeq_cases simp: hashnum_zero)

lemma mainposition_cong:
  assumes "lsizenode t = lsizenode t'"
  shows "mainposition t = mainposition t'"
proof
  fix k
  have "sizenode t = sizenode t'" using assms by (simp add: sizenode_def)
  then show "mainposition t k = mainposition t' k"
    by (cases k rule: ttype.cases) (simp_all add: hashnum_def hashstr_def hashboolean_def hashpointer_def
        hashpow2_def hashmod_def Let_def)
qed

lemma mask_or_one: "(2 ^ k - 1 :: int) OR 1 = max 1 (2 ^ k - 1)"
proof (cases k)
  case (Suc n)
  have "(2 ^ k - 1 :: int) = mask k" by (simp add: mask_eq_exp_minus_1)
  moreover have "(mask k :: int) OR 1 = mask k"
    by (rule bit_eqI) (auto simp: bit_simps Suc)
  moreover have "(1::int) \<le> 2 ^ n" by simp
  then have "(1::int) \<le> 2 ^ k - 1" unfolding Suc power_Suc by linarith
  ultimately show ?thesis by simp
qed simp

lemma sizenode_power [simp]: "sizenode t = 2 ^ lsizenode t"
  by (simp add: sizenode_def twoto_def push_bit_eq_mult)

lemma mainposition_less:
  assumes "length (t_node t) = 2 ^ lsizenode t"
  shows "mainposition t k < length (t_node t)"
proof -
  have pow: "hashpow2 t n < length (t_node t)" for n
    using lmod_bounds [of "sizenode t" "lsizenode t" n] assms by (simp add: hashpow2_def nat_less_iff)
  have mod: "hashmod t n < length (t_node t)" for n
  proof -
    have "uint n mod max 1 (2 ^ lsizenode t - 1) < max 1 (2 ^ lsizenode t - 1)" by simp
    also have "\<dots> \<le> 2 ^ lsizenode t" by simp
    finally show ?thesis using assms by (simp add: hashmod_def mask_or_one nat_less_iff)
  qed
  have "0 < length (t_node t)" using assms by simp
  with pow mod show ?thesis
    by (cases k rule: ttype.cases) (simp_all add: hashnum_def hashstr_def hashboolean_def hashpointer_def Let_def)
qed

section \<open>Chains\<close>

definition links :: "nat \<Rightarrow> (nat \<Rightarrow> nat option) \<Rightarrow> (nat \<times> nat) set" where
  "links S N = {(i, j). i < S \<and> N i = Some j}"

text \<open>
  The invariant of \<open>S\<close> nodes with successors \<open>N\<close>, keys \<open>K\<close> and values \<open>V\<close>, for main
  positions \<open>mp\<close>.
\<close>

definition ch_range :: "nat \<Rightarrow> (nat \<Rightarrow> nat option) \<Rightarrow> (nat \<Rightarrow> TValue) \<Rightarrow> bool" where
  "ch_range S N K \<longleftrightarrow> (\<forall>i < S. \<forall>j. N i = Some j \<longrightarrow> j < S \<and> K i \<noteq> TNil \<and> K j \<noteq> TNil)"

definition ch_inj :: "nat \<Rightarrow> (nat \<Rightarrow> nat option) \<Rightarrow> bool" where
  "ch_inj S N \<longleftrightarrow> (\<forall>i < S. \<forall>i' < S. \<forall>j. N i = Some j \<longrightarrow> N i' = Some j \<longrightarrow> i = i')"

definition ch_rank :: "nat \<Rightarrow> (nat \<Rightarrow> nat option) \<Rightarrow> bool" where
  "ch_rank S N \<longleftrightarrow> (\<exists>rank :: nat \<Rightarrow> nat. \<forall>i < S. \<forall>j. N i = Some j \<longrightarrow> rank i < rank j)"

definition ch_val :: "nat \<Rightarrow> (nat \<Rightarrow> TValue) \<Rightarrow> (nat \<Rightarrow> TValue) \<Rightarrow> bool" where
  "ch_val S K V \<longleftrightarrow> (\<forall>i < S. (intact (K i) \<longrightarrow> valid_key (K i)) \<and> (\<not> intact (K i) \<longrightarrow> V i = TNil))"

definition ch_reach :: "nat \<Rightarrow> (TValue \<Rightarrow> nat) \<Rightarrow> (nat \<Rightarrow> nat option) \<Rightarrow> (nat \<Rightarrow> TValue) \<Rightarrow> bool" where
  "ch_reach S mp N K \<longleftrightarrow> (\<forall>i < S. intact (K i) \<longrightarrow> (mp (K i), i) \<in> (links S N)\<^sup>*)"

definition ch_main :: "nat \<Rightarrow> (TValue \<Rightarrow> nat) \<Rightarrow> (nat \<Rightarrow> TValue) \<Rightarrow> bool" where
  "ch_main S mp K \<longleftrightarrow> (\<forall>i < S. intact (K i) \<longrightarrow> K (mp (K i)) \<noteq> TNil
     \<and> (intact (K (mp (K i))) \<longrightarrow> mp (K (mp (K i))) = mp (K i)))"

definition ch_uniq :: "nat \<Rightarrow> (nat \<Rightarrow> TValue) \<Rightarrow> bool" where
  "ch_uniq S K \<longleftrightarrow> (\<forall>i < S. \<forall>j < S. intact (K i) \<longrightarrow> intact (K j) \<longrightarrow> luaO_rawequalObj (K i) (K j) \<longrightarrow> i = j)"

lemmas ch_defs = ch_range_def ch_inj_def ch_rank_def ch_val_def ch_reach_def ch_main_def ch_uniq_def

definition chains_ok ::
    "nat \<Rightarrow> (TValue \<Rightarrow> nat) \<Rightarrow> (nat \<Rightarrow> nat option) \<Rightarrow> (nat \<Rightarrow> TValue) \<Rightarrow> (nat \<Rightarrow> TValue) \<Rightarrow> bool" where
  "chains_ok S mp N K V \<longleftrightarrow> ch_range S N K \<and> ch_inj S N \<and> ch_rank S N \<and> ch_val S K V
     \<and> ch_reach S mp N K \<and> ch_main S mp K \<and> ch_uniq S K"

lemma chains_okE:
  assumes "chains_ok S mp N K V"
  shows "ch_range S N K" "ch_inj S N" "ch_rank S N" "ch_val S K V" "ch_reach S mp N K"
    "ch_main S mp K" "ch_uniq S K"
  using assms by (simp_all add: chains_ok_def)

lemma links_range:
  assumes "chains_ok S mp N K V" and "(i, j) \<in> (links S N)\<^sup>*" and "i < S"
  shows "j < S"
  using assms(2,3) chains_okE(1) [OF assms(1)]
  by (induction) (auto simp: links_def ch_range_def)

text \<open>A key is new when no node has a key equal to it.\<close>

definition new_key :: "nat \<Rightarrow> (nat \<Rightarrow> TValue) \<Rightarrow> TValue \<Rightarrow> bool" where
  "new_key S K k \<longleftrightarrow> valid_key k \<and> (\<forall>i < S. intact (K i) \<longrightarrow> \<not> luaO_rawequalObj (K i) k)"

text \<open>First case of \<open>newkey\<close>: the key goes to its main position, which has no value.\<close>

lemma chains_put:
  assumes ok: "chains_ok S mp N K V" and k: "new_key S K k" and m: "mp k < S" "V (mp k) = TNil"
  shows "chains_ok S mp N (K(mp k := k)) V"
proof -
  note c = chains_okE [OF ok]
  have kk: "valid_key k" "intact k" "k \<noteq> TNil"
    and new: "\<And>i. i < S \<Longrightarrow> intact (K i) \<Longrightarrow> \<not> luaO_rawequalObj (K i) k \<and> \<not> luaO_rawequalObj k (K i)"
    using k rawequal_sym by (auto simp: new_key_def valid_key_intact)
  have "ch_range S N (K(mp k := k))" using c(1) kk by (simp add: ch_range_def)
  moreover have "ch_val S (K(mp k := k)) V" using c(4) kk by (simp add: ch_val_def)
  moreover have "ch_reach S mp N (K(mp k := k))" using c(5) by (simp add: ch_reach_def)
  moreover have "ch_main S mp (K(mp k := k))" using c(6) kk m unfolding ch_main_def
    by (auto split: if_splits)
  moreover have "ch_uniq S (K(mp k := k))" using c(7) new unfolding ch_uniq_def
    by (auto split: if_splits)
  ultimately show ?thesis using c(2,3) by (simp add: chains_ok_def)
qed

text \<open>Second case: the new key's chain starts at \<open>m\<close>; the free node \<open>n\<close> is linked in behind it.\<close>

lemma chains_append:
  assumes ok: "chains_ok S mp N K V" and k: "new_key S K k" and m: "mp k = m" "m < S" "K m \<noteq> TNil"
    and home: "intact (K m) \<Longrightarrow> mp (K m) = m" and n: "n < S" "K n = TNil"
  shows "chains_ok S mp (N(n := N m, m := Some n)) (K(n := k)) V"
proof -
  note c = chains_okE [OF ok]
  let ?N = "N(n := N m, m := Some n)" and ?K = "K(n := k)"
  have kk: "valid_key k" "intact k" "k \<noteq> TNil"
    and new: "\<And>i. i < S \<Longrightarrow> intact (K i) \<Longrightarrow> \<not> luaO_rawequalObj (K i) k \<and> \<not> luaO_rawequalObj k (K i)"
    using k rawequal_sym by (auto simp: new_key_def valid_key_intact)
  have nm: "n \<noteq> m" and iso: "\<And>i. i < S \<Longrightarrow> N i \<noteq> Some n" "N n = None"
    using n m c(1) by (auto simp: ch_range_def)
  have "ch_range S ?N ?K" using c(1) kk m n nm unfolding ch_range_def by (auto split: if_splits)
  moreover have "ch_inj S ?N" using c(2) iso m n unfolding ch_inj_def by (auto split: if_splits)
  moreover have "ch_rank S ?N"
  proof -
    obtain rank :: "nat \<Rightarrow> nat" where r: "\<And>i j. i < S \<Longrightarrow> N i = Some j \<Longrightarrow> rank i < rank j"
      using c(3) by (auto simp: ch_rank_def)
    let ?r = "(\<lambda>x. 2 * rank x)(n := 2 * rank m + 1)"
    have "?r i < ?r j" if i: "i < S" and ij: "?N i = Some j" for i j
    proof -
      consider "i = m" "j = n" | "i = n" "N m = Some j" | "i \<noteq> m" "i \<noteq> n" "N i = Some j"
        using ij by (auto split: if_splits)
      then show ?thesis
      proof cases
        case 2
        with r [OF m(2), of j] iso(1) [OF m(2)] nm show ?thesis by auto
      next
        case 3
        with r [OF i, of j] iso(1) [OF i] show ?thesis by auto
      qed (use nm in auto)
    qed
    then show ?thesis unfolding ch_rank_def by blast
  qed
  moreover have "ch_val S ?K V" using c(4) kk n unfolding ch_val_def by auto
  moreover have "ch_reach S mp ?N ?K"
  proof -
    have "links S N \<subseteq> (links S ?N)\<^sup>*"
    proof
      fix e assume e: "e \<in> links S N"
      then obtain i j where ij: "e = (i, j)" "i < S" "N i = Some j" by (auto simp: links_def)
      show "e \<in> (links S ?N)\<^sup>*"
      proof (cases "i = m")
        case True
        with ij n nm have "(m, n) \<in> links S ?N" "(n, j) \<in> links S ?N" using m by (auto simp: links_def)
        with ij True show ?thesis by (metis converse_rtrancl_into_rtrancl r_into_rtrancl)
      next
        case False
        with ij iso have "(i, j) \<in> links S ?N" by (auto simp: links_def)
        with ij show ?thesis by simp
      qed
    qed
    then have sub: "(links S N)\<^sup>* \<subseteq> (links S ?N)\<^sup>*" by (metis rtrancl_subset_rtrancl)
    have "(m, n) \<in> (links S ?N)\<^sup>*" using m by (auto simp: links_def)
    with c(5) sub m show ?thesis unfolding ch_reach_def by auto
  qed
  moreover have "ch_main S mp ?K"
    using c(6) kk m home n nm unfolding ch_main_def by (auto split: if_splits)
  moreover have "ch_uniq S ?K" using c(7) new n unfolding ch_uniq_def by (auto split: if_splits)
  ultimately show ?thesis by (simp add: chains_ok_def)
qed


text \<open>
  Third case: node \<open>m\<close> holds a key that does not belong there. It moves to the free node \<open>n\<close>,
  its predecessor \<open>p\<close> is linked to \<open>n\<close>, and the new key starts a chain of its own at \<open>m\<close>.
\<close>

lemma rtrancl_image:
  assumes "(a, b) \<in> R\<^sup>*" and "\<And>x y. (x, y) \<in> R \<Longrightarrow> (f x, f y) \<in> R'"
  shows "(f a, f b) \<in> R'\<^sup>*"
  using assms(1) by (induction) (auto intro: rtrancl_into_rtrancl assms(2))

lemma chains_move:
  assumes ok: "chains_ok S mp N K V" and k: "new_key S K k" and m: "mp k = m" "m < S" "V m \<noteq> TNil"
    and away: "mp (K m) \<noteq> m" and n: "n < S" "K n = TNil" and p: "p < S" "N p = Some m"
  shows "chains_ok S mp (N(p := Some n, n := N m, m := None)) (K(n := K m, m := k)) (V(n := V m, m := TNil))"
proof -
  note c = chains_okE [OF ok]
  let ?N = "N(p := Some n, n := N m, m := None)" and ?K = "K(n := K m, m := k)"
  obtain rank :: "nat \<Rightarrow> nat" where r: "\<And>i j. i < S \<Longrightarrow> N i = Some j \<Longrightarrow> rank i < rank j"
    using c(3) by (auto simp: ch_rank_def)
  have kk: "valid_key k" "intact k" "k \<noteq> TNil"
    and new: "\<And>i. i < S \<Longrightarrow> intact (K i) \<Longrightarrow> \<not> luaO_rawequalObj (K i) k \<and> \<not> luaO_rawequalObj k (K i)"
    using k rawequal_sym by (auto simp: new_key_def valid_key_intact)
  have km: "intact (K m)" using c(4) m by (auto simp: ch_val_def)
  have iso: "\<And>i. i < S \<Longrightarrow> N i \<noteq> Some n" "N n = None" using n c(1) by (auto simp: ch_range_def)
  have ne: "n \<noteq> m" "p \<noteq> m" "p \<noteq> n" using km n r [OF p] iso p by auto
  have prev: "i = p" if "i < S" "N i = Some m" for i using c(2) p that unfolding ch_inj_def by blast
  have succ: "j \<noteq> m" "j \<noteq> n" if "N m = Some j" for j using r [OF m(2) that] iso(1) [OF m(2)] that by auto
  have homeless: "mp (K i) \<noteq> m" if "i < S" "intact (K i)" for i
    using c(6) that km away unfolding ch_main_def by metis
  have edge: "?N i = Some j \<Longrightarrow> i = p \<and> j = n \<or> i = n \<and> N m = Some j \<or> i \<notin> {p, n, m} \<and> N i = Some j" for i j
    by (auto split: if_splits)
  have "ch_range S ?N ?K"
    unfolding ch_range_def
  proof (intro allI impI)
    fix i j assume i: "i < S" and "?N i = Some j"
    have rg: "N x = Some y \<Longrightarrow> x < S \<Longrightarrow> y < S \<and> K x \<noteq> TNil \<and> K y \<noteq> TNil" for x y
      using c(1) by (simp add: ch_range_def)
    from edge [OF \<open>?N i = Some j\<close>] show "j < S \<and> ?K i \<noteq> TNil \<and> ?K j \<noteq> TNil"
    proof (elim disjE conjE)
      assume "i = p" "j = n"
      with rg [OF p(2) p(1)] n ne km show ?thesis by simp
    next
      assume "i = n" "N m = Some j"
      with rg [OF _ m(2), of j] succ [of j] ne km show ?thesis by simp
    next
      assume "i \<notin> {p, n, m}" "N i = Some j"
      with rg [OF _ i, of j] kk km show ?thesis by simp
    qed
  qed
  moreover have "ch_inj S ?N"
    unfolding ch_inj_def
  proof (intro allI impI)
    fix i i' j assume i: "i < S" "i' < S" and "?N i = Some j" "?N i' = Some j"
    from edge [OF this(3)] edge [OF this(4)] show "i = i'"
      using c(2) i m iso succ unfolding ch_inj_def by blast
  qed
  moreover have "ch_rank S ?N"
  proof -
    have "(rank(n := rank m)) i < (rank(n := rank m)) j" if i: "i < S" and "?N i = Some j" for i j
      using edge [OF that(2)]
    proof (elim disjE conjE)
      assume "i = p" "j = n"
      with r [OF p] ne show ?thesis by simp
    next
      assume "i = n" "N m = Some j"
      with r [OF m(2), of j] succ [of j] show ?thesis by simp
    next
      assume "i \<notin> {p, n, m}" "N i = Some j"
      with r [OF i, of j] iso(1) [OF i] show ?thesis by auto
    qed
    then show ?thesis unfolding ch_rank_def by blast
  qed
  moreover have "ch_val S ?K (V(n := V m, m := TNil))" using c(4) kk km m unfolding ch_val_def by simp
  moreover have "ch_reach S mp ?N ?K"
  proof -
    have step: "((id(m := n)) x, (id(m := n)) y) \<in> links S ?N" if "(x, y) \<in> links S N" for x y
    proof -
      have x: "x < S" "N x = Some y" using that by (auto simp: links_def)
      have xy: "x \<noteq> n" "y \<noteq> n" using x iso(1) [OF x(1)] iso(2) by auto
      have "x = p \<longleftrightarrow> y = m"
      proof
        assume "x = p"
        with x(2) p(2) show "y = m" by simp
      next
        assume "y = m"
        with prev [OF x(1)] x(2) show "x = p" by simp
      qed
      then have "?N ((id(m := n)) x) = Some ((id(m := n)) y)" "(id(m := n)) x < S"
        using x xy ne n(1) by auto
      then show ?thesis by (simp add: links_def)
    qed
    have path: "(mp (K i), (id(m := n)) i) \<in> (links S ?N)\<^sup>*" if "i < S" "intact (K i)" for i
    proof -
      have "(mp (K i), i) \<in> (links S N)\<^sup>*" using c(5) that by (simp add: ch_reach_def)
      from rtrancl_image [of _ _ _ "id(m := n)", OF this step] homeless [OF that] show ?thesis by simp
    qed
    show ?thesis
      unfolding ch_reach_def
    proof (intro allI impI)
      fix i assume i: "i < S" "intact (?K i)"
      consider "i = m" | "i = n" | "i \<noteq> m" "i \<noteq> n" by blast
      then show "(mp (?K i), i) \<in> (links S ?N)\<^sup>*"
      proof cases
        case 3
        with path [of i] i show ?thesis by simp
      qed (use path [OF m(2) km] m ne in simp_all)
    qed
  qed
  moreover have "ch_main S mp ?K"
  proof -
    have M: "K (mp (K i)) \<noteq> TNil \<and> mp (K i) \<noteq> n \<and> mp (K i) \<noteq> m
        \<and> (intact (K (mp (K i))) \<longrightarrow> mp (K (mp (K i))) = mp (K i))"
      if "i < S" "intact (K i)" for i
      using c(6) that homeless [OF that] n unfolding ch_main_def by auto
    show ?thesis unfolding ch_main_def
    proof (intro allI impI)
      fix i assume i: "i < S" "intact (?K i)"
      consider "i = m" | "i = n" | "i \<noteq> m" "i \<noteq> n" by blast
      then show "?K (mp (?K i)) \<noteq> TNil \<and> (intact (?K (mp (?K i))) \<longrightarrow> mp (?K (mp (?K i))) = mp (?K i))"
      proof cases
        case 3
        with M [of i] i show ?thesis by simp
      qed (use M [OF m(2) km] kk m ne in simp_all)
    qed
  qed
  moreover have "ch_uniq S ?K"
  proof -
    have "i = j" if "i < S" "j < S" "intact (K i)" "intact (K j)" "luaO_rawequalObj (K i) (K j)" for i j
      using c(7) that by (simp add: ch_uniq_def)
    then show ?thesis unfolding ch_uniq_def using new km m(2) n by (auto split: if_splits)
  qed
  ultimately show ?thesis by (simp add: chains_ok_def)
qed


section \<open>The invariant of a table\<close>

definition tN :: "Table \<Rightarrow> nat \<Rightarrow> nat option" where "tN t i = gnext (t_node t ! i)"
definition tK :: "Table \<Rightarrow> nat \<Rightarrow> TValue" where "tK t i = gkey (t_node t ! i)"
definition tV :: "Table \<Rightarrow> nat \<Rightarrow> TValue" where "tV t i = gval (t_node t ! i)"

definition array_key :: "Table \<Rightarrow> TValue \<Rightarrow> bool" where
  "array_key t k \<longleftrightarrow> 1 \<le> arrayindex k \<and> arrayindex k \<le> sizearray t"

definition sizes_ok :: "Table \<Rightarrow> bool" where
  "sizes_ok t \<longleftrightarrow> length (t_node t) = 2 ^ lsizenode t \<and> lsizenode t \<le> 26 \<and> sizearray t < 2 ^ 31
     \<and> lastfree t \<le> int (length (t_node t))
     \<and> (is_dummy t \<longrightarrow> t_node t = [dummynode] \<and> lastfree t \<le> 0)"

definition free_ok :: "Table \<Rightarrow> bool" where
  "free_ok t \<longleftrightarrow> is_dummy t \<or> (\<forall>i < length (t_node t). lastfree t \<le> int i \<longrightarrow> tK t i \<noteq> TNil)"

definition table_ok :: "Table \<Rightarrow> bool" where
  "table_ok t \<longleftrightarrow> sizes_ok t \<and> free_ok t
     \<and> chains_ok (length (t_node t)) (mainposition t) (tN t) (tK t) (tV t)
     \<and> (\<forall>i < length (t_node t). intact (tK t i) \<longrightarrow> \<not> array_key t (tK t i))"

lemma table_okD:
  assumes "table_ok t"
  shows "sizes_ok t" "free_ok t" "chains_ok (length (t_node t)) (mainposition t) (tN t) (tK t) (tV t)"
    "\<And>i. i < length (t_node t) \<Longrightarrow> intact (tK t i) \<Longrightarrow> \<not> array_key t (tK t i)"
    "length (t_node t) = 2 ^ lsizenode t" "\<And>k. mainposition t k < length (t_node t)"
  using assms mainposition_less by (auto simp: table_ok_def sizes_ok_def)

lemma arrayindex_zero: "arrayindex (TNumber 0x8000000000000000) = 0" "arrayindex (TNumber 0) = 0"
  by code_simp+

lemma arrayindex_rawequal: "luaO_rawequalObj a b \<Longrightarrow> arrayindex a = arrayindex b"
  by (cases "(a, b)" rule: luaO_rawequalObj.cases)
    (auto elim!: luai_numeq_cases simp: arrayindex_zero)

lemma arrayindex_cast_num:
  assumes "INT_MIN \<le> k" "k \<le> INT_MAX"
  shows "arrayindex (TNumber (cast_num k)) = k"
proof -
  have "\<bar>k\<bar> < 2 ^ 53" using assms by (auto simp: INT_MIN_def INT_MAX_def)
  with cast_num_finite [of k] lua_number2int_cast_num [OF assms] show ?thesis
    by (simp add: arrayindex_def)
qed

text \<open>Two keys with the same array index are equal.\<close>

lemma arrayindex_eq_rawequal:
  assumes "arrayindex k = arrayindex k'" and "0 \<le> arrayindex k"
  shows "luaO_rawequalObj k k'"
proof -
  have num: "\<exists>n. k = TNumber n \<and> luai_numeq (cast_num (arrayindex k)) n" if "0 \<le> arrayindex k" for k
    using that by (cases k) (auto simp: arrayindex_def Let_def split: if_splits)
  from num [of k] num [of k'] assms obtain n n' where "k = TNumber n" "k' = TNumber n'"
    "luai_numeq (cast_num (arrayindex k)) n" "luai_numeq (cast_num (arrayindex k)) n'"
    by auto
  then show ?thesis using luai_numeq_sym luai_numeq_trans by (metis luaO_rawequalObj.simps(2))
qed

section \<open>Searching a chain\<close>

lemma find_node_reaches:
  assumes r: "\<And>i j. i < length nodes \<Longrightarrow> gnext (nodes ! i) = Some j \<Longrightarrow> j < length nodes \<and> rank i < (rank j :: nat)"
    and "i < length nodes" and "card {j. j < length nodes \<and> rank i \<le> rank j} \<le> f"
  defines "L \<equiv> links (length nodes) (\<lambda>i. gnext (nodes ! i))"
  shows "\<exists>r. find_node f nodes P i = Inr r \<and> (case r of
      Some j \<Rightarrow> j < length nodes \<and> (i, j) \<in> L\<^sup>* \<and> P (nodes ! j)
    | None \<Rightarrow> \<forall>j. (i, j) \<in> L\<^sup>* \<longrightarrow> \<not> P (nodes ! j))"
  using assms(2,3)
proof (induction f arbitrary: i)
  case 0
  then have "{j. j < length nodes \<and> rank i \<le> rank j} = {}" by simp
  with 0 show ?case by blast
next
  case (Suc f)
  show ?case
  proof (cases "P (nodes ! i)")
    case True
    with Suc.prems show ?thesis by (intro exI [of _ "Some i"]) simp
  next
    case False
    show ?thesis
    proof (cases "gnext (nodes ! i)")
      case None
      have "j = i" if "(i, j) \<in> L\<^sup>*" for j
        using that
      proof (cases rule: converse_rtranclE)
        case (step y)
        with None show ?thesis by (simp add: L_def links_def)
      qed simp
      with None False Suc.prems show ?thesis by (intro exI [of _ None]) auto
    next
      case (Some k)
      note k = r [OF Suc.prems(1) Some]
      have "{j. j < length nodes \<and> rank k \<le> rank j} \<subset> {j. j < length nodes \<and> rank i \<le> rank j}"
      proof (rule psubsetI)
        show "{j. j < length nodes \<and> rank k \<le> rank j} \<subseteq> {j. j < length nodes \<and> rank i \<le> rank j}"
          using k by auto
        have "i \<in> {j. j < length nodes \<and> rank i \<le> rank j}" "i \<notin> {j. j < length nodes \<and> rank k \<le> rank j}"
          using k Suc.prems(1) by simp_all
        then show "{j. j < length nodes \<and> rank k \<le> rank j} \<noteq> {j. j < length nodes \<and> rank i \<le> rank j}"
          by blast
      qed
      then have "card {j. j < length nodes \<and> rank k \<le> rank j} < card {j. j < length nodes \<and> rank i \<le> rank j}"
        by (intro psubset_card_mono) auto
      with Suc.prems(2) have "card {j. j < length nodes \<and> rank k \<le> rank j} \<le> f" by linarith
      from Suc.IH [OF conjunct1 [OF k] this] obtain r' where r': "find_node f nodes P k = Inr r'"
        "case r' of Some j \<Rightarrow> j < length nodes \<and> (k, j) \<in> L\<^sup>* \<and> P (nodes ! j)
          | None \<Rightarrow> \<forall>j. (k, j) \<in> L\<^sup>* \<longrightarrow> \<not> P (nodes ! j)"
        by blast
      have ik: "(i, k) \<in> L" using Some Suc.prems(1) by (simp add: L_def links_def)
      have return: "j = i \<or> (k, j) \<in> L\<^sup>*" if "(i, j) \<in> L\<^sup>*" for j
        using that
      proof (cases rule: converse_rtranclE)
        case (step y)
        with Some have "y = k" by (simp add: L_def links_def)
        with step show ?thesis by simp
      qed simp
      have eq: "find_node (Suc f) nodes P i = Inr r'" using r'(1) Some False Suc.prems(1) by simp
      show ?thesis
      proof (cases r')
        case None
        with r'(2) return False have "\<forall>j. (i, j) \<in> L\<^sup>* \<longrightarrow> \<not> P (nodes ! j)" by fastforce
        with eq None show ?thesis by simp
      next
        case (Some j)
        with r'(2) ik have "(i, j) \<in> L\<^sup>*" by (auto intro: converse_rtrancl_into_rtrancl)
        with eq Some r'(2) show ?thesis by simp
      qed
    qed
  qed
qed

lemma table_find_node:
  assumes "table_ok t" and "i < length (t_node t)"
  shows "\<exists>r. find_node (length (t_node t)) (t_node t) P i = Inr r \<and> (case r of
      Some j \<Rightarrow> j < length (t_node t) \<and> (i, j) \<in> (links (length (t_node t)) (tN t))\<^sup>* \<and> P (t_node t ! j)
    | None \<Rightarrow> \<forall>j. (i, j) \<in> (links (length (t_node t)) (tN t))\<^sup>* \<longrightarrow> \<not> P (t_node t ! j))"
proof -
  note c = chains_okE [OF table_okD(3) [OF assms(1)]]
  obtain rank :: "nat \<Rightarrow> nat" where r: "\<And>i j. i < length (t_node t) \<Longrightarrow> tN t i = Some j \<Longrightarrow> rank i < rank j"
    using c(3) by (auto simp: ch_rank_def)
  have "card {j. j < length (t_node t) \<and> rank i \<le> rank j} \<le> card {j. j < length (t_node t)}"
    by (intro card_mono) auto
  then have "card {j. j < length (t_node t) \<and> rank i \<le> rank j} \<le> length (t_node t)" by simp
  moreover have "j < length (t_node t) \<and> rank i < rank j"
    if "i < length (t_node t)" "gnext (t_node t ! i) = Some j" for i j
    using r [of i j] c(1) that by (simp add: tN_def ch_range_def)
  ultimately show ?thesis
    using find_node_reaches [of "t_node t" rank i "length (t_node t)" P] assms(2)
    unfolding tN_def [abs_def] by blast
qed

text \<open>
  A search that accepts only nodes whose key has the starting point as main position finds
  exactly the node with such a key.
\<close>

lemma search_chain_finds:
  assumes ok: "table_ok t" and i: "i < length (t_node t)"
    and P: "\<And>j. j < length (t_node t) \<Longrightarrow> P (t_node t ! j) \<Longrightarrow> intact (tK t j) \<and> mainposition t (tK t j) = i"
  shows "(\<exists>j. search_chain t P i = Inr (InNode j) \<and> j < length (t_node t) \<and> P (t_node t ! j))
    \<or> (search_chain t P i = Inr NilObject \<and> (\<forall>j < length (t_node t). \<not> P (t_node t ! j)))"
proof -
  note reach = chains_okE(5) [OF table_okD(3) [OF ok]]
  obtain r where r: "find_node (length (t_node t)) (t_node t) P i = Inr r" "case r of
      Some j \<Rightarrow> j < length (t_node t) \<and> (i, j) \<in> (links (length (t_node t)) (tN t))\<^sup>* \<and> P (t_node t ! j)
    | None \<Rightarrow> \<forall>j. (i, j) \<in> (links (length (t_node t)) (tN t))\<^sup>* \<longrightarrow> \<not> P (t_node t ! j)"
    using table_find_node [OF ok i] by blast
  show ?thesis
  proof (cases r)
    case None
    have "\<not> P (t_node t ! j)" if "j < length (t_node t)" for j
      using that P [OF that] reach r(2) None unfolding ch_reach_def by auto
    with None r(1) show ?thesis by (simp add: search_chain_def)
  next
    case (Some j)
    with r show ?thesis by (simp add: search_chain_def)
  qed
qed


section \<open>Reading\<close>

text \<open>\<open>at_slot t k s\<close>: \<open>s\<close> is where the value of key \<open>k\<close> is, or \<open>NilObject\<close> if there is no such place.\<close>

definition at_slot :: "Table \<Rightarrow> TValue \<Rightarrow> slot \<Rightarrow> bool" where
  "at_slot t k s \<longleftrightarrow>
     (case s of
        InArray i \<Rightarrow> i < length (t_array t) \<and> arrayindex k = int i + 1
      | InNode i \<Rightarrow> i < length (t_node t) \<and> intact (tK t i) \<and> luaO_rawequalObj (tK t i) k
      | NilObject \<Rightarrow> \<not> array_key t k \<and> (\<forall>i < length (t_node t). intact (tK t i) \<longrightarrow> \<not> luaO_rawequalObj (tK t i) k))"

lemma at_slot_unique:
  assumes ok: "table_ok t" and "at_slot t k s" and "at_slot t k s'"
  shows "s = s'"
proof -
  have node: "\<not> array_key t k" if "at_slot t k (InNode i)" for i
    using table_okD(4) [OF ok, of i] that arrayindex_rawequal [of "tK t i" k]
    by (auto simp: at_slot_def array_key_def)
  have arr: "array_key t k" if "at_slot t k (InArray i)" for i
    using that by (auto simp: at_slot_def array_key_def sizearray_def)
  have uniq: "i = j" if "at_slot t k (InNode i)" "at_slot t k (InNode j)" for i j
    using chains_okE(7) [OF table_okD(3) [OF ok]] that rawequal_sym rawequal_trans
    unfolding ch_uniq_def at_slot_def slot.case by blast
  show ?thesis
    using assms(2,3) node arr uniq
    by (cases s; cases s') (auto simp: at_slot_def)
qed

lemma at_slot_rawequal:
  assumes "luaO_rawequalObj k k'" and "at_slot t k s"
  shows "at_slot t k' s"
proof -
  have "luaO_rawequalObj a k \<longleftrightarrow> luaO_rawequalObj a k'" for a
    using assms(1) rawequal_trans rawequal_sym by blast
  with assms arrayindex_rawequal [OF assms(1)] show ?thesis
    by (auto simp: at_slot_def array_key_def split: slot.splits)
qed

lemma generic_search:
  assumes ok: "table_ok t" and k: "intact k" and "\<not> array_key t k"
    and P: "\<And>j. P (t_node t ! j) \<longleftrightarrow> luaO_rawequalObj (tK t j) k"
  shows "\<exists>s. search_chain t P (mainposition t k) = Inr s \<and> at_slot t k s"
proof -
  have "intact (tK t j)" if "luaO_rawequalObj (tK t j) k" for j
    using that k by (cases "(tK t j, k)" rule: luaO_rawequalObj.cases) (auto simp: intact_def)
  moreover have "mainposition t (tK t j) = mainposition t k" if "luaO_rawequalObj (tK t j) k" for j
    using mainposition_rawequal that by blast
  ultimately show ?thesis
    using search_chain_finds [OF ok table_okD(6) [OF ok], of P k] assms(3) P
    by (auto simp: at_slot_def)
qed

lemma rawequal_string: "luaO_rawequalObj a (TGC (GString s)) \<longleftrightarrow> a = TGC (GString s)"
  by (cases a) auto

lemma rawequal_number: "luaO_rawequalObj a (TNumber n) \<longleftrightarrow> (case a of TNumber m \<Rightarrow> luai_numeq m n | _ \<Rightarrow> False)"
  by (cases a) auto

lemma luaH_getstr_slot:
  assumes "table_ok t"
  shows "\<exists>s. luaH_getstr t key = Inr s \<and> at_slot t (TGC (GString key)) s"
  using generic_search [OF assms, of "TGC (GString key)" "\<lambda>n. gkey n = TGC (GString key)"]
  by (simp add: luaH_getstr_def intact_def array_key_def arrayindex_def rawequal_string tK_def)

lemma luaH_getnum_slot:
  assumes ok: "table_ok t" and k: "INT_MIN \<le> key" "key \<le> INT_MAX"
  shows "\<exists>s. luaH_getnum t key = Inr s \<and> at_slot t (TNumber (cast_num key)) s"
proof -
  note ai = arrayindex_cast_num [OF k]
  have sa: "0 \<le> sizearray t" "sizearray t < 2 ^ 31"
    using table_okD(1) [OF ok] by (simp_all add: sizes_ok_def sizearray_def)
  have unsigned: "(key - 1) mod 2 ^ 32 < sizearray t mod 2 ^ 32 \<longleftrightarrow> 1 \<le> key \<and> key \<le> sizearray t"
  proof -
    have "sizearray t mod 2 ^ 32 = sizearray t" using sa by simp
    moreover have "(key - 1) mod 2 ^ 32 = (if 1 \<le> key then key - 1 else key - 1 + 2 ^ 32)"
      using k by (auto simp: INT_MIN_def INT_MAX_def mod_neg)
    ultimately show ?thesis using sa k by (auto simp: INT_MIN_def INT_MAX_def)
  qed
  show ?thesis
  proof (cases "1 \<le> key \<and> key \<le> sizearray t")
    case True
    with ai show ?thesis unfolding luaH_getnum_def unsigned
      by (simp add: at_slot_def sizearray_def nat_less_iff)
  next
    case False
    then have "\<not> array_key t (TNumber (cast_num key))" by (simp add: array_key_def ai)
    from generic_search [OF ok _ this, of "\<lambda>n. case gkey n of TNumber m \<Rightarrow> luai_numeq m (cast_num key) | _ \<Rightarrow> False"]
    show ?thesis using False unfolding luaH_getnum_def unsigned
      by (auto simp: Let_def rawequal_number tK_def intact_def)
  qed
qed

text \<open>The search of every kind of key ends at its slot.\<close>

lemma luaH_get_slot:
  assumes ok: "table_ok t" and k: "intact key"
  shows "\<exists>s. luaH_get t key = Inr s \<and> at_slot t key s"
proof -
  have generic: "\<exists>s. search_chain t (\<lambda>n. luaO_rawequalObj (gkey n) key) (mainposition t key) = Inr s \<and> at_slot t key s"
    if "\<not> array_key t key"
    by (rule generic_search [OF ok k that]) (simp add: tK_def)
  show ?thesis
  proof (cases key)
    case (TNumber n)
    show ?thesis
    proof (cases "luai_numeq (cast_num (lua_number2int n)) n")
      case True
      have b: "INT_MIN \<le> lua_number2int n" "lua_number2int n \<le> INT_MAX"
        by (auto simp: lua_number2int_def Let_def INT_MIN_def INT_MAX_def)
      from luaH_getnum_slot [OF ok b] obtain s where s: "luaH_getnum t (lua_number2int n) = Inr s"
        "at_slot t (TNumber (cast_num (lua_number2int n))) s"
        by blast
      have "at_slot t (TNumber n) s" by (rule at_slot_rawequal [OF _ s(2)]) (simp add: True)
      with s(1) True TNumber show ?thesis by (simp add: luaH_get_def Let_def)
    next
      case False
      then have "\<not> array_key t key" by (simp add: array_key_def arrayindex_def TNumber Let_def)
      from generic [OF this] False TNumber show ?thesis by (simp add: luaH_get_def Let_def)
    qed
  next
    case (TGC g)
    show ?thesis
    proof (cases g)
      case (GString s)
      with luaH_getstr_slot [OF ok, of s] TGC show ?thesis by (simp add: luaH_get_def Let_def)
    qed (use TGC generic in \<open>simp_all add: luaH_get_def Let_def array_key_def arrayindex_def\<close>)
  qed (use generic k in \<open>simp_all add: luaH_get_def Let_def array_key_def arrayindex_def intact_def\<close>)
qed


section \<open>Inserting\<close>

definition used :: "Table \<Rightarrow> nat" where
  "used t = card {i. i < length (t_node t) \<and> tK t i \<noteq> TNil}"

text \<open>The key and value of each node with a value.\<close>

definition live :: "Table \<Rightarrow> (TValue \<times> TValue) set" where
  "live t = {(tK t i, tV t i) | i. i < length (t_node t) \<and> tV t i \<noteq> TNil}"

lemma getfreepos_None:
  "getfreepos t = (None, t') \<Longrightarrow> (\<exists>l \<le> lastfree t. t' = t\<lparr>lastfree := l\<rparr>)
     \<and> (\<forall>i. int i < lastfree t \<longrightarrow> tK t i \<noteq> TNil)"
proof (induction t rule: getfreepos.induct)
  case (1 t)
  show ?case
  proof (cases "lastfree t > 0")
    case True
    let ?t = "t\<lparr>lastfree := lastfree t - 1\<rparr>"
    have nn: "gkey (t_node t ! nat (lastfree t - 1)) \<noteq> TNil" and r: "getfreepos ?t = (None, t')"
      using "1.prems" True by (auto simp: getfreepos.simps [of t] Let_def split: if_splits)
    have IH: "(\<exists>l \<le> lastfree ?t. t' = ?t\<lparr>lastfree := l\<rparr>) \<and> (\<forall>i. int i < lastfree ?t \<longrightarrow> tK ?t i \<noteq> TNil)"
      using "1.IH" [OF True refl _ r] nn by simp
    have "tK t i \<noteq> TNil" if "int i < lastfree t" for i
    proof (cases "int i = lastfree t - 1")
      case True
      then have "nat (lastfree t - 1) = i" by simp
      with nn show ?thesis by (simp add: tK_def)
    next
      case False
      with IH that show ?thesis by (simp add: tK_def)
    qed
    moreover obtain l where "l \<le> lastfree t - 1" "t' = t\<lparr>lastfree := l\<rparr>" using IH by auto
    ultimately show ?thesis by (intro conjI exI [of _ l]) auto
  next
    case False
    with "1.prems" show ?thesis
      by (auto simp: getfreepos.simps [of t] intro!: exI [of _ "lastfree t - 1"])
  qed
qed

lemma getfreepos_Some:
  "getfreepos t = (Some n, t') \<Longrightarrow> t' = t\<lparr>lastfree := int n\<rparr> \<and> int n < lastfree t \<and> tK t n = TNil
     \<and> (\<forall>i. n < i \<and> int i < lastfree t \<longrightarrow> tK t i \<noteq> TNil)"
proof (induction t rule: getfreepos.induct)
  case (1 t)
  let ?t = "t\<lparr>lastfree := lastfree t - 1\<rparr>"
  have pos: "lastfree t > 0"
    using "1.prems" by (auto simp: getfreepos.simps [of t] split: if_splits)
  show ?case
  proof (cases "gkey (t_node t ! nat (lastfree t - 1)) = TNil")
    case True
    with "1.prems" pos have "n = nat (lastfree t - 1)" "t' = ?t"
      by (auto simp: getfreepos.simps [of t] Let_def)
    with True pos show ?thesis by (auto simp: tK_def)
  next
    case False
    have r: "getfreepos ?t = (Some n, t')"
      using "1.prems" pos False by (simp add: getfreepos.simps [of t] Let_def)
    have IH: "t' = ?t\<lparr>lastfree := int n\<rparr> \<and> int n < lastfree ?t \<and> tK ?t n = TNil
      \<and> (\<forall>i. n < i \<and> int i < lastfree ?t \<longrightarrow> tK ?t i \<noteq> TNil)"
      using "1.IH" [OF pos refl _ r] False by simp
    have "tK t i \<noteq> TNil" if "n < i" "int i < lastfree t" for i
    proof (cases "int i = lastfree t - 1")
      case True
      then have "nat (lastfree t - 1) = i" by simp
      with False show ?thesis by (simp add: tK_def)
    next
      case False
      with IH that show ?thesis by (simp add: tK_def)
    qed
    with IH show ?thesis by (simp add: tK_def)
  qed
qed

lemma find_prev_find_node:
  "find_node f nodes (\<lambda>n :: Node. gnext n = Some m) i = Inr (Some p) \<Longrightarrow> find_prev f nodes m i = Inr p"
  by (induction f arbitrary: i) (auto split: if_splits option.splits)

lemma find_prev_finds:
  assumes ok: "table_ok t" and "i < length (t_node t)" and "i \<noteq> m"
    and path: "(i, m) \<in> (links (length (t_node t)) (tN t))\<^sup>*"
  shows "\<exists>p < length (t_node t). tN t p = Some m
    \<and> find_prev (length (t_node t)) (t_node t) m i = Inr p"
proof -
  let ?P = "\<lambda>n :: Node. gnext n = Some m"
  obtain p where p: "(i, p) \<in> (links (length (t_node t)) (tN t))\<^sup>*" "tN t p = Some m"
    using path assms(3) by (cases rule: rtranclE) (auto simp: links_def)
  obtain r where r: "find_node (length (t_node t)) (t_node t) ?P i = Inr r" "case r of
      Some j \<Rightarrow> j < length (t_node t) \<and> (i, j) \<in> (links (length (t_node t)) (tN t))\<^sup>* \<and> ?P (t_node t ! j)
    | None \<Rightarrow> \<forall>j. (i, j) \<in> (links (length (t_node t)) (tN t))\<^sup>* \<longrightarrow> \<not> ?P (t_node t ! j)"
    using table_find_node [OF ok assms(2), of ?P] by blast
  with p obtain j where j: "r = Some j" by (cases r) (auto simp: tN_def)
  with r find_prev_find_node [of "length (t_node t)" "t_node t" m i j] show ?thesis
    by (auto simp: tN_def)
qed

text \<open>Changing the nodes so that the chains stay in order keeps the invariant of the table.\<close>

lemma table_ok_nodes:
  assumes ok: "table_ok t" and nd: "\<not> is_dummy t"
    and t': "t' = t\<lparr>lastfree := l, t_node := nodes\<rparr>" and len: "length nodes = length (t_node t)"
    and l: "l \<le> lastfree t" and free: "\<And>i. i < length nodes \<Longrightarrow> l \<le> int i \<Longrightarrow> gkey (nodes ! i) \<noteq> TNil"
    and ch: "chains_ok (length nodes) (mainposition t) (\<lambda>i. gnext (nodes ! i)) (\<lambda>i. gkey (nodes ! i)) (\<lambda>i. gval (nodes ! i))"
    and keys: "\<And>i. i < length nodes \<Longrightarrow> intact (gkey (nodes ! i)) \<Longrightarrow> \<not> array_key t (gkey (nodes ! i))"
  shows "table_ok t'"
proof -
  have mp: "mainposition t' = mainposition t" by (rule mainposition_cong) (simp add: t')
  have ak: "array_key t' k = array_key t k" for k by (simp add: array_key_def sizearray_def t')
  have "sizes_ok t'" using table_okD(1) [OF ok] nd len l by (auto simp: sizes_ok_def sizearray_def t')
  moreover have "free_ok t'" using free by (simp add: free_ok_def t' tK_def)
  moreover have "chains_ok (length (t_node t')) (mainposition t') (tN t') (tK t') (tV t')"
    using ch unfolding mp by (simp add: tN_def [abs_def] tK_def [abs_def] tV_def [abs_def] t')
  ultimately show ?thesis
    unfolding table_ok_def ak using keys by (simp add: t' tK_def)
qed

lemma chains_ok_cong:
  assumes "\<And>i. i < S \<Longrightarrow> N i = N' i" "\<And>i. i < S \<Longrightarrow> K i = K' i" "\<And>i. i < S \<Longrightarrow> V i = V' i"
    and mp: "\<And>k. mp k < S"
  shows "chains_ok S mp N K V \<longleftrightarrow> chains_ok S mp N' K' V'"
proof -
  have "links S N = links S N'" using assms(1) by (auto simp: links_def)
  moreover have "ch_range S N K \<longleftrightarrow> ch_range S N' K'"
    unfolding ch_range_def using assms(1,2) by (metis (no_types, lifting))
  moreover have "ch_inj S N \<longleftrightarrow> ch_inj S N'" "ch_rank S N \<longleftrightarrow> ch_rank S N'"
    "ch_val S K V \<longleftrightarrow> ch_val S K' V'" "ch_main S mp K \<longleftrightarrow> ch_main S mp K'" "ch_uniq S K \<longleftrightarrow> ch_uniq S K'"
    using assms by (simp_all add: ch_inj_def ch_rank_def ch_val_def ch_main_def ch_uniq_def)
  moreover have "ch_reach S mp N K \<longleftrightarrow> ch_reach S mp N' K'"
    using assms(2) calculation(1) by (simp add: ch_reach_def)
  ultimately show ?thesis by (simp add: chains_ok_def)
qed


lemma chains_ok_transfer:
  assumes "chains_ok S mp N K V"
    and "\<And>i. i < S \<Longrightarrow> N' i = N i" "\<And>i. i < S \<Longrightarrow> K' i = K i" "\<And>i. i < S \<Longrightarrow> V' i = V i"
    and "\<And>k. mp k < S"
  shows "chains_ok S mp N' K' V'"
  using chains_ok_cong [of S N' N K' K V' V mp] assms by blast

text \<open>What inserting a key does: the key has a slot without a value, and nothing else changes.\<close>

definition inserted :: "Table \<Rightarrow> TValue \<Rightarrow> nat \<Rightarrow> Table \<Rightarrow> bool" where
  "inserted t k i t' \<longleftrightarrow> table_ok t' \<and> at_slot t' k (InNode i) \<and> tK t' i = k \<and> tV t' i = TNil
     \<and> t_array t' = t_array t \<and> lsizenode t' = lsizenode t \<and> \<not> is_dummy t'
     \<and> metatable t' = metatable t \<and> flags t' = flags t
     \<and> used t' \<le> used t + 1 \<and> live t' = live t"

lemma used_insert:
  assumes "\<And>i. i < length (t_node t') \<Longrightarrow> tK t' i \<noteq> TNil \<Longrightarrow> i = n \<or> tK t i \<noteq> TNil"
    and "length (t_node t') = length (t_node t)"
  shows "used t' \<le> used t + 1"
proof -
  let ?A = "{i. i < length (t_node t) \<and> tK t i \<noteq> TNil}"
  have "{i. i < length (t_node t') \<and> tK t' i \<noteq> TNil} \<subseteq> insert n ?A" using assms by auto
  then have "used t' \<le> card (insert n ?A)" unfolding used_def by (intro card_mono) auto
  also have "\<dots> \<le> Suc (card ?A)" by (rule card_insert_le_m1) auto
  finally show ?thesis by (simp add: used_def)
qed

lemma newkey_inserts:
  assumes ok: "table_ok t" and nd: "\<not> is_dummy t" and k: "valid_key k" and new: "at_slot t k NilObject"
    and room: "tV t (mainposition t k) = TNil \<or> used t < length (t_node t)"
  shows "\<exists>i t'. newkey g t k = Inr (InNode i, t') \<and> inserted t k i t'"
proof -
  let ?S = "length (t_node t)" and ?m = "mainposition t k" and ?nodes = "t_node t"
  note D = table_okD [OF ok]
  have m: "?m < ?S" using D(6) .
  have nk: "new_key ?S (tK t) k" using new k by (auto simp: new_key_def at_slot_def)
  have kk: "intact k" "k \<noteq> TNil" "luaO_rawequalObj k k" using k by (auto simp: valid_key_def)
  have na: "\<not> array_key t k" using new by (simp add: at_slot_def)
  have mp: "mainposition t' = mainposition t" if "lsizenode t' = lsizenode t" for t'
    using mainposition_cong [OF that] .
  have free: "\<And>i. i < ?S \<Longrightarrow> lastfree t \<le> int i \<Longrightarrow> tK t i \<noteq> TNil" using D(2) nd by (simp add: free_ok_def)
  show ?thesis
  proof (cases "tV t ?m = TNil")
    case True
    let ?nodes' = "?nodes[?m := (?nodes ! ?m)\<lparr>gkey := k\<rparr>]"
    let ?t = "t\<lparr>t_node := ?nodes'\<rparr>"
    have r: "newkey g t k = Inr (InNode ?m, ?t)"
      using True nd by (simp add: newkey_def Let_def put_key_def tV_def)
    have f: "gnext (?nodes' ! i) = tN t i" "gkey (?nodes' ! i) = ((tK t)(?m := k)) i" "gval (?nodes' ! i) = tV t i"
      if "i < ?S" for i
      using that m by (auto simp: nth_list_update tN_def tK_def tV_def)
    have ch: "chains_ok ?S (mainposition t) (tN t) ((tK t)(?m := k)) (tV t)"
      by (rule chains_put [OF D(3) nk m True])
    have tok: "table_ok ?t"
    proof (rule table_ok_nodes [OF ok nd, where l = "lastfree t" and nodes = ?nodes'])
      show "chains_ok (length ?nodes') (mainposition t) (\<lambda>i. gnext (?nodes' ! i)) (\<lambda>i. gkey (?nodes' ! i)) (\<lambda>i. gval (?nodes' ! i))"
        unfolding length_list_update
        by (rule chains_ok_transfer [OF ch]) (erule f(1), erule f(2), erule f(3), rule D(6))
    qed (use f free kk na D(4) m in \<open>auto split: if_splits\<close>)
    have "tK ?t i = ((tK t)(?m := k)) i" "tV ?t i = tV t i" if "i < ?S" for i
      using f [OF that] by (simp_all add: tK_def tV_def)
    note g = this
    have "live ?t = live t"
    proof -
      have "(tK ?t i, tV ?t i) = (tK t i, tV t i)" if "i < ?S" "tV t i \<noteq> TNil" for i
        using g [OF that(1)] that True by auto
      then show ?thesis using g(2) unfolding live_def by (auto; metis)
    qed
    moreover have "used ?t \<le> used t + 1" by (rule used_insert [of _ ?m]) (use g in \<open>auto split: if_splits\<close>)
    moreover have "at_slot ?t k (InNode ?m)" using g m kk by (simp add: at_slot_def)
    ultimately have "inserted t k ?m ?t" using tok g m True nd by (simp add: inserted_def)
    with r show ?thesis by blast
  next
    case False
    note vm = this
    have occupied: "intact (tK t ?m)"
      using chains_okE(4) [OF D(3)] m vm by (auto simp: ch_val_def)
    then have km: "tK t ?m \<noteq> TNil" by auto
    have "\<exists>i < ?S. tK t i = TNil"
    proof (rule ccontr)
      assume "\<not> (\<exists>i < ?S. tK t i = TNil)"
      then have "{i. i < ?S \<and> tK t i \<noteq> TNil} = {i. i < ?S}" by auto
      with room vm show False by (simp add: used_def)
    qed
    then obtain i0 where i0: "i0 < ?S" "tK t i0 = TNil" by blast
    then have "int i0 < lastfree t" using free by (meson not_le)
    then obtain n where gf: "getfreepos t = (Some n, t\<lparr>lastfree := int n\<rparr>)" and n: "int n < lastfree t" "tK t n = TNil"
      and above: "\<And>i. n < i \<Longrightarrow> int i < lastfree t \<Longrightarrow> tK t i \<noteq> TNil"
      using getfreepos_None [of t] getfreepos_Some [of t] i0
      by (cases "getfreepos t") (metis option.exhaust)
    have nS: "n < ?S" using n D(1) by (simp add: sizes_ok_def)
    have nm: "n \<noteq> ?m" using n km by auto
    have vn: "tV t n = TNil" using chains_okE(4) [OF D(3)] nS n by (auto simp: ch_val_def)
    have free': "tK t i \<noteq> TNil" if "i < ?S" "int n \<le> int i" "i \<noteq> n" for i
      using above [of i] free [of i] that by (cases "int i < lastfree t") auto
    let ?o = "mainposition t (tK t ?m)"
    show ?thesis
    proof (cases "?o = ?m")
      case True
      let ?nodes1 = "?nodes[n := (?nodes ! n)\<lparr>gnext := gnext (?nodes ! ?m)\<rparr>]"
      let ?nodes2 = "?nodes1[?m := (?nodes1 ! ?m)\<lparr>gnext := Some n\<rparr>]"
      let ?nodes3 = "?nodes2[n := (?nodes2 ! n)\<lparr>gkey := k\<rparr>]"
      let ?t = "t\<lparr>lastfree := int n, t_node := ?nodes3\<rparr>"
      have r: "newkey g t k = Inr (InNode n, ?t)"
        using vm True gf mp [of "t\<lparr>lastfree := int n\<rparr>"]
        by (simp add: newkey_def Let_def put_key_def tV_def tK_def)
      have f: "gnext (?nodes3 ! i) = ((tN t)(n := tN t ?m, ?m := Some n)) i"
        "gkey (?nodes3 ! i) = ((tK t)(n := k)) i" "gval (?nodes3 ! i) = tV t i" if "i < ?S" for i
        using that m nS nm by (auto simp: nth_list_update tN_def tK_def tV_def)
      have ch: "chains_ok ?S (mainposition t) ((tN t)(n := tN t ?m, ?m := Some n)) ((tK t)(n := k)) (tV t)"
        by (rule chains_append [OF D(3) nk refl m km _ nS n(2)]) (rule True)
      have tok: "table_ok ?t"
      proof (rule table_ok_nodes [OF ok nd, where l = "int n" and nodes = ?nodes3])
        show "chains_ok (length ?nodes3) (mainposition t) (\<lambda>i. gnext (?nodes3 ! i)) (\<lambda>i. gkey (?nodes3 ! i)) (\<lambda>i. gval (?nodes3 ! i))"
          unfolding length_list_update
          by (rule chains_ok_transfer [OF ch]) (erule f(1), erule f(2), erule f(3), rule D(6))
        show "gkey (?nodes3 ! i) \<noteq> TNil" if "i < length ?nodes3" "int n \<le> int i" for i
          using f(2) [of i] that free' [of i] kk by (cases "i = n") simp_all
        show "\<not> array_key t (gkey (?nodes3 ! i))" if "i < length ?nodes3" "intact (gkey (?nodes3 ! i))" for i
          using f(2) [of i] that D(4) [of i] na by (cases "i = n") simp_all
      qed (use n in simp_all)
      have g: "tK ?t i = ((tK t)(n := k)) i" "tV ?t i = tV t i" if "i < ?S" for i
        using f [OF that] by (simp_all add: tK_def tV_def)
      have "live ?t = live t"
      proof -
        have "(tK ?t i, tV ?t i) = (tK t i, tV t i)" if "i < ?S" "tV t i \<noteq> TNil" for i
          using g [OF that(1)] that vn by auto
        then show ?thesis using g(2) unfolding live_def by (auto; metis)
      qed
      moreover have "used ?t \<le> used t + 1" by (rule used_insert [of _ n]) (use g in \<open>auto split: if_splits\<close>)
      moreover have "at_slot ?t k (InNode n)" using g [OF nS] nS kk by (simp add: at_slot_def)
      ultimately have "inserted t k n ?t" using tok g [OF nS] vn nd by (simp add: inserted_def)
      with r show ?thesis by blast
    next
      case False
      have path: "(?o, ?m) \<in> (links ?S (tN t))\<^sup>*"
        using chains_okE(5) [OF D(3)] m occupied by (simp add: ch_reach_def)
      obtain p where p: "p < ?S" "tN t p = Some ?m" "find_prev ?S ?nodes ?m ?o = Inr p"
        using find_prev_finds [OF ok D(6) False path] by blast
      have "tK t p \<noteq> TNil" using chains_okE(1) [OF D(3)] p by (auto simp: ch_range_def)
      then have pn: "p \<noteq> n" using n by auto
      obtain rank :: "nat \<Rightarrow> nat" where rank: "\<And>i j. i < ?S \<Longrightarrow> tN t i = Some j \<Longrightarrow> rank i < rank j"
        using chains_okE(3) [OF D(3)] by (auto simp: ch_rank_def)
      then have pm: "p \<noteq> ?m" using p by (metis less_irrefl)
      let ?nodes1 = "?nodes[p := (?nodes ! p)\<lparr>gnext := Some n\<rparr>]"
      let ?nodes2 = "?nodes1[n := ?nodes1 ! ?m]"
      let ?nodes3 = "?nodes2[?m := (?nodes2 ! ?m)\<lparr>gnext := None\<rparr>]"
      let ?nodes4 = "?nodes3[?m := (?nodes3 ! ?m)\<lparr>gval := TNil\<rparr>]"
      let ?nodes5 = "?nodes4[?m := (?nodes4 ! ?m)\<lparr>gkey := k\<rparr>]"
      let ?t = "t\<lparr>lastfree := int n, t_node := ?nodes5\<rparr>"
      have r: "newkey g t k = Inr (InNode ?m, ?t)"
        using vm False gf p(3) mp [of "t\<lparr>lastfree := int n\<rparr>"]
        by (simp add: newkey_def Let_def put_key_def tV_def tK_def)
      have f: "gnext (?nodes5 ! i) = ((tN t)(p := Some n, n := tN t ?m, ?m := None)) i"
        "gkey (?nodes5 ! i) = ((tK t)(n := tK t ?m, ?m := k)) i"
        "gval (?nodes5 ! i) = ((tV t)(n := tV t ?m, ?m := TNil)) i" if "i < ?S" for i
        using that m nS nm p(1) pn pm by (auto simp: nth_list_update tN_def tK_def tV_def)
      have ch: "chains_ok ?S (mainposition t) ((tN t)(p := Some n, n := tN t ?m, ?m := None))
          ((tK t)(n := tK t ?m, ?m := k)) ((tV t)(n := tV t ?m, ?m := TNil))"
        by (rule chains_move [OF D(3) nk refl m vm False nS n(2) p(1,2)])
      have tok: "table_ok ?t"
      proof (rule table_ok_nodes [OF ok nd, where l = "int n" and nodes = ?nodes5])
        show "chains_ok (length ?nodes5) (mainposition t) (\<lambda>i. gnext (?nodes5 ! i)) (\<lambda>i. gkey (?nodes5 ! i)) (\<lambda>i. gval (?nodes5 ! i))"
          unfolding length_list_update
          by (rule chains_ok_transfer [OF ch]) (erule f(1), erule f(2), erule f(3), rule D(6))
        show "gkey (?nodes5 ! i) \<noteq> TNil" if "i < length ?nodes5" "int n \<le> int i" for i
          using f(2) [of i] that free' [of i] kk km by (cases "i = n"; cases "i = ?m") simp_all
        show "\<not> array_key t (gkey (?nodes5 ! i))" if "i < length ?nodes5" "intact (gkey (?nodes5 ! i))" for i
          using f(2) [of i] that D(4) [of i] D(4) [OF m occupied] na
          by (cases "i = n"; cases "i = ?m") simp_all
      qed (use n in simp_all)
      have g: "tK ?t i = ((tK t)(n := tK t ?m, ?m := k)) i"
        "tV ?t i = ((tV t)(n := tV t ?m, ?m := TNil)) i" if "i < ?S" for i
        using f [OF that] by (simp_all add: tK_def tV_def)
      have "live ?t = live t"
      proof (intro equalityI subsetI)
        fix x assume "x \<in> live ?t"
        then obtain i where i: "i < ?S" "tV ?t i \<noteq> TNil" "x = (tK ?t i, tV ?t i)" by (auto simp: live_def)
        have "i \<noteq> ?m" using i g(2) [OF i(1)] by auto
        then show "x \<in> live t" using g [OF i(1)] i m vm unfolding live_def
          by (cases "i = n") auto
      next
        fix x assume "x \<in> live t"
        then obtain i where i: "i < ?S" "tV t i \<noteq> TNil" "x = (tK t i, tV t i)" by (auto simp: live_def)
        show "x \<in> live ?t"
        proof (cases "i = ?m")
          case True
          then have "x = (tK ?t n, tV ?t n)" "tV ?t n \<noteq> TNil" using g [OF nS] nm i by simp_all
          then show ?thesis using nS unfolding live_def by auto
        next
          case False
          have "i \<noteq> n" using i vn by auto
          then have "x = (tK ?t i, tV ?t i)" "tV ?t i \<noteq> TNil" using g [OF i(1)] False i by simp_all
          then show ?thesis using i(1) unfolding live_def by auto
        qed
      qed
      moreover have "used ?t \<le> used t + 1"
        by (rule used_insert [of _ n]) (use g km in \<open>auto split: if_splits\<close>)
      moreover have "at_slot ?t k (InNode ?m)" using g [OF m] m nm kk by (simp add: at_slot_def)
      ultimately have "inserted t k ?m ?t" using tok g [OF m] nm nd by (simp add: inserted_def)
      with r show ?thesis by blast
    qed
  qed
qed


section \<open>The contents of a table\<close>

text \<open>The value a table gives for a key: its contents as a map.\<close>

definition tget :: "Table \<Rightarrow> TValue \<Rightarrow> TValue" where
  "tget t k = (case luaH_get t k of Inr s \<Rightarrow> slot_val t s | Inl _ \<Rightarrow> TNil)"

lemma tget_slot:
  assumes "table_ok t" and "intact k" and "at_slot t k s"
  shows "tget t k = slot_val t s"
  using luaH_get_slot [OF assms(1,2)] at_slot_unique [OF assms(1) assms(3)] by (auto simp: tget_def)

lemma tget_array:
  assumes "table_ok t" and "intact k" and "array_key t k"
  shows "tget t k = t_array t ! nat (arrayindex k - 1)"
proof -
  have "at_slot t k (InArray (nat (arrayindex k - 1)))"
    using assms(3) by (auto simp: at_slot_def array_key_def sizearray_def)
  from tget_slot [OF assms(1,2) this] show ?thesis by (simp add: slot_val_def)
qed

lemma tget_live:
  assumes ok: "table_ok t" and k: "intact k" and na: "\<not> array_key t k"
  shows "(\<exists>k'. (k', tget t k) \<in> live t \<and> luaO_rawequalObj k' k)
    \<or> (tget t k = TNil \<and> (\<forall>k' v. (k', v) \<in> live t \<longrightarrow> \<not> luaO_rawequalObj k' k))"
proof -
  have keys: "intact (tK t i)" if "i < length (t_node t)" "tV t i \<noteq> TNil" for i
    using chains_okE(4) [OF table_okD(3) [OF ok]] that by (auto simp: ch_val_def)
  obtain s where s: "at_slot t k s" using luaH_get_slot [OF ok k] by blast
  note g = tget_slot [OF ok k s]
  show ?thesis
  proof (cases s)
    case (InArray i)
    with s na show ?thesis by (auto simp: at_slot_def array_key_def sizearray_def)
  next
    case (InNode i)
    have uniq: "j = i" if "j < length (t_node t)" "intact (tK t j)" "luaO_rawequalObj (tK t j) k" for j
      using at_slot_unique [OF ok s, of "InNode j"] that InNode by (simp add: at_slot_def)
    show ?thesis
    proof (cases "tV t i = TNil")
      case True
      then have "tget t k = TNil" using g InNode by (simp add: slot_val_def tV_def)
      moreover have "\<not> luaO_rawequalObj k' k" if "(k', v) \<in> live t" for k' v
        using that uniq keys True by (auto simp: live_def)
      ultimately show ?thesis by blast
    next
      case False
      then have "(tK t i, tget t k) \<in> live t"
        using g InNode s unfolding live_def by (auto simp: slot_val_def tV_def at_slot_def)
      then show ?thesis using s InNode by (auto simp: at_slot_def)
    qed
  next
    case NilObject
    then have "tget t k = TNil" using g by (simp add: slot_val_def)
    moreover have "\<not> luaO_rawequalObj k' k" if "(k', v) \<in> live t" for k' v
      using that s NilObject keys by (auto simp: live_def at_slot_def)
    ultimately show ?thesis by blast
  qed
qed

lemma live_nonnil: "(k, v) \<in> live t \<Longrightarrow> v \<noteq> TNil"
  by (auto simp: live_def)

lemma live_unique:
  assumes "table_ok t" and "(k1, v1) \<in> live t" "(k2, v2) \<in> live t" and "luaO_rawequalObj k1 k2"
  shows "k1 = k2 \<and> v1 = v2"
proof -
  note c = chains_okE [OF table_okD(3) [OF assms(1)]]
  from assms(2,3) c(4) c(7) assms(4) show ?thesis
    unfolding live_def ch_val_def ch_uniq_def by blast
qed

text \<open>Tables with the same array and the same live nodes have the same contents.\<close>

lemma tget_cong:
  assumes ok: "table_ok t" "table_ok t'" and "t_array t' = t_array t" and "live t' = live t" and k: "intact k"
  shows "tget t' k = tget t k"
proof -
  have ak: "array_key t' k = array_key t k" by (simp add: array_key_def sizearray_def assms(3))
  show ?thesis
  proof (cases "array_key t k")
    case True
    with ak show ?thesis by (simp add: tget_array ok k assms(3))
  next
    case False
    have eq: "k1 = k2 \<and> v1 = v2" if "(k1, v1) \<in> live t" "(k2, v2) \<in> live t" "luaO_rawequalObj k1 k" "luaO_rawequalObj k2 k" for k1 k2 v1 v2
      using live_unique [OF ok(1) that(1,2)] that(3,4) rawequal_sym rawequal_trans by blast
    show ?thesis
      using tget_live [OF ok(1) k False] tget_live [OF ok(2) k] False ak eq assms(4) by metis
  qed
qed

lemma list_update_nth:
  "f x = f (xs ! j) \<Longrightarrow> f (xs[j := x] ! i) = f (xs ! i)"
  by (cases "i = j"; cases "j < length xs") (simp_all add: list_update_beyond)

lemma at_slot_set [simp]: "at_slot (set_slot t s v) k s' = at_slot t k s'"
  and sizearray_set [simp]: "sizearray (set_slot t s v) = sizearray t"
  and lsizenode_set [simp]: "lsizenode (set_slot t s v) = lsizenode t"
  and is_dummy_set [simp]: "is_dummy (set_slot t s v) = is_dummy t"
  and len_node_set [simp]: "length (t_node (set_slot t s v)) = length (t_node t)"
  and lastfree_set [simp]: "lastfree (set_slot t s v) = lastfree t"
  and array_key_set [simp]: "array_key (set_slot t s v) k = array_key t k"
  and tK_set [simp]: "tK (set_slot t s v) = tK t"
  and tN_set [simp]: "tN (set_slot t s v) = tN t"
  and used_set [simp]: "used (set_slot t s v) = used t"
proof -
  have nodes: "gkey (t_node (set_slot t s v) ! i) = gkey (t_node t ! i)"
    "gnext (t_node (set_slot t s v) ! i) = gnext (t_node t ! i)" for i
    by (cases s; simp add: set_slot_def list_update_nth)+
  show len: "length (t_node (set_slot t s v)) = length (t_node t)"
    and sa: "sizearray (set_slot t s v) = sizearray t"
    by (cases s; simp add: set_slot_def sizearray_def)+
  show tk: "tK (set_slot t s v) = tK t" and "tN (set_slot t s v) = tN t"
    by (simp_all add: tK_def [abs_def] tN_def [abs_def] nodes)
  show ak: "array_key (set_slot t s v) k = array_key t k" by (simp add: array_key_def sa)
  show "used (set_slot t s v) = used t" by (simp add: used_def len tk)
  have "length (t_array (set_slot t s v)) = length (t_array t)" using sa by (simp add: sizearray_def)
  then show "at_slot (set_slot t s v) k s' = at_slot t k s'"
    by (cases s') (simp_all add: at_slot_def len tk ak)
  show "lsizenode (set_slot t s v) = lsizenode t" "is_dummy (set_slot t s v) = is_dummy t"
    "lastfree (set_slot t s v) = lastfree t"
    by (cases s; simp add: set_slot_def)+
qed

text \<open>Storing through the slot of a key changes the value of that key and of no other.\<close>

lemma set_slot_ok:
  assumes ok: "table_ok t" and s: "at_slot t k s" "s \<noteq> NilObject"
  shows "table_ok (set_slot t s v)"
    and "intact k' \<Longrightarrow> tget (set_slot t s v) k' = (if luaO_rawequalObj k k' then v else tget t k')"
proof -
  note D = table_okD [OF ok]
  have mp: "mainposition (set_slot t s v) = mainposition t" by (rule mainposition_cong) simp
  have val: "tV (set_slot t s v) i = (if s = InNode i then v else tV t i)" if "i < length (t_node t)" for i
    using that by (cases s) (auto simp: tV_def set_slot_def nth_list_update)
  have home: "intact (tK t i)" if "s = InNode i" for i using s that by (simp add: at_slot_def)
  have nd: "\<not> is_dummy t" if "s = InNode i" for i
  proof
    assume "is_dummy t"
    then have nodes: "t_node t = [dummynode]" using D(1) by (simp add: sizes_ok_def)
    with s(1) that have "i = 0" by (simp add: at_slot_def)
    with nodes home [OF that] show False by (simp add: tK_def dummynode_def)
  qed
  have "chains_ok (length (t_node t)) (mainposition t) (tN t) (tK t) (tV (set_slot t s v))"
  proof -
    have "ch_val (length (t_node t)) (tK t) (tV (set_slot t s v))"
      using chains_okE(4) [OF D(3)] home val unfolding ch_val_def by auto
    then show ?thesis using chains_okE [OF D(3)] by (simp add: chains_ok_def)
  qed
  moreover have "sizes_ok (set_slot t s v)"
  proof -
    have "is_dummy t \<Longrightarrow> t_node (set_slot t s v) = t_node t" using nd by (cases s) (auto simp: set_slot_def)
    then show ?thesis using D(1) by (auto simp: sizes_ok_def)
  qed
  ultimately show ok': "table_ok (set_slot t s v)"
    using ok unfolding table_ok_def mp by (simp add: free_ok_def)
  have vals: "slot_val (set_slot t s v) s' = (if s' = s then v else slot_val t s')"
    if "at_slot t k' s'" for k' s'
    using that s by (cases s; cases s') (auto simp: slot_val_def set_slot_def at_slot_def nth_list_update)
  show "tget (set_slot t s v) k' = (if luaO_rawequalObj k k' then v else tget t k')" if k': "intact k'"
  proof -
    obtain s' where s': "at_slot t k' s'" using luaH_get_slot [OF ok k'] by blast
    have "tget (set_slot t s v) k' = slot_val (set_slot t s v) s'" "tget t k' = slot_val t s'"
      using tget_slot [OF ok' k', of s'] tget_slot [OF ok k' s'] s' by simp_all
    moreover have "s' = s \<longleftrightarrow> luaO_rawequalObj k k'"
    proof
      assume "luaO_rawequalObj k k'"
      from at_slot_unique [OF ok s' at_slot_rawequal [OF this s(1)]] show "s' = s" .
    next
      assume "s' = s"
      with s s' show "luaO_rawequalObj k k'"
      proof (cases s)
        case (InArray i)
        with s s' \<open>s' = s\<close> show ?thesis by (intro arrayindex_eq_rawequal) (simp_all add: at_slot_def)
      next
        case (InNode i)
        with s s' \<open>s' = s\<close> have "luaO_rawequalObj (tK t i) k" "luaO_rawequalObj (tK t i) k'"
          by (simp_all add: at_slot_def)
        then show ?thesis using rawequal_sym rawequal_trans by blast
      qed (use s in simp)
    qed
    ultimately show ?thesis using vals [OF s'] by simp
  qed
qed

end
