(* ===== verification/LuaTableMap.thy ===== *)
theory LuaTableMap
  imports LuaTableInv
begin

text \<open>
  Tables as maps: setting a key, also when the table has to be rehashed, changes the value of
  that key and of no other; a rehash always makes enough room, so that the recursion through
  \<open>newkey\<close>, \<open>rehash\<close> and \<open>luaH_set\<close> is at most two deep.
\<close>

section \<open>One insertion\<close>

definition cap :: "Table \<Rightarrow> nat" where
  "cap t = (if is_dummy t then 0 else length (t_node t))"

text \<open>\<open>stored t k v t'\<close>: \<open>t'\<close> is \<open>t\<close> with the value \<open>v\<close> for the key \<open>k\<close>.\<close>

definition stored :: "Table \<Rightarrow> TValue \<Rightarrow> TValue \<Rightarrow> Table \<Rightarrow> bool" where
  "stored t k v t' \<longleftrightarrow> table_ok t' \<and> sizearray t' = sizearray t \<and> cap t' = cap t
     \<and> metatable t' = metatable t
     \<and> used t' \<le> used t + (if array_key t k then 0 else 1)
     \<and> (\<forall>k'. intact k' \<longrightarrow> tget t' k' = (if luaO_rawequalObj k k' then v else tget t k'))"

lemma cap_set [simp]: "cap (set_slot t s v) = cap t" "metatable (set_slot t s v) = metatable t"
  by (simp add: cap_def) (cases s; simp add: set_slot_def)

lemma cap_len: "table_ok t \<Longrightarrow> \<not> is_dummy t \<Longrightarrow> cap t = 2 ^ lsizenode t"
  using table_okD(5) by (simp add: cap_def)

lemma place_stores:
  assumes ok: "table_ok t" and k: "valid_key k" and p: "at_slot t k p"
    and room: "\<not> array_key t k \<Longrightarrow> p = NilObject \<Longrightarrow> used t < cap t"
  shows "\<exists>s t'. (if p \<noteq> NilObject then Inr (p, t) else newkey g t k) = Inr (s, t')
    \<and> table_ok t' \<and> at_slot t' k s \<and> s \<noteq> NilObject \<and> flags t' = flags t
    \<and> (\<forall>k'. intact k' \<longrightarrow> tget t' k' = tget t k') \<and> (\<forall>v. stored t k v (set_slot t' s v))"
proof (cases "p = NilObject")
  case False
  have "stored t k v (set_slot t p v)" for v
    using set_slot_ok [OF ok p False] by (simp add: stored_def)
  with False p ok show ?thesis by auto
next
  case True
  with p have na: "\<not> array_key t k" by (simp add: at_slot_def)
  then have u: "used t < cap t" using room True by blast
  then have nd: "\<not> is_dummy t" by (auto simp: cap_def)
  then obtain i t' where nk: "newkey g t k = Inr (InNode i, t')" and i: "inserted t k i t'"
    using newkey_inserts [OF ok nd k, where g = g] p True u by (auto simp: cap_def)
  then have ok': "table_ok t'" and slot: "at_slot t' k (InNode i)" and arr: "t_array t' = t_array t"
    and l: "live t' = live t"
    by (auto simp: inserted_def)
  have same: "tget t' k' = tget t k'" if "intact k'" for k'
    by (rule tget_cong [OF ok ok' arr l that])
  have "length (t_node t') = length (t_node t)"
    using table_okD(5) [OF ok] table_okD(5) [OF ok'] i by (simp add: inserted_def)
  then have c: "cap t' = cap t" using i nd by (simp add: cap_def inserted_def)
  have "stored t k v (set_slot t' (InNode i) v)" for v
    using set_slot_ok [OF ok' slot] same c i na arr
    by (auto simp: stored_def inserted_def sizearray_def [of t] sizearray_def [of t'])
  with nk ok' slot same True i show ?thesis by (auto simp: inserted_def)
qed

text \<open>The flags of a table do not matter to its nodes and array.\<close>

lemma flags_irrelevant [simp]:
  "at_slot (t\<lparr>flags := f\<rparr>) = at_slot t" "array_key (t\<lparr>flags := f\<rparr>) = array_key t"
  "used (t\<lparr>flags := f\<rparr>) = used t" "cap (t\<lparr>flags := f\<rparr>) = cap t" "sizearray (t\<lparr>flags := f\<rparr>) = sizearray t"
  "table_ok (t\<lparr>flags := f\<rparr>) = table_ok t" "luaH_get (t\<lparr>flags := f\<rparr>) = luaH_get t"
  "tget (t\<lparr>flags := f\<rparr>) = tget t" "stored (t\<lparr>flags := f\<rparr>) = stored t"
proof -
  let ?t = "t\<lparr>flags := f\<rparr>"
  have mp: "mainposition ?t = mainposition t" by (rule mainposition_cong) simp
  have hn: "hashnum ?t = hashnum t" and hs: "hashstr ?t = hashstr t"
    by (auto simp: hashnum_def hashmod_def hashstr_def hashpow2_def fun_eq_iff)
  show sa: "sizearray ?t = sizearray t" by (simp add: sizearray_def)
  show ak: "array_key ?t = array_key t" by (auto simp: array_key_def sa fun_eq_iff)
  have ks: "tK ?t = tK t" "tN ?t = tN t" "tV ?t = tV t" by (auto simp: tK_def tN_def tV_def fun_eq_iff)
  show as: "at_slot ?t = at_slot t" by (auto simp: at_slot_def ak ks fun_eq_iff split: slot.split)
  show us: "used ?t = used t" by (simp add: used_def ks)
  show ca: "cap ?t = cap t" by (simp add: cap_def)
  show ok: "table_ok ?t = table_ok t"
    by (simp add: table_ok_def sizes_ok_def free_ok_def sa ak ks mp)
  have sc: "search_chain ?t P i = search_chain t P i" for P i by (simp add: search_chain_def)
  show get: "luaH_get ?t = luaH_get t"
    by (intro ext) (simp add: luaH_get_def luaH_getnum_def luaH_getstr_def sc mp hn hs sa Let_def
        split: TValue.split GCObject.split)
  have "slot_val ?t = slot_val t" by (auto simp: slot_val_def fun_eq_iff split: slot.split)
  then show tg: "tget ?t = tget t" by (auto simp: tget_def get fun_eq_iff split: sum.split)
  show "stored ?t = stored t" by (intro ext) (simp add: stored_def us ca sa tg ak)
qed

text \<open>\<open>luaH_set\<close>, where the table has room, stores; so do the variants for numbers and strings.\<close>

definition sets :: "Table \<Rightarrow> TValue \<Rightarrow> (slot \<times> Table) result \<Rightarrow> bool" where
  "sets t k r \<longleftrightarrow> (\<exists>s t'. r = Inr (s, t') \<and> table_ok t' \<and> at_slot t' k s \<and> s \<noteq> NilObject
    \<and> (\<forall>k'. intact k' \<longrightarrow> tget t' k' = tget t k') \<and> (\<forall>v. stored t k v (set_slot t' s v)))"

lemma valid_key_cases:
  "valid_key k \<Longrightarrow> k \<noteq> TNil \<and> (\<forall>n. k = TNumber n \<longrightarrow> \<not> is_nan n)"
  by (auto simp: valid_key_def)

lemma luaH_set_room:
  assumes ok: "table_ok t" and k: "valid_key k"
    and room: "\<not> array_key t k \<Longrightarrow> at_slot t k NilObject \<Longrightarrow> used t < cap t"
  shows "sets t k (luaH_set g t k)"
proof -
  obtain p where p: "luaH_get t k = Inr p" "at_slot t k p"
    using luaH_get_slot [OF ok valid_key_intact [OF k]] by blast
  let ?t = "t\<lparr>flags := 0\<rparr>"
  have "luaH_set g t k = (if p \<noteq> NilObject then Inr (p, ?t) else newkey g ?t k)"
    using p valid_key_cases [OF k]
    by (auto simp: luaH_set_def Let_def split: TValue.split)
  then show ?thesis
    using place_stores [of ?t k p g] ok k p room unfolding sets_def by auto
qed

lemma luaH_setnum_room:
  assumes ok: "table_ok t" and n: "INT_MIN \<le> n" "n \<le> INT_MAX"
    and room: "\<not> array_key t (TNumber (cast_num n)) \<Longrightarrow> at_slot t (TNumber (cast_num n)) NilObject \<Longrightarrow> used t < cap t"
  shows "sets t (TNumber (cast_num n)) (luaH_setnum g t n)"
proof -
  let ?k = "TNumber (cast_num n)"
  have "\<bar>n\<bar> < 2 ^ 53" using n by (auto simp: INT_MIN_def INT_MAX_def)
  then have k: "valid_key ?k" using cast_num_finite [of n] by (simp add: valid_key_def intact_def)
  obtain p where p: "luaH_getnum t n = Inr p" "at_slot t ?k p" using luaH_getnum_slot [OF ok n] by blast
  then have "luaH_setnum g t n = (if p \<noteq> NilObject then Inr (p, t) else newkey g t ?k)"
    by (simp add: luaH_setnum_def)
  then show ?thesis
    using place_stores [OF ok k p(2), of g] room p unfolding sets_def by auto
qed

lemma luaH_setstr_room:
  assumes ok: "table_ok t"
    and room: "at_slot t (TGC (GString str)) NilObject \<Longrightarrow> used t < cap t"
  shows "sets t (TGC (GString str)) (luaH_setstr g t str)"
proof -
  let ?k = "TGC (GString str)"
  have k: "valid_key ?k" by (simp add: valid_key_def intact_def)
  obtain p where p: "luaH_getstr t str = Inr p" "at_slot t ?k p" using luaH_getstr_slot [OF ok] by blast
  then have "luaH_setstr g t str = (if p \<noteq> NilObject then Inr (p, t) else newkey g t ?k)"
    by (simp add: luaH_setstr_def)
  then show ?thesis
    using place_stores [OF ok k p(2), of g] room p unfolding sets_def by auto
qed


section \<open>Many insertions\<close>

fun put_all :: "(Table \<Rightarrow> TValue \<Rightarrow> (slot \<times> Table) result) \<Rightarrow> Table \<Rightarrow> (TValue \<times> TValue) list \<Rightarrow> Table result" where
  "put_all f t [] = Inr t"
| "put_all f t ((k, v) # ps) = bind_result (f t k) (\<lambda>(s, t). put_all f (set_slot t s v) ps)"

definition distinct_keys :: "(TValue \<times> TValue) list \<Rightarrow> bool" where
  "distinct_keys ps \<longleftrightarrow> sorted_wrt (\<lambda>p q. \<not> luaO_rawequalObj (fst p) (fst q)) ps"

definition hash_count :: "Table \<Rightarrow> (TValue \<times> TValue) list \<Rightarrow> nat" where
  "hash_count t ps = length (filter (\<lambda>p. \<not> array_key t (fst p)) ps)"

text \<open>\<open>puts t ps t'\<close>: \<open>t'\<close> is \<open>t\<close> with the pairs \<open>ps\<close> added.\<close>

definition puts :: "Table \<Rightarrow> (TValue \<times> TValue) list \<Rightarrow> Table \<Rightarrow> bool" where
  "puts t ps t' \<longleftrightarrow> table_ok t' \<and> sizearray t' = sizearray t \<and> cap t' = cap t \<and> metatable t' = metatable t
     \<and> used t' \<le> used t + hash_count t ps
     \<and> (\<forall>k. intact k \<longrightarrow>
          (\<forall>(k', v) \<in> set ps. luaO_rawequalObj k' k \<longrightarrow> tget t' k = v)
          \<and> ((\<forall>(k', v) \<in> set ps. \<not> luaO_rawequalObj k' k) \<longrightarrow> tget t' k = tget t k))"

lemma put_all_puts:
  assumes "table_ok t" and "distinct_keys ps" and "\<forall>(k, v) \<in> set ps. valid_key k"
    and "used t + hash_count t ps \<le> cap t"
    and step: "\<And>t k. table_ok t \<Longrightarrow> k \<in> fst ` set ps \<Longrightarrow>
      (\<not> array_key t k \<Longrightarrow> at_slot t k NilObject \<Longrightarrow> used t < cap t) \<Longrightarrow> sets t k (f t k)"
  shows "\<exists>t'. put_all f t ps = Inr t' \<and> puts t ps t'"
  using assms
proof (induction ps arbitrary: t)
  case Nil
  then show ?case by (simp add: puts_def)
next
  case (Cons p ps)
  obtain k v where p: "p = (k, v)" by (cases p)
  note ok = Cons.prems(1)
  have "sets t k (f t k)"
  proof (rule Cons.prems(5) [OF ok])
    show "k \<in> fst ` set (p # ps)" by (simp add: p)
    show "used t < cap t" if "\<not> array_key t k" using Cons.prems(4) that by (simp add: hash_count_def p)
  qed
  then obtain s t1 where st: "f t k = Inr (s, t1)" and st1: "stored t k v (set_slot t1 s v)"
    by (auto simp: sets_def)
  let ?t = "set_slot t1 s v"
  have ok1: "table_ok ?t" and ak: "array_key ?t = array_key t" and cap1: "cap ?t = cap t"
    and used1: "used ?t \<le> used t + (if array_key t k then 0 else 1)"
    and get1: "\<And>k'. intact k' \<Longrightarrow> tget ?t k' = (if luaO_rawequalObj k k' then v else tget t k')"
    using st1 by (auto simp: stored_def array_key_def fun_eq_iff)
  have hc: "hash_count t (p # ps) = (if array_key t k then 0 else 1) + hash_count ?t ps"
    by (simp add: hash_count_def p ak)
  have dk: "distinct_keys ps" and new: "\<forall>(k', v') \<in> set ps. \<not> luaO_rawequalObj k k'"
    using Cons.prems(2) p by (auto simp: distinct_keys_def)
  obtain t' where t': "put_all f ?t ps = Inr t'" "puts ?t ps t'"
    using Cons.IH [OF ok1 dk] Cons.prems(3,4,5) used1 hc cap1 by auto
  have "puts t (p # ps) t'"
    unfolding puts_def
  proof (intro conjI allI impI)
    fix k0 assume k0: "intact k0"
    have rest: "(\<forall>(k', v) \<in> set ps. luaO_rawequalObj k' k0 \<longrightarrow> tget t' k0 = v)"
      "(\<forall>(k', v) \<in> set ps. \<not> luaO_rawequalObj k' k0) \<longrightarrow> tget t' k0 = tget ?t k0"
      using t'(2) k0 by (auto simp: puts_def)
    have "\<forall>(k', v) \<in> set ps. \<not> luaO_rawequalObj k' k0" if "luaO_rawequalObj k k0"
      using new that rawequal_trans rawequal_sym by (auto split: prod.splits)
    with rest get1 [OF k0] p
    show "\<forall>(k', v) \<in> set (p # ps). luaO_rawequalObj k' k0 \<longrightarrow> tget t' k0 = v"
      and "(\<forall>(k', v) \<in> set (p # ps). \<not> luaO_rawequalObj k' k0) \<Longrightarrow> tget t' k0 = tget t k0"
      by auto
  qed (use t'(2) used1 hc cap1 st1 in \<open>auto simp: puts_def stored_def\<close>)
  with st t'(1) p show ?case by auto
qed

section \<open>The pairs of a table\<close>

fun pairs_from :: "int \<Rightarrow> TValue list \<Rightarrow> (TValue \<times> TValue) list" where
  "pairs_from i [] = []"
| "pairs_from i (v # vs) = (if v \<noteq> TNil then [(TNumber (cast_num (i + 1)), v)] else []) @ pairs_from (i + 1) vs"

definition node_pairs :: "Node list \<Rightarrow> (TValue \<times> TValue) list" where
  "node_pairs ns = map (\<lambda>n. (gkey n, gval n)) (filter (\<lambda>n. gval n \<noteq> TNil) ns)"

definition pairs :: "Table \<Rightarrow> (TValue \<times> TValue) list" where
  "pairs t = pairs_from 0 (t_array t) @ node_pairs (t_node t)"

lemma reinsert_nodes_put: "reinsert_nodes g t ns = put_all (luaH_set g) t (node_pairs ns)"
  by (induction g t ns rule: reinsert_nodes.induct)
    (auto simp: node_pairs_def intro!: bind_result_cong)

lemma pairs_from_append: "pairs_from i (xs @ ys) = pairs_from i xs @ pairs_from (i + int (length xs)) ys"
  by (induction xs arbitrary: i) (auto simp: ac_simps)

lemma set_pairs_from:
  "set (pairs_from i vs) = {(TNumber (cast_num (i + 1 + int j)), vs ! j) | j. j < length vs \<and> vs ! j \<noteq> TNil}"
proof (induction vs arbitrary: i)
  case (Cons v vs)
  have "{(TNumber (cast_num (i + 1 + int j)), (v # vs) ! j) | j. j < length (v # vs) \<and> (v # vs) ! j \<noteq> TNil}
    = (if v \<noteq> TNil then {(TNumber (cast_num (i + 1)), v)} else {})
      \<union> {(TNumber (cast_num (i + 1 + 1 + int j)), vs ! j) | j. j < length vs \<and> vs ! j \<noteq> TNil}"
    (is "?L = ?R")
  proof (intro equalityI subsetI)
    fix x assume "x \<in> ?L"
    then obtain j where "j < length (v # vs)" "(v # vs) ! j \<noteq> TNil" "x = (TNumber (cast_num (i + 1 + int j)), (v # vs) ! j)"
      by auto
    then show "x \<in> ?R" by (cases j) (auto simp: ac_simps intro!: exI)
  next
    fix x assume "x \<in> ?R"
    then consider "v \<noteq> TNil" "x = (TNumber (cast_num (i + 1)), v)"
      | j where "j < length vs" "vs ! j \<noteq> TNil" "x = (TNumber (cast_num (i + 1 + 1 + int j)), vs ! j)"
      by (auto split: if_splits)
    then show "x \<in> ?L"
    proof cases
      case 1
      then show ?thesis by (auto intro!: exI [of _ 0])
    next
      case (2 j)
      then show ?thesis by (auto intro!: exI [of _ "Suc j"] simp: ac_simps)
    qed
  qed
  with Cons show ?case by simp
qed simp

lemma array_number:
  assumes "0 \<le> i" and "i + 1 + int j \<le> INT_MAX"
  shows "arrayindex (TNumber (cast_num (i + 1 + int j))) = i + 1 + int j"
    and "valid_key (TNumber (cast_num (i + 1 + int j)))"
proof -
  show "arrayindex (TNumber (cast_num (i + 1 + int j))) = i + 1 + int j"
    using assms by (intro arrayindex_cast_num) (simp_all add: INT_MIN_def)
  have "\<bar>i + 1 + int j\<bar> < 2 ^ 53" using assms by (simp add: INT_MAX_def)
  then show "valid_key (TNumber (cast_num (i + 1 + int j)))"
    using cast_num_finite by (simp add: valid_key_def intact_def)
qed

lemma pairs_from_keys:
  assumes "0 \<le> i" and "i + int (length vs) \<le> INT_MAX" and "(k, v) \<in> set (pairs_from i vs)"
  shows "valid_key k" and "i + 1 \<le> arrayindex k" and "arrayindex k \<le> i + int (length vs)"
    and "v = vs ! nat (arrayindex k - i - 1)" and "v \<noteq> TNil"
proof -
  obtain j where j: "j < length vs" "vs ! j \<noteq> TNil" "k = TNumber (cast_num (i + 1 + int j))" "v = vs ! j"
    using assms(3) by (auto simp: set_pairs_from)
  have "i + 1 + int j \<le> INT_MAX" using assms(2) j(1) by linarith
  note n = array_number [OF assms(1) this]
  show "valid_key k" "i + 1 \<le> arrayindex k" "arrayindex k \<le> i + int (length vs)"
    "v = vs ! nat (arrayindex k - i - 1)" "v \<noteq> TNil"
    using n j by simp_all
qed

lemma distinct_pairs_from:
  assumes "0 \<le> i" and "i + int (length vs) \<le> INT_MAX"
  shows "distinct_keys (pairs_from i vs)"
  using assms
proof (induction vs arbitrary: i)
  case (Cons v vs)
  have "\<not> luaO_rawequalObj (TNumber (cast_num (i + 1))) k" if "(k, w) \<in> set (pairs_from (i + 1) vs)" for k w
  proof
    assume "luaO_rawequalObj (TNumber (cast_num (i + 1))) k"
    then have "arrayindex k = i + 1"
      using arrayindex_rawequal array_number(1) [of i 0] Cons.prems by fastforce
    with pairs_from_keys(2) [OF _ _ that] Cons.prems show False by simp
  qed
  with Cons show ?case by (auto simp: distinct_keys_def)
qed (simp add: distinct_keys_def)

lemma reinsert_array_put:
  assumes "0 \<le> i" and "i + int (length vs) \<le> INT_MAX"
  shows "reinsert_array g t i vs = put_all (\<lambda>t k. luaH_setnum g t (arrayindex k)) t (pairs_from i vs)"
  using assms
proof (induction g t i vs rule: reinsert_array.induct)
  case (2 g t i v vs)
  have "arrayindex (TNumber (cast_num (i + 1))) = i + 1"
    using array_number(1) [of i 0] "2.prems" by simp
  with 2 show ?case by (auto intro!: bind_result_cong)
qed simp

lemma set_node_pairs: "set (node_pairs (t_node t)) = live t"
  by (auto simp: node_pairs_def live_def tK_def tV_def in_set_conv_nth image_iff)

lemma sorted_wrt_filter_nth:
  "(\<And>i j. i < j \<Longrightarrow> j < length xs \<Longrightarrow> P (xs ! i) \<Longrightarrow> P (xs ! j) \<Longrightarrow> R (xs ! i) (xs ! j)) \<Longrightarrow> sorted_wrt R (filter P xs)"
proof (induction xs)
  case (Cons x xs)
  have "sorted_wrt R (filter P xs)"
    using Cons.prems [of "Suc i" "Suc j" for i j] by (intro Cons.IH) simp
  moreover have "R x y" if "P x" "y \<in> set (filter P xs)" for y
  proof -
    have "y \<in> set xs" "P y" using that(2) by auto
    then obtain j where "j < length xs" "y = xs ! j" "P y" by (auto simp: in_set_conv_nth)
    with Cons.prems [of 0 "Suc j"] that show ?thesis by simp
  qed
  ultimately show ?case by simp
qed simp

lemma distinct_node_pairs:
  assumes ok: "table_ok t"
  shows "distinct_keys (rev (node_pairs (t_node t)))" and "\<forall>(k, v) \<in> set (node_pairs (t_node t)). valid_key k"
proof -
  note c = chains_okE [OF table_okD(3) [OF ok]]
  have home: "intact (tK t i)" if "i < length (t_node t)" "tV t i \<noteq> TNil" for i
    using c(4) that by (auto simp: ch_val_def)
  then show "\<forall>(k, v) \<in> set (node_pairs (t_node t)). valid_key k"
    using c(4) by (auto simp: set_node_pairs live_def ch_val_def)
  have "sorted_wrt (\<lambda>m n. \<not> luaO_rawequalObj (gkey n) (gkey m)) (filter (\<lambda>n. gval n \<noteq> TNil) (t_node t))"
  proof (rule sorted_wrt_filter_nth)
    fix i j assume ij: "i < j" "j < length (t_node t)" "gval (t_node t ! i) \<noteq> TNil" "gval (t_node t ! j) \<noteq> TNil"
    then have "intact (tK t i)" "intact (tK t j)" using home [of i] home [of j] by (auto simp: tV_def)
    with ij c(7) show "\<not> luaO_rawequalObj (gkey (t_node t ! j)) (gkey (t_node t ! i))"
      unfolding ch_uniq_def tK_def by (metis less_irrefl less_trans)
  qed
  then show "distinct_keys (rev (node_pairs (t_node t)))"
    by (simp add: distinct_keys_def node_pairs_def sorted_wrt_rev sorted_wrt_map)
qed


lemma tget_pairs:
  assumes ok: "table_ok t" and k: "intact k" and sa: "sizearray t \<le> INT_MAX"
  shows "(k', v) \<in> set (pairs t) \<Longrightarrow> luaO_rawequalObj k' k \<Longrightarrow> tget t k = v"
    and "\<forall>(k', v) \<in> set (pairs t). \<not> luaO_rawequalObj k' k \<Longrightarrow> tget t k = TNil"
proof -
  have b: "0 + int (length (t_array t)) \<le> INT_MAX" using sa by (simp add: sizearray_def)
  note pf = pairs_from_keys [of 0 "t_array t", OF order_refl b]
  show "tget t k = v" if p: "(k', v) \<in> set (pairs t)" and eq: "luaO_rawequalObj k' k"
  proof (cases "(k', v) \<in> set (pairs_from 0 (t_array t))")
    case True
    note n = pf [OF True]
    have "arrayindex k = arrayindex k'" using arrayindex_rawequal [OF eq] by simp
    then show ?thesis using tget_array [OF ok k] n by (simp add: array_key_def sizearray_def)
  next
    case False
    then have l: "(k', v) \<in> live t" using p by (auto simp: pairs_def set_node_pairs)
    then have "\<not> array_key t k'" using table_okD(4) [OF ok] chains_okE(4) [OF table_okD(3) [OF ok]]
      by (auto simp: live_def ch_val_def)
    then have na: "\<not> array_key t k" using arrayindex_rawequal [OF eq] by (simp add: array_key_def)
    show ?thesis
      using tget_live [OF ok k na] l eq live_unique [OF ok l] rawequal_sym rawequal_trans by metis
  qed
  show "tget t k = TNil" if no: "\<forall>(k', v) \<in> set (pairs t). \<not> luaO_rawequalObj k' k"
  proof (cases "array_key t k")
    case True
    let ?j = "nat (arrayindex k - 1)"
    have j: "?j < length (t_array t)" and eq: "0 + 1 + int ?j = arrayindex k" and pos: "0 < arrayindex k"
      using True by (auto simp: array_key_def sizearray_def)
    have "luaO_rawequalObj (TNumber (cast_num (0 + 1 + int ?j))) k"
      using array_number(1) [of 0 ?j] j b eq pos by (intro arrayindex_eq_rawequal) auto
    moreover have "(TNumber (cast_num (0 + 1 + int ?j)), t_array t ! ?j) \<in> set (pairs t)" if "t_array t ! ?j \<noteq> TNil"
      using j that unfolding pairs_def set_append set_pairs_from by blast
    ultimately have "t_array t ! ?j = TNil" using no by blast
    then show ?thesis using tget_array [OF ok k True] by simp
  next
    case False
    from tget_live [OF ok k this] no show ?thesis by (auto simp: pairs_def set_node_pairs)
  qed
qed

section \<open>Resizing\<close>

definition blank :: "Table \<Rightarrow> bool" where
  "blank t \<longleftrightarrow> length (t_node t) = 2 ^ lsizenode t \<and> lsizenode t \<le> 26 \<and> set (t_node t) = {dummynode}
     \<and> (if is_dummy t then t_node t = [dummynode] \<and> lastfree t \<le> 0
        else lastfree t = int (length (t_node t)))"

lemma blank_ok:
  assumes "blank t" and "sizearray t < 2 ^ 31"
  shows "table_ok t" "live t = {}" "used t = 0"
proof -
  have "t_node t ! i = dummynode" if "i < length (t_node t)" for i
    using assms(1) that nth_mem [OF that] by (simp add: blank_def)
  then have n: "tK t i = TNil" "tV t i = TNil" "tN t i = None" if "i < length (t_node t)" for i
    using that by (simp_all add: tK_def tV_def tN_def dummynode_def)
  have "chains_ok (length (t_node t)) (mainposition t) (tN t) (tK t) (tV t)"
    using n by (simp add: chains_ok_def ch_defs)
  with n assms show "table_ok t"
    by (cases "is_dummy t") (auto simp: table_ok_def sizes_ok_def free_ok_def blank_def)
  show "live t = {}" "used t = 0" using n by (auto simp: live_def used_def)
qed

lemma tget_blank:
  assumes "blank t" and "sizearray t < 2 ^ 31" and "intact k"
  shows "tget t k = (if array_key t k then t_array t ! nat (arrayindex k - 1) else TNil)"
  using tget_array [OF blank_ok(1) [OF assms(1,2)] assms(3)] tget_live [OF blank_ok(1) [OF assms(1,2)] assms(3)]
    blank_ok(2) [OF assms(1,2)] by auto

lemma setnodevector_blank:
  assumes "0 \<le> nh" and "nh \<le> 2 ^ 26"
  shows "\<exists>t'. setnodevector t nh = Inr t' \<and> blank t' \<and> nh \<le> int (cap t') \<and> t_array t' = t_array t
    \<and> metatable t' = metatable t \<and> flags t' = flags t"
proof (cases "nh = 0")
  case True
  then show ?thesis by (simp add: setnodevector_def blank_def cap_def)
next
  case False
  with assms have "1 \<le> nh" by simp
  note c = ceillog2_bounds [OF this]
  have "ceillog2 nh \<le> 26"
  proof (rule ccontr)
    assume "\<not> ceillog2 nh \<le> 26"
    then have n: "26 \<le> nat (ceillog2 nh - 1)" and "nh \<noteq> 1" using c(1) by (auto simp: ceillog2_def luaO_log2_0)
    have "(2::int) ^ 26 \<le> 2 ^ nat (ceillog2 nh - 1)" using n by (intro power_increasing) auto
    with c(3) [OF \<open>nh \<noteq> 1\<close>] assms show False by linarith
  qed
  with c(1,2) False show ?thesis
    by (auto simp: setnodevector_def Let_def blank_def cap_def MAXBITS_def twoto_def push_bit_eq_mult
        dummynode_def nat_power_eq)
qed

text \<open>
  Resizing keeps the contents, if the new hash part is large enough for the pairs that do not
  go to the new array; it never has to rehash, whatever \<open>g\<close> is.
\<close>

definition hash_need :: "Table \<Rightarrow> int \<Rightarrow> nat" where
  "hash_need t n = length (filter (\<lambda>p. \<not> (1 \<le> arrayindex (fst p) \<and> arrayindex (fst p) \<le> n)) (pairs t))"

lemma resize_keeps:
  assumes ok: "table_ok t" and sa: "sizearray t \<le> 2 ^ 26" and n: "0 \<le> n" "n \<le> 2 ^ 26"
    and nh: "int (hash_need t n) \<le> nh" "nh \<le> 2 ^ 26"
  shows "\<exists>t'. resize g t n nh = Inr t' \<and> table_ok t' \<and> sizearray t' = n \<and> nh \<le> int (cap t')
    \<and> used t' \<le> hash_need t n \<and> metatable t' = metatable t
    \<and> (\<forall>k. intact k \<longrightarrow> tget t' k = tget t k)"
proof -
  let ?old = "sizearray t"
  let ?kept = "take (nat n) (t_array t)" and ?gone = "drop (nat n) (t_array t)"
  let ?t1 = "if n > ?old then setarrayvector t n else t"
  have "0 \<le> nh" using nh by linarith
  then obtain t2 where t2: "setnodevector ?t1 nh = Inr t2" "blank t2" "nh \<le> int (cap t2)" "t_array t2 = t_array ?t1"
    "metatable t2 = metatable ?t1"
    using setnodevector_blank nh(2) by blast
  let ?t3 = "if n < ?old then t2\<lparr>t_array := take (nat n) (t_array t2)\<rparr> else t2"
  have arr3: "t_array ?t3 = ?kept @ replicate (nat n - length (t_array t)) TNil"
    using t2(4) n by (auto simp: setarrayvector_def sizearray_def)
  have "length (t_array ?t3) = nat n" by (simp only: arr3 length_append length_take length_replicate)
  then have sa3: "sizearray ?t3 = n" using n by (simp only: sizearray_def)
  have "blank ?t3" "cap ?t3 = cap t2" "metatable ?t3 = metatable t"
    using t2 by (auto simp: blank_def cap_def setarrayvector_def)
  note b3 = this
  have ak3: "array_key ?t3 k \<longleftrightarrow> 1 \<le> arrayindex k \<and> arrayindex k \<le> n" for k by (simp add: array_key_def sa3)
  have ok3: "table_ok ?t3" "used ?t3 = 0" using blank_ok [OF b3(1)] sa3 n by simp_all
  let ?va = "pairs_from n ?gone" and ?vn = "rev (node_pairs (t_node t))"
  have b0: "0 + int (length (t_array t)) \<le> INT_MAX" using sa by (simp add: sizearray_def INT_MAX_def)
  have bn: "n + int (length ?gone) \<le> INT_MAX" using sa n by (auto simp: sizearray_def INT_MAX_def)
  have split: "pairs_from 0 (t_array t) = pairs_from 0 ?kept @ pairs_from (int (length ?kept)) ?gone"
    using pairs_from_append [of 0 ?kept ?gone] by simp
  have gone: "pairs_from (int (length ?kept)) ?gone = ?va"
    using n by (cases "nat n \<le> length (t_array t)") (simp_all add: min_def)
  have gone0: "?va = []" if "\<not> n < ?old"
    using that by (simp add: sizearray_def)
  let ?f = "\<lambda>t k. luaH_setnum g t (arrayindex k)"
  note va = pairs_from_keys [OF n(1) bn]
  have out: "\<forall>p \<in> set ?va. n + 1 \<le> arrayindex (fst p)" using va(2) by auto
  then have gone1: "filter (\<lambda>p. \<not> (1 \<le> arrayindex (fst p) \<and> arrayindex (fst p) \<le> n)) ?va = ?va"
    by (intro filter_True) fastforce
  then have hc3: "hash_count ?t3 ?va = length ?va" by (simp add: hash_count_def ak3)
  have kept0: "filter (\<lambda>p. \<not> (1 \<le> arrayindex (fst p) \<and> arrayindex (fst p) \<le> n)) (pairs_from 0 ?kept) = []"
  proof -
    have "0 + int (length ?kept) \<le> INT_MAX" using b0 by auto
    note pf = pairs_from_keys(2,3) [OF order_refl this]
    have "1 \<le> arrayindex k \<and> arrayindex k \<le> n" if "(k, v) \<in> set (pairs_from 0 ?kept)" for k v
      using pf [OF that] n by (auto simp: min_def split: if_splits)
    then show ?thesis by (auto simp: filter_empty_conv)
  qed
  have need: "hash_need t n = length ?va + hash_count ?t3 ?vn"
    unfolding hash_need_def pairs_def split gone filter_append kept0 gone1
    by (simp add: hash_count_def ak3 rev_filter [symmetric])
  obtain t4 where t4: "put_all ?f ?t3 ?va = Inr t4" "puts ?t3 ?va t4"
  proof (rule exE [OF put_all_puts [of ?t3 ?va ?f]])
    show "distinct_keys ?va" by (rule distinct_pairs_from [OF n(1) bn])
    show "\<forall>(k, v) \<in> set ?va. valid_key k" using va(1) by blast
    show "used ?t3 + hash_count ?t3 ?va \<le> cap ?t3"
      unfolding ok3(2) hc3 b3(2) using need nh(1) t2(3) by linarith
    show "sets t k (?f t k)" if t: "table_ok t" "k \<in> fst ` set ?va"
      "\<not> array_key t k \<Longrightarrow> at_slot t k NilObject \<Longrightarrow> used t < cap t" for t k
    proof -
      obtain j where j: "j < length ?gone" "k = TNumber (cast_num (n + 1 + int j))"
        using t(2) by (auto simp: set_pairs_from)
      have jb: "n + 1 + int j \<le> INT_MAX" using bn j(1) by linarith
      have ai: "arrayindex k = n + 1 + int j" using array_number(1) [OF n(1) jb] j(2) by simp
      show ?thesis
        using luaH_setnum_room [OF t(1), of "n + 1 + int j"] t(3) jb n(1) j(2) ai by (simp add: INT_MIN_def)
    qed
  qed (use ok3 in auto)
  have ok4: "table_ok t4" and sa4: "sizearray t4 = n" and cap4: "cap t4 = cap t2" and u4: "used t4 \<le> length ?va"
    and mt4: "metatable t4 = metatable t"
    using t4(2) sa3 b3 hc3 ok3 by (auto simp: puts_def)
  have ak4: "array_key t4 = array_key ?t3" by (simp add: array_key_def sa3 sa4 fun_eq_iff)
  have hc4: "hash_count t4 ?vn = hash_count ?t3 ?vn" by (simp add: hash_count_def ak4)
  obtain t5 where t5: "put_all (luaH_set g) t4 ?vn = Inr t5" "puts t4 ?vn t5"
  proof (rule exE [OF put_all_puts [of t4 ?vn "luaH_set g"]])
    show "used t4 + hash_count t4 ?vn \<le> cap t4"
      unfolding hc4 cap4 using u4 need nh(1) t2(3) by linarith
    show "sets t k (luaH_set g t k)" if "table_ok t" "k \<in> fst ` set ?vn"
      "\<not> array_key t k \<Longrightarrow> at_slot t k NilObject \<Longrightarrow> used t < cap t" for t k
      using that distinct_node_pairs(2) [OF ok] by (intro luaH_set_room) (auto simp: image_iff)
  qed (use ok4 distinct_node_pairs [OF ok] in auto)
  have vn: "rev (node_pairs (t_node t)) = node_pairs (rev (t_node t))"
    by (simp add: node_pairs_def rev_map rev_filter)
  have "resize g t n nh = Inr t5"
  proof -
    have a: "(if n < ?old then reinsert_array g (t2\<lparr>t_array := take (nat n) (t_array t2)\<rparr>) n ?gone else Inr t2) = Inr t4"
    proof (cases "n < ?old")
      case True
      have "reinsert_array g ?t3 n ?gone = Inr t4"
        unfolding reinsert_array_put [OF n(1) bn] by (rule t4(1))
      then show ?thesis using True by simp
    next
      case False
      then show ?thesis using t4(1) gone0 by simp
    qed
    have b: "reinsert_nodes g t4 (rev (t_node t)) = Inr t5"
      unfolding reinsert_nodes_put vn [symmetric] by (rule t5(1))
    show ?thesis by (simp add: resize_def Let_def t2(1) a b)
  qed
  moreover have "tget t5 k = tget t k" if k: "intact k" for k
  proof -
    have sai: "sizearray t \<le> INT_MAX" using sa by (simp add: INT_MAX_def)
    note tp = tget_pairs [OF ok k sai]
    have ps: "set (pairs t) = set (pairs_from 0 ?kept) \<union> set ?va \<union> set ?vn"
      unfolding pairs_def split gone by auto
    consider (vn) k' v where "(k', v) \<in> set ?vn" "luaO_rawequalObj k' k"
      | (va) k' v where "(k', v) \<in> set ?va" "luaO_rawequalObj k' k"
          "\<forall>(k', v) \<in> set ?vn. \<not> luaO_rawequalObj k' k"
      | (old) "\<forall>(k', v) \<in> set ?vn. \<not> luaO_rawequalObj k' k" "\<forall>(k', v) \<in> set ?va. \<not> luaO_rawequalObj k' k"
      by fast
    then show ?thesis
    proof cases
      case vn
      then have "tget t5 k = v" using t5(2) k unfolding puts_def by fast
      moreover have "tget t k = v" using tp(1) [of k' v] vn ps by blast
      ultimately show ?thesis by simp
    next
      case va
      then have "tget t5 k = tget t4 k" using t5(2) k unfolding puts_def by fast
      also have "\<dots> = v" using va t4(2) k unfolding puts_def by fast
      also have "\<dots> = tget t k" using tp(1) [of k' v] va ps by blast
      finally show ?thesis .
    next
      case old
      have "tget t5 k = tget t4 k" using t5(2) k old unfolding puts_def by fast
      also have "\<dots> = tget ?t3 k" using t4(2) k old unfolding puts_def by fast
      also have "\<dots> = (if array_key ?t3 k then t_array ?t3 ! nat (arrayindex k - 1) else TNil)"
        using b3(1) sa3 n k by (intro tget_blank) auto
      also have "\<dots> = tget t k"
      proof (cases "array_key t k \<and> array_key ?t3 k")
        case True
        then show ?thesis
          using tget_array [OF ok k] by (simp only: arr3) (auto simp: array_key_def sizearray_def ak3 nth_append)
      next
        case False
        then have F: "\<not> (array_key t k \<and> 1 \<le> arrayindex k \<and> arrayindex k \<le> n)" unfolding ak3 .
        have "\<forall>(k', v) \<in> set (pairs_from 0 ?kept). \<not> luaO_rawequalObj k' k"
        proof (intro ballI, clarify)
          fix k' v assume p: "(k', v) \<in> set (pairs_from 0 ?kept)" and eq: "luaO_rawequalObj k' k"
          have "0 + int (length ?kept) \<le> INT_MAX" using b0 by auto
          from pairs_from_keys(2,3) [OF order_refl this p] arrayindex_rawequal [OF eq] F n
          show False by (auto simp: array_key_def sizearray_def min_def split: if_splits)
        qed
        with old have "tget t k = TNil" by (intro tp(2)) (simp only: ps ball_Un set_rev)
        moreover have "t_array ?t3 ! nat (arrayindex k - 1) = TNil" if "array_key ?t3 k"
          using F that unfolding arr3 ak3 by (auto simp: array_key_def sizearray_def nth_append)
        ultimately show ?thesis by simp
      qed
      finally show ?thesis .
    qed
  qed
  moreover have "used t5 \<le> hash_need t n" using t5(2) u4 hc4 need by (simp add: puts_def)
  ultimately show ?thesis using t5(2) sa4 cap4 t2(3) mt4 by (auto simp: puts_def)
qed

end
