(* ===== verification/LuaTableGrow.thy ===== *)
theory LuaTableGrow
  imports LuaTableMap
begin

text \<open>
  Rehashing: the counts of the integer keys by slices, the size of the array part chosen from
  them, and the conclusion that after a rehash there is room for the key to insert.
\<close>

section \<open>Counting the integer keys\<close>

text \<open>The candidates for the array part among some keys, and how many fall in slice \<open>l\<close>.\<close>

definition int_keys :: "TValue list \<Rightarrow> int list" where
  "int_keys ks = filter (\<lambda>i. 0 < i \<and> i \<le> MAXASIZE) (map arrayindex ks)"

definition in_slice :: "nat \<Rightarrow> int list \<Rightarrow> nat" where
  "in_slice l is = length (filter (\<lambda>i. nat (ceillog2 i) = l) is)"

definition counts :: "int list \<Rightarrow> int list \<Rightarrow> bool" where
  "counts nums is \<longleftrightarrow> nums = map (\<lambda>l. int (in_slice l is)) [0..<27]"

lemma counts_iff: "counts nums is \<longleftrightarrow> length nums = 27 \<and> (\<forall>l < 27. nums ! l = int (in_slice l is))"
  unfolding counts_def by (auto simp: list_eq_iff_nth_eq)

lemma MAXASIZE_eq: "MAXASIZE = 2 ^ 26"
  by code_simp

lemma ceillog2_slice:
  assumes "2 ^ l div 2 < i" and "i \<le> 2 ^ l"
  shows "ceillog2 i = int l"
proof -
  have "(0::int) \<le> 2 ^ l div 2" by (simp add: pos_imp_zdiv_nonneg_iff)
  with assms(1) have i: "1 \<le> i" by linarith
  note c = ceillog2_bounds [OF i]
  have "ceillog2 i \<le> int l"
  proof (rule ccontr)
    assume n: "\<not> ceillog2 i \<le> int l"
    have "i \<noteq> 1" using n by (auto simp: ceillog2_def luaO_log2_0)
    have "(2::int) ^ l \<le> 2 ^ nat (ceillog2 i - 1)" using n by (intro power_increasing) auto
    with c(3) [OF \<open>i \<noteq> 1\<close>] assms(2) show False by linarith
  qed
  moreover have "int l \<le> ceillog2 i"
  proof (rule ccontr)
    assume n: "\<not> int l \<le> ceillog2 i"
    then obtain m where m: "l = Suc m" "nat (ceillog2 i) \<le> m" using c(1) by (cases l) auto
    have "(2::int) ^ nat (ceillog2 i) \<le> 2 ^ m" using m(2) by (intro power_increasing) auto
    with c(2) assms(1) m(1) show False by simp
  qed
  ultimately show ?thesis by simp
qed

lemma ceillog2_le:
  assumes "0 < i" and "i \<le> 2 ^ l"
  shows "nat (ceillog2 i) \<le> l"
proof (rule ccontr)
  assume n: "\<not> nat (ceillog2 i) \<le> l"
  then have "i \<noteq> 1" by (auto simp: ceillog2_def luaO_log2_0)
  have "(2::int) ^ l \<le> 2 ^ nat (ceillog2 i - 1)" using n by (intro power_increasing) auto
  moreover have "2 ^ nat (ceillog2 i - 1) < i" using ceillog2_bounds(3) \<open>i \<noteq> 1\<close> assms(1) by simp
  ultimately show False using assms(2) by linarith
qed

lemma le_ceillog2: "0 < i \<Longrightarrow> nat (ceillog2 i) \<le> l \<Longrightarrow> i \<le> 2 ^ l"
  using ceillog2_bounds(2) [of i] power_increasing [of "nat (ceillog2 i)" l "2::int"] by linarith

lemma counts_zero: "counts (replicate 27 0) []"
  by (simp add: counts_iff in_slice_def)

lemma counts_add:
  assumes c: "counts nums is" and l: "l < 27" and "\<forall>i \<in> set js. nat (ceillog2 i) = l"
  shows "counts (nums[l := nums ! l + int (length js)]) (is @ js)"
proof -
  have s: "in_slice l (is @ js) = in_slice l is + length js"
    using assms(3) by (simp add: in_slice_def filter_True)
  have o: "in_slice m (is @ js) = in_slice m is" if "m \<noteq> l" for m
    using assms(3) that by (simp add: in_slice_def)
  show ?thesis
    unfolding counts_iff
  proof (intro conjI allI impI)
    fix m :: nat assume "m < 27"
    then show "nums[l := nums ! l + int (length js)] ! m = int (in_slice m (is @ js))"
      using c l s o by (cases "m = l") (simp_all add: counts_iff)
  qed (use c in \<open>simp add: counts_iff\<close>)
qed

lemma countint_counts:
  assumes "counts nums is"
  shows "\<exists>nums'. countint k nums = (int (length (int_keys [k])), nums') \<and> counts nums' (is @ int_keys [k])"
proof (cases "0 < arrayindex k \<and> arrayindex k \<le> MAXASIZE")
  case True
  then have "nat (ceillog2 (arrayindex k)) < 27"
    using ceillog2_le [of "arrayindex k" 26] by (simp add: MAXASIZE_eq)
  with counts_add [OF assms this, of "[arrayindex k]"] True show ?thesis
    by (simp add: countint_def Let_def int_keys_def)
next
  case False
  then have "int_keys [k] = []" "countint k nums = (0, nums)" by (auto simp: countint_def Let_def int_keys_def)
  with assms show ?thesis by simp
qed

lemma fold_count_nodes:
  assumes "counts nums is"
  shows "\<exists>nums'. fold count_node ns (tu, au, nums)
      = (tu + int (length (node_pairs ns)), au + int (length (int_keys (map fst (node_pairs ns)))), nums')
    \<and> counts nums' (is @ int_keys (map fst (node_pairs ns)))"
  using assms
proof (induction ns arbitrary: tu au nums "is")
  case Nil
  then show ?case by (simp add: node_pairs_def int_keys_def)
next
  case (Cons n ns)
  obtain nums1 where n1: "countint (gkey n) nums = (int (length (int_keys [gkey n])), nums1)"
    "counts nums1 (is @ int_keys [gkey n])" using countint_counts [OF Cons.prems] by blast
  show ?case
  proof (cases "gval n = TNil")
    case True
    with Cons.IH [OF Cons.prems, of tu au] show ?thesis by (simp add: count_node_def node_pairs_def)
  next
    case False
    have "int_keys (map fst (node_pairs (n # ns))) = int_keys [gkey n] @ int_keys (map fst (node_pairs ns))"
      using False by (simp add: node_pairs_def int_keys_def)
    with Cons.IH [OF n1(2), of "tu + 1" "au + int (length (int_keys [gkey n]))"] False n1(1)
    show ?thesis by (auto simp: count_node_def node_pairs_def)
  qed
qed

text \<open>The indices of the array part from \<open>i\<close> to \<open>j\<close> that have a value.\<close>

definition arr_idx :: "TValue list \<Rightarrow> int \<Rightarrow> int \<Rightarrow> int list" where
  "arr_idx a i j = filter (\<lambda>k. a ! nat (k - 1) \<noteq> TNil) [i..j]"

lemma count_range_arr_idx: "count_range a i lim = int (length (arr_idx a i lim))"
proof (induction a i lim rule: count_range.induct)
  case (1 a i lim)
  then show ?case
    by (subst count_range.simps) (simp add: arr_idx_def upto_rec1)
qed

lemma arr_idx_split:
  assumes "i \<le> m + 1" and "m \<le> j"
  shows "arr_idx a i j = arr_idx a i m @ arr_idx a (m + 1) j"
proof (cases "i \<le> m")
  case True
  with assms show ?thesis using upto_split2 [OF True assms(2)] by (simp add: arr_idx_def)
next
  case False
  with assms have "i = m + 1" by simp
  then show ?thesis by (simp add: arr_idx_def)
qed

lemma numusearray_loop_counts:
  fixes lg :: int
  assumes "0 \<le> lg" "lg \<le> 27" and "ttlg = 2 ^ nat lg" and "i = min (2 ^ nat lg div 2) (int (length a)) + 1"
    and "int (length a) \<le> 2 ^ 26" and "counts nums is"
  shows "\<exists>nums'. numusearray_loop a lg ttlg i nums ause = (ause + int (length (arr_idx a i (int (length a)))), nums')
    \<and> counts nums' (is @ arr_idx a i (int (length a)))"
  using assms
proof (induction a lg ttlg i nums ause arbitrary: "is" rule: numusearray_loop.induct)
  case (1 a lg ttlg i nums ause)
  let ?n = "int (length a)" and ?lim = "if ttlg > int (length a) then int (length a) else ttlg"
  note p = "1.prems"
  show ?case
  proof (cases "lg \<le> MAXBITS \<and> \<not> (ttlg > ?n \<and> i > ?lim)")
    case False
    have "?n < i"
    proof (cases "lg \<le> MAXBITS")
      case True
      with False show ?thesis by auto
    next
      case f: False
      then have "nat lg = 27" using p(2) by (simp add: MAXBITS_def)
      then show ?thesis using p(4,5) by (simp add: min_def)
    qed
    then have "arr_idx a i ?n = []" by (simp add: arr_idx_def)
    moreover have "numusearray_loop a lg ttlg i nums ause = (ause, nums)"
      using False by (subst numusearray_loop.simps) (auto simp: Let_def)
    ultimately show ?thesis using p(6) by simp
  next
    case True
    let ?js = "arr_idx a i ?lim"
    have "(0::int) \<le> x \<Longrightarrow> x div 2 \<le> x \<and> 0 \<le> x div 2" for x by linarith
    then have half: "(2::int) ^ nat lg div 2 \<le> 2 ^ nat lg" "(0::int) \<le> 2 ^ nat lg div 2" by simp_all
    have lim: "?lim = min (2 ^ nat lg) ?n" using p(3) by (simp add: min_def)
    have i: "i \<le> ?lim + 1" "?lim \<le> ?n" unfolding lim p(4) using half(1) by (simp_all add: min.coboundedI1)
    have nl: "nat (lg + 1) = Suc (nat lg)" using p(1) by simp
    have "\<forall>k \<in> set ?js. nat (ceillog2 k) = nat lg"
    proof
      fix k assume "k \<in> set ?js"
      then have "i \<le> k" "k \<le> min (2 ^ nat lg) ?n" unfolding lim by (auto simp: arr_idx_def)
      moreover have "min h m + 1 \<le> k \<Longrightarrow> k \<le> min q m \<Longrightarrow> h < k \<and> k \<le> q" for h m q :: int by linarith
      ultimately have "2 ^ nat lg div 2 < k" "k \<le> 2 ^ nat lg" unfolding p(4) by blast+
      from ceillog2_slice [OF this] show "nat (ceillog2 k) = nat lg" by simp
    qed
    moreover have "nat lg < 27" using True p(1) unfolding MAXBITS_def by linarith
    ultimately have c: "counts (nums[nat lg := nums ! nat lg + int (length ?js)]) (is @ ?js)"
      by (intro counts_add p(6)) auto
    have mx: "max i (?lim + 1) = ?lim + 1" using i(1) by simp
    have "\<exists>nums'. numusearray_loop a (lg + 1) (ttlg * 2) (max i (?lim + 1))
        (nums[nat lg := nums ! nat lg + count_range a i ?lim]) (ause + count_range a i ?lim)
      = (ause + count_range a i ?lim + int (length (arr_idx a (max i (?lim + 1)) ?n)), nums')
      \<and> counts nums' ((is @ ?js) @ arr_idx a (max i (?lim + 1)) ?n)"
    proof (rule "1.IH" [OF _ refl])
      show "counts (nums[nat lg := nums ! nat lg + count_range a i ?lim]) (is @ ?js)"
        using c by (simp only: count_range_arr_idx)
      show "max i (?lim + 1) = min (2 ^ nat (lg + 1) div 2) ?n + 1"
        using mx unfolding lim nl by simp
    qed (use True p(1,2,3,5) nl in \<open>auto simp: MAXBITS_def\<close>)
    moreover have "numusearray_loop a lg ttlg i nums ause = numusearray_loop a (lg + 1) (ttlg * 2) (max i (?lim + 1))
        (nums[nat lg := nums ! nat lg + count_range a i ?lim]) (ause + count_range a i ?lim)"
      using True by (subst numusearray_loop.simps) (simp add: Let_def)
    moreover have "arr_idx a i ?n = ?js @ arr_idx a (max i (?lim + 1)) ?n"
      unfolding mx by (rule arr_idx_split [OF i])
    ultimately show ?thesis by (simp only: count_range_arr_idx append_assoc length_append of_nat_add add.assoc)
  qed
qed

lemma arr_idx_pairs:
  assumes "0 \<le> i" and "i + int (length vs) \<le> INT_MAX" and "\<forall>j < length vs. a ! (nat i + j) = vs ! j"
  shows "map arrayindex (map fst (pairs_from i vs)) = arr_idx a (i + 1) (i + int (length vs))"
  using assms
proof (induction vs arbitrary: i)
  case Nil
  then show ?case by (simp add: arr_idx_def)
next
  case (Cons v vs)
  have "map arrayindex (map fst (pairs_from (i + 1) vs)) = arr_idx a (i + 1 + 1) (i + 1 + int (length vs))"
  proof (rule Cons.IH)
    show "\<forall>j < length vs. a ! (nat (i + 1) + j) = vs ! j"
      using Cons.prems(1,3) by (auto simp: nat_add_distrib)
  qed (use Cons.prems in auto)
  moreover have "arrayindex (TNumber (cast_num (i + 1))) = i + 1"
    using array_number(1) [of i 0] Cons.prems(1,2) by simp
  moreover have "a ! nat i = v" using Cons.prems(3) by (metis add.right_neutral length_greater_0_conv list.distinct(1) nth_Cons_0)
  moreover have "[i + 1..i + int (length (v # vs))] = (i + 1) # [i + 1 + 1..i + 1 + int (length vs)]"
    using upto_rec1 [of "i + 1" "i + int (length (v # vs))"] by (simp add: ac_simps)
  ultimately show ?case by (simp add: arr_idx_def)
qed


section \<open>The size of the array part\<close>

definition upto_pow :: "nat \<Rightarrow> int list \<Rightarrow> nat" where
  "upto_pow l is = length (filter (\<lambda>i. i \<le> 2 ^ l) is)"

text \<open>
  What \<open>computesizes\<close> has to return for the candidates \<open>is\<close>: a size that is 0 or a power of two
  more than half of which is in use, the largest such one, and the number of candidates below.
\<close>

definition optimal_upto :: "int list \<Rightarrow> int \<Rightarrow> nat \<Rightarrow> bool" where
  "optimal_upto is n m \<longleftrightarrow> (\<forall>l < m. n < 2 ^ l \<longrightarrow> 2 * int (upto_pow l is) \<le> 2 ^ l)"

definition fair_size :: "int list \<Rightarrow> int \<Rightarrow> int \<Rightarrow> nat \<Rightarrow> bool" where
  "fair_size is na n m \<longleftrightarrow> na = int (length (filter (\<lambda>i. i \<le> n) is))
     \<and> (n = 0 \<or> (\<exists>l < m. n = 2 ^ l \<and> n < 2 * na))"

lemma upto_pow_Suc:
  assumes "\<forall>i \<in> set is. 0 < i"
  shows "upto_pow l is = (if l = 0 then 0 else upto_pow (l - 1) is) + in_slice l is"
proof -
  have "i \<le> 2 ^ l \<longleftrightarrow> nat (ceillog2 i) \<le> l" if "0 < i" for i l
    using that ceillog2_le le_ceillog2 by blast
  then have u: "upto_pow l is = length (filter (\<lambda>i. nat (ceillog2 i) \<le> l) is)" for l
    unfolding upto_pow_def using assms by (intro arg_cong [where f = length] filter_cong) auto
  show ?thesis
    unfolding u in_slice_def by (cases l; induction "is") auto
qed

lemma upto_pow_all:
  assumes "\<forall>i \<in> set is. i \<le> 2 ^ 26" and "26 \<le> l"
  shows "upto_pow l is = length is"
proof -
  have "(2::int) ^ 26 \<le> 2 ^ l" using assms(2) by (intro power_increasing) auto
  then show ?thesis using assms(1) unfolding upto_pow_def by (subst filter_True) auto
qed

lemma upto_pow_le: "upto_pow l is \<le> length is"
  by (simp add: upto_pow_def)

lemma upto_pow_distinct:
  assumes "distinct is" and "\<forall>i \<in> set is. 0 < i"
  shows "int (upto_pow l is) \<le> 2 ^ l"
proof -
  have "upto_pow l is = card (set (filter (\<lambda>i. i \<le> 2 ^ l) is))"
    using assms(1) by (simp add: upto_pow_def distinct_card [symmetric])
  also have "\<dots> \<le> card {1..(2 :: int) ^ l}" using assms(2) by (intro card_mono) auto
  finally show ?thesis by (simp add: nat_power_eq)
qed

text \<open>A size that is optimal up to \<open>m\<close> is optimal if no larger slice adds enough.\<close>

lemma optimal_beyond:
  assumes "optimal_upto is n m" and "n < 2 ^ m \<longrightarrow> 2 * int (length is) \<le> 2 ^ m"
    and "2 * int (length is) \<le> 2 ^ Suc m"
  shows "optimal_upto is n l"
  unfolding optimal_upto_def
proof (intro allI impI)
  fix k assume k: "k < l" "n < 2 ^ k"
  have u: "int (upto_pow k is) \<le> int (length is)" using upto_pow_le by simp
  consider "k < m" | "k = m" | "Suc m \<le> k" by linarith
  then show "2 * int (upto_pow k is) \<le> 2 ^ k"
  proof cases
    case 1
    with assms(1) k(2) show ?thesis by (simp add: optimal_upto_def)
  next
    case 2
    with assms(2) k(2) u show ?thesis by fastforce
  next
    case 3
    then have "(2::int) ^ Suc m \<le> 2 ^ k" by (intro power_increasing) auto
    with assms(3) u show ?thesis by linarith
  qed
qed

lemma half_pow: "0 < x \<Longrightarrow> (2::int) ^ i div 2 < x \<longleftrightarrow> 2 ^ i < 2 * x"
  by (cases i) auto

lemma computesizes_loop_best:
  assumes c: "counts nums is" and r: "\<forall>i \<in> set is. 0 < i \<and> i \<le> 2 ^ 26"
    and "i \<le> 27" and "a = (if i = 0 then 0 else int (upto_pow (i - 1) is))" and "fair_size is na n i"
    and "distinct is \<longrightarrow> optimal_upto is n i" and "i = 0 \<or> a \<noteq> int (length is)"
  shows "\<exists>na' n'. computesizes_loop nums (int (length is)) i (2 ^ i) a na n = Inr (na', n')
    \<and> fair_size is na' n' 27 \<and> (distinct is \<longrightarrow> (\<forall>l. optimal_upto is n' l))"
  using assms(3-)
proof (induction "27 - i" arbitrary: i a na n)
  case 0
  then have "i = 27" by simp
  with 0 upto_pow_all [of "is" 26] r have False by simp
  then show ?case ..
next
  case (Suc d)
  let ?N = "int (length is)" and ?a = "int (upto_pow i is)"
  let ?up = "0 < nums ! i \<and> 2 ^ i div 2 < ?a"
  let ?n = "if ?up then 2 ^ i else n" and ?na = "if ?up then ?a else na"
  note p = Suc.prems
  have i: "i < 27" using Suc.hyps(2) by simp
  have fair: "fair_size is na n 27" using p(3) i unfolding fair_size_def by fastforce
  show ?case
  proof (cases "2 ^ i div 2 < ?N")
    case False
    have opt: "optimal_upto is n l" if "distinct is" for l
    proof (rule optimal_beyond)
      have "2 * ?N \<le> 2 ^ i" using False half_pow [of ?N i] by (cases "is = []") auto
      then show "n < 2 ^ i \<longrightarrow> 2 * ?N \<le> 2 ^ i" "2 * ?N \<le> 2 ^ Suc i" unfolding power_Suc by linarith+
    qed (use p(4) that in simp)
    have "computesizes_loop nums ?N i (2 ^ i) a na n = Inr (na, n)"
      using False by (subst computesizes_loop.simps) simp
    with fair opt show ?thesis by auto
  next
    case True
    have ni: "nums ! i = int (in_slice i is)" and len: "length nums = 27" using c i by (auto simp: counts_iff)
    have a: "?a = a + nums ! i" using upto_pow_Suc [of "is" i] r p(2) ni by simp
    have step: "computesizes_loop nums ?N i (2 ^ i) a na n
      = (if ?a = ?N then Inr (?na, ?n) else computesizes_loop nums ?N (i + 1) (2 ^ i * 2) ?a ?na ?n)"
      using True len i a ni by (subst computesizes_loop.simps) (auto simp: Let_def)
    have fair': "fair_size is ?na ?n (Suc i)"
    proof (cases ?up)
      case True
      moreover have "(0::int) \<le> 2 ^ i div 2" by (simp add: pos_imp_zdiv_nonneg_iff)
      ultimately have "(2::int) ^ i < 2 * ?a" using half_pow [of ?a i] by linarith
      with True show ?thesis by (auto simp: fair_size_def upto_pow_def)
    next
      case False
      then show ?thesis using p(3) unfolding fair_size_def by fastforce
    qed
    have n: "?n < 2 ^ i \<longrightarrow> 2 * ?a \<le> 2 ^ i" if d: "distinct is"
    proof
      assume lt: "?n < 2 ^ i"
      show "2 * ?a \<le> 2 ^ i"
      proof (cases "0 < nums ! i")
        case True
        with lt half_pow [of ?a i] show ?thesis by (auto split: if_splits)
      next
        case False
        with ni a have "?a = a" by simp
        then show ?thesis using p(2) upto_pow_distinct [OF d, of "i - 1"] r by (cases i) auto
      qed
    qed
    have opt: "optimal_upto is ?n (Suc i)" if d: "distinct is"
      unfolding optimal_upto_def
    proof (intro allI impI)
      fix l assume l: "l < Suc i" "?n < 2 ^ l"
      show "2 * int (upto_pow l is) \<le> 2 ^ l"
      proof (cases "l = i")
        case True
        with n [OF d] l(2) show ?thesis by simp
      next
        case False
        have "(2::int) ^ l \<le> 2 ^ i" using l(1) by (intro power_increasing) auto
        then have "n < 2 ^ l" using l(2) by (auto split: if_splits)
        with p(4) d l(1) False show ?thesis by (simp add: optimal_upto_def)
      qed
    qed
    show ?thesis
    proof (cases "?a = ?N")
      case True
      have "optimal_upto is ?n l" if d: "distinct is" for l
      proof (rule optimal_beyond)
        show "optimal_upto is ?n i" using opt [OF d] by (simp add: optimal_upto_def)
        show "?n < 2 ^ i \<longrightarrow> 2 * ?N \<le> 2 ^ i" using n [OF d] unfolding True .
        show "2 * ?N \<le> 2 ^ Suc i" using upto_pow_distinct [OF d, of i] r unfolding True by simp
      qed
      moreover have "fair_size is ?na ?n 27" using fair' i unfolding fair_size_def by fastforce
      ultimately show ?thesis unfolding step using True by auto
    next
      case False
      have "\<exists>na' n'. computesizes_loop nums ?N (Suc i) (2 ^ Suc i) ?a ?na ?n = Inr (na', n')
        \<and> fair_size is na' n' 27 \<and> (distinct is \<longrightarrow> (\<forall>l. optimal_upto is n' l))"
        by (rule Suc.hyps(1)) (use Suc.hyps(2) False fair' opt in auto)
      then show ?thesis unfolding step using False by (simp add: mult.commute)
    qed
  qed
qed

lemma computesizes_best:
  assumes "counts nums is" and "\<forall>i \<in> set is. 0 < i \<and> i \<le> 2 ^ 26"
  shows "\<exists>na n. computesizes nums (int (length is)) = Inr (na, n)
    \<and> fair_size is na n 27 \<and> (distinct is \<longrightarrow> (\<forall>l. optimal_upto is n l))"
proof -
  have "filter (\<lambda>i. i \<le> 0) is = []" using assms(2) by (fastforce simp: filter_empty_conv)
  with computesizes_loop_best [OF assms, of 0 0 0 0] show ?thesis
    by (simp add: computesizes_def fair_size_def [of _ 0] optimal_upto_def [of _ _ 0])
qed

section \<open>Rehashing makes room\<close>

lemma int_keys_append [simp]: "int_keys (xs @ ys) = int_keys xs @ int_keys ys"
  by (simp add: int_keys_def)

lemma int_keys_upto:
  "n \<le> 2 ^ 26 \<Longrightarrow> length (filter (\<lambda>i. i \<le> n) (int_keys ks))
    = length (filter (\<lambda>k. 1 \<le> arrayindex k \<and> arrayindex k \<le> n) ks)"
  by (induction ks) (auto simp: int_keys_def MAXASIZE_eq)

lemma int_keys_range: "\<forall>i \<in> set (int_keys ks). 0 < i \<and> i \<le> 2 ^ 26"
  by (auto simp: int_keys_def MAXASIZE_eq)

lemma rehash_makes_room:
  assumes ok: "table_ok t" and sa: "sizearray t \<le> 2 ^ 26" and few: "int (length (pairs t)) < 2 ^ 26"
  shows "\<exists>t'. rehash g t ek = Inr t' \<and> table_ok t' \<and> sizearray t' \<le> 2 ^ 26 \<and> metatable t' = metatable t
    \<and> (\<not> array_key t' ek \<longrightarrow> used t' < cap t') \<and> (\<forall>k. intact k \<longrightarrow> tget t' k = tget t k)"
proof -
  let ?pa = "map fst (pairs_from 0 (t_array t))" and ?pn = "map fst (node_pairs (rev (t_node t)))"
  let ?is = "int_keys (?pa @ ?pn @ [ek])"
  have len: "0 + int (length (t_array t)) \<le> INT_MAX" using sa by (simp add: sizearray_def INT_MAX_def)
  have idx: "arr_idx (t_array t) 1 (int (length (t_array t))) = map arrayindex ?pa"
    using arr_idx_pairs [OF order_refl len, of "t_array t"] by simp
  have pa: "map arrayindex ?pa = int_keys ?pa"
  proof -
    have "0 < arrayindex k \<and> arrayindex k \<le> MAXASIZE" if k: "k \<in> set ?pa" for k
    proof -
      obtain v where "(k, v) \<in> set (pairs_from 0 (t_array t))" using k by auto
      from pairs_from_keys(2,3) [OF order_refl len this] sa show ?thesis by (simp add: MAXASIZE_eq sizearray_def)
    qed
    then show ?thesis unfolding int_keys_def by (subst filter_True) auto
  qed
  have "\<exists>nums'. numusearray_loop (t_array t) 0 1 1 (replicate 27 0) 0
      = (0 + int (length (arr_idx (t_array t) 1 (int (length (t_array t))))), nums')
    \<and> counts nums' ([] @ arr_idx (t_array t) 1 (int (length (t_array t))))"
    using sa counts_zero by (intro numusearray_loop_counts) (simp_all add: sizearray_def)
  then obtain nums1 where n1: "numusearray t (replicate 27 0) = (int (length (int_keys ?pa)), nums1)"
    "counts nums1 (int_keys ?pa)"
    unfolding idx pa numusearray_def add_0 append_Nil by blast
  obtain nums2 where n2: "numusehash t nums1 (int (length (int_keys ?pa)))
      = (int (length ?pn), int (length (int_keys (?pa @ ?pn))), nums2)" "counts nums2 (int_keys (?pa @ ?pn))"
    using fold_count_nodes [OF n1(2), of "rev (t_node t)" 0 0] by (auto simp: numusehash_def)
  obtain nums3 where n3: "countint ek nums2 = (int (length (int_keys [ek])), nums3)" "counts nums3 ?is"
    using countint_counts [OF n2(2), of ek] by auto
  obtain na n where cs: "computesizes nums3 (int (length ?is)) = Inr (na, n)" and fair: "fair_size ?is na n 27"
    using computesizes_best [OF n3(2) int_keys_range] by blast
  have n: "0 \<le> n" "n \<le> 2 ^ 26"
  proof -
    have "(2::int) ^ l \<le> 2 ^ 26" if "l < 27" for l :: nat using that by (intro power_increasing) auto
    with fair show "0 \<le> n" "n \<le> 2 ^ 26" by (auto simp: fair_size_def)
  qed
  let ?in = "\<lambda>k. 1 \<le> arrayindex k \<and> arrayindex k \<le> n"
  have pn: "?pn = rev (map fst (node_pairs (t_node t)))"
    by (simp add: node_pairs_def rev_filter [symmetric] rev_map [symmetric])
  have na: "na = int (length (filter ?in (map fst (pairs t)))) + (if ?in ek then 1 else 0)"
  proof -
    have "na = int (length (filter ?in (?pa @ ?pn @ [ek])))"
      using fair unfolding fair_size_def int_keys_upto [OF n(2)] by blast
    then show ?thesis unfolding pn by (simp add: pairs_def rev_filter [symmetric])
  qed
  have total: "int (length (int_keys ?pa)) + int (length ?pn) + 1 = int (length (pairs t)) + 1"
    unfolding pa [symmetric] by (simp add: pairs_def node_pairs_def rev_filter [symmetric])
  have need: "int (hash_need t n) = int (length (pairs t)) - int (length (filter ?in (map fst (pairs t))))"
    using sum_length_filter_compl [of "\<lambda>p. ?in (fst p)" "pairs t"]
    by (simp add: hash_need_def filter_map o_def)
  let ?nh = "int (length (pairs t)) + 1 - na"
  have nh: "?nh = int (hash_need t n) + (if ?in ek then 0 else 1)" unfolding need na by simp
  have hn: "int (hash_need t n) \<le> int (length (pairs t))" by (simp add: hash_need_def)
  have "int (hash_need t n) \<le> ?nh" "?nh \<le> 2 ^ 26" unfolding nh using hn few by (simp_all split: if_split)
  then obtain t' where t': "resize g t n ?nh = Inr t'" "table_ok t'" "sizearray t' = n" "?nh \<le> int (cap t')"
    "used t' \<le> hash_need t n" "metatable t' = metatable t" "\<forall>k. intact k \<longrightarrow> tget t' k = tget t k"
    using resize_keeps [OF ok sa n, of ?nh g] by blast
  have "int (length (int_keys (?pa @ ?pn))) + int (length (int_keys [ek])) = int (length ?is)" by simp
  then have "rehash g t ek = resize g t n ?nh"
    unfolding rehash_def Let_def n1(1) prod.case n2(1) n3(1) by (simp only: cs total bind_result_def sum.case prod.case)
  moreover have "used t' < cap t'" if "\<not> array_key t' ek"
  proof -
    have "\<not> ?in ek" using that t'(3) by (simp add: array_key_def)
    then have "?nh = int (hash_need t n) + 1" unfolding nh by (simp only: if_False)
    then show ?thesis using t'(4,5) by linarith
  qed
  ultimately show ?thesis using t' n(2) by auto
qed


section \<open>Setting a key\<close>

lemma newkey_or_grow:
  assumes ok: "table_ok t" and k: "valid_key k" and new: "at_slot t k NilObject"
  shows "(\<exists>i t'. newkey g t k = Inr (InNode i, t') \<and> inserted t k i t' \<and> \<not> is_dummy t)
    \<or> (\<exists>t'. newkey g t k = g t' k \<and> table_ok t' \<and> t_array t' = t_array t \<and> t_node t' = t_node t
        \<and> metatable t' = metatable t \<and> lsizenode t' = lsizenode t)"
proof (cases "\<not> is_dummy t \<and> (tV t (mainposition t k) = TNil \<or> used t < length (t_node t))")
  case True
  with newkey_inserts [OF ok _ k new] show ?thesis by blast
next
  case False
  note D = table_okD [OF ok]
  obtain r t' where gf: "getfreepos t = (r, t')" by fastforce
  have none: "r = None"
  proof (cases r)
    case (Some n)
    note s = getfreepos_Some [OF gf [unfolded Some]]
    then have nd: "\<not> is_dummy t" using D(1) by (auto simp: sizes_ok_def)
    have n: "n < length (t_node t)" using s D(1) nd by (auto simp: sizes_ok_def)
    have "card {i. i < length (t_node t) \<and> tK t i \<noteq> TNil} < card {..<length (t_node t)}"
      using s n by (intro psubset_card_mono) auto
    then have "used t < length (t_node t)" by (simp add: used_def)
    with False nd show ?thesis by blast
  qed simp
  then obtain l where l: "l \<le> lastfree t" "t' = t\<lparr>lastfree := l\<rparr>" "\<forall>i. int i < lastfree t \<longrightarrow> tK t i \<noteq> TNil"
    using getfreepos_None gf by blast
  have "newkey g t k = g t' k"
    using False none gf by (auto simp: newkey_def Let_def tV_def)
  moreover have "table_ok t'"
  proof (cases "is_dummy t")
    case True
    then have "blank t'" "sizearray t' < 2 ^ 31"
      using D(1) l(1) by (auto simp: l(2) sizes_ok_def blank_def sizearray_def)
    then show ?thesis by (rule blank_ok(1))
  next
    case False
    have "\<And>i. i < length (t_node t) \<Longrightarrow> tK t i \<noteq> TNil"
      using l(3) D(2) False by (meson free_ok_def not_le)
    then show ?thesis
      using D(3,4) l(1)
      by (intro table_ok_nodes [OF ok False, where l = l and nodes = "t_node t"])
        (auto simp: l(2) tN_def [abs_def] tK_def [abs_def] tV_def [abs_def])
  qed
  ultimately show ?thesis using l(2) by auto
qed


text \<open>
  The invariant of a table between operations, and a table with the value \<open>v\<close> for \<open>k\<close>.
\<close>

definition table_inv :: "Table \<Rightarrow> bool" where
  "table_inv t \<longleftrightarrow> table_ok t \<and> sizearray t \<le> 2 ^ 26"

definition updated :: "Table \<Rightarrow> TValue \<Rightarrow> TValue \<Rightarrow> Table \<Rightarrow> bool" where
  "updated t k v t' \<longleftrightarrow> table_inv t' \<and> metatable t' = metatable t
     \<and> (\<forall>k'. intact k' \<longrightarrow> tget t' k' = (if luaO_rawequalObj k k' then v else tget t k'))"

text \<open>The slot \<open>s\<close> of the key in a table with the values of \<open>t\<close>.\<close>

definition slot_for :: "Table \<Rightarrow> TValue \<Rightarrow> slot \<Rightarrow> Table \<Rightarrow> bool" where
  "slot_for t k s t' \<longleftrightarrow> table_inv t' \<and> slot_val t' s = tget t k \<and> (\<forall>k'. intact k' \<longrightarrow> tget t' k' = tget t k')"

lemma slot_forI:
  assumes "table_ok t'" and "sizearray t' \<le> 2 ^ 26" and "at_slot t' k s" and "intact k"
    and "\<And>k'. intact k' \<Longrightarrow> tget t' k' = tget t k'"
  shows "slot_for t k s t'"
  using assms tget_slot [OF assms(1,4,3)] by (simp add: slot_for_def table_inv_def)

lemma set_after_lookup:
  assumes inv: "table_inv t" and k: "valid_key k" and few: "int (length (pairs t)) < 2 ^ 26" and p: "at_slot t k p"
  shows "\<exists>s t'. (if p \<noteq> NilObject then Inr (p, t) else newkey (grow (Suc f)) t k) = Inr (s, t')
    \<and> slot_for t k s t' \<and> (\<forall>v. updated t k v (set_slot t' s v))"
proof -
  have ok: "table_ok t" and sa: "sizearray t \<le> 2 ^ 26" using inv by (simp_all add: table_inv_def)
  have kk: "intact k" using k by (simp add: valid_key_def)
  show ?thesis
  proof (cases "p = NilObject")
    case False
    with set_slot_ok [OF ok p] sa slot_forI [OF ok sa p kk refl] show ?thesis by (auto simp: updated_def table_inv_def)
  next
    case True
    with newkey_or_grow [OF ok k, of "grow (Suc f)"] p
    consider (ins) i t' where "newkey (grow (Suc f)) t k = Inr (InNode i, t')" "inserted t k i t'"
      | (grow) t' where "newkey (grow (Suc f)) t k = grow (Suc f) t' k" "table_ok t'" "t_array t' = t_array t"
          "t_node t' = t_node t" "metatable t' = metatable t"
      by blast
    then show ?thesis
    proof cases
      case ins
      then have t': "table_ok t'" "at_slot t' k (InNode i)" "t_array t' = t_array t" "live t' = live t" "metatable t' = metatable t"
        by (auto simp: inserted_def)
      moreover have "slot_for t k (InNode i) t'"
        using slot_forI [OF t'(1) _ t'(2) kk tget_cong [OF ok t'(1,3,4)]] sa t'(3) by (simp add: sizearray_def)
      ultimately show ?thesis using ins True sa set_slot_ok [OF t'(1,2)] tget_cong [OF ok t'(1,3,4)]
        by (auto simp: updated_def table_inv_def sizearray_def [of t'] sizearray_def [of t])
    next
      case grow
      have same: "live t' = live t" "pairs t' = pairs t" "sizearray t' = sizearray t"
        using grow by (auto simp: live_def tK_def tV_def pairs_def sizearray_def)
      obtain t2 where t2: "rehash (grow f) t' k = Inr t2" "table_ok t2" "sizearray t2 \<le> 2 ^ 26" "metatable t2 = metatable t'"
        "\<not> array_key t2 k \<Longrightarrow> used t2 < cap t2" "\<forall>k. intact k \<longrightarrow> tget t2 k = tget t' k"
        using rehash_makes_room [OF grow(2), of "grow f" k] sa few same by auto
      have "sets t2 k (luaH_set (grow f) t2 k)" by (rule luaH_set_room [OF t2(2) k t2(5)])
      then obtain s t3 where t3: "luaH_set (grow f) t2 k = Inr (s, t3)" "\<forall>v. stored t2 k v (set_slot t3 s v)"
          "table_ok t3" "at_slot t3 k s" "\<forall>k'. intact k' \<longrightarrow> tget t3 k' = tget t2 k'"
        by (auto simp: sets_def)
      moreover have "tget t' k' = tget t k'" if "intact k'" for k'
        by (rule tget_cong [OF ok grow(2) grow(3) same(1) that])
      moreover have "sizearray t3 \<le> 2 ^ 26"
      proof -
        have "sizearray (set_slot t3 s TNil) = sizearray t3" by (cases s) (simp_all add: set_slot_def sizearray_def)
        then show ?thesis using t3(2) t2(3) by (metis stored_def)
      qed
      then have "slot_for t k s t3" using slot_forI [OF t3(3) _ t3(4) kk, of t] t3(5) t2(6) calculation by simp
      ultimately show ?thesis
        using True grow(1,5) t2 by (auto simp: stored_def updated_def table_inv_def)
    qed
  qed
qed

lemma luaH_set_settles:
  assumes inv: "table_inv t" and k: "valid_key k" and few: "int (length (pairs t)) < 2 ^ 26"
  shows "\<exists>s t'. luaH_set (grow (Suc f)) t k = Inr (s, t') \<and> slot_for t k s t' \<and> (\<forall>v. updated t k v (set_slot t' s v))"
proof -
  let ?t = "t\<lparr>flags := 0\<rparr>"
  have inv': "table_inv ?t" using inv by (simp add: table_inv_def)
  obtain p where p: "luaH_get t k = Inr p" "at_slot ?t k p"
    using luaH_get_slot valid_key_intact [OF k] inv by (auto simp: table_inv_def)
  have "pairs ?t = pairs t" by (simp add: pairs_def)
  moreover have "luaH_set (grow (Suc f)) t k = (if p \<noteq> NilObject then Inr (p, ?t) else newkey (grow (Suc f)) ?t k)"
    using valid_key_cases [OF k] p(1) by (auto simp: luaH_set_def Let_def luai_numisnan_def split: TValue.split)
  moreover have "updated ?t k v = updated t k v" for v by (simp add: updated_def fun_eq_iff)
  moreover have "slot_for ?t k s t' = slot_for t k s t'" for s t' by (simp add: slot_for_def)
  ultimately show ?thesis using set_after_lookup [OF inv' k _ p(2), of f] few by simp
qed

lemma luaH_set_stores:
  assumes "table_inv t" and "valid_key k" and "int (length (pairs t)) < 2 ^ 26"
  shows "\<exists>s t'. luaH_set (grow (Suc f)) t k = Inr (s, t') \<and> (\<forall>v. updated t k v (set_slot t' s v))"
  using luaH_set_settles [OF assms] by blast

end
