(* ===== verification/LuaTableSpec.thy ===== *)
theory LuaTableSpec
  imports LuaTableGrow
begin

text \<open>
  What tables promise to the rest of the engine: traversal with \<open>luaH_next\<close>, the length found
  by \<open>luaH_getn\<close>, and tables as maps from keys to values.
\<close>

section \<open>Traversal\<close>

text \<open>All the pairs a traversal with \<open>luaH_next\<close> delivers, starting after \<open>key\<close>.\<close>

primrec traverse :: "nat \<Rightarrow> Table \<Rightarrow> TValue \<Rightarrow> (TValue \<times> TValue) list result" where
  "traverse 0 t key = Inl NoFuel"
| "traverse (Suc f) t key =
     bind_result (luaH_next t key) (\<lambda>r. case r of
       None \<Rightarrow> Inr []
     | Some (k, v) \<Rightarrow> bind_result (traverse f t k) (\<lambda>ps. Inr ((k, v) # ps)))"

text \<open>
  A dead key is compared by the address of its object, where another object may live by then:
  the traversal relies on no key in use having that address.
\<close>

definition no_dead_alias :: "Table \<Rightarrow> bool" where
  "no_dead_alias t \<longleftrightarrow> (\<forall>m \<in> set (t_node t). \<forall>n \<in> set (t_node t). \<forall>x. gkey m = TDeadKey x \<longrightarrow> gkey n \<noteq> TGC x)"

definition pairs_after :: "Table \<Rightarrow> nat \<Rightarrow> (TValue \<times> TValue) list" where
  "pairs_after t p = pairs_from (int p) (drop p (t_array t)) @ node_pairs (drop (p - length (t_array t)) (t_node t))"

lemma pairs_after_0: "pairs_after t 0 = pairs t"
  by (simp add: pairs_after_def pairs_def)

lemma next_array_hd: "next_array i vs = (case pairs_from i vs of [] \<Rightarrow> None | p # _ \<Rightarrow> Some p)"
  by (induction i vs rule: next_array.induct) auto

lemma next_hash_hd: "next_hash ns = (case node_pairs ns of [] \<Rightarrow> None | p # _ \<Rightarrow> Some p)"
  by (induction ns rule: next_hash.induct) (auto simp: node_pairs_def)

lemma luaH_next_hd:
  assumes "findindex t key = Inr i" and "i + 1 = int p"
  shows "luaH_next t key = Inr (case pairs_after t p of [] \<Rightarrow> None | q # _ \<Rightarrow> Some q)"
proof -
  have "nat (max (int p) (sizearray t) - sizearray t) = p - length (t_array t)"
    by (simp add: sizearray_def)
  then show ?thesis
    by (simp add: luaH_next_def assms Let_def next_array_hd next_hash_hd pairs_after_def split: list.split)
qed

lemma pairs_from_Cons:
  "pairs_from (int p) (drop p a) = (k, v) # qs \<Longrightarrow>
    \<exists>j < length a. k = TNumber (cast_num (int j + 1)) \<and> qs = pairs_from (int (Suc j)) (drop (Suc j) a)"
proof (induction "length a - p" arbitrary: p)
  case (Suc d)
  then have p: "p < length a" by simp
  have d: "drop p a = a ! p # drop (Suc p) a" by (rule Cons_nth_drop_Suc [symmetric]) (rule p)
  show ?case
  proof (cases "a ! p = TNil")
    case True
    with Suc.prems d Suc.hyps(1) [of "Suc p"] Suc.hyps(2) show ?thesis by (simp add: add.commute)
  next
    case False
    with Suc.prems d p show ?thesis by (auto simp: add.commute intro!: exI [of _ p])
  qed
qed simp

lemma node_pairs_Cons:
  "node_pairs (drop p ns) = (k, v) # qs \<Longrightarrow>
    \<exists>j < length ns. gkey (ns ! j) = k \<and> gval (ns ! j) \<noteq> TNil \<and> qs = node_pairs (drop (Suc j) ns)"
proof (induction "length ns - p" arbitrary: p)
  case 0
  then show ?case by (simp add: node_pairs_def)
next
  case (Suc d)
  then have p: "p < length ns" by simp
  have d: "drop p ns = ns ! p # drop (Suc p) ns" by (rule Cons_nth_drop_Suc [symmetric]) (rule p)
  show ?case
  proof (cases "gval (ns ! p) = TNil")
    case True
    with Suc.prems d Suc.hyps(1) [of "Suc p"] Suc.hyps(2) show ?thesis by (simp add: node_pairs_def)
  next
    case False
    with Suc.prems d p show ?thesis by (auto simp: node_pairs_def intro!: exI [of _ p])
  qed
qed

lemma findindex_node:
  assumes ok: "table_ok t" and nda: "no_dead_alias t" and j: "j < length (t_node t)" and v: "tV t j \<noteq> TNil"
  shows "findindex t (tK t j) = Inr (int j + sizearray t)"
proof -
  note c = chains_okE [OF table_okD(3) [OF ok]]
  let ?k = "tK t j" and ?S = "length (t_node t)"
  let ?P = "\<lambda>n. luaO_rawequalObj (gkey n) ?k \<or> (case (gkey n, ?k) of (TDeadKey a, TGC b) \<Rightarrow> a = b | _ \<Rightarrow> False)"
  have k: "intact ?k" "valid_key ?k" using c(4) j v by (auto simp: ch_val_def)
  have na: "\<not> array_key t ?k" using table_okD(4) [OF ok j k(1)] .
  obtain r where r: "find_node ?S (t_node t) ?P (mainposition t ?k) = Inr r"
    "case r of Some i \<Rightarrow> i < ?S \<and> (mainposition t ?k, i) \<in> (links ?S (tN t))\<^sup>* \<and> ?P (t_node t ! i)
      | None \<Rightarrow> \<forall>i. (mainposition t ?k, i) \<in> (links ?S (tN t))\<^sup>* \<longrightarrow> \<not> ?P (t_node t ! i)"
    using table_find_node [OF ok table_okD(6) [OF ok], of ?P ?k] by blast
  have path: "(mainposition t ?k, j) \<in> (links ?S (tN t))\<^sup>*" using c(5) j k(1) by (auto simp: ch_reach_def)
  have "luaO_rawequalObj (gkey (t_node t ! j)) ?k" using k(2) by (simp add: valid_key_def tK_def)
  with r(2) path obtain i where i: "r = Some i" "i < ?S" "?P (t_node t ! i)" by (cases r) auto
  have "luaO_rawequalObj (tK t i) ?k"
  proof (rule ccontr)
    assume "\<not> ?thesis"
    with i(3) obtain x where "gkey (t_node t ! i) = TDeadKey x" "?k = TGC x"
      by (auto simp: tK_def split: TValue.splits)
    with nda nth_mem [OF i(2)] nth_mem [OF j] show False unfolding no_dead_alias_def tK_def by blast
  qed
  moreover from this k(1) have "intact (tK t i)" by (cases "tK t i"; cases ?k) (auto simp: intact_def)
  ultimately have "i = j" using c(7) i(2) j k(1) by (auto simp: ch_uniq_def)
  with r(1) i(1) na k(1) show ?thesis by (auto simp: findindex_def Let_def array_key_def)
qed

lemma pairs_after_Cons:
  assumes ok: "table_ok t" and nda: "no_dead_alias t" and sa: "sizearray t \<le> INT_MAX"
    and q: "pairs_after t p = (k, v) # qs"
  shows "\<exists>i. findindex t k = Inr (int i) \<and> pairs_after t (Suc i) = qs"
proof (cases "pairs_from (int p) (drop p (t_array t))")
  case Nil
  let ?n = "length (t_array t)"
  obtain j where j: "j < length (t_node t)" "gkey (t_node t ! j) = k" "gval (t_node t ! j) \<noteq> TNil"
    "qs = node_pairs (drop (Suc j) (t_node t))"
    using q Nil node_pairs_Cons [of "p - ?n" "t_node t" k v qs] by (auto simp: pairs_after_def)
  have "findindex t k = Inr (int (j + ?n))"
    using findindex_node [OF ok nda j(1)] j(2,3) by (simp add: tK_def tV_def sizearray_def)
  moreover have "pairs_after t (Suc (j + ?n)) = qs" using j(4) by (simp add: pairs_after_def)
  ultimately show ?thesis by blast
next
  case (Cons h hs)
  with q have h: "h = (k, v)" and qs: "qs = hs @ node_pairs (drop (p - length (t_array t)) (t_node t))"
    by (auto simp: pairs_after_def)
  from pairs_from_Cons [OF Cons [unfolded h]] obtain j where j: "j < length (t_array t)"
    "k = TNumber (cast_num (int j + 1))" "hs = pairs_from (int (Suc j)) (drop (Suc j) (t_array t))" by blast
  have "p < length (t_array t)" using Cons by (cases "p < length (t_array t)") auto
  moreover have "arrayindex k = int j + 1"
    using array_number(1) [of 0 j] j(1,2) sa by (simp add: sizearray_def add.commute)
  ultimately have "findindex t k = Inr (int j)" "pairs_after t (Suc j) = qs"
    using j qs by (auto simp: findindex_def Let_def sizearray_def pairs_after_def)
  then show ?thesis by blast
qed

lemma traverse_from:
  assumes ok: "table_ok t" and nda: "no_dead_alias t" and sa: "sizearray t \<le> INT_MAX"
  shows "findindex t key = Inr i \<Longrightarrow> i + 1 = int p \<Longrightarrow> length (pairs_after t p) < f
    \<Longrightarrow> traverse f t key = Inr (pairs_after t p)"
proof (induction f arbitrary: key i p)
  case (Suc f)
  note nx = luaH_next_hd [OF Suc.prems(1,2)]
  show ?case
  proof (cases "pairs_after t p")
    case Nil
    with nx show ?thesis by simp
  next
    case (Cons q qs)
    obtain k v where kv: "q = (k, v)" by (cases q)
    from pairs_after_Cons [OF ok nda sa Cons [unfolded kv]]
    obtain i' where i': "findindex t k = Inr (int i')" "pairs_after t (Suc i') = qs" by blast
    have "traverse f t k = Inr qs" using Suc.IH [OF i'(1), of "Suc i'"] Suc.prems(3) Cons i'(2) by simp
    with nx Cons kv show ?thesis by simp
  qed
qed simp

text \<open>The pairs are exactly what looking up gives.\<close>

lemma pairs_spec:
  assumes ok: "table_ok t" and sa: "sizearray t \<le> INT_MAX"
  shows "distinct_keys (pairs t)" and "(k, v) \<in> set (pairs t) \<Longrightarrow> valid_key k \<and> v \<noteq> TNil \<and> tget t k = v"
proof -
  have len: "0 + int (length (t_array t)) \<le> INT_MAX" using sa by (simp add: sizearray_def)
  note pf = pairs_from_keys [OF order_refl len] and np = distinct_node_pairs [OF ok]
  have out: "\<not> luaO_rawequalObj k k'" if "(k, v) \<in> set (pairs_from 0 (t_array t))" "(k', v') \<in> live t" for k v k' v'
  proof
    assume "luaO_rawequalObj k k'"
    then have "arrayindex k' = arrayindex k" by (rule arrayindex_rawequal [symmetric])
    then have "array_key t k'" using pf(2,3) [OF that(1)] by (simp add: array_key_def sizearray_def)
    with that(2) table_okD(4) [OF ok] chains_okE(4) [OF table_okD(3) [OF ok]] show False
      by (auto simp: live_def ch_val_def)
  qed
  have "distinct_keys (node_pairs (t_node t))"
    using np(1) unfolding distinct_keys_def sorted_wrt_rev by (rule sorted_wrt_mono_rel [rotated]) (simp add: rawequal_sym)
  then show "distinct_keys (pairs t)"
    using distinct_pairs_from [OF order_refl len] out
    by (auto simp: pairs_def distinct_keys_def sorted_wrt_append set_node_pairs)
  assume p: "(k, v) \<in> set (pairs t)"
  then have vk: "valid_key k" and "v \<noteq> TNil"
    using pf(1,5) np(2) by (auto simp: pairs_def set_node_pairs dest: live_nonnil)
  with tget_pairs(1) [OF ok _ sa p] show "valid_key k \<and> v \<noteq> TNil \<and> tget t k = v"
    by (auto simp: valid_key_def)
qed

lemma pairs_complete:
  assumes "table_ok t" and "sizearray t \<le> INT_MAX" and "intact k" and "tget t k \<noteq> TNil"
  shows "\<exists>k'. (k', tget t k) \<in> set (pairs t) \<and> luaO_rawequalObj k' k"
  using tget_pairs [OF assms(1,3,2)] assms(4) by blast

lemma length_pairs: "length (pairs t) \<le> length (t_array t) + length (t_node t)"
proof -
  have "length (pairs_from i vs) \<le> length vs" for i vs
    by (induction vs arbitrary: i) (auto intro: le_SucI)
  moreover have "length (node_pairs ns) \<le> length ns" for ns by (simp add: node_pairs_def)
  ultimately show ?thesis by (simp add: pairs_def add_mono)
qed

text \<open>
  A traversal delivers every pair of the table exactly once, whatever is in the table, and ends.
\<close>

definition traverses :: "Table \<Rightarrow> (TValue \<times> TValue) list \<Rightarrow> bool" where
  "traverses t ps \<longleftrightarrow> distinct_keys ps \<and> (\<forall>(k, v) \<in> set ps. v \<noteq> TNil \<and> tget t k = v)
     \<and> (\<forall>k. intact k \<longrightarrow> tget t k \<noteq> TNil \<longrightarrow> (\<exists>k'. (k', tget t k) \<in> set ps \<and> luaO_rawequalObj k' k))"

lemma traverse_pairs:
  assumes ok: "table_ok t" and nda: "no_dead_alias t" and sa: "sizearray t \<le> INT_MAX"
    and f: "length (t_array t) + length (t_node t) < f"
  shows "traverse f t TNil = Inr (pairs t)" and "traverses t (pairs t)"
proof -
  show "traverse f t TNil = Inr (pairs t)"
    using traverse_from [OF ok nda sa, of TNil "- 1" 0 f] f length_pairs [of t]
    by (simp add: findindex_def pairs_after_0)
  show "traverses t (pairs t)"
    using pairs_spec [OF ok sa] pairs_complete [OF ok sa] by (auto simp: traverses_def)
qed

section \<open>The length\<close>

abbreviation "int_key i \<equiv> TNumber (cast_num i)"

text \<open>A border: an \<open>int\<close> with a value (or 0) whose successor has none.\<close>

definition border :: "Table \<Rightarrow> int \<Rightarrow> bool" where
  "border t n \<longleftrightarrow> 0 \<le> n \<and> n < INT_MAX \<and> (n = 0 \<or> tget t (int_key n) \<noteq> TNil) \<and> tget t (int_key (n + 1)) = TNil"

lemma int_key_intact [simp]: "intact (int_key i)"
  by (simp add: intact_def)

lemma isnil_at_tget:
  assumes ok: "table_ok t" and "INT_MIN \<le> i" and "i \<le> INT_MAX"
  shows "isnil_at t i = Inr (tget t (int_key i) = TNil)"
proof -
  obtain s where s: "luaH_getnum t i = Inr s" "at_slot t (int_key i) s" using luaH_getnum_slot [OF assms] by blast
  with tget_slot [OF ok int_key_intact s(2)] show ?thesis by (simp add: isnil_at_def)
qed

text \<open>Both binary searches keep a value (or 0) at the lower end and none at the upper end.\<close>

definition bracket :: "Table \<Rightarrow> int \<Rightarrow> int \<Rightarrow> bool" where
  "bracket t i j \<longleftrightarrow> 0 \<le> i \<and> i < j \<and> j \<le> INT_MAX \<and> (i = 0 \<or> tget t (int_key i) \<noteq> TNil) \<and> tget t (int_key j) = TNil"

lemma bracket_border: "bracket t i j \<Longrightarrow> \<not> j - i > 1 \<Longrightarrow> border t i"
proof -
  assume b: "bracket t i j" "\<not> j - i > 1"
  then have "j = i + 1" by (simp add: bracket_def)
  with b(1) show "border t i" by (simp add: bracket_def border_def)
qed

lemma bracket_mid:
  assumes "bracket t i j" and "j - i > 1"
  shows "bracket t (if tget t (int_key ((i + j) div 2)) = TNil then i else (i + j) div 2)
    (if tget t (int_key ((i + j) div 2)) = TNil then (i + j) div 2 else j)"
  and "INT_MIN \<le> (i + j) div 2" "(i + j) div 2 \<le> INT_MAX" "0 < (i + j) div 2" "(i + j) div 2 < j"
  using assms by (auto simp: bracket_def INT_MIN_def)

lemma binary_search_border:
  assumes ok: "table_ok t" and "bracket t i j"
  shows "\<exists>n. binary_search t i j = Inr n \<and> border t n"
  using assms(2)
proof (induction "nat (j - i)" arbitrary: i j rule: less_induct)
  case less
  show ?case
  proof (cases "j - i > 1")
    case False
    with bracket_border [OF less.prems] show ?thesis by (subst binary_search.simps) simp
  next
    case True
    let ?m = "(i + j) div 2"
    note m = bracket_mid [OF less.prems True]
    have "i < ?m" using True by linarith
    then have d: "nat (?m - i) < nat (j - i)" "nat (j - ?m) < nat (j - i)" using m(5) by simp_all
    show ?thesis
      using True m(1) less.hyps [OF d(1)] less.hyps [OF d(2)] isnil_at_tget [OF ok m(2,3)]
      by (subst binary_search.simps) (simp add: Let_def split: if_splits)
  qed
qed

lemma array_search_border:
  assumes ok: "table_ok t" and "bracket t i j" and "j \<le> sizearray t"
  shows "border t (array_search t i j)"
  using assms(2,3)
proof (induction "nat (j - i)" arbitrary: i j rule: less_induct)
  case less
  show ?case
  proof (cases "j - i > 1")
    case False
    with bracket_border [OF less.prems(1)] show ?thesis by (subst array_search.simps) simp
  next
    case True
    let ?m = "(i + j) div 2"
    note m = bracket_mid [OF less.prems(1) True]
    have "i < ?m" using True by linarith
    then have d: "nat (?m - i) < nat (j - i)" "nat (j - ?m) < nat (j - i)" using m(5) by simp_all
    have ai: "arrayindex (int_key ?m) = ?m" by (rule arrayindex_cast_num [OF m(2,3)])
    have "tget t (int_key ?m) = t_array t ! nat (?m - 1)"
      using tget_array [OF ok int_key_intact, of ?m] m(4,5) less.prems(2) by (simp add: array_key_def ai)
    then show ?thesis
      using True m(1,5) less.hyps [OF d(1)] less.hyps [OF d(2)] less.prems(2)
      by (subst array_search.simps) (simp add: Let_def split: if_splits)
  qed
qed

lemma linear_search_border:
  assumes ok: "table_ok t" and sa: "sizearray t \<le> 2 ^ 26"
    and "f = length (t_array t) + length (t_node t) + 1 - nat (i - 1)" and "1 \<le> i"
    and "i \<le> int (length (t_array t) + length (t_node t)) + 2"
    and full: "\<forall>j. 1 \<le> j \<longrightarrow> j < i \<longrightarrow> tget t (int_key j) \<noteq> TNil"
  shows "\<exists>n. linear_search f t i = Inr n \<and> border t n"
  using assms(3-)
proof (induction f arbitrary: i)
  case 0
  let ?n = "length (t_array t) + length (t_node t) + 1"
  have small: "int ?n \<le> INT_MAX"
    using table_okD(1) [OF ok] sa power_increasing [of "lsizenode t" 26 "2::int"]
    by (simp add: sizes_ok_def sizearray_def INT_MAX_def)
  have "{1..int ?n} \<subseteq> arrayindex ` fst ` set (pairs t)"
  proof
    fix j assume j: "j \<in> {1..int ?n}"
    then have ai: "arrayindex (int_key j) = j" using small by (intro arrayindex_cast_num) (auto simp: INT_MIN_def)
    have "tget t (int_key j) \<noteq> TNil" using 0 j by auto
    moreover have "sizearray t \<le> INT_MAX" using sa by (simp add: INT_MAX_def)
    ultimately obtain k where "(k, tget t (int_key j)) \<in> set (pairs t)" "luaO_rawequalObj k (int_key j)"
      using pairs_complete [OF ok _ int_key_intact] by blast
    with ai show "j \<in> arrayindex ` fst ` set (pairs t)"
      using arrayindex_rawequal by (metis fst_conv image_eqI)
  qed
  then have "card {1..int ?n} \<le> card (set (pairs t))"
    unfolding image_image by (meson List.finite_set card_image_le card_mono finite_imageI le_trans)
  also have "\<dots> \<le> length (pairs t)" by (rule card_length)
  also have "\<dots> < ?n" using length_pairs [of t] by simp
  finally show ?case by simp
next
  case (Suc f)
  have r: "INT_MIN \<le> i" "i \<le> INT_MAX"
    using Suc.prems table_okD(1) [OF ok] sa power_increasing [of "lsizenode t" 26 "2::int"]
    by (simp_all add: sizes_ok_def sizearray_def INT_MAX_def INT_MIN_def)
  note nil = isnil_at_tget [OF ok r]
  show ?case
  proof (cases "tget t (int_key i) = TNil")
    case True
    moreover have "i - 1 < INT_MAX" using r(2) by simp
    ultimately have "border t (i - 1)" using Suc.prems by (cases "i = 1") (auto simp: border_def)
    with True nil show ?thesis by simp
  next
    case False
    have "\<exists>n. linear_search f t (i + 1) = Inr n \<and> border t n"
    proof (rule Suc.IH)
      show "\<forall>j. 1 \<le> j \<longrightarrow> j < i + 1 \<longrightarrow> tget t (int_key j) \<noteq> TNil"
        using Suc.prems(4) False by (metis less_le zle_add1_eq_le)
    qed (use Suc.prems in auto)
    with False nil show ?thesis by simp
  qed
qed

lemma unbound_loop_border:
  assumes ok: "table_ok t" and sa: "sizearray t \<le> 2 ^ 26" and "0 \<le> i" "i < j" "j \<le> MAX_INT"
    and "i = 0 \<or> tget t (int_key i) \<noteq> TNil"
  shows "\<exists>n. unbound_loop t i j = Inr n \<and> border t n"
  using assms(3-)
proof (induction "nat (MAX_INT - j)" arbitrary: i j rule: less_induct)
  case less
  note p = less.prems
  have r: "INT_MIN \<le> j" "j \<le> INT_MAX" using p by (auto simp: MAX_INT_def INT_MIN_def INT_MAX_def)
  note nil = isnil_at_tget [OF ok r]
  show ?case
  proof (cases "tget t (int_key j) = TNil")
    case True
    then have "bracket t i j" using p r by (simp add: bracket_def)
    from binary_search_border [OF ok this] True nil show ?thesis by (subst unbound_loop.simps) simp
  next
    case False
    have lin: "\<exists>n. linear_search (length (t_array t) + length (t_node t) + 1) t 1 = Inr n \<and> border t n"
      by (rule linear_search_border [OF ok sa]) auto
    have loop: "\<exists>n. unbound_loop t j (j * 2) = Inr n \<and> border t n" if "j * 2 \<le> MAX_INT"
      using p that False by (intro less.hyps) auto
    show ?thesis
      using False nil lin loop p(1,2) by (subst unbound_loop.simps) (auto simp: Let_def not_less)
  qed
qed

lemma luaH_getn_finds_border:
  assumes ok: "table_ok t" and sa: "sizearray t \<le> 2 ^ 26"
  shows "\<exists>n. luaH_getn t = Inr n \<and> border t n"
proof -
  let ?j = "sizearray t"
  have j: "0 \<le> ?j" by (simp add: sizearray_def)
  have at: "tget t (int_key i) = (if i \<le> ?j then t_array t ! nat (i - 1) else tget t (int_key i))"
    if "1 \<le> i" "i \<le> ?j + 1" for i
  proof -
    have "arrayindex (int_key i) = i" using that sa by (intro arrayindex_cast_num) (auto simp: INT_MIN_def INT_MAX_def)
    then show ?thesis using tget_array [OF ok int_key_intact, of i] that by (simp add: array_key_def)
  qed
  have lastv: "?j = 0 \<or> tget t (int_key ?j) \<noteq> TNil" if "\<not> (?j > 0 \<and> t_array t ! nat (?j - 1) = TNil)"
    using at [of ?j] that j by auto
  consider (arr) "?j > 0 \<and> t_array t ! nat (?j - 1) = TNil"
    | (dummy) "\<not> (?j > 0 \<and> t_array t ! nat (?j - 1) = TNil)" "is_dummy t"
    | (hash) "\<not> (?j > 0 \<and> t_array t ! nat (?j - 1) = TNil)" "\<not> is_dummy t" by blast
  then show ?thesis
  proof cases
    case arr
    then have "bracket t 0 ?j" using at [of ?j] sa by (simp add: bracket_def INT_MAX_def)
    from array_search_border [OF ok this] arr show ?thesis by (simp add: luaH_getn_def Let_def)
  next
    case dummy
    have "arrayindex (int_key (?j + 1)) = ?j + 1" using sa j by (intro arrayindex_cast_num) (auto simp: INT_MIN_def INT_MAX_def)
    then have na: "\<not> array_key t (int_key (?j + 1))" by (simp add: array_key_def)
    have "t_node t = [dummynode]" using dummy(2) table_okD(1) [OF ok] by (simp add: sizes_ok_def)
    then have "live t = {}" by (auto simp: live_def tV_def dummynode_def)
    with tget_live [OF ok int_key_intact na] have "tget t (int_key (?j + 1)) = TNil" by auto
    moreover have "?j < INT_MAX" using sa by (simp add: INT_MAX_def)
    ultimately have "border t ?j" using lastv [OF dummy(1)] j by (simp add: border_def)
    with dummy show ?thesis by (auto simp: luaH_getn_def Let_def)
  next
    case hash
    have "\<exists>n. unbound_loop t ?j (?j + 1) = Inr n \<and> border t n"
      using lastv [OF hash(1)] j sa by (intro unbound_loop_border [OF ok sa]) (auto simp: MAX_INT_def INT_MAX_def)
    with hash show ?thesis by (auto simp: luaH_getn_def Let_def unbound_search_def)
  qed
qed


section \<open>Assignment\<close>

text \<open>\<open>setobj2t(L, luaH_set(L, t, k), v)\<close>, as in \<open>lua_rawset\<close>.\<close>

definition table_put :: "nat \<Rightarrow> Table \<Rightarrow> TValue \<Rightarrow> TValue \<Rightarrow> Table result" where
  "table_put f t k v = bind_result (luaH_set (grow f) t k) (\<lambda>(s, t). Inr (set_slot t s v))"

definition pair_count :: "Table \<Rightarrow> nat" where
  "pair_count t = length (pairs t)"

lemma distinct_keys_length:
  assumes "distinct_keys ps" and "\<forall>p \<in> set ps. \<exists>q \<in> set qs. luaO_rawequalObj (fst p) (fst q)"
  shows "length ps \<le> length qs"
proof -
  have "\<exists>j < length qs. luaO_rawequalObj (fst (ps ! i)) (fst (qs ! j))" if i: "i < length ps" for i
  proof -
    obtain q where "q \<in> set qs" "luaO_rawequalObj (fst (ps ! i)) (fst q)"
      using assms(2) nth_mem [OF i] by blast
    then show ?thesis unfolding in_set_conv_nth by blast
  qed
  then have "\<forall>i < length ps. \<exists>j < length qs. luaO_rawequalObj (fst (ps ! i)) (fst (qs ! j))" by blast
  then obtain f where f: "\<forall>i < length ps. f i < length qs \<and> luaO_rawequalObj (fst (ps ! i)) (fst (qs ! f i))" by metis
  have new: "\<not> luaO_rawequalObj (fst (ps ! i)) (fst (ps ! j))" if "i < j" "j < length ps" for i j
    using assms(1) that unfolding distinct_keys_def sorted_wrt_iff_nth_less by blast
  have "f i \<noteq> f j" if ij: "i < j" "j < length ps" for i j
  proof
    assume e: "f i = f j"
    have "luaO_rawequalObj (fst (ps ! i)) (fst (qs ! f j))" using f ij e [symmetric] by simp
    moreover have "luaO_rawequalObj (fst (qs ! f j)) (fst (ps ! j))" using f ij rawequal_sym by blast
    ultimately show False using new [OF ij] rawequal_trans by blast
  qed
  then have "inj_on f {..<length ps}" by (intro linorder_inj_onI') auto
  then have "card {..<length ps} \<le> card {..<length qs}" using f by (intro card_inj_on_le [of f]) auto
  then show ?thesis by simp
qed

lemma updated_pair_count:
  assumes inv: "table_inv t" and k: "valid_key k" and u: "updated t k v t'"
  shows "pair_count t' \<le> pair_count t + 1"
proof -
  have ok: "table_ok t" "sizearray t \<le> INT_MAX" "table_ok t'" "sizearray t' \<le> INT_MAX"
    using inv u by (auto simp: table_inv_def updated_def INT_MAX_def)
  have "length (pairs t') \<le> length ((k, v) # pairs t)"
  proof (rule distinct_keys_length [OF pairs_spec(1) [OF ok(3,4)]], rule ballI)
    fix p assume "p \<in> set (pairs t')"
    then obtain k1 v1 where p: "(k1, v1) \<in> set (pairs t')" and p': "p = (k1, v1)" by (metis surj_pair)
    note s = pairs_spec(2) [OF ok(3,4) p]
    then have k1: "intact k1" by (simp add: valid_key_def)
    show "\<exists>q \<in> set ((k, v) # pairs t). luaO_rawequalObj (fst p) (fst q)"
    proof (cases "luaO_rawequalObj k k1")
      case True
      then show ?thesis using rawequal_sym by (auto simp: p')
    next
      case False
      then have "tget t k1 \<noteq> TNil" using u k1 s by (auto simp: updated_def)
      from pairs_complete [OF ok(1,2) k1 this] obtain k2 where
        "(k2, tget t k1) \<in> set (pairs t)" "luaO_rawequalObj k2 k1" by blast
      then show ?thesis using rawequal_sym [of k2 k1] by (force simp: p')
    qed
  qed
  then show ?thesis by (simp add: pair_count_def)
qed

lemma table_put_updates:
  assumes "table_inv t" and "valid_key k" and "int (pair_count t) < 2 ^ 26"
  shows "\<exists>t'. table_put (Suc f) t k v = Inr t' \<and> updated t k v t' \<and> pair_count t' \<le> pair_count t + 1"
  using luaH_set_stores [OF assms(1,2), of f] assms(3) updated_pair_count [OF assms(1,2)]
  by (fastforce simp: table_put_def pair_count_def)

lemma luaH_set_rejects:
  assumes ok: "table_ok t"
  shows "luaH_set g t TNil = Inl (ErrRun ''table index is nil'')"
    and "is_nan n \<Longrightarrow> luaH_set g t (TNumber n) = Inl (ErrRun ''table index is NaN'')"
proof -
  show "luaH_set g t TNil = Inl (ErrRun ''table index is nil'')"
    by (simp add: luaH_set_def luaH_get_def Let_def)
  assume nan: "is_nan n"
  obtain s where s: "luaH_get t (TNumber n) = Inr s" "at_slot t (TNumber n) s"
    using luaH_get_slot [OF ok, of "TNumber n"] by (auto simp: intact_def)
  have "arrayindex (TNumber n) = - 1" using nan by (simp add: arrayindex_def Let_def luai_numeq_def)
  moreover have "\<not> luaO_rawequalObj k (TNumber n)" for k using nan by (cases k) (auto simp: luai_numeq_def)
  ultimately have "s = NilObject" using s(2) by (cases s) (auto simp: at_slot_def)
  with s(1) nan show "luaH_set g t (TNumber n) = Inl (ErrRun ''table index is NaN'')"
    by (simp add: luaH_set_def Let_def luai_numisnan_def)
qed

lemma pairs_blank:
  assumes "blank t" and "set (t_array t) \<subseteq> {TNil}"
  shows "pairs t = []"
proof -
  have "pairs_from i vs = []" if "set vs \<subseteq> {TNil}" for i vs
    using that by (induction vs arbitrary: i) auto
  with assms show ?thesis by (auto simp: pairs_def node_pairs_def blank_def dummynode_def filter_empty_conv)
qed

lemma luaH_new_blank:
  assumes "0 \<le> na" "na \<le> 2 ^ 26" "0 \<le> nh" "nh \<le> 2 ^ 26"
  shows "\<exists>t. luaH_new na nh = Inr t \<and> table_inv t \<and> sizearray t = na \<and> metatable t = None \<and> pairs t = []
    \<and> nh \<le> int (cap t)"
proof -
  let ?t = "\<lparr>flags = NOT 0, lsizenode = 0, metatable = None, t_array = [], t_node = [dummynode],
               is_dummy = True, lastfree = 0\<rparr>"
  obtain t where t: "setnodevector (setarrayvector ?t na) nh = Inr t" "blank t" "nh \<le> int (cap t)"
    "t_array t = t_array (setarrayvector ?t na)" "metatable t = metatable (setarrayvector ?t na)"
    using setnodevector_blank [OF assms(3,4)] by blast
  then have arr: "t_array t = replicate (nat na) TNil" "metatable t = None" by (simp_all add: setarrayvector_def)
  then have sa: "sizearray t = na" using assms(1) by (simp add: sizearray_def)
  have "table_ok t" using blank_ok(1) [OF t(2)] sa assms(2) by simp
  moreover have "pairs t = []" by (rule pairs_blank [OF t(2)]) (auto simp: arr)
  ultimately show ?thesis using t(1,3) arr sa assms(2) by (simp add: luaH_new_def Let_def table_inv_def)
qed

lemma resizearray_keeps:
  assumes inv: "table_inv t" and n: "sizearray t \<le> n" "n \<le> 2 ^ 26"
  shows "\<exists>t'. luaH_resizearray g t n = Inr t' \<and> table_inv t' \<and> sizearray t' = n
    \<and> (\<forall>k. intact k \<longrightarrow> tget t' k = tget t k)"
proof -
  have ok: "table_ok t" "sizearray t \<le> 2 ^ 26" using inv by (simp_all add: table_inv_def)
  have n0: "0 \<le> n" using n(1) by (simp add: sizearray_def)
  have "0 + int (length (t_array t)) \<le> INT_MAX" using ok(2) by (simp add: sizearray_def INT_MAX_def)
  from pairs_from_keys(2,3) [OF order_refl this] n(1)
  have "\<forall>p \<in> set (pairs_from 0 (t_array t)). 1 \<le> arrayindex (fst p) \<and> arrayindex (fst p) \<le> n"
    by (fastforce simp: sizearray_def)
  then have "filter (\<lambda>p. \<not> (1 \<le> arrayindex (fst p) \<and> arrayindex (fst p) \<le> n)) (pairs_from 0 (t_array t)) = []"
    by (auto simp: filter_empty_conv)
  then have need: "hash_need t n \<le> length (node_pairs (t_node t))"
    unfolding hash_need_def pairs_def filter_append by simp
  let ?nh = "if is_dummy t then 0 else sizenode t"
  have s: "length (t_node t) = 2 ^ lsizenode t" "lsizenode t \<le> 26" "is_dummy t \<Longrightarrow> t_node t = [dummynode]"
    using table_okD(1) [OF ok(1)] by (simp_all add: sizes_ok_def)
  have "int (hash_need t n) \<le> ?nh"
  proof (cases "is_dummy t")
    case True
    with need s(3) show ?thesis by (simp add: node_pairs_def dummynode_def)
  next
    case False
    have "length (node_pairs (t_node t)) \<le> length (t_node t)" by (simp add: node_pairs_def)
    then have "hash_need t n \<le> 2 ^ lsizenode t" using need s(1) by simp
    then have "int (hash_need t n) \<le> int (2 ^ lsizenode t)" by (rule of_nat_mono)
    then show ?thesis using False by simp
  qed
  moreover have "?nh \<le> 2 ^ 26" using s(2) power_increasing [of "lsizenode t" 26 "2::int"] by simp
  ultimately show ?thesis
    using resize_keeps [OF ok n0 n(2), of ?nh g] n(2) by (auto simp: luaH_resizearray_def table_inv_def)
qed


section \<open>The interface of a keyed store\<close>

text \<open>Assignments, one after the other.\<close>

primrec put_list :: "('t \<Rightarrow> 'k \<Rightarrow> 'v \<Rightarrow> 't result) \<Rightarrow> 't \<Rightarrow> ('k \<times> 'v) list \<Rightarrow> 't result" where
  "put_list put t [] = Inr t"
| "put_list put t (p # ps) = bind_result (put t (fst p) (snd p)) (\<lambda>t. put_list put t ps)"

lemma find_snoc: "find P (xs @ [x]) = (case find P xs of Some y \<Rightarrow> Some y | None \<Rightarrow> if P x then Some x else None)"
  by (induction xs) auto

text \<open>
  What the rest of the engine relies on: a value put for a key is found for the same key and no
  other, as long as the store is not full.
\<close>

locale keyed_store =
  fixes inv :: "'t \<Rightarrow> bool" and key_ok :: "'k \<Rightarrow> bool" and same :: "'k \<Rightarrow> 'k \<Rightarrow> bool"
    and get :: "'t \<Rightarrow> 'k \<Rightarrow> 'v" and put :: "'t \<Rightarrow> 'k \<Rightarrow> 'v \<Rightarrow> 't result"
    and entries :: "'t \<Rightarrow> nat" and limit :: nat
  assumes put_law: "inv t \<Longrightarrow> key_ok k \<Longrightarrow> entries t < limit \<Longrightarrow>
      \<exists>t'. put t k v = Inr t' \<and> inv t' \<and> entries t' \<le> entries t + 1
        \<and> (\<forall>k'. key_ok k' \<longrightarrow> get t' k' = (if same k k' then v else get t k'))"
begin

lemma put_list_get:
  "inv t \<Longrightarrow> \<forall>p \<in> set ps. key_ok (fst p) \<Longrightarrow> entries t + length ps \<le> limit \<Longrightarrow>
    \<exists>t'. put_list put t ps = Inr t' \<and> inv t' \<and> entries t' \<le> entries t + length ps
      \<and> (\<forall>k. key_ok k \<longrightarrow> get t' k =
            (case find (\<lambda>p. same (fst p) k) (rev ps) of Some p \<Rightarrow> snd p | None \<Rightarrow> get t k))"
proof (induction ps arbitrary: t)
  case (Cons p ps)
  obtain t1 where t1: "put t (fst p) (snd p) = Inr t1" "inv t1" "entries t1 \<le> entries t + 1"
    "\<forall>k'. key_ok k' \<longrightarrow> get t1 k' = (if same (fst p) k' then snd p else get t k')"
    using put_law [OF Cons.prems(1), of "fst p" "snd p"] Cons.prems(2,3) by auto
  obtain t' where t': "put_list put t1 ps = Inr t'" "inv t'" "entries t' \<le> entries t1 + length ps"
    "\<forall>k. key_ok k \<longrightarrow> get t' k = (case find (\<lambda>p. same (fst p) k) (rev ps) of Some p \<Rightarrow> snd p | None \<Rightarrow> get t1 k)"
    using Cons.IH [OF t1(2)] Cons.prems(2,3) t1(3) by auto
  with t1 t' show ?case by (auto simp: find_snoc split: option.split)
qed simp

end

interpretation lua_table: keyed_store table_inv valid_key luaO_rawequalObj tget "table_put (Suc f)" pair_count "2 ^ 26"
  for f
proof
  fix t k v assume "table_inv t" "valid_key k" "pair_count t < 2 ^ 26"
  with table_put_updates [of t k f v]
  show "\<exists>t'. table_put (Suc f) t k v = Inr t' \<and> table_inv t' \<and> pair_count t' \<le> pair_count t + 1
      \<and> (\<forall>k'. valid_key k' \<longrightarrow> tget t' k' = (if luaO_rawequalObj k k' then v else tget t k'))"
    by (auto simp: updated_def valid_key_def)
qed

section \<open>Properties\<close>

text \<open>A table with an array of one value, for the examples.\<close>

definition small_table :: Table where
  "small_table = \<lparr>flags = 0, lsizenode = 0, metatable = None, t_array = [TBoolean 1], t_node = [dummynode],
     is_dummy = True, lastfree = 0\<rparr>"

lemma small_table_inv: "table_inv small_table" "sizearray small_table = 1" "no_dead_alias small_table"
  "pair_count small_table = 1"
proof -
  have "blank small_table" by (simp add: blank_def small_table_def)
  moreover show "sizearray small_table = 1" by (simp add: sizearray_def small_table_def)
  ultimately show "table_inv small_table" by (simp add: table_inv_def blank_ok)
  show "no_dead_alias small_table" by (simp add: no_dead_alias_def small_table_def dummynode_def)
  show "pair_count small_table = 1"
    by (simp add: pair_count_def pairs_def small_table_def node_pairs_def dummynode_def)
qed

text \<open>
  Claim \<open>C14\<close>: Any sequence of assignments to a table, through every insertion, collision and
  rehash, leaves a table that obeys the invariant and in which looking up a key gives the last
  value assigned to it, or what the table held before.
\<close>

theorem assignments_refine_map:
  assumes "table_inv t" and "\<forall>p \<in> set ps. valid_key (fst p)" and "pair_count t + length ps \<le> 2 ^ 26"
  shows "\<exists>t'. put_list (table_put (Suc f)) t ps = Inr t' \<and> table_inv t'
    \<and> (\<forall>k. valid_key k \<longrightarrow> tget t' k =
          (case find (\<lambda>p. luaO_rawequalObj (fst p) k) (rev ps) of Some p \<Rightarrow> snd p | None \<Rightarrow> tget t k))"
  using lua_table.put_list_get [OF assms, of f] by blast

lemma assignments_refine_map_witness:
  "\<exists>t'. put_list (table_put 1) small_table [(TBoolean 0, TBoolean 1), (TBoolean 0, TNumber 0)] = Inr t'
    \<and> tget t' (TBoolean 0) = TNumber 0"
proof -
  have "valid_key (TBoolean 0)" by (simp add: valid_key_def intact_def)
  with assignments_refine_map [OF small_table_inv(1),
      of "[(TBoolean 0, TBoolean 1), (TBoolean 0, TNumber 0)]" 0]
  show ?thesis by (auto simp: small_table_inv(4))
qed


text \<open>
  Claim \<open>C13\<close>: Storing under a valid key in a table that is not full succeeds with one rehash at
  most: the slot \<open>luaH_set\<close> returns is that of the key, so that storing in it changes the value of
  this key and of no other, and the invariant is kept.
\<close>

theorem luaH_set_updates:
  assumes "table_inv t" and "valid_key k" and "pair_count t < 2 ^ 26"
  shows "\<exists>s t'. luaH_set (grow (Suc f)) t k = Inr (s, t') \<and> (\<forall>v. table_inv (set_slot t' s v)
    \<and> (\<forall>k'. intact k' \<longrightarrow> tget (set_slot t' s v) k' = (if luaO_rawequalObj k k' then v else tget t k')))"
  using luaH_set_stores [OF assms(1,2), of f] assms(3) by (fastforce simp: pair_count_def updated_def)

lemma luaH_set_updates_witness:
  "\<exists>s t'. luaH_set (grow 1) small_table (TBoolean 0) = Inr (s, t') \<and> tget (set_slot t' s (TNumber 0)) (TBoolean 0) = TNumber 0"
proof -
  have "valid_key (TBoolean 0)" "intact (TBoolean 0)" by (simp_all add: valid_key_def intact_def)
  with luaH_set_updates [OF small_table_inv(1), of "TBoolean 0" 0] small_table_inv(4)
  show ?thesis by (fastforce simp: rawequal_refl)
qed

text \<open>
  \<open>luaH_set\<close> refuses nil and NaN as keys, with the message of each, whatever else
  the table holds.
\<close>

lemma luaH_set_refuses:
  assumes "table_inv t" and "is_nan n"
  shows "luaH_set g t TNil = Inl (ErrRun ''table index is nil'')
    \<and> luaH_set g t (TNumber n) = Inl (ErrRun ''table index is NaN'')"
  using assms luaH_set_rejects by (simp add: table_inv_def)

text \<open>
  Claim \<open>C25\<close>: Looking up finds the slot whose key is raw-equal to the given one, if the table has
  one and the nil object otherwise, and there is never a second one; the variant for integers
  finds the same slot.
\<close>

theorem luaH_get_finds:
  assumes "table_inv t" and "intact k" and "INT_MIN \<le> i" and "i \<le> INT_MAX"
  shows "(luaH_get t k = Inr s \<longleftrightarrow> at_slot t k s) \<and> luaH_getnum t i = luaH_get t (TNumber (cast_num i))"
proof

  have ok: "table_ok t" using assms(1) by (simp add: table_inv_def)
  have iff: "luaH_get t k = Inr s \<longleftrightarrow> at_slot t k s" if "intact k" for k s
    using luaH_get_slot [OF ok that] at_slot_unique [OF ok] by auto
  then show "luaH_get t k = Inr s \<longleftrightarrow> at_slot t k s" using assms(2) .
  show "luaH_getnum t i = luaH_get t (TNumber (cast_num i))"
    using luaH_getnum_slot [OF ok assms(3,4)] iff [OF int_key_intact, of i] by metis
qed

lemma luaH_get_finds_witness: "luaH_get small_table (TNumber (cast_num 1)) = Inr (InArray 0)"
proof -
  have "at_slot small_table (TNumber (cast_num 1)) (InArray 0)"
    using arrayindex_cast_num [of 1] by (simp add: at_slot_def small_table_def INT_MIN_def INT_MAX_def)
  then show ?thesis
    using luaH_get_finds [OF small_table_inv(1) int_key_intact, of 0] by (simp add: INT_MIN_def INT_MAX_def)
qed

text \<open>
  A new table has the sizes asked for, obeys the invariant and holds nothing.
\<close>

lemma luaH_new_empty:
  assumes "0 \<le> na" "na \<le> 2 ^ 26" "0 \<le> nh" "nh \<le> 2 ^ 26"
  shows "\<exists>t. luaH_new na nh = Inr t \<and> table_inv t \<and> sizearray t = na \<and> nh \<le> int (cap t)
    \<and> (\<forall>k. intact k \<longrightarrow> tget t k = TNil)"
proof -
  obtain t where t: "luaH_new na nh = Inr t" "table_inv t" "sizearray t = na" "pairs t = []" "nh \<le> int (cap t)"
    using luaH_new_blank [OF assms] by blast
  moreover have "tget t k = TNil" if "intact k" for k
    using pairs_complete [of t k] that t(2,3,4) assms(2) by (auto simp: table_inv_def INT_MAX_def)
  ultimately show ?thesis by blast
qed

text \<open>
  Claim \<open>C21\<close>: A rehash keeps every value, and leaves room for the key it is done for: in the
  array part, or as a free node.
\<close>

theorem rehash_keeps:
  assumes "table_inv t" and "pair_count t < 2 ^ 26"
  shows "\<exists>t'. rehash g t k = Inr t' \<and> table_inv t' \<and> (\<not> array_key t' k \<longrightarrow> used t' < cap t')
    \<and> (\<forall>k'. intact k' \<longrightarrow> tget t' k' = tget t k')"
  using rehash_makes_room [of t g k] assms by (auto simp: table_inv_def pair_count_def)

lemma rehash_keeps_witness: "\<exists>t'. rehash (grow 0) small_table (TBoolean 0) = Inr t' \<and> tget t' (TBoolean 0) = tget small_table (TBoolean 0)"
  using rehash_keeps [OF small_table_inv(1), of "grow 0" "TBoolean 0"] small_table_inv(4) by (auto simp: intact_def)

text \<open>
  Claim \<open>C24\<close>: From the number of candidate keys in each slice, \<open>computesizes\<close> computes the largest
  power of two more than half of whose slots would be used (0 if there is none) and how many
  keys go there, without reading past the end of \<open>nums\<close>.
\<close>

theorem computesizes_optimal:
  assumes "counts nums is" and "\<forall>i \<in> set is. 0 < i \<and> i \<le> 2 ^ 26" and "distinct is"
  shows "\<exists>na n. computesizes nums (int (length is)) = Inr (na, n) \<and> fair_size is na n 27
    \<and> (\<forall>l. n < 2 ^ l \<longrightarrow> 2 * int (length (filter (\<lambda>i. i \<le> 2 ^ l) is)) \<le> 2 ^ l)"
  using computesizes_best [OF assms(1,2)] assms(3)
  by (auto simp: optimal_upto_def upto_pow_def)

lemma computesizes_optimal_witness:
  "\<exists>na n. computesizes ([1, 1, 1, 1] @ replicate 23 0) 4 = Inr (na, n) \<and> fair_size [1, 2, 3, 7] na n 27"
proof -
  have "counts ([1, 1, 1, 1] @ replicate 23 0) [1, 2, 3, 7]" by code_simp
  from computesizes_optimal [OF this] show ?thesis by auto
qed



text \<open>
  Claim \<open>C23\<close>: \<open>luaH_getn\<close> ends, and gives a border of the table: 0 or an index with a value,
  whose successor has none; also where the table is full of holes.
\<close>

theorem luaH_getn_border:
  assumes "table_inv t"
  shows "\<exists>n. luaH_getn t = Inr n \<and> border t n"
  using assms luaH_getn_finds_border by (simp add: table_inv_def)

lemma luaH_getn_border_witness: "\<exists>n. luaH_getn small_table = Inr n \<and> border small_table n"
  by (rule luaH_getn_border [OF small_table_inv(1)])

end
