(* ===== verification/LuaStr2d.thy ===== *)
theory LuaStr2d
  imports LuaNumber
begin

text \<open>
  Text and numbers: the character classes of \<open>ctype.h\<close> in the ``C'' locale, the conversions
  \<open>strtod\<close> and \<open>strtoul\<close> of the C library as \<open>luaO_str2d\<close> (\<open>lobject.c\<close>) uses them, and the
  decimal form of an integer. The decimal point of the current locale is an argument.
\<close>

section \<open>Character classes\<close>

text \<open>The arguments are ints: the code of an unsigned char, or \<open>EOF\<close>, which is in no class.\<close>

definition isdigit :: "int \<Rightarrow> bool" where "isdigit c \<longleftrightarrow> 48 \<le> c \<and> c \<le> 57"
definition islower :: "int \<Rightarrow> bool" where "islower c \<longleftrightarrow> 97 \<le> c \<and> c \<le> 122"
definition isupper :: "int \<Rightarrow> bool" where "isupper c \<longleftrightarrow> 65 \<le> c \<and> c \<le> 90"
definition isalpha :: "int \<Rightarrow> bool" where "isalpha c \<longleftrightarrow> islower c \<or> isupper c"
definition isalnum :: "int \<Rightarrow> bool" where "isalnum c \<longleftrightarrow> isalpha c \<or> isdigit c"
definition isspace :: "int \<Rightarrow> bool" where "isspace c \<longleftrightarrow> c = 32 \<or> 9 \<le> c \<and> c \<le> 13"
definition iscntrl :: "int \<Rightarrow> bool" where "iscntrl c \<longleftrightarrow> 0 \<le> c \<and> c < 32 \<or> c = 127"
definition ispunct :: "int \<Rightarrow> bool" where "ispunct c \<longleftrightarrow> 33 \<le> c \<and> c \<le> 126 \<and> \<not> isalnum c"
definition isxdigit :: "int \<Rightarrow> bool" where
  "isxdigit c \<longleftrightarrow> isdigit c \<or> 97 \<le> c \<and> c \<le> 102 \<or> 65 \<le> c \<and> c \<le> 70"
definition toupper :: "int \<Rightarrow> int" where "toupper c = (if islower c then c - 32 else c)"
definition tolower :: "int \<Rightarrow> int" where "tolower c = (if isupper c then c + 32 else c)"

definition uchar :: "char \<Rightarrow> int" where "uchar c = of_char c"

lemma uchar_bounds: "0 \<le> uchar c" "uchar c < 256"
proof -
  have "uchar c = int (of_char c)" by (simp add: uchar_def of_nat_of_char)
  then show "0 \<le> uchar c" "uchar c < 256" using nat_of_char_less_256 [of c] by linarith+
qed

section \<open>Digits\<close>

definition digit_value :: "char \<Rightarrow> int" where
  "digit_value c =
     (let x = uchar c in if isdigit x then x - 48 else if islower x then x - 87 else x - 55)"

definition digits_value :: "int \<Rightarrow> c_string \<Rightarrow> int" where
  "digits_value b ds = foldl (\<lambda>n c. n * b + digit_value c) 0 ds"

text \<open>The decimal form of an integer (\<open>%d\<close>).\<close>

fun show_nat :: "nat \<Rightarrow> c_string" where
  "show_nat n = (if n < 10 then [char_of (48 + n)] else show_nat (n div 10) @ [char_of (48 + n mod 10)])"

declare show_nat.simps [simp del]

definition show_int :: "int \<Rightarrow> c_string" where
  "show_int k = (if k < 0 then CHR 0x2D # show_nat (nat (- k)) else show_nat (nat k))"

section \<open>\<open>strtod\<close>\<close>

definition span :: "(int \<Rightarrow> bool) \<Rightarrow> c_string \<Rightarrow> c_string \<times> c_string" where
  "span P s = (takeWhile (\<lambda>c. P (uchar c)) s, dropWhile (\<lambda>c. P (uchar c)) s)"

fun strip_sign :: "c_string \<Rightarrow> bool \<times> c_string" where
  "strip_sign (c # s) = (if c = CHR ''-'' then (True, s) else if c = CHR ''+'' then (False, s) else (False, c # s))"
| "strip_sign [] = (False, [])"

text \<open>An exponent is read only if at least one digit follows its letter and sign.\<close>

definition strip_exponent :: "char set \<Rightarrow> c_string \<Rightarrow> int \<times> c_string" where
  "strip_exponent letters s =
     (case s of
        [] \<Rightarrow> (0, s)
      | c # s1 \<Rightarrow>
          if c \<in> letters then
            (case strip_sign s1 of
               (neg, s2) \<Rightarrow>
                 (case span isdigit s2 of
                    (ds, s3) \<Rightarrow>
                      if ds = [] then (0, s)
                      else ((if neg then - digits_value 10 ds else digits_value 10 ds), s3)))
          else (0, s))"

text \<open>The digits before and after the decimal point, and the rest; \<open>None\<close> if there is no digit.\<close>

definition strip_mantissa :: "char \<Rightarrow> (int \<Rightarrow> bool) \<Rightarrow> c_string \<Rightarrow> (c_string \<times> c_string \<times> c_string) option" where
  "strip_mantissa point P s =
     (case span P s of
        (ds, s1) \<Rightarrow>
          (case (case s1 of
                   [] \<Rightarrow> ([], s1)
                 | c # s2 \<Rightarrow> if c = point then span P s2 else ([], s1)) of
             (fs, s3) \<Rightarrow>
               if ds @ fs = [] then None
               else Some (ds, fs, s3)))"

text \<open>\<open>m * b ^ e\<close> with the sign \<open>neg\<close>, correctly rounded.\<close>

definition scaled :: "bool \<Rightarrow> int \<Rightarrow> int \<Rightarrow> int \<Rightarrow> lua_Number" where
  "scaled neg m b e = make_num neg (m * b ^ nat e) (b ^ nat (- e))"

definition lower_string :: "c_string \<Rightarrow> c_string" where
  "lower_string s = map (\<lambda>c. char_of (tolower (uchar c))) s"

definition starts_ci :: "c_string \<Rightarrow> c_string \<Rightarrow> bool" where
  "starts_ci w s \<longleftrightarrow> lower_string (take (length w) s) = w"

fun skip_nan :: "c_string \<Rightarrow> c_string" where
  "skip_nan (c # s) =
     (if c = CHR ''('' then
        case dropWhile (\<lambda>c. isalnum (uchar c) \<or> c = CHR ''_'') s of
          d # t \<Rightarrow> if d = CHR '')'' then t else c # s
        | [] \<Rightarrow> c # s
      else c # s)"
| "skip_nan [] = []"

text \<open>The subject sequence after white space and sign: the value and the rest.\<close>

definition strtod_unsigned :: "char \<Rightarrow> bool \<Rightarrow> c_string \<Rightarrow> (lua_Number \<times> c_string) option" where
  "strtod_unsigned point neg s =
     (case (if starts_ci ''0x'' s then strip_mantissa point isxdigit (drop 2 s) else None) of
        Some (ds, fs, s1) \<Rightarrow>
          (case strip_exponent {CHR ''p'', CHR ''P''} s1 of
             (e, s2) \<Rightarrow> Some (scaled neg (digits_value 16 (ds @ fs)) 2 (e - 4 * int (length fs)), s2))
      | None \<Rightarrow>
          (case strip_mantissa point isdigit s of
             Some (ds, fs, s1) \<Rightarrow>
               (case strip_exponent {CHR ''e'', CHR ''E''} s1 of
                  (e, s2) \<Rightarrow> Some (scaled neg (digits_value 10 (ds @ fs)) 10 (e - int (length fs)), s2))
           | None \<Rightarrow>
               if starts_ci ''infinity'' s then Some (num_inf neg, drop 8 s)
               else if starts_ci ''inf'' s then Some (num_inf neg, drop 3 s)
               else if starts_ci ''nan'' s then Some (num_nan, skip_nan (drop 3 s))
               else None))"

definition strtod :: "char \<Rightarrow> c_string \<Rightarrow> (lua_Number \<times> c_string) option" where
  "strtod point s =
     (case strip_sign (snd (span isspace s)) of (neg, s1) \<Rightarrow> strtod_unsigned point neg s1)"

section \<open>\<open>strtoul\<close>\<close>

text \<open>Base 16; a negated value wraps, one that does not fit becomes the largest.\<close>

definition strtoul16 :: "c_string \<Rightarrow> (int \<times> c_string) option" where
  "strtoul16 s =
     (case strip_sign (snd (span isspace s)) of
        (neg, s1) \<Rightarrow>
          (case span isxdigit (if starts_ci ''0x'' s1 \<and> fst (span isxdigit (drop 2 s1)) \<noteq> [] then drop 2 s1 else s1) of
             (ds, s2) \<Rightarrow>
               if ds = [] then None
               else let v = digits_value 16 ds
                    in Some (if v \<ge> 2 ^ 64 then 2 ^ 64 - 1 else if neg then (- v) mod 2 ^ 64 else v, s2)))"

section \<open>\<open>luaO_str2d\<close>\<close>

text \<open>
  The text is a C string, without its terminator. Where \<open>strtoul\<close> converts nothing it leaves
  \<open>endptr\<close> at the start and returns 0.
\<close>

definition luaO_str2d :: "char \<Rightarrow> c_string \<Rightarrow> lua_Number option" where
  "luaO_str2d point s =
     (case strtod point s of
        None \<Rightarrow> None
      | Some (r, endptr) \<Rightarrow>
          (case (case endptr of
                   c # _ \<Rightarrow>
                     if c = CHR ''x'' \<or> c = CHR ''X'' then
                       (case strtoul16 s of None \<Rightarrow> (0, s) | Some (k, endptr) \<Rightarrow> (cast_num k, endptr))
                     else (r, endptr)
                 | [] \<Rightarrow> (r, endptr)) of
             (r, endptr) \<Rightarrow> if snd (span isspace endptr) = [] then Some r else None))"

section \<open>Properties\<close>

lemma span_all: "\<forall>c \<in> set s. P (uchar c) \<Longrightarrow> span P s = (s, [])"
  by (simp add: span_def takeWhile_eq_all_conv dropWhile_eq_Nil_conv)

lemma uchar_char_of [simp]: "uchar (char_of n) = int (n mod 256)" for n :: nat
  unfolding uchar_def by (metis of_char_of of_nat_of_char)

lemma char_of_uchar [simp]: "char_of (uchar c) = c"
  by (simp add: uchar_def)

lemma uchar_eq [simp]: "uchar c = uchar d \<longleftrightarrow> c = d"
  by (simp add: uchar_def)

lemma digit_value_digit: "d < 10 \<Longrightarrow> digit_value (char_of (48 + d :: nat)) = int d"
  by (simp add: digit_value_def isdigit_def)

lemma digits_value_append: "digits_value b (ds @ [c]) = digits_value b ds * b + digit_value c"
  by (simp add: digits_value_def)

lemma show_nat_digits: "\<forall>c \<in> set (show_nat n). isdigit (uchar c)"
  and show_nat_value: "digits_value 10 (show_nat n) = int n"
  and show_nat_Nil [simp]: "show_nat n \<noteq> []"
proof (induction n rule: show_nat.induct)
  case (1 n)
  have d: "isdigit (uchar (char_of (48 + k :: nat)))" if "k < 10" for k using that by (simp add: isdigit_def)
  { case 1 show ?case using "1.IH" d [of n] d [of "n mod 10"] by (subst show_nat.simps) auto }
  { case 2
    show ?case
    proof (cases "n < 10")
      case True
      then show ?thesis by (subst show_nat.simps) (simp add: digits_value_def digit_value_digit)
    next
      case False
      with "1.IH" have "digits_value 10 (show_nat (n div 10)) = int (n div 10)" by blast
      moreover have "show_nat n = show_nat (n div 10) @ [char_of (48 + n mod 10)]"
        using False by (subst show_nat.simps) simp
      ultimately have "digits_value 10 (show_nat n) = int (n div 10) * 10 + int (n mod 10)"
        using digit_value_digit [of "n mod 10"] by (simp add: digits_value_append)
      also have "\<dots> = int (n div 10 * 10 + n mod 10)" by (simp only: of_nat_add of_nat_mult of_nat_numeral)
      finally show ?thesis by (simp only: div_mult_mod_eq)
    qed }
  { case 3 show ?case by (subst show_nat.simps) simp }
qed


text \<open>
  The decimal form of a natural number reads back, through \<open>luaO_str2d\<close>, as the
  number the C conversion of the integer gives, whatever the decimal point of the locale.
\<close>

lemma str2d_show_nat:
  assumes "\<not> isxdigit (uchar point)"
  shows "luaO_str2d point (show_nat n) = Some (cast_num (int n))"
proof -
  let ?s = "show_nat n"
  obtain c t where ct: "?s = c # t" by (cases ?s) auto
  note dig = show_nat_digits [of n]
  have all: "isdigit (uchar x)" if "x \<in> set ?s" for x using dig that by blast
  have c: "isdigit (uchar c)" using all ct by auto
  have nosp: "span isspace ?s = ([], ?s)" using c by (simp add: span_def ct isdigit_def isspace_def)
  have "uchar c \<noteq> uchar CHR ''-''" "uchar c \<noteq> uchar CHR ''+''" using c by (simp_all add: isdigit_def uchar_def)
  then have sign: "strip_sign ?s = (False, ?s)" by (simp add: ct del: uchar_eq) auto
  have nox: "\<not> starts_ci ''0x'' ?s"
  proof
    assume x: "starts_ci ''0x'' ?s"
    then obtain d u where "t = d # u" "lower_string [c, d] = ''0x''"
      by (cases t) (auto simp: starts_ci_def ct lower_string_def)
    moreover from this have "isdigit (uchar d)" using all ct by auto
    ultimately show False by (auto simp: lower_string_def tolower_def isupper_def isdigit_def uchar_def)
  qed
  have "span isdigit ?s = (?s, [])" using dig by (rule span_all)
  then have mant: "strip_mantissa point isdigit ?s = Some (?s, [], [])" by (simp add: strip_mantissa_def)
  have "strtod point ?s = Some (scaled False (int n) 10 0, [])"
    by (simp add: strtod_def nosp sign strtod_unsigned_def nox mant strip_exponent_def show_nat_value)
  moreover have "scaled False (int n) 10 0 = cast_num (int n)" by (simp add: scaled_def cast_num_def)
  ultimately show ?thesis by (simp add: luaO_str2d_def span_def)
qed

end
