(* ===== verification/LuaLex.thy ===== *)
theory LuaLex
  imports LuaZio LuaStr2d LuaTableSpec
begin

text \<open>
  \<open>llex.c\<close>, the lexical analyser. The state is the C structure: the current character (an int,
  so that it can be \<open>EOZ\<close>), the line counters, the current token and the token looked ahead,
  the input stream, and the buffer. The buffer is kept as the bytes saved so far and its
  allocated size: what lies beyond the saved bytes is never read. \<open>fs_h\<close> is the table of
  constants of the function being compiled, where the strings found are anchored, and
  \<open>locale_point\<close> the answer of \<open>localeconv\<close>. A function that may raise a syntax error returns a
  result; the message carries the chunk name and the line, as in the code.
\<close>

section \<open>Tokens\<close>

definition FIRST_RESERVED :: int where "FIRST_RESERVED = 257"

definition TK_WHILE :: int where "TK_WHILE = 277"
definition TK_CONCAT :: int where "TK_CONCAT = 278"
definition TK_DOTS :: int where "TK_DOTS = 279"
definition TK_EQ :: int where "TK_EQ = 280"
definition TK_GE :: int where "TK_GE = 281"
definition TK_LE :: int where "TK_LE = 282"
definition TK_NE :: int where "TK_NE = 283"
definition TK_NUMBER :: int where "TK_NUMBER = 284"
definition TK_NAME :: int where "TK_NAME = 285"
definition TK_STRING :: int where "TK_STRING = 286"
definition TK_EOS :: int where "TK_EOS = 287"

definition luaX_tokens :: "c_string list" where
  "luaX_tokens =
    [''and'', ''break'', ''do'', ''else'', ''elseif'',
     ''end'', ''false'', ''for'', ''function'', ''if'',
     ''in'', ''local'', ''nil'', ''not'', ''or'', ''repeat'',
     ''return'', ''then'', ''true'', ''until'', ''while'',
     ''..'', ''...'', ''=='', ''>='', ''<='', ''~='',
     ''<number>'', ''<name>'', ''<string>'', ''<eof>'']"

definition NUM_RESERVED :: int where "NUM_RESERVED = TK_WHILE - FIRST_RESERVED + 1"

text \<open>
  \<open>luaX_init\<close> stores in each reserved word its number, from 1; other strings have 0.
\<close>

fun find_index :: "'a \<Rightarrow> 'a list \<Rightarrow> nat option" where
  "find_index x [] = None"
| "find_index x (y # ys) = (if x = y then Some 0 else map_option Suc (find_index x ys))"

definition reserved :: "c_string \<Rightarrow> int" where
  "reserved ts = (case find_index ts (take (nat NUM_RESERVED) luaX_tokens) of None \<Rightarrow> 0 | Some i \<Rightarrow> int i + 1)"

text \<open>The union \<open>SemInfo\<close> with the member that was written.\<close>

datatype SemInfo = SNone | SNumber lua_Number | SString c_string

record Token =
  token :: int
  seminfo :: SemInfo

record LexState =
  current :: int
  linenumber :: int
  lastline :: int
  lex_t :: Token
  lookahead :: Token
  lex_z :: ZIO
  lex_buff :: c_string
  lex_buffsize :: nat
  lex_source :: c_string
  decpoint :: char
  locale_point :: char
  fs_h :: Table

section \<open>Errors\<close>

definition MAXSRC :: nat where "MAXSRC = 80"

definition luaX_token2str :: "int \<Rightarrow> c_string" where
  "luaX_token2str tok =
     (if tok < FIRST_RESERVED then
        (if iscntrl tok then ''char('' @ show_int tok @ '')'' else [char_of tok])
      else luaX_tokens ! nat (tok - FIRST_RESERVED))"

text \<open>\<open>luaX_lexerror\<close> with token 0, which \<open>save\<close> raises, and in general.\<close>

definition lex_where :: "LexState \<Rightarrow> c_string \<Rightarrow> c_string" where
  "lex_where ls msg =
     cstr (luaO_chunkid (lex_source ls) MAXSRC) @ '':'' @ show_int (linenumber ls) @ '': '' @ msg"

definition save :: "int \<Rightarrow> LexState \<Rightarrow> LexState result" where
  "save c ls =
     bind_result
       (if length (lex_buff ls) + 1 > lex_buffsize ls then
          (if lex_buffsize ls \<ge> nat (MAX_SIZET div 2)
           then Inl (ErrSyntax (lex_where ls ''lexical element too long''))
           else Inr (ls\<lparr>lex_buffsize := lex_buffsize ls * 2\<rparr>))
        else Inr ls)
       (\<lambda>ls. if length (lex_buff ls) < lex_buffsize ls then Inr (ls\<lparr>lex_buff := lex_buff ls @ [char_of c]\<rparr>)
             else Inl OutOfBounds)"

definition txtToken :: "LexState \<Rightarrow> int \<Rightarrow> c_string result" where
  "txtToken ls tok =
     (if tok = TK_NAME \<or> tok = TK_STRING \<or> tok = TK_NUMBER then
        bind_result (save 0 ls) (\<lambda>ls. Inr (cstr (lex_buff ls)))
      else Inr (luaX_token2str tok))"

definition luaX_lexerror :: "LexState \<Rightarrow> c_string \<Rightarrow> int \<Rightarrow> 'a result" where
  "luaX_lexerror ls msg tok =
     (let msg = lex_where ls msg
      in if tok \<noteq> 0 then
           bind_result (txtToken ls tok) (\<lambda>s. Inl (ErrSyntax (msg @ '' near '' @ LUA_QL s)))
         else Inl (ErrSyntax msg))"

definition luaX_syntaxerror :: "LexState \<Rightarrow> c_string \<Rightarrow> 'a result" where
  "luaX_syntaxerror ls msg = luaX_lexerror ls msg (token (lex_t ls))"

section \<open>Reading characters\<close>

text \<open>The macro \<open>next\<close>.\<close>

definition next_char :: "LexState \<Rightarrow> LexState result" where
  "next_char ls = bind_result (zgetc (lex_z ls)) (\<lambda>(c, z). Inr (ls\<lparr>current := c, lex_z := z\<rparr>))"

definition save_and_next :: "LexState \<Rightarrow> LexState result" where
  "save_and_next ls = bind_result (save (current ls) ls) next_char"

definition currIsNewline :: "LexState \<Rightarrow> bool" where
  "currIsNewline ls \<longleftrightarrow> current ls = 10 \<or> current ls = 13"

definition luaX_newstring :: "LexState \<Rightarrow> c_string \<Rightarrow> (c_string \<times> LexState) result" where
  "luaX_newstring ls str =
     bind_result (luaH_setstr (grow 2) (fs_h ls) str) (\<lambda>(s, h).
       Inr (str, ls\<lparr>fs_h := (if ttisnil (slot_val h s) then set_slot h s (TBoolean 1) else h)\<rparr>))"

definition inclinenumber :: "LexState \<Rightarrow> LexState result" where
  "inclinenumber ls =
     (let old = current ls
      in bind_result (next_char ls) (\<lambda>ls.
         bind_result (if currIsNewline ls \<and> current ls \<noteq> old then next_char ls else Inr ls) (\<lambda>ls.
           let ls = ls\<lparr>linenumber := linenumber ls + 1\<rparr>
           in if linenumber ls \<ge> MAX_INT then luaX_syntaxerror ls ''chunk has too many lines''
              else Inr ls)))"

definition luaX_setinput :: "ZIO \<Rightarrow> c_string \<Rightarrow> LexState \<Rightarrow> LexState result" where
  "luaX_setinput z src ls =
     next_char (ls\<lparr>decpoint := CHR ''.'', lookahead := (lookahead ls)\<lparr>token := TK_EOS\<rparr>, lex_z := z,
       linenumber := 1, lastline := 1, lex_source := src, lex_buffsize := LUA_MINBUFFER\<rparr>)"

text \<open>\<open>strchr\<close> also finds the zero that ends the set.\<close>

definition strchr_has :: "c_string \<Rightarrow> int \<Rightarrow> bool" where
  "strchr_has st c \<longleftrightarrow> char_of (c mod 256) \<in> set (st @ [CHR 0x00])"

definition check_next :: "LexState \<Rightarrow> c_string \<Rightarrow> (bool \<times> LexState) result" where
  "check_next ls st =
     (if \<not> strchr_has st (current ls) then Inr (False, ls)
      else bind_result (save_and_next ls) (\<lambda>ls. Inr (True, ls)))"

section \<open>Termination\<close>

text \<open>
  What is left to read: every \<open>next\<close> on a character either takes a byte of the input or arrives
  at its end.
\<close>

definition zleft :: "ZIO \<Rightarrow> nat" where
  "zleft z = length (zp z) + length (concat (zdata z))"

definition lex_left :: "LexState \<Rightarrow> nat" where
  "lex_left ls = 2 * zleft (lex_z ls) + (if current ls = EOZ then 0 else 1)"

lemma zgetc_left:
  assumes "zgetc z = Inr (c, z')"
  shows "if c = EOZ then zleft z' = zleft z else zleft z' < zleft z"
  using assms char2int_bounds(3)
  by (auto simp: zgetc_def zleft_def Let_def split: if_splits list.splits)

lemma next_char_left:
  "next_char ls = Inr ls' \<Longrightarrow> current ls \<noteq> EOZ \<Longrightarrow> lex_left ls' < lex_left ls"
  by (auto simp: next_char_def result_simps lex_left_def dest!: zgetc_left split: if_splits)

lemma save_same:
  assumes "save c ls = Inr ls'"
  shows "lex_left ls' = lex_left ls" and "current ls' = current ls" and "linenumber ls' = linenumber ls"
    and "lex_buff ls' = lex_buff ls @ [char_of c]" and "lex_z ls' = lex_z ls" and "fs_h ls' = fs_h ls"
  using assms by (auto simp: save_def lex_left_def split: if_splits)

lemma save_and_next_left:
  "save_and_next ls = Inr ls' \<Longrightarrow> current ls \<noteq> EOZ \<Longrightarrow> lex_left ls' < lex_left ls"
  by (auto simp: save_and_next_def result_simps save_same dest!: next_char_left)

lemma next_char_left_le:
  "next_char ls = Inr ls' \<Longrightarrow> current ls \<noteq> EOZ \<Longrightarrow> lex_left ls' \<le> lex_left ls"
  using next_char_left by fastforce

lemma inclinenumber_left:
  assumes "inclinenumber ls = Inr ls'" and "current ls \<noteq> EOZ"
  shows "lex_left ls' < lex_left ls"
proof -
  obtain ls1 where 1: "next_char ls = Inr ls1"
    "bind_result (if currIsNewline ls1 \<and> current ls1 \<noteq> current ls then next_char ls1 else Inr ls1) (\<lambda>ls.
           let ls = ls\<lparr>linenumber := linenumber ls + 1\<rparr>
           in if linenumber ls \<ge> MAX_INT then luaX_syntaxerror ls ''chunk has too many lines''
              else Inr ls) = Inr ls'"
    using assms(1) by (auto simp: inclinenumber_def result_simps)
  then obtain ls2 where 2: "(if currIsNewline ls1 \<and> current ls1 \<noteq> current ls then next_char ls1 else Inr ls1) = Inr ls2"
    "lex_left ls' = lex_left ls2"
    by (auto simp: result_simps Let_def luaX_syntaxerror_def luaX_lexerror_def lex_left_def split: if_splits)
  have "lex_left ls2 \<le> lex_left ls1"
    using 2(1) next_char_left_le [of ls1 ls2] by (auto simp: currIsNewline_def EOZ_def split: if_splits)
  with 2(2) next_char_left [OF 1(1) assms(2)] show ?thesis by simp
qed


section \<open>Numerals\<close>

definition buffreplace :: "char \<Rightarrow> char \<Rightarrow> LexState \<Rightarrow> LexState" where
  "buffreplace from to ls = ls\<lparr>lex_buff := map (\<lambda>c. if c = from then to else c) (lex_buff ls)\<rparr>"

definition trydecpoint :: "LexState \<Rightarrow> (lua_Number \<times> LexState) result" where
  "trydecpoint ls =
     (let old = decpoint ls;
          ls = ls\<lparr>decpoint := locale_point ls\<rparr>;
          ls = buffreplace old (decpoint ls) ls
      in case luaO_str2d (locale_point ls) (cstr (lex_buff ls)) of
           Some r \<Rightarrow> Inr (r, ls)
         | None \<Rightarrow> luaX_lexerror (buffreplace (decpoint ls) CHR ''.'' ls) ''malformed number'' TK_NUMBER)"

text \<open>The loops \<open>while (P(ls->current)) save_and_next(ls)\<close>; \<open>P\<close> is never true of \<open>EOZ\<close>.\<close>

function save_while :: "(int \<Rightarrow> bool) \<Rightarrow> LexState \<Rightarrow> LexState result" where
  "save_while P ls =
     (if P (current ls) \<and> current ls \<noteq> EOZ then bind_result (save_and_next ls) (save_while P) else Inr ls)"
  by pat_completeness auto
termination save_while
  by (relation "measure (\<lambda>(P, ls). lex_left ls)") (auto dest: save_and_next_left)

declare save_while.simps [simp del]

definition read_numeral :: "LexState \<Rightarrow> (lua_Number \<times> LexState) result" where
  "read_numeral ls =
     bind_result (save_and_next ls) (\<lambda>ls.
     bind_result (save_while (\<lambda>c. isdigit c \<or> c = uchar CHR ''.'') ls) (\<lambda>ls.
     bind_result (check_next ls ''Ee'') (\<lambda>(e, ls).
     bind_result (if e then check_next ls ''+-'' else Inr (False, ls)) (\<lambda>(_, ls).
     bind_result (save_while (\<lambda>c. isalnum c \<or> c = uchar CHR ''_'') ls) (\<lambda>ls.
     bind_result (save 0 ls) (\<lambda>ls.
       let ls = buffreplace CHR ''.'' (decpoint ls) ls
       in case luaO_str2d (locale_point ls) (cstr (lex_buff ls)) of
            Some r \<Rightarrow> Inr (r, ls)
          | None \<Rightarrow> trydecpoint ls))))))"

section \<open>Long strings\<close>

text \<open>The number of saved \<open>=\<close> is the growth of the buffer.\<close>

definition skip_sep :: "LexState \<Rightarrow> (int \<times> LexState) result" where
  "skip_sep ls =
     (let s = current ls
      in bind_result (save_and_next ls) (\<lambda>ls.
         bind_result (save_while (\<lambda>c. c = uchar CHR ''='') ls) (\<lambda>ls'.
           let count = int (length (lex_buff ls')) - int (length (lex_buff ls))
           in Inr (if current ls' = s then count else - count - 1, ls'))))"

text \<open>
  \<open>seminfo\<close> tells whether the string is wanted or skipped as a comment. The nesting of
  brackets is what \<open>LUA_COMPAT_LSTR = 1\<close> makes of it: an error at level 0.
\<close>

lemma save_while_left: "save_while P ls = Inr ls' \<Longrightarrow> lex_left ls' \<le> lex_left ls"
proof (induction P ls rule: save_while.induct)
  case (1 P ls)
  show ?case
  proof (cases "P (current ls) \<and> current ls \<noteq> EOZ")
    case True
    with "1.prems" obtain ls1 where n: "save_and_next ls = Inr ls1" "save_while P ls1 = Inr ls'"
      by (subst (asm) save_while.simps) (auto simp: result_simps)
    from "1.IH" [OF True n(1) n(2)] save_and_next_left [OF n(1)] True show ?thesis by simp
  next
    case False
    with "1.prems" show ?thesis by (subst (asm) save_while.simps) auto
  qed
qed

lemma skip_sep_left:
  assumes "skip_sep ls = Inr (n, ls')" and "current ls \<noteq> EOZ"
  shows "lex_left ls' < lex_left ls"
proof -
  from assms(1) obtain ls1 where 1: "save_and_next ls = Inr ls1" and 2: "save_while (\<lambda>c. c = uchar CHR ''='') ls1 = Inr ls'"
    by (auto simp: skip_sep_def result_simps Let_def)
  from save_and_next_left [OF 1 assms(2)] save_while_left [OF 2] show ?thesis by simp
qed

lemma next_char_buff: "next_char ls = Inr ls' \<Longrightarrow> lex_buff ls' = lex_buff ls"
  by (auto simp: next_char_def result_simps)

lemma save_and_next_buff: "save_and_next ls = Inr ls' \<Longrightarrow> lex_buff ls' = lex_buff ls @ [char_of (current ls)]"
  by (auto simp: save_and_next_def result_simps save_same dest: next_char_buff)

lemma save_while_buff: "save_while P ls = Inr ls' \<Longrightarrow> length (lex_buff ls) \<le> length (lex_buff ls')"
proof (induction P ls rule: save_while.induct)
  case (1 P ls)
  show ?case
  proof (cases "P (current ls) \<and> current ls \<noteq> EOZ")
    case True
    with "1.prems" obtain ls1 where n: "save_and_next ls = Inr ls1" "save_while P ls1 = Inr ls'"
      by (subst (asm) save_while.simps) (auto simp: result_simps)
    from "1.IH" [OF True n(1) n(2)] save_and_next_buff [OF n(1)] show ?thesis by simp
  next
    case False
    with "1.prems" show ?thesis by (subst (asm) save_while.simps) auto
  qed
qed

lemma skip_sep_current:
  assumes "skip_sep ls = Inr (n, ls')" and "0 \<le> n"
  shows "current ls' = current ls"
proof -
  obtain ls1 where 1: "save_while (\<lambda>c. c = uchar CHR ''='') ls1 = Inr ls'"
    and n: "n = (let count = int (length (lex_buff ls')) - int (length (lex_buff ls1))
                in if current ls' = current ls then count else - count - 1)"
    using assms(1) by (auto simp: skip_sep_def result_simps Let_def)
  from save_while_buff [OF 1] n assms(2) show ?thesis by (simp add: Let_def split: if_splits)
qed

lemma lex_left_buff [simp]: "lex_left (ls\<lparr>lex_buff := b\<rparr>) = lex_left ls"
  by (simp add: lex_left_def)

text \<open>The level \<open>sep\<close> is never negative (the second condition only tells the model so).\<close>

function long_string_loop :: "bool \<Rightarrow> int \<Rightarrow> LexState \<Rightarrow> LexState result" where
  "long_string_loop want sep ls =
     (if current ls = EOZ then
        luaX_lexerror ls (if want then ''unfinished long string'' else ''unfinished long comment'') TK_EOS
      else if current ls = uchar CHR ''['' then
        bind_result (skip_sep ls) (\<lambda>(n, ls).
          if n = sep \<and> 0 \<le> n then
            bind_result (save_and_next ls) (\<lambda>ls.
              if sep = 0 then luaX_lexerror ls ''nesting of [[...]] is deprecated'' (uchar CHR ''['')
              else long_string_loop want sep ls)
          else long_string_loop want sep ls)
      else if current ls = uchar CHR '']'' then
        bind_result (skip_sep ls) (\<lambda>(n, ls).
          if n = sep \<and> 0 \<le> n then save_and_next ls else long_string_loop want sep ls)
      else if currIsNewline ls then
        bind_result (save 10 ls) (\<lambda>ls.
        bind_result (inclinenumber ls) (\<lambda>ls.
          long_string_loop want sep (if want then ls else ls\<lparr>lex_buff := []\<rparr>)))
      else bind_result (if want then save_and_next ls else next_char ls) (long_string_loop want sep))"
  by pat_completeness auto
termination long_string_loop
proof (relation "measure (\<lambda>(want, sep, ls). lex_left ls)")
  fix want :: bool and sep n :: int and ls ls1 ls2 ls3 :: LexState and p
  show "wf (measure (\<lambda>(want, sep, ls). lex_left ls))" by simp
  {
    assume c: "current ls \<noteq> EOZ" and s: "skip_sep ls = Inr p" "(n, ls1) = p"
    have l: "lex_left ls1 < lex_left ls" using skip_sep_left [of ls n ls1] s c by simp
    then show "((want, sep, ls1), (want, sep, ls)) \<in> measure (\<lambda>(want, sep, ls). lex_left ls)"
      and "((want, sep, ls1), (want, sep, ls)) \<in> measure (\<lambda>(want, sep, ls). lex_left ls)" by simp_all
    assume "n = sep \<and> 0 \<le> n" and x: "save_and_next ls1 = Inr ls2"
    then have "current ls1 = current ls" using skip_sep_current [of ls n ls1] s by simp
    with l save_and_next_left [OF x] c
    show "((want, sep, ls2), (want, sep, ls)) \<in> measure (\<lambda>(want, sep, ls). lex_left ls)" by simp
  next
    assume c: "current ls \<noteq> EOZ" and s: "save 10 ls = Inr ls1" and i: "inclinenumber ls1 = Inr ls2"
    have "lex_left ls2 < lex_left ls" using inclinenumber_left [OF i] c save_same [OF s] by simp
    then show "((want, sep, if want then ls2 else ls2\<lparr>lex_buff := []\<rparr>), (want, sep, ls))
        \<in> measure (\<lambda>(want, sep, ls). lex_left ls)" by simp
  next
    assume c: "current ls \<noteq> EOZ" and s: "(if want then save_and_next ls else next_char ls) = Inr ls1"
    then have "lex_left ls1 < lex_left ls" by (cases want) (simp_all add: save_and_next_left next_char_left)
    then show "((want, sep, ls1), (want, sep, ls)) \<in> measure (\<lambda>(want, sep, ls). lex_left ls)" by simp
  }
qed


text \<open>A string taken from the buffer: \<open>from\<close> bytes are left out at both ends.\<close>

definition buff_string :: "nat \<Rightarrow> LexState \<Rightarrow> (SemInfo \<times> LexState) result" where
  "buff_string from ls =
     (if length (lex_buff ls) < 2 * from then Inl OutOfBounds
      else bind_result (luaX_newstring ls (take (length (lex_buff ls) - 2 * from) (drop from (lex_buff ls))))
             (\<lambda>(ts, ls). Inr (SString ts, ls)))"

definition read_long_string :: "bool \<Rightarrow> int \<Rightarrow> LexState \<Rightarrow> (SemInfo \<times> LexState) result" where
  "read_long_string want sep ls =
     bind_result (save_and_next ls) (\<lambda>ls.
     bind_result (if currIsNewline ls then inclinenumber ls else Inr ls) (\<lambda>ls.
     bind_result (long_string_loop want sep ls) (\<lambda>ls.
       if want then buff_string (nat (2 + sep)) ls else Inr (SNone, ls))))"

section \<open>Strings\<close>

definition escapes :: "(char \<times> int) list" where
  "escapes = [(CHR ''a'', 7), (CHR ''b'', 8), (CHR ''f'', 12), (CHR ''n'', 10), (CHR ''r'', 13),
     (CHR ''t'', 9), (CHR ''v'', 11)]"

definition escape_char :: "int \<Rightarrow> int option" where
  "escape_char c = map_of (map (\<lambda>(x, v). (uchar x, v)) escapes) c"

text \<open>Up to \<open>k\<close> decimal digits, of which there is at least one.\<close>

fun decimal_escape :: "nat \<Rightarrow> int \<Rightarrow> LexState \<Rightarrow> (int \<times> LexState) result" where
  "decimal_escape 0 c ls = Inr (c, ls)"
| "decimal_escape (Suc k) c ls =
     (let c = 10 * c + (current ls - uchar CHR ''0'')
      in bind_result (next_char ls) (\<lambda>ls.
           if isdigit (current ls) then decimal_escape k c ls else Inr (c, ls)))"

lemma isdigit_not_EOZ: "isdigit c \<Longrightarrow> c \<noteq> EOZ"
  by (simp add: isdigit_def EOZ_def)

lemma decimal_escape_left:
  "decimal_escape k c ls = Inr (c', ls') \<Longrightarrow> isdigit (current ls) \<Longrightarrow> lex_left ls' \<le> lex_left ls"
proof (induction k c ls rule: decimal_escape.induct)
  case (2 k c ls)
  obtain ls1 where n: "next_char ls = Inr ls1"
    "(if isdigit (current ls1) then decimal_escape k (10 * c + (current ls - uchar CHR ''0'')) ls1
      else Inr (10 * c + (current ls - uchar CHR ''0''), ls1)) = Inr (c', ls')"
    using "2.prems"(1) by (auto simp: result_simps Let_def)
  have "lex_left ls1 < lex_left ls" using next_char_left [OF n(1)] isdigit_not_EOZ [OF "2.prems"(2)] .
  then show ?case using n "2.IH" [OF refl n(1)] by (auto split: if_splits)
qed simp

text \<open>What a backslash introduces, from the backslash on.\<close>

definition read_escape :: "LexState \<Rightarrow> LexState result" where
  "read_escape ls =
     bind_result (next_char ls) (\<lambda>ls.
       case escape_char (current ls) of
         Some c \<Rightarrow> bind_result (save c ls) next_char
       | None \<Rightarrow>
           if currIsNewline ls then bind_result (save 10 ls) inclinenumber
           else if current ls = EOZ then Inr ls
           else if \<not> isdigit (current ls) then save_and_next ls
           else bind_result (decimal_escape 3 0 ls) (\<lambda>(c, ls).
                  if c > 255 then luaX_lexerror ls ''escape sequence too large'' TK_STRING
                  else save c ls))"

lemma lexerror_Inr [simp]: "luaX_lexerror ls msg tok \<noteq> Inr x" "luaX_syntaxerror ls msg \<noteq> Inr x"
  by (auto simp: luaX_lexerror_def luaX_syntaxerror_def result_simps Let_def)

lemma newline_not_EOZ: "currIsNewline ls \<Longrightarrow> current ls \<noteq> EOZ"
  by (auto simp: currIsNewline_def EOZ_def)

lemma escape_not_EOZ: "escape_char (current ls) = Some c \<Longrightarrow> current ls \<noteq> EOZ"
  by (auto simp: escape_char_def escapes_def EOZ_def uchar_def)

lemma read_escape_left:
  assumes "read_escape ls = Inr ls'" and "current ls \<noteq> EOZ"
  shows "lex_left ls' < lex_left ls"
proof -
  obtain ls1 where 1: "next_char ls = Inr ls1" using assms(1) by (auto simp: read_escape_def result_simps)
  have "lex_left ls' \<le> lex_left ls1"
  proof (cases "escape_char (current ls1)")
    case (Some c)
    with assms(1) 1 obtain ls2 where "save c ls1 = Inr ls2" "next_char ls2 = Inr ls'"
      by (auto simp: read_escape_def result_simps)
    with next_char_left_le [of ls2 ls'] save_same(1,2) [of c ls1 ls2] escape_not_EOZ [OF Some] show ?thesis by simp
  next
    case None
    have nl: "lex_left ls' \<le> lex_left ls1" if "currIsNewline ls1" "save 10 ls1 = Inr ls2" "inclinenumber ls2 = Inr ls'" for ls2
      using inclinenumber_left [OF that(3)] save_same(1,2) [OF that(2)] newline_not_EOZ [OF that(1)] by simp
    have sn: "lex_left ls' \<le> lex_left ls1" if "current ls1 \<noteq> EOZ" "save_and_next ls1 = Inr ls'"
      using save_and_next_left [OF that(2,1)] by simp
    have dec: "lex_left ls' \<le> lex_left ls1"
      if "isdigit (current ls1)" "decimal_escape 3 0 ls1 = Inr (c, ls2)" "save c ls2 = Inr ls'" for c ls2
      using decimal_escape_left [OF that(2,1)] save_same(1) [OF that(3)] by simp
    show ?thesis
      using assms(1) 1 None nl sn dec by (auto simp: read_escape_def result_simps split: if_splits)
  qed
  with next_char_left [OF 1 assms(2)] show ?thesis by simp
qed

function read_string_loop :: "int \<Rightarrow> LexState \<Rightarrow> LexState result" where
  "read_string_loop del ls =
     (if current ls = del then Inr ls
      else if current ls = EOZ then luaX_lexerror ls ''unfinished string'' TK_EOS
      else if currIsNewline ls then luaX_lexerror ls ''unfinished string'' TK_STRING
      else if current ls = uchar CHR 0x5C then bind_result (read_escape ls) (read_string_loop del)
      else bind_result (save_and_next ls) (read_string_loop del))"
  by pat_completeness auto
termination read_string_loop
  by (relation "measure (\<lambda>(del, ls). lex_left ls)") (auto dest: read_escape_left save_and_next_left)

declare read_string_loop.simps [simp del] long_string_loop.simps [simp del]

definition read_string :: "int \<Rightarrow> LexState \<Rightarrow> (SemInfo \<times> LexState) result" where
  "read_string del ls =
     bind_result (save_and_next ls) (\<lambda>ls.
     bind_result (read_string_loop del ls) (\<lambda>ls.
     bind_result (save_and_next ls) (\<lambda>ls. buff_string 1 ls)))"


section \<open>The lexer\<close>

function skip_line :: "LexState \<Rightarrow> LexState result" where
  "skip_line ls =
     (if \<not> currIsNewline ls \<and> current ls \<noteq> EOZ then bind_result (next_char ls) skip_line else Inr ls)"
  by pat_completeness auto
termination skip_line
  by (relation "measure lex_left") (auto dest: next_char_left)

declare skip_line.simps [simp del]

lemma skip_line_left: "skip_line ls = Inr ls' \<Longrightarrow> lex_left ls' \<le> lex_left ls"
proof (induction ls rule: skip_line.induct)
  case (1 ls)
  show ?case
  proof (cases "\<not> currIsNewline ls \<and> current ls \<noteq> EOZ")
    case True
    with "1.prems" obtain ls1 where n: "next_char ls = Inr ls1" "skip_line ls1 = Inr ls'"
      by (subst (asm) skip_line.simps) (auto simp: result_simps)
    from "1.IH" [OF True n] next_char_left [OF n(1)] True show ?thesis by simp
  next
    case False
    with "1.prems" show ?thesis by (subst (asm) skip_line.simps) auto
  qed
qed

lemma long_string_left: "long_string_loop want sep ls = Inr ls' \<Longrightarrow> lex_left ls' \<le> lex_left ls"
proof (induction want sep ls rule: long_string_loop.induct)
  case (1 want sep ls)
  note p = "1.prems" and IH = "1.IH"
  have ne: "current ls \<noteq> EOZ" using p by (subst (asm) long_string_loop.simps) (auto split: if_splits)
  consider (lb) "current ls = uchar CHR ''[''" | (rb) "current ls \<noteq> uchar CHR ''[''" "current ls = uchar CHR '']''"
    | (line) "current ls \<noteq> uchar CHR ''[''" "current ls \<noteq> uchar CHR '']''" "currIsNewline ls"
    | (char) "current ls \<noteq> uchar CHR ''[''" "current ls \<noteq> uchar CHR '']''" "\<not> currIsNewline ls" by blast
  then show ?case
  proof cases
    case lb
    with p ne obtain n ls1 where 1: "skip_sep ls = Inr (n, ls1)"
      by (subst (asm) long_string_loop.simps) (auto simp: result_simps)
    note l = skip_sep_left [OF 1 ne]
    show ?thesis
    proof (cases "n = sep \<and> 0 \<le> n")
      case True
      with p ne lb 1 obtain ls2 where 2: "save_and_next ls1 = Inr ls2" "long_string_loop want sep ls2 = Inr ls'" "sep \<noteq> 0"
        by (subst (asm) long_string_loop.simps) (auto simp: result_simps split: if_splits)
      have "current ls1 \<noteq> EOZ" using skip_sep_current [OF 1] True ne by simp
      from save_and_next_left [OF 2(1) this] IH(1) [OF ne lb 1 refl True 2(1,3,2)] l show ?thesis by simp
    next
      case False
      with p ne lb 1 have 2: "long_string_loop want sep ls1 = Inr ls'"
        by (subst (asm) long_string_loop.simps) (auto simp: result_simps split: if_splits)
      from IH(2) [OF ne lb 1 refl False 2] l show ?thesis by simp
    qed
  next
    case rb
    with p ne obtain n ls1 where 1: "skip_sep ls = Inr (n, ls1)"
      by (subst (asm) long_string_loop.simps) (auto simp: result_simps)
    note l = skip_sep_left [OF 1 ne]
    show ?thesis
    proof (cases "n = sep \<and> 0 \<le> n")
      case True
      with p ne rb 1 have 2: "save_and_next ls1 = Inr ls'"
        by (subst (asm) long_string_loop.simps) (auto simp: result_simps split: if_splits)
      have "current ls1 \<noteq> EOZ" using skip_sep_current [OF 1] True ne by simp
      from save_and_next_left [OF 2 this] l show ?thesis by simp
    next
      case False
      with p ne rb 1 have 2: "long_string_loop want sep ls1 = Inr ls'"
        by (subst (asm) long_string_loop.simps) (auto simp: result_simps split: if_splits)
      from IH(3) [OF ne rb 1 refl False 2] l show ?thesis by simp
    qed
  next
    case line
    with p ne obtain ls1 ls2 where 1: "save 10 ls = Inr ls1" "inclinenumber ls1 = Inr ls2"
      "long_string_loop want sep (if want then ls2 else ls2\<lparr>lex_buff := []\<rparr>) = Inr ls'"
      by (subst (asm) long_string_loop.simps) (auto simp: result_simps)
    have "current ls1 \<noteq> EOZ" using save_same(2) [OF 1(1)] ne by simp
    from inclinenumber_left [OF 1(2) this] save_same(1) [OF 1(1)] IH(4) [OF ne line 1] show ?thesis
      by (auto split: if_splits)
  next
    case char
    with p ne obtain ls1 where 1: "(if want then save_and_next ls else next_char ls) = Inr ls1"
      "long_string_loop want sep ls1 = Inr ls'"
      by (subst (asm) long_string_loop.simps) (auto simp: result_simps)
    then have "lex_left ls1 < lex_left ls" using ne by (cases want) (simp_all add: save_and_next_left next_char_left)
    with IH(5) [OF ne char 1] show ?thesis by simp
  qed
qed

lemma newstring_left: "luaX_newstring ls str = Inr (ts, ls') \<Longrightarrow> lex_left ls' = lex_left ls"
  by (auto simp: luaX_newstring_def result_simps lex_left_def)

lemma buff_string_left: "buff_string n ls = Inr (x, ls') \<Longrightarrow> lex_left ls' = lex_left ls"
  by (auto simp: buff_string_def result_simps dest: newstring_left split: if_splits)

lemma read_long_string_left:
  assumes "read_long_string want sep ls = Inr (x, ls')" and "current ls \<noteq> EOZ"
  shows "lex_left ls' < lex_left ls"
proof -
  obtain ls1 ls2 ls3 where 1: "save_and_next ls = Inr ls1"
    and 2: "(if currIsNewline ls1 then inclinenumber ls1 else Inr ls1) = Inr ls2"
    and 3: "long_string_loop want sep ls2 = Inr ls3"
    and 4: "(if want then buff_string (nat (2 + sep)) ls3 else Inr (SNone, ls3)) = Inr (x, ls')"
    using assms(1) by (auto simp: read_long_string_def result_simps)
  have "lex_left ls2 \<le> lex_left ls1"
    using 2 inclinenumber_left [of ls1 ls2] by (auto simp: currIsNewline_def EOZ_def split: if_splits)
  moreover have "lex_left ls' = lex_left ls3" using 4 by (auto dest: buff_string_left split: if_splits)
  ultimately show ?thesis using save_and_next_left [OF 1 assms(2)] long_string_left [OF 3] by simp
qed

text \<open>The part of the loop of \<open>llex\<close> that reads a token at the current character.\<close>

definition compound :: "LexState \<Rightarrow> char \<Rightarrow> int \<Rightarrow> SemInfo \<Rightarrow> (int \<times> SemInfo \<times> LexState) result" where
  "compound ls c tk sem =
     bind_result (next_char ls) (\<lambda>ls.
       if current ls \<noteq> uchar CHR ''='' then Inr (uchar c, sem, ls)
       else bind_result (next_char ls) (\<lambda>ls. Inr (tk, sem, ls)))"

definition numeral_token :: "LexState \<Rightarrow> (int \<times> SemInfo \<times> LexState) result" where
  "numeral_token ls = bind_result (read_numeral ls) (\<lambda>(r, ls). Inr (TK_NUMBER, SNumber r, ls))"

definition name_token :: "LexState \<Rightarrow> SemInfo \<Rightarrow> (int \<times> SemInfo \<times> LexState) result" where
  "name_token ls sem =
     bind_result (save_and_next ls) (\<lambda>ls.
     bind_result (save_while (\<lambda>c. isalnum c \<or> c = uchar CHR ''_'') ls) (\<lambda>ls.
     bind_result (luaX_newstring ls (lex_buff ls)) (\<lambda>(ts, ls).
       if reserved ts > 0 then Inr (reserved ts - 1 + FIRST_RESERVED, sem, ls)
       else Inr (TK_NAME, SString ts, ls))))"

definition dots_token :: "LexState \<Rightarrow> SemInfo \<Rightarrow> (int \<times> SemInfo \<times> LexState) result" where
  "dots_token ls sem =
     bind_result (save_and_next ls) (\<lambda>ls.
     bind_result (check_next ls ''.'') (\<lambda>(dot, ls).
       if dot then
         bind_result (check_next ls ''.'') (\<lambda>(dot, ls). Inr (if dot then TK_DOTS else TK_CONCAT, sem, ls))
       else if \<not> isdigit (current ls) then Inr (uchar CHR ''.'', sem, ls)
       else numeral_token ls))"

text \<open>
  The tokens that do not start with white space or a dash; \<open>sem\<close> is the semantic value there was
  before, which only some tokens replace.
\<close>

definition token_at :: "LexState \<Rightarrow> SemInfo \<Rightarrow> (int \<times> SemInfo \<times> LexState) result" where
  "token_at ls sem =
     (let c = current ls
      in if c = uchar CHR ''['' then
           bind_result (skip_sep ls) (\<lambda>(sep, ls).
             if sep \<ge> 0 then bind_result (read_long_string True sep ls) (\<lambda>(s, ls). Inr (TK_STRING, s, ls))
             else if sep = - 1 then Inr (uchar CHR ''['', sem, ls)
             else luaX_lexerror ls ''invalid long string delimiter'' TK_STRING)
         else if c = uchar CHR ''='' then compound ls CHR ''='' TK_EQ sem
         else if c = uchar CHR ''<'' then compound ls CHR ''<'' TK_LE sem
         else if c = uchar CHR ''>'' then compound ls CHR ''>'' TK_GE sem
         else if c = uchar CHR ''~'' then compound ls CHR ''~'' TK_NE sem
         else if c = uchar CHR 0x22 \<or> c = uchar CHR 0x27 then
           bind_result (read_string c ls) (\<lambda>(s, ls). Inr (TK_STRING, s, ls))
         else if c = uchar CHR ''.'' then dots_token ls sem
         else if c = EOZ then Inr (TK_EOS, sem, ls)
         else if isdigit c then numeral_token ls
         else if isalpha c \<or> c = uchar CHR ''_'' then name_token ls sem
         else bind_result (next_char ls) (\<lambda>ls. Inr (c, sem, ls)))"

text \<open>A comment, from its second dash on; one that starts with a bracket may still be short.\<close>

definition skip_comment :: "LexState \<Rightarrow> LexState result" where
  "skip_comment ls =
     bind_result (next_char ls) (\<lambda>ls.
       if current ls = uchar CHR ''['' then
         bind_result (skip_sep ls) (\<lambda>(sep, ls).
           let ls = ls\<lparr>lex_buff := []\<rparr>
           in if sep \<ge> 0 then
                bind_result (read_long_string False sep ls) (\<lambda>(_, ls). Inr (ls\<lparr>lex_buff := []\<rparr>))
              else skip_line ls)
       else skip_line ls)"

lemma skip_comment_left:
  assumes "skip_comment ls = Inr ls'" and "current ls \<noteq> EOZ"
  shows "lex_left ls' < lex_left ls"
proof -
  obtain ls1 where 1: "next_char ls = Inr ls1" using assms(1) by (auto simp: skip_comment_def result_simps)
  have lb: "lex_left ls' \<le> lex_left ls1"
    if b: "current ls1 = uchar CHR ''[''" and s: "skip_sep ls1 = Inr (sep, ls2)" for sep ls2
  proof -
    have ne: "current ls1 \<noteq> EOZ" using b by (simp add: uchar_def EOZ_def)
    note l = skip_sep_left [OF s ne]
    show ?thesis
    proof (cases "0 \<le> sep")
      case True
      with assms(1) 1 b s obtain x ls3 where r: "read_long_string False sep (ls2\<lparr>lex_buff := []\<rparr>) = Inr (x, ls3)"
        "ls' = ls3\<lparr>lex_buff := []\<rparr>" by (auto simp: skip_comment_def result_simps Let_def)
      have "current (ls2\<lparr>lex_buff := []\<rparr>) \<noteq> EOZ" using skip_sep_current [OF s True] ne by simp
      from read_long_string_left [OF r(1) this] r(2) l show ?thesis by simp
    next
      case False
      with assms(1) 1 b s have "skip_line (ls2\<lparr>lex_buff := []\<rparr>) = Inr ls'"
        by (auto simp: skip_comment_def result_simps Let_def)
      from skip_line_left [OF this] l show ?thesis by simp
    qed
  qed
  have "lex_left ls' \<le> lex_left ls1"
  proof (cases "current ls1 = uchar CHR ''[''")
    case True
    with assms(1) 1 obtain sep ls2 where "skip_sep ls1 = Inr (sep, ls2)"
      by (auto simp: skip_comment_def result_simps)
    from lb [OF True this] show ?thesis .
  next
    case False
    with assms(1) 1 have "skip_line ls1 = Inr ls'" by (auto simp: skip_comment_def)
    then show ?thesis by (rule skip_line_left)
  qed
  with next_char_left [OF 1 assms(2)] show ?thesis by simp
qed

function llex_loop :: "LexState \<Rightarrow> SemInfo \<Rightarrow> (int \<times> SemInfo \<times> LexState) result" where
  "llex_loop ls sem =
     (if currIsNewline ls then bind_result (inclinenumber ls) (\<lambda>ls. llex_loop ls sem)
      else if current ls = uchar CHR ''-'' then
        bind_result (next_char ls) (\<lambda>ls.
          if current ls \<noteq> uchar CHR ''-'' then Inr (uchar CHR ''-'', sem, ls)
          else bind_result (skip_comment ls) (\<lambda>ls. llex_loop ls sem))
      else if isspace (current ls) then bind_result (next_char ls) (\<lambda>ls. llex_loop ls sem)
      else token_at ls sem)"
  by pat_completeness auto
termination llex_loop
proof (relation "measure (\<lambda>(ls, sem). lex_left ls)")
  fix ls ls1 ls2 :: LexState and sem :: SemInfo
  let ?R = "measure (\<lambda>(ls, sem). lex_left ls) :: ((LexState \<times> SemInfo) \<times> (LexState \<times> SemInfo)) set"
  show "wf ?R" by simp
  show "((ls1, sem), (ls, sem)) \<in> ?R" if "currIsNewline ls" "inclinenumber ls = Inr ls1"
    using inclinenumber_left [OF that(2) newline_not_EOZ [OF that(1)]] by simp
  show "((ls1, sem), (ls, sem)) \<in> ?R" if "isspace (current ls)" "next_char ls = Inr ls1"
    using that next_char_left [of ls ls1] by (auto simp: isspace_def EOZ_def)
  show "((ls2, sem), (ls, sem)) \<in> ?R"
    if "current ls = uchar CHR ''-''" "next_char ls = Inr ls1" "\<not> current ls1 \<noteq> uchar CHR ''-''" "skip_comment ls1 = Inr ls2"
  proof -
    have "uchar CHR ''-'' \<noteq> EOZ" by (simp add: uchar_def EOZ_def)
    with that next_char_left [OF that(2)] skip_comment_left [OF that(4)] show ?thesis by simp
  qed
qed

declare llex_loop.simps [simp del]

definition llex :: "LexState \<Rightarrow> SemInfo \<Rightarrow> (int \<times> SemInfo \<times> LexState) result" where
  "llex ls sem = llex_loop (ls\<lparr>lex_buff := []\<rparr>) sem"

definition luaX_next :: "LexState \<Rightarrow> LexState result" where
  "luaX_next ls =
     (let ls = ls\<lparr>lastline := linenumber ls\<rparr>
      in if token (lookahead ls) \<noteq> TK_EOS then
           Inr (ls\<lparr>lex_t := lookahead ls, lookahead := (lookahead ls)\<lparr>token := TK_EOS\<rparr>\<rparr>)
         else bind_result (llex ls (seminfo (lex_t ls))) (\<lambda>(tk, sem, ls).
                Inr (ls\<lparr>lex_t := \<lparr>token = tk, seminfo = sem\<rparr>\<rparr>)))"

definition luaX_lookahead :: "LexState \<Rightarrow> LexState result" where
  "luaX_lookahead ls =
     bind_result (llex ls (seminfo (lookahead ls))) (\<lambda>(tk, sem, ls).
       Inr (ls\<lparr>lookahead := \<lparr>token = tk, seminfo = sem\<rparr>\<rparr>))"

end
