(* ===== verification/LuaLexSpec.thy ===== *)
theory LuaLexSpec
  imports LuaLex
begin

text \<open>
  What the lexer guarantees: every call ends with a token or a syntax error and never leaves the
  input or the buffer; strings written in the quoted form come back unchanged; looking ahead
  does not change what is read; and a zero byte inside a numeral is skipped.
\<close>

section \<open>Outcomes\<close>

text \<open>Either a syntax error, or a result with the property \<open>Q\<close>.\<close>

definition lex_post :: "('a \<Rightarrow> bool) \<Rightarrow> 'a result \<Rightarrow> bool" where
  "lex_post Q r \<longleftrightarrow> (case r of Inr x \<Rightarrow> Q x | Inl e \<Rightarrow> \<exists>m. e = ErrSyntax m)"

lemma lex_post_simps [simp]: "lex_post Q (Inr x) = Q x" "lex_post Q (Inl (ErrSyntax m))"
  by (simp_all add: lex_post_def)

lemma lex_post_bind:
  "lex_post P m \<Longrightarrow> (\<And>x. m = Inr x \<Longrightarrow> P x \<Longrightarrow> lex_post Q (f x)) \<Longrightarrow> lex_post Q (bind_result m f)"
  by (cases m) (auto simp: lex_post_def)

lemma lex_post_mono: "lex_post P r \<Longrightarrow> (\<And>x. P x \<Longrightarrow> Q x) \<Longrightarrow> lex_post Q r"
  by (cases r) (auto simp: lex_post_def)

lemma lex_post_if: "(b \<Longrightarrow> lex_post Q x) \<Longrightarrow> (\<not> b \<Longrightarrow> lex_post Q y) \<Longrightarrow> lex_post Q (if b then x else y)"
  by simp

section \<open>The invariant\<close>

text \<open>After the end of the stream has been seen, the stream is not used any more.\<close>

definition lex_ok :: "LexState \<Rightarrow> bool" where
  "lex_ok ls \<longleftrightarrow> (current ls = EOZ \<or> 0 \<le> current ls \<and> current ls < 256 \<and> zio_ok (lex_z ls))
     \<and> 1 \<le> lex_buffsize ls \<and> length (lex_buff ls) \<le> lex_buffsize ls"

definition lex_step :: "LexState \<Rightarrow> LexState \<Rightarrow> bool" where
  "lex_step ls ls' \<longleftrightarrow> lex_ok ls' \<and> fs_h ls' = fs_h ls \<and> length (lex_buff ls) \<le> length (lex_buff ls')"

lemma lex_step_refl: "lex_ok ls \<Longrightarrow> lex_step ls ls"
  by (simp add: lex_step_def)

lemma lex_step_trans: "lex_step a b \<Longrightarrow> lex_step b c \<Longrightarrow> lex_step a c"
  by (simp add: lex_step_def)

lemma lex_stepD: "lex_step ls ls' \<Longrightarrow> lex_ok ls'"
  by (simp add: lex_step_def)

lemma lex_post_from:
  assumes "lex_step a b"
  shows "lex_post (lex_step b) r \<Longrightarrow> lex_post (lex_step a) r"
    and "lex_post (\<lambda>(x, ls). lex_step b ls) r' \<Longrightarrow> lex_post (\<lambda>(x, ls). lex_step a ls) r'"
    and "lex_post (\<lambda>ls. lex_step b ls \<and> Q ls) r \<Longrightarrow> lex_post (\<lambda>ls. lex_step a ls \<and> Q ls) r"
  using assms by (auto elim!: lex_post_mono intro: lex_step_trans)

lemma char2int_uchar: "char2int c = uchar c"
  by (simp add: char2int_def uchar_def)

lemma next_char_ok:
  assumes "lex_ok ls" and "current ls \<noteq> EOZ"
  shows "lex_post (\<lambda>ls'. lex_step ls ls' \<and> lex_buff ls' = lex_buff ls) (next_char ls)"
proof -
  have z: "zio_ok (lex_z ls)" using assms by (simp add: lex_ok_def)
  show ?thesis
  proof (cases "zcontent (lex_z ls)")
    case Nil
    with zgetc_content [OF z] assms(1) show ?thesis by (auto simp: next_char_def lex_step_def lex_ok_def)
  next
    case (Cons c r)
    with zgetc_content [OF z] assms(1) uchar_bounds [of c] show ?thesis
      by (auto simp: next_char_def lex_step_def lex_ok_def char2int_uchar)
  qed
qed

lemma save_ok:
  assumes "lex_ok ls"
  shows "lex_post (\<lambda>ls'. lex_step ls ls' \<and> current ls' = current ls \<and> lex_buff ls' = lex_buff ls @ [char_of c]) (save c ls)"
  using assms by (auto simp: save_def lex_step_def lex_ok_def)

lemma save_and_next_ok:
  assumes "lex_ok ls" and "current ls \<noteq> EOZ"
  shows "lex_post (\<lambda>ls'. lex_step ls ls' \<and> length (lex_buff ls') = length (lex_buff ls) + 1) (save_and_next ls)"
  unfolding save_and_next_def
proof (rule lex_post_bind [OF save_ok [OF assms(1)]])
  fix x assume x: "lex_step ls x \<and> current x = current ls \<and> lex_buff x = lex_buff ls @ [char_of (current ls)]"
  show "lex_post (\<lambda>ls'. lex_step ls ls' \<and> length (lex_buff ls') = length (lex_buff ls) + 1) (next_char x)"
    using next_char_ok [of x] x assms(2) by (auto simp: lex_step_def elim!: lex_post_mono)
qed

lemma lexerror_ok: "lex_post Q (luaX_lexerror ls msg tok)" if "lex_ok ls"
  using save_ok [OF that, of 0]
  by (auto simp: luaX_lexerror_def Let_def txtToken_def bind_result_def lex_post_def split: sum.splits)

lemma inclinenumber_ok:
  assumes "lex_ok ls" and "current ls \<noteq> EOZ"
  shows "lex_post (\<lambda>ls'. lex_step ls ls' \<and> lex_buff ls' = lex_buff ls) (inclinenumber ls)"
  unfolding inclinenumber_def Let_def
proof (rule lex_post_bind [OF next_char_ok [OF assms]], rule lex_post_bind)
  fix x assume x: "lex_step ls x \<and> lex_buff x = lex_buff ls"
  show "lex_post (\<lambda>ls'. lex_step ls ls' \<and> lex_buff ls' = lex_buff ls)
      (if currIsNewline x \<and> current x \<noteq> current ls then next_char x else Inr x)"
    using next_char_ok [of x] newline_not_EOZ [of x] x by (auto simp: lex_step_def elim!: lex_post_mono)
next
  fix x y assume "lex_step ls y \<and> lex_buff y = lex_buff ls"
  then show "lex_post (\<lambda>ls'. lex_step ls ls' \<and> lex_buff ls' = lex_buff ls)
      (if linenumber (y\<lparr>linenumber := linenumber y + 1\<rparr>) \<ge> MAX_INT
       then luaX_syntaxerror (y\<lparr>linenumber := linenumber y + 1\<rparr>) ''chunk has too many lines''
       else Inr (y\<lparr>linenumber := linenumber y + 1\<rparr>))"
    by (auto simp: luaX_syntaxerror_def lex_step_def lex_ok_def intro!: lexerror_ok)
qed

lemma save_while_ok:
  "lex_ok ls \<Longrightarrow> lex_post (lex_step ls) (save_while P ls)"
proof (induction P ls rule: save_while.induct)
  case (1 P ls)
  show ?case
  proof (cases "P (current ls) \<and> current ls \<noteq> EOZ")
    case True
    have "lex_post (lex_step ls) (bind_result (save_and_next ls) (save_while P))"
    proof (rule lex_post_bind [OF save_and_next_ok [OF "1.prems"]])
      fix x assume x: "save_and_next ls = Inr x" "lex_step ls x \<and> length (lex_buff x) = length (lex_buff ls) + 1"
      then show "lex_post (lex_step ls) (save_while P x)"
        using lex_post_mono [OF "1.IH" [OF True x(1)]] lex_step_trans lex_stepD by blast
    qed (use True in simp)
    with True show ?thesis by (subst save_while.simps) simp
  next
    case False
    with "1.prems" show ?thesis by (subst save_while.simps) (auto simp: lex_step_refl)
  qed
qed

lemma check_next_ok:
  assumes "lex_ok ls" and "CHR 0xFF \<notin> set st"
  shows "lex_post (\<lambda>(b, ls'). lex_step ls ls') (check_next ls st)"
proof (cases "strchr_has st (current ls)")
  case True
  have "char_of (EOZ mod 256) = CHR 0xFF" by code_simp
  with True assms(2) have "current ls \<noteq> EOZ" by (auto simp: strchr_has_def)
  then show ?thesis
    unfolding check_next_def using True save_and_next_ok [OF assms(1)]
    by (auto intro!: lex_post_bind elim: lex_post_mono)
next
  case False
  with assms(1) show ?thesis by (simp add: check_next_def lex_step_refl)
qed


section \<open>Strings\<close>

lemma setstr_stores:
  assumes inv: "table_inv t" and few: "pair_count t < 2 ^ 26"
  shows "\<exists>s t'. luaH_setstr (grow (Suc f)) t str = Inr (s, t') \<and> (\<forall>v. updated t (TGC (GString str)) v (set_slot t' s v))"
proof -
  obtain p where p: "luaH_getstr t str = Inr p" "at_slot t (TGC (GString str)) p"
    using luaH_getstr_slot inv by (auto simp: table_inv_def)
  have "valid_key (TGC (GString str))" by (simp add: valid_key_def intact_def)
  with set_after_lookup [OF inv this _ p(2), of f] few p(1) show ?thesis
    by (cases "p = NilObject") (auto simp: luaH_setstr_def pair_count_def)
qed

text \<open>
  A token may anchor one new string in the table of constants; everything else leaves it alone.
\<close>

definition lexed :: "LexState \<Rightarrow> LexState \<Rightarrow> bool" where
  "lexed ls ls' \<longleftrightarrow> lex_ok ls' \<and> table_inv (fs_h ls') \<and> pair_count (fs_h ls') \<le> pair_count (fs_h ls) + 1"

lemma lexed_step: "lex_step ls ls' \<Longrightarrow> table_inv (fs_h ls) \<Longrightarrow> lexed ls ls'"
  by (simp add: lexed_def lex_step_def)

lemma lexed_from: "fs_h x = fs_h ls \<Longrightarrow> lexed x = lexed ls"
  by (simp add: lexed_def fun_eq_iff)

lemma newstring_ok:
  assumes "lex_ok ls" and "table_inv (fs_h ls)" and "pair_count (fs_h ls) < 2 ^ 26"
  shows "lex_post (\<lambda>(ts, ls'). lexed ls ls' \<and> ts = str) (luaX_newstring ls str)"
proof -
  let ?k = "TGC (GString str)"
  obtain s t' where st: "luaH_setstr (grow (Suc 1)) (fs_h ls) str = Inr (s, t')"
    "\<forall>v. updated (fs_h ls) ?k v (set_slot t' s v)"
    using setstr_stores [OF assms(2,3)] by blast
  have k: "valid_key ?k" by (simp add: valid_key_def intact_def)
  have same: "set_slot t' s (slot_val t' s) = t'"
    by (cases s) (simp_all add: set_slot_def slot_val_def)
  have "table_inv (set_slot t' s v) \<and> pair_count (set_slot t' s v) \<le> pair_count (fs_h ls) + 1" for v
    using st(2) updated_pair_count [OF assms(2) k, of v "set_slot t' s v"] unfolding updated_def by blast
  from this [of "TBoolean 1"] this [of "slot_val t' s"] st(1) assms(1) show ?thesis
    by (simp add: luaX_newstring_def lexed_def lex_ok_def numeral_2_eq_2 same)
qed

lemma buff_string_ok:
  assumes "lex_ok ls" and "table_inv (fs_h ls)" and "pair_count (fs_h ls) < 2 ^ 26" and "2 * n \<le> length (lex_buff ls)"
  shows "lex_post (\<lambda>(s, ls'). lexed ls ls') (buff_string n ls)"
proof -
  let ?s = "take (length (lex_buff ls) - 2 * n) (drop n (lex_buff ls))"
  have "lex_post (\<lambda>(s, ls'). lexed ls ls') (bind_result (luaX_newstring ls ?s) (\<lambda>(ts, ls). Inr (SString ts, ls)))"
    by (rule lex_post_bind [OF newstring_ok [OF assms(1,2,3)]]) auto
  with assms(4) show ?thesis by (simp add: buff_string_def)
qed

lemma decimal_escape_ok:
  "lex_ok ls \<Longrightarrow> isdigit (current ls) \<Longrightarrow> lex_post (\<lambda>(c, ls'). lex_step ls ls') (decimal_escape k c ls)"
proof (induction k c ls rule: decimal_escape.induct)
  case (2 k c ls)
  show ?case
    unfolding decimal_escape.simps Let_def
  proof (rule lex_post_bind [OF next_char_ok [OF "2.prems"(1) isdigit_not_EOZ [OF "2.prems"(2)]]])
    fix x assume x: "next_char ls = Inr x" "lex_step ls x \<and> lex_buff x = lex_buff ls"
    show "lex_post (\<lambda>(c, ls'). lex_step ls ls')
        (if isdigit (current x) then decimal_escape k (10 * c + (current ls - uchar CHR ''0'')) x
         else Inr (10 * c + (current ls - uchar CHR ''0''), x))"
    proof (cases "isdigit (current x)")
      case True
      with lex_post_from(2) [OF conjunct1 [OF x(2)] "2.IH" [OF refl x(1) True lex_stepD [OF conjunct1 [OF x(2)]] True]]
      show ?thesis by simp
    qed (use x(2) in simp)
  qed
qed (simp add: lex_step_refl)

lemma read_escape_ok:
  assumes "lex_ok ls" and "current ls \<noteq> EOZ"
  shows "lex_post (lex_step ls) (read_escape ls)"
  unfolding read_escape_def
proof (rule lex_post_bind [OF next_char_ok [OF assms]])
  fix ls1 assume "lex_step ls ls1 \<and> lex_buff ls1 = lex_buff ls"
  then have l: "lex_step ls ls1" and ok: "lex_ok ls1" by (auto dest: lex_stepD)
  have saved: "lex_post (lex_step ls1) (bind_result (save c ls1) f)"
    if "current ls1 \<noteq> EOZ" "\<And>x. lex_ok x \<Longrightarrow> current x \<noteq> EOZ \<Longrightarrow> lex_post (\<lambda>y. lex_step x y \<and> lex_buff y = lex_buff x) (f x)" for c f
  proof (rule lex_post_bind [OF save_ok [OF ok]])
    fix x assume x: "lex_step ls1 x \<and> current x = current ls1 \<and> lex_buff x = lex_buff ls1 @ [char_of c]"
    then have "lex_post (lex_step x) (f x)"
      using that lex_stepD by (intro lex_post_mono [OF that(2)]) auto
    with x show "lex_post (lex_step ls1) (f x)" using lex_post_from(1) by blast
  qed
  have dec: "lex_post (lex_step ls1) (bind_result (decimal_escape 3 0 ls1) (\<lambda>(c, ls).
                  if c > 255 then luaX_lexerror ls ''escape sequence too large'' TK_STRING
                  else save c ls))" if d: "isdigit (current ls1)"
  proof (rule lex_post_bind [OF decimal_escape_ok [OF ok d]], clarify)
    fix c x assume x: "lex_step ls1 x"
    have "lex_post (lex_step x) (save c x)" by (rule lex_post_mono [OF save_ok [OF lex_stepD [OF x]]]) auto
    with lexerror_ok [OF lex_stepD [OF x]] lex_post_from(1) [OF x]
    show "lex_post (lex_step ls1) (if c > 255 then luaX_lexerror x ''escape sequence too large'' TK_STRING else save c x)"
      by auto
  qed
  have "lex_post (lex_step ls1) (case escape_char (current ls1) of
         Some c \<Rightarrow> bind_result (save c ls1) next_char
       | None \<Rightarrow>
           if currIsNewline ls1 then bind_result (save 10 ls1) inclinenumber
           else if current ls1 = EOZ then Inr ls1
           else if \<not> isdigit (current ls1) then save_and_next ls1
           else bind_result (decimal_escape 3 0 ls1) (\<lambda>(c, ls).
                  if c > 255 then luaX_lexerror ls ''escape sequence too large'' TK_STRING
                  else save c ls))"
    using saved [OF _ next_char_ok] saved [OF _ inclinenumber_ok] dec save_and_next_ok [OF ok]
      escape_not_EOZ [of ls1] newline_not_EOZ [of ls1] lex_step_refl [OF ok]
    by (auto split: option.split elim: lex_post_mono)
  from lex_post_from(1) [OF l this]
  show "lex_post (lex_step ls) (case escape_char (current ls1) of
         Some c \<Rightarrow> bind_result (save c ls1) next_char
       | None \<Rightarrow>
           if currIsNewline ls1 then bind_result (save 10 ls1) inclinenumber
           else if current ls1 = EOZ then Inr ls1
           else if \<not> isdigit (current ls1) then save_and_next ls1
           else bind_result (decimal_escape 3 0 ls1) (\<lambda>(c, ls).
                  if c > 255 then luaX_lexerror ls ''escape sequence too large'' TK_STRING
                  else save c ls))" .
qed

lemma read_string_loop_ok: "lex_ok ls \<Longrightarrow> lex_post (\<lambda>ls'. lex_step ls ls' \<and> current ls' = del) (read_string_loop del ls)"
proof (induction del ls rule: read_string_loop.induct)
  case (1 del ls)
  note ok = "1.prems"
  let ?Q = "\<lambda>ls'. lex_step ls ls' \<and> current ls' = del"
  have more: "lex_post ?Q (bind_result m (read_string_loop del))"
    if "lex_post (lex_step ls) m" "\<And>x. m = Inr x \<Longrightarrow> lex_ok x \<Longrightarrow> lex_post (\<lambda>ls'. lex_step x ls' \<and> current ls' = del) (read_string_loop del x)" for m
  proof (rule lex_post_bind [OF that(1)])
    fix x assume x: "m = Inr x" "lex_step ls x"
    show "lex_post ?Q (read_string_loop del x)"
      by (rule lex_post_from(3) [OF x(2) that(2) [OF x(1) lex_stepD [OF x(2)]]])
  qed
  show ?case
    using more [OF read_escape_ok [OF ok] "1.IH"(1)] more [OF lex_post_mono [OF save_and_next_ok [OF ok]] "1.IH"(2)]
      lexerror_ok [OF ok] lex_step_refl [OF ok]
    by (subst read_string_loop.simps) auto
qed

lemma read_string_ok:
  assumes "lex_ok ls" and "current ls = del" "del \<noteq> EOZ" and "table_inv (fs_h ls)" and "pair_count (fs_h ls) < 2 ^ 26"
  shows "lex_post (\<lambda>(s, ls'). lexed ls ls') (read_string del ls)"
  unfolding read_string_def
proof (rule lex_post_bind [OF save_and_next_ok [OF assms(1)]])
  show "current ls \<noteq> EOZ" using assms by simp
  fix ls1 assume 1: "lex_step ls ls1 \<and> length (lex_buff ls1) = length (lex_buff ls) + 1"
  show "lex_post (\<lambda>(s, ls'). lexed ls ls') (bind_result (read_string_loop del ls1) (\<lambda>ls. bind_result (save_and_next ls) (buff_string 1)))"
  proof (rule lex_post_bind [OF read_string_loop_ok])
    show "lex_ok ls1" using 1 lex_stepD by blast
    fix ls2 assume 2: "lex_step ls1 ls2 \<and> current ls2 = del"
    show "lex_post (\<lambda>(s, ls'). lexed ls ls') (bind_result (save_and_next ls2) (buff_string 1))"
    proof (rule lex_post_bind [OF save_and_next_ok])
      show "lex_ok ls2" "current ls2 \<noteq> EOZ" using 2 assms(3) lex_stepD by auto
      fix ls3 assume 3: "lex_step ls2 ls3 \<and> length (lex_buff ls3) = length (lex_buff ls2) + 1"
      with 1 2 have "fs_h ls3 = fs_h ls" by (auto simp: lex_step_def)
      with 1 2 3 assms(4,5) show "lex_post (\<lambda>(s, ls'). lexed ls ls') (buff_string 1 ls3)"
        unfolding lexed_from [OF \<open>fs_h ls3 = fs_h ls\<close>, symmetric]
        by (intro buff_string_ok) (auto simp: lex_step_def)
    qed
  qed
qed


section \<open>Long strings\<close>

lemma skip_sep_ok:
  assumes "lex_ok ls" and "current ls \<noteq> EOZ"
  shows "lex_post (\<lambda>(n, ls'). lex_step ls ls' \<and> (0 \<le> n \<longrightarrow> current ls' = current ls
    \<and> length (lex_buff ls) + nat (1 + n) \<le> length (lex_buff ls'))) (skip_sep ls)"
  unfolding skip_sep_def Let_def
proof (rule lex_post_bind [OF save_and_next_ok [OF assms]], rule lex_post_bind [OF save_while_ok])
  fix x y assume x: "lex_step ls x \<and> length (lex_buff x) = length (lex_buff ls) + 1"
  then show "lex_ok x" using lex_stepD by blast
  assume y: "lex_step x y"
  show "lex_post (\<lambda>(n, ls'). lex_step ls ls' \<and> (0 \<le> n \<longrightarrow> current ls' = current ls
    \<and> length (lex_buff ls) + nat (1 + n) \<le> length (lex_buff ls')))
    (Inr (if current y = current ls then int (length (lex_buff y)) - int (length (lex_buff x))
      else - (int (length (lex_buff y)) - int (length (lex_buff x))) - 1, y))"
    using x y by (auto simp: lex_step_def)
qed

definition long_post :: "bool \<Rightarrow> int \<Rightarrow> LexState \<Rightarrow> LexState \<Rightarrow> bool" where
  "long_post want sep ls ls' \<longleftrightarrow> lex_ok ls' \<and> fs_h ls' = fs_h ls
     \<and> (want \<longrightarrow> length (lex_buff ls) + nat (2 + sep) \<le> length (lex_buff ls'))"

lemma long_post_from:
  "lex_step ls x \<Longrightarrow> lex_post (long_post want sep x) r \<Longrightarrow> lex_post (long_post want sep ls) r"
  by (erule lex_post_mono) (auto simp: long_post_def lex_step_def)

lemma long_string_loop_ok: "lex_ok ls \<Longrightarrow> lex_post (long_post want sep ls) (long_string_loop want sep ls)"
proof (induction want sep ls rule: long_string_loop.induct)
  case (1 want sep ls)
  note ok = "1.prems" and IH = "1.IH"
  let ?loop = "long_string_loop want sep" and ?Q = "long_post want sep ls"
  show ?case
  proof (cases "current ls = EOZ")
    case True
    then show ?thesis by (subst long_string_loop.simps) (simp add: lexerror_ok [OF ok])
  next
    case ne: False
    have more: "lex_post ?Q (?loop x)" if "lex_step ls x" "lex_ok x \<Longrightarrow> lex_post (long_post want sep x) (?loop x)" for x
      by (rule long_post_from [OF that(1) that(2) [OF lex_stepD [OF that(1)]]])
    have lb: "lex_post ?Q (bind_result (skip_sep ls) (\<lambda>(n, ls).
          if n = sep \<and> 0 \<le> n then
            bind_result (save_and_next ls) (\<lambda>ls.
              if sep = 0 then luaX_lexerror ls ''nesting of [[...]] is deprecated'' (uchar CHR ''['') else ?loop ls)
          else ?loop ls))" if c: "current ls = uchar CHR ''[''"
    proof (rule lex_post_bind [OF skip_sep_ok [OF ok ne]], clarify)
      fix n x assume s: "skip_sep ls = Inr (n, x)" and x: "lex_step ls x"
        "0 \<le> n \<longrightarrow> current x = current ls \<and> length (lex_buff ls) + nat (1 + n) \<le> length (lex_buff x)"
      have a: "lex_post ?Q (bind_result (save_and_next x) (\<lambda>ls.
              if sep = 0 then luaX_lexerror ls ''nesting of [[...]] is deprecated'' (uchar CHR ''['') else ?loop ls))"
        if n: "n = sep \<and> 0 \<le> n"
      proof (rule lex_post_bind [OF save_and_next_ok [OF lex_stepD [OF x(1)]]])
        show "current x \<noteq> EOZ" using x(2) n ne by simp
        fix y assume y: "save_and_next x = Inr y" "lex_step x y \<and> length (lex_buff y) = length (lex_buff x) + 1"
        then have "lex_step ls y" using x(1) lex_step_trans by blast
        with more [OF this IH(1) [OF ne c s refl n y(1)]] lexerror_ok [OF lex_stepD]
        show "lex_post ?Q (if sep = 0 then luaX_lexerror y ''nesting of [[...]] is deprecated'' (uchar CHR ''['') else ?loop y)"
          by auto
      qed
      show "lex_post ?Q (if n = sep \<and> 0 \<le> n then
            bind_result (save_and_next x) (\<lambda>ls.
              if sep = 0 then luaX_lexerror ls ''nesting of [[...]] is deprecated'' (uchar CHR ''['') else ?loop ls)
          else ?loop x)"
        by (rule lex_post_if [OF a more [OF x(1) IH(2) [OF ne c s refl]]])
    qed
    have rb: "lex_post ?Q (bind_result (skip_sep ls) (\<lambda>(n, ls).
          if n = sep \<and> 0 \<le> n then save_and_next ls else ?loop ls))"
      if c: "current ls \<noteq> uchar CHR ''[''" "current ls = uchar CHR '']''"
    proof (rule lex_post_bind [OF skip_sep_ok [OF ok ne]], clarify)
      fix n x assume s: "skip_sep ls = Inr (n, x)" and x: "lex_step ls x"
        "0 \<le> n \<longrightarrow> current x = current ls \<and> length (lex_buff ls) + nat (1 + n) \<le> length (lex_buff x)"
      have a: "lex_post ?Q (save_and_next x)" if "n = sep \<and> 0 \<le> n"
        using x that ne by (intro lex_post_mono [OF save_and_next_ok [OF lex_stepD [OF x(1)]]])
          (auto simp: long_post_def lex_step_def nat_add_distrib)
      show "lex_post ?Q (if n = sep \<and> 0 \<le> n then save_and_next x else ?loop x)"
        by (rule lex_post_if [OF a more [OF x(1) IH(3) [OF ne c s refl]]])
    qed
    have nl: "lex_post ?Q (bind_result (save 10 ls) (\<lambda>ls. bind_result (inclinenumber ls) (\<lambda>ls.
          ?loop (if want then ls else ls\<lparr>lex_buff := []\<rparr>))))"
      if c: "current ls \<noteq> uchar CHR ''[''" "current ls \<noteq> uchar CHR '']''" "currIsNewline ls"
    proof (rule lex_post_bind [OF save_ok [OF ok]], rule lex_post_bind [OF inclinenumber_ok])
      fix x y assume x: "save 10 ls = Inr x" "lex_step ls x \<and> current x = current ls \<and> lex_buff x = lex_buff ls @ [char_of (10::int)]"
      then show "lex_ok x" "current x \<noteq> EOZ" using ne lex_stepD by auto
      assume y: "inclinenumber x = Inr y" "lex_step x y \<and> lex_buff y = lex_buff x"
      let ?y = "if want then y else y\<lparr>lex_buff := []\<rparr>"
      have ok': "lex_ok ?y" using y(2) by (auto simp: lex_step_def lex_ok_def)
      have "lex_post (long_post want sep ?y) (?loop ?y)" by (rule IH(4) [OF ne c x(1) y(1) ok'])
      then show "lex_post ?Q (?loop ?y)"
        by (rule lex_post_mono) (use x(2) y(2) in \<open>auto simp: long_post_def lex_step_def split: if_splits\<close>)
    qed
    have ch: "lex_post ?Q (bind_result (if want then save_and_next ls else next_char ls) ?loop)"
      if c: "current ls \<noteq> uchar CHR ''[''" "current ls \<noteq> uchar CHR '']''" "\<not> currIsNewline ls"
    proof (rule lex_post_bind)
      show "lex_post (lex_step ls) (if want then save_and_next ls else next_char ls)"
        using save_and_next_ok [OF ok ne] next_char_ok [OF ok ne] by (auto elim: lex_post_mono)
      fix x assume x: "(if want then save_and_next ls else next_char ls) = Inr x" "lex_step ls x"
      show "lex_post ?Q (?loop x)" by (rule more [OF x(2) IH(5) [OF ne c x(1)]])
    qed
    show ?thesis
      using ne lb rb nl ch by (subst long_string_loop.simps) auto
  qed
qed

lemma read_long_string_ok:
  assumes "lex_ok ls" and "current ls \<noteq> EOZ" and "table_inv (fs_h ls)" and "pair_count (fs_h ls) < 2 ^ 26"
    and want: "want \<longrightarrow> nat (1 + sep) \<le> length (lex_buff ls)" and "0 \<le> sep"
  shows "lex_post (\<lambda>(s, ls'). lexed ls ls' \<and> (\<not> want \<longrightarrow> fs_h ls' = fs_h ls)) (read_long_string want sep ls)"
  unfolding read_long_string_def
proof (rule lex_post_bind [OF save_and_next_ok [OF assms(1,2)]], rule lex_post_bind)
  fix x assume x: "lex_step ls x \<and> length (lex_buff x) = length (lex_buff ls) + 1"
  then show "lex_post (\<lambda>y. lex_step x y) (if currIsNewline x then inclinenumber x else Inr x)"
    using inclinenumber_ok [of x] newline_not_EOZ [of x] lex_step_refl lex_stepD
    by (auto elim: lex_post_mono)
  fix y assume y: "lex_step x y"
  show "lex_post (\<lambda>(s, ls'). lexed ls ls' \<and> (\<not> want \<longrightarrow> fs_h ls' = fs_h ls)) (bind_result (long_string_loop want sep y) (\<lambda>ls.
       if want then buff_string (nat (2 + sep)) ls else Inr (SNone, ls)))"
  proof (rule lex_post_bind [OF long_string_loop_ok [OF lex_stepD [OF y]]])
    fix z assume z: "long_post want sep y z"
    have h: "fs_h z = fs_h ls" using x y z by (simp add: long_post_def lex_step_def)
    have "lex_post (\<lambda>(s, ls'). lexed ls ls') (buff_string (nat (2 + sep)) z)" if want
      unfolding lexed_from [OF h, symmetric]
      using x y z assms(3,4,6) that want h
      by (intro buff_string_ok) (auto simp: long_post_def lex_step_def nat_add_distrib)
    with z h assms(3) show "lex_post (\<lambda>(s, ls'). lexed ls ls' \<and> (\<not> want \<longrightarrow> fs_h ls' = fs_h ls))
        (if want then buff_string (nat (2 + sep)) z else Inr (SNone, z))"
      by (auto simp: long_post_def lexed_def elim: lex_post_mono)
  qed
qed


section \<open>Tokens\<close>

definition lex_same :: "LexState \<Rightarrow> LexState \<Rightarrow> bool" where
  "lex_same ls ls' \<longleftrightarrow> lex_ok ls' \<and> fs_h ls' = fs_h ls"

lemma lex_same_step: "lex_step ls ls' \<Longrightarrow> lex_same ls ls'"
  by (simp add: lex_same_def lex_step_def)

lemma lex_same_trans: "lex_same a b \<Longrightarrow> lex_same b c \<Longrightarrow> lex_same a c"
  by (simp add: lex_same_def)

lemma buffreplace_ok [simp]: "lex_ok (buffreplace a b ls) = lex_ok ls"
  and decpoint_ok [simp]: "lex_ok (ls\<lparr>decpoint := c\<rparr>) = lex_ok ls"
  by (simp_all add: buffreplace_def lex_ok_def)

lemma trydecpoint_ok: "lex_same ls0 ls \<Longrightarrow> lex_post (\<lambda>(r, ls'). lex_same ls0 ls') (trydecpoint ls)"
  by (auto simp: trydecpoint_def Let_def lexerror_ok lex_same_def buffreplace_def lex_ok_def split: option.split)

lemma dot_not_EOZ: "c = uchar x \<Longrightarrow> c \<noteq> EOZ"
  using uchar_bounds [of x] by (simp add: EOZ_def)

lemma read_numeral_ok:
  assumes "lex_ok ls" and "current ls \<noteq> EOZ"
  shows "lex_post (\<lambda>(r, ls'). lex_same ls ls') (read_numeral ls)"
proof -
  have chk: "lex_post (\<lambda>(b, y). lex_same ls y) (check_next x st)" if "lex_same ls x" "CHR 0xFF \<notin> set st" for x st
    by (rule lex_post_mono [OF check_next_ok]) (use that in \<open>auto simp: lex_same_def lex_step_def\<close>)
  have wh: "lex_post (lex_same ls) (save_while P x)" if "lex_same ls x" for P x
    by (rule lex_post_mono [OF save_while_ok]) (use that in \<open>auto simp: lex_same_def lex_step_def\<close>)
  have sv: "lex_post (lex_same ls) (save c x)" if "lex_same ls x" for c x
    by (rule lex_post_mono [OF save_ok]) (use that in \<open>auto simp: lex_same_def lex_step_def\<close>)
  have nx: "lex_post (lex_same ls) (save_and_next ls)"
    by (rule lex_post_mono [OF save_and_next_ok [OF assms]]) (auto simp: lex_same_step)
  have rep: "lex_same ls (buffreplace a b x)" if "lex_same ls x" for a b x
    using that by (simp add: lex_same_def) (simp add: buffreplace_def)
  show ?thesis
    unfolding read_numeral_def
    by (rule lex_post_bind [OF nx], rule lex_post_bind [OF wh], assumption, rule lex_post_bind [OF chk], assumption, simp,
        clarify, rule lex_post_bind [where P = "\<lambda>(b, ls'). lex_same ls ls'"], simp add: chk, clarify,
        rule lex_post_bind [OF wh], assumption, rule lex_post_bind [OF sv], assumption)
      (auto simp: Let_def rep trydecpoint_ok split: option.split)
qed

definition tok_post :: "LexState \<Rightarrow> int \<times> SemInfo \<times> LexState \<Rightarrow> bool" where
  "tok_post ls = (\<lambda>(tk, s, ls'). lexed ls ls')"

lemma tok_post_simp [simp]: "tok_post ls (tk, s, ls') = lexed ls ls'"
  by (simp add: tok_post_def)

text \<open>The states in the middle of a token: the table of constants is still that of the start.\<close>

lemma lexed_same: "lex_same ls ls' \<Longrightarrow> table_inv (fs_h ls) \<Longrightarrow> lexed ls ls'"
  by (simp add: lexed_def lex_same_def)

lemma tok_post_from: "lex_same ls x \<Longrightarrow> lex_post (tok_post x) r \<Longrightarrow> lex_post (tok_post ls) r"
  using lexed_from [of x ls] by (auto simp: lex_same_def tok_post_def elim: lex_post_mono)

lemma next_token:
  assumes "lex_ok ls" and "current ls \<noteq> EOZ" and "table_inv (fs_h ls)"
  shows "lex_post (tok_post ls) (bind_result (next_char ls) (\<lambda>ls'. Inr (tk, s, ls')))"
  by (rule lex_post_bind [OF next_char_ok [OF assms(1,2)]]) (use assms(3) lexed_step in auto)

lemma compound_ok:
  assumes "lex_ok ls" and "current ls \<noteq> EOZ" and tab: "table_inv (fs_h ls)"
  shows "lex_post (tok_post ls) (compound ls c tk sem)"
  unfolding compound_def
proof (rule lex_post_bind [OF next_char_ok [OF assms(1,2)]])
  fix x assume "lex_step ls x \<and> lex_buff x = lex_buff ls"
  then have x: "lex_step ls x" "lex_ok x" "fs_h x = fs_h ls" "lex_same ls x" by (auto simp: lex_step_def lex_same_def)
  have "lex_post (tok_post ls) (bind_result (next_char x) (\<lambda>ls. Inr (tk, sem, ls)))" if "current x = uchar CHR ''=''"
    by (rule tok_post_from [OF x(4) next_token [OF x(2) dot_not_EOZ [OF that]]]) (simp add: x(3) tab)
  with lexed_step [OF x(1) tab] show "lex_post (tok_post ls) (if current x \<noteq> uchar CHR ''='' then Inr (uchar c, sem, x)
       else bind_result (next_char x) (\<lambda>ls. Inr (tk, sem, ls)))" by simp
qed

lemma numeral_token_ok:
  assumes "lex_ok ls" and "current ls \<noteq> EOZ" and "table_inv (fs_h ls)"
  shows "lex_post (tok_post ls) (numeral_token ls)"
  unfolding numeral_token_def
  by (rule lex_post_bind [OF read_numeral_ok [OF assms(1,2)]]) (use assms(3) lexed_same in auto)

lemma dots_token_ok:
  assumes "lex_ok ls" and "current ls \<noteq> EOZ" and tab: "table_inv (fs_h ls)"
  shows "lex_post (tok_post ls) (dots_token ls sem)"
  unfolding dots_token_def
proof (rule lex_post_bind [OF save_and_next_ok [OF assms(1,2)]], rule lex_post_bind [OF check_next_ok])
  fix x y assume x: "lex_step ls x \<and> length (lex_buff x) = length (lex_buff ls) + 1"
  then show "lex_ok x" by (auto dest: lex_stepD)
  assume y: "case y of (b :: bool, z) \<Rightarrow> lex_step x z"
  obtain b z where y': "y = (b, z)" by (cases y)
  with x y have z: "lex_step ls z" using lex_step_trans by auto
  then have z': "lex_ok z" "table_inv (fs_h z)" "lexed ls z" "lex_same ls z"
    using tab lexed_step lex_same_step by (auto simp: lex_step_def)
  have "lex_post (tok_post ls) (bind_result (check_next z ''.'') (\<lambda>(dot, ls). Inr (if dot then TK_DOTS else TK_CONCAT, sem, ls)))"
    by (rule lex_post_bind [OF check_next_ok [OF z'(1)]]) (use z lex_step_trans lexed_step [OF _ tab] in auto)
  moreover have "lex_post (tok_post ls) (numeral_token z)" if "isdigit (current z)"
    by (rule tok_post_from [OF z'(4) numeral_token_ok [OF z'(1) isdigit_not_EOZ [OF that] z'(2)]])
  ultimately show "lex_post (tok_post ls) (case y of (dot, ls) \<Rightarrow>
      if dot then bind_result (check_next ls ''.'') (\<lambda>(dot, ls). Inr (if dot then TK_DOTS else TK_CONCAT, sem, ls))
      else if \<not> isdigit (current ls) then Inr (uchar CHR ''.'', sem, ls) else numeral_token ls)"
    using y' z'(3) by simp
qed simp

lemma name_token_ok:
  assumes "lex_ok ls" and "current ls \<noteq> EOZ" and "table_inv (fs_h ls)" and "pair_count (fs_h ls) < 2 ^ 26"
  shows "lex_post (tok_post ls) (name_token ls sem)"
  unfolding name_token_def
proof (rule lex_post_bind [OF save_and_next_ok [OF assms(1,2)]], rule lex_post_bind [OF save_while_ok])
  fix x y assume x: "lex_step ls x \<and> length (lex_buff x) = length (lex_buff ls) + 1"
  then show "lex_ok x" by (auto dest: lex_stepD)
  assume y: "lex_step x y"
  with x have same: "lex_same ls y" by (auto simp: lex_step_def lex_same_def)
  with assms(3,4) have "lex_ok y" "table_inv (fs_h y)" "pair_count (fs_h y) < 2 ^ 26" by (auto simp: lex_same_def)
  then have "lex_post (tok_post y) (bind_result (luaX_newstring y (lex_buff y)) (\<lambda>(ts, ls).
       if reserved ts > 0 then Inr (reserved ts - 1 + FIRST_RESERVED, sem, ls) else Inr (TK_NAME, SString ts, ls)))"
    by (rule lex_post_bind [OF newstring_ok]) auto
  then show "lex_post (tok_post ls) (bind_result (luaX_newstring y (lex_buff y)) (\<lambda>(ts, ls).
       if reserved ts > 0 then Inr (reserved ts - 1 + FIRST_RESERVED, sem, ls) else Inr (TK_NAME, SString ts, ls)))"
    by (rule tok_post_from [OF same])
qed

lemma token_at_ok:
  assumes ok: "lex_ok ls" and tab: "table_inv (fs_h ls)" "pair_count (fs_h ls) < 2 ^ 26"
  shows "lex_post (tok_post ls) (token_at ls sem)"
proof (cases "current ls = EOZ")
  case True
  have "lexed ls ls" using ok tab by (simp add: lexed_def)
  with True show ?thesis by (auto simp: token_at_def dest: dot_not_EOZ)
next
  case ne: False
  have lb: "lex_post (tok_post ls) (bind_result (skip_sep ls) (\<lambda>(sep, ls).
             if sep \<ge> 0 then bind_result (read_long_string True sep ls) (\<lambda>(s, ls). Inr (TK_STRING, s, ls))
             else if sep = - 1 then Inr (uchar CHR ''['', sem, ls)
             else luaX_lexerror ls ''invalid long string delimiter'' TK_STRING))"
  proof (rule lex_post_bind [OF skip_sep_ok [OF ok ne]], clarify)
    fix sep x assume x: "lex_step ls x" "0 \<le> sep \<longrightarrow> current x = current ls \<and> length (lex_buff ls) + nat (1 + sep) \<le> length (lex_buff x)"
    have "lex_post (tok_post x) (bind_result (read_long_string True sep x) (\<lambda>(s, ls). Inr (TK_STRING, s, ls)))" if "0 \<le> sep"
      by (rule lex_post_bind [OF read_long_string_ok]) (use x that ne tab in \<open>auto simp: lex_step_def\<close>)
    then have "lex_post (tok_post ls) (bind_result (read_long_string True sep x) (\<lambda>(s, ls). Inr (TK_STRING, s, ls)))" if "0 \<le> sep"
      using tok_post_from [OF lex_same_step [OF x(1)]] that by blast
    with lexed_step [OF x(1) tab(1)] lex_stepD [OF x(1)]
    show "lex_post (tok_post ls) (if sep \<ge> 0 then bind_result (read_long_string True sep x) (\<lambda>(s, ls). Inr (TK_STRING, s, ls))
             else if sep = - 1 then Inr (uchar CHR ''['', sem, x)
             else luaX_lexerror x ''invalid long string delimiter'' TK_STRING)"
      by (simp add: lexerror_ok)
  qed
  have str: "lex_post (tok_post ls) (bind_result (read_string (current ls) ls) (\<lambda>(s, ls). Inr (TK_STRING, s, ls)))"
    by (rule lex_post_bind [OF read_string_ok [OF ok refl ne tab]]) auto
  note simple = compound_ok [OF ok ne tab(1)] dots_token_ok [OF ok ne tab(1)] numeral_token_ok [OF ok ne tab(1)]
    name_token_ok [OF ok ne tab] next_token [OF ok ne tab(1)]
  show ?thesis
    using lb str simple ne unfolding token_at_def Let_def by (intro lex_post_if) auto
qed

lemma skip_line_ok: "lex_ok ls \<Longrightarrow> lex_post (lex_step ls) (skip_line ls)"
proof (induction ls rule: skip_line.induct)
  case (1 ls)
  show ?case
  proof (cases "\<not> currIsNewline ls \<and> current ls \<noteq> EOZ")
    case True
    have "lex_post (lex_step ls) (bind_result (next_char ls) skip_line)"
    proof (rule lex_post_bind [OF next_char_ok [OF "1.prems"]])
      fix x assume x: "next_char ls = Inr x" "lex_step ls x \<and> lex_buff x = lex_buff ls"
      from lex_post_from(1) [OF conjunct1 [OF x(2)] "1.IH" [OF True x(1) lex_stepD [OF conjunct1 [OF x(2)]]]]
      show "lex_post (lex_step ls) (skip_line x)" .
    qed (use True in simp)
    with True show ?thesis by (subst skip_line.simps) simp
  next
    case False
    with "1.prems" show ?thesis by (subst skip_line.simps) (auto simp: lex_step_refl)
  qed
qed

lemma skip_comment_ok:
  assumes "lex_ok ls" and "current ls \<noteq> EOZ" and "table_inv (fs_h ls)" and "pair_count (fs_h ls) < 2 ^ 26"
  shows "lex_post (lex_same ls) (skip_comment ls)"
  unfolding skip_comment_def
proof (rule lex_post_bind [OF next_char_ok [OF assms(1,2)]])
  let ?Q = "lex_same ls"
  fix x assume "lex_step ls x \<and> lex_buff x = lex_buff ls"
  then have x: "lex_step ls x" "lex_ok x" "fs_h x = fs_h ls" by (auto simp: lex_step_def)
  have line: "lex_post ?Q (skip_line y)" if "lex_ok y" "fs_h y = fs_h ls" for y
    by (rule lex_post_mono [OF skip_line_ok [OF that(1)]]) (use that(2) in \<open>auto simp: lex_step_def lex_same_def\<close>)
  have long: "lex_post ?Q (bind_result (skip_sep x) (\<lambda>(sep, ls).
           let ls = ls\<lparr>lex_buff := []\<rparr>
           in if sep \<ge> 0 then bind_result (read_long_string False sep ls) (\<lambda>(_, ls). Inr (ls\<lparr>lex_buff := []\<rparr>))
              else skip_line ls))" if ne: "current x \<noteq> EOZ"
  proof (rule lex_post_bind [OF skip_sep_ok [OF x(2) ne]], clarify)
    fix sep y assume y: "lex_step x y" "0 \<le> sep \<longrightarrow> current y = current x \<and> length (lex_buff x) + nat (1 + sep) \<le> length (lex_buff y)"
    let ?y = "y\<lparr>lex_buff := []\<rparr>"
    have ok: "lex_ok ?y" "fs_h ?y = fs_h ls" using y(1) x(3) by (auto simp: lex_step_def lex_ok_def)
    have "lex_post ?Q (bind_result (read_long_string False sep ?y) (\<lambda>(_, ls). Inr (ls\<lparr>lex_buff := []\<rparr>)))" if "0 \<le> sep"
    proof (rule lex_post_bind [OF read_long_string_ok [OF ok(1)]])
      show "current ?y \<noteq> EOZ" using y(2) that ne by simp
    qed (use assms(3,4) ok(2) that in \<open>auto simp: lexed_def lex_same_def lex_ok_def\<close>)
    with line [OF ok] show "lex_post ?Q (let ls = ?y in if sep \<ge> 0 then
        bind_result (read_long_string False sep ls) (\<lambda>(_, ls). Inr (ls\<lparr>lex_buff := []\<rparr>)) else skip_line ls)"
      by (simp add: Let_def)
  qed
  with line [OF x(2,3)] dot_not_EOZ
  show "lex_post ?Q (if current x = uchar CHR ''['' then
         bind_result (skip_sep x) (\<lambda>(sep, ls).
           let ls = ls\<lparr>lex_buff := []\<rparr>
           in if sep \<ge> 0 then bind_result (read_long_string False sep ls) (\<lambda>(_, ls). Inr (ls\<lparr>lex_buff := []\<rparr>))
              else skip_line ls)
       else skip_line x)" by simp
qed

lemma llex_loop_ok:
  "lex_ok ls \<Longrightarrow> table_inv (fs_h ls) \<Longrightarrow> pair_count (fs_h ls) < 2 ^ 26 \<Longrightarrow> lex_post (tok_post ls) (llex_loop ls sem)"
proof (induction ls sem rule: llex_loop.induct)
  case (1 ls sem)
  note IH = "1.IH" and ok = "1.prems"(1) and tab = "1.prems"(2,3)
  have more: "lex_post (tok_post ls) (bind_result m (\<lambda>ls. llex_loop ls sem))"
    if m: "lex_post (lex_same ls) m"
      and ih: "\<And>x. m = Inr x \<Longrightarrow> lex_ok x \<Longrightarrow> table_inv (fs_h x) \<Longrightarrow> pair_count (fs_h x) < 2 ^ 26 \<Longrightarrow>
        lex_post (tok_post x) (llex_loop x sem)" for m
  proof (rule lex_post_bind [OF m])
    fix x assume x: "m = Inr x" "lex_same ls x"
    with tab show "lex_post (tok_post ls) (llex_loop x sem)"
      by (intro tok_post_from [OF x(2)] ih) (auto simp: lex_same_def)
  qed
  have step: "lex_post (lex_same ls) r" if "lex_post (\<lambda>x. lex_step ls x \<and> lex_buff x = lex_buff ls) r" for r
    by (rule lex_post_mono [OF that]) (auto simp: lex_step_def lex_same_def)
  have nl: "lex_post (tok_post ls) (bind_result (inclinenumber ls) (\<lambda>ls. llex_loop ls sem))" if c: "currIsNewline ls"
    by (rule more [OF step [OF inclinenumber_ok [OF ok newline_not_EOZ [OF c]]] IH(1) [OF c]])
  have sp: "lex_post (tok_post ls) (bind_result (next_char ls) (\<lambda>ls. llex_loop ls sem))"
    if c: "\<not> currIsNewline ls" "current ls \<noteq> uchar CHR ''-''" "isspace (current ls)"
  proof -
    have "current ls \<noteq> EOZ" using c(3) by (auto simp: isspace_def EOZ_def)
    from more [OF step [OF next_char_ok [OF ok this]] IH(3) [OF c]] show ?thesis .
  qed
  have dash: "lex_post (tok_post ls) (bind_result (next_char ls) (\<lambda>ls.
          if current ls \<noteq> uchar CHR ''-'' then Inr (uchar CHR ''-'', sem, ls)
          else bind_result (skip_comment ls) (\<lambda>ls. llex_loop ls sem)))"
    if c: "\<not> currIsNewline ls" "current ls = uchar CHR ''-''"
  proof (rule lex_post_bind [OF next_char_ok [OF ok dot_not_EOZ [OF c(2)]]])
    fix x assume x: "next_char ls = Inr x" "lex_step ls x \<and> lex_buff x = lex_buff ls"
    then have okx: "lex_ok x" "lex_same ls x" "lexed ls x" using tab lexed_step by (auto simp: lex_step_def lex_same_def)
    have "lex_post (tok_post ls) (bind_result (skip_comment x) (\<lambda>ls. llex_loop ls sem))" if d: "\<not> current x \<noteq> uchar CHR ''-''"
    proof (rule more)
      have "current x \<noteq> EOZ" using d dot_not_EOZ by simp
      from skip_comment_ok [OF okx(1) this] okx(2) tab
      show "lex_post (lex_same ls) (skip_comment x)" by (auto simp: lex_same_def elim!: lex_post_mono)
    qed (rule IH(2) [OF c x(1) d])
    with okx show "lex_post (tok_post ls) (if current x \<noteq> uchar CHR ''-'' then Inr (uchar CHR ''-'', sem, x)
          else bind_result (skip_comment x) (\<lambda>ls. llex_loop ls sem))" by simp
  qed
  show ?case
    using nl sp dash token_at_ok [OF ok tab] by (subst llex_loop.simps) simp
qed

lemma llex_ok:
  assumes "lex_ok ls" "table_inv (fs_h ls)" "pair_count (fs_h ls) < 2 ^ 26"
  shows "lex_post (tok_post ls) (llex ls sem)"
proof -
  have "lex_same ls (ls\<lparr>lex_buff := []\<rparr>)" using assms(1) by (auto simp: lex_same_def lex_ok_def)
  moreover from this assms have "lex_post (tok_post (ls\<lparr>lex_buff := []\<rparr>)) (llex ls sem)"
    unfolding llex_def by (intro llex_loop_ok) (auto simp: lex_same_def)
  ultimately show ?thesis by (rule tok_post_from)
qed

section \<open>Progress\<close>

lemma check_next_left:
  assumes "check_next ls st = Inr (b, ls')" and "CHR 0xFF \<notin> set st"
  shows "lex_left ls' \<le> lex_left ls"
proof (cases "strchr_has st (current ls)")
  case True
  have "char_of (EOZ mod 256) = CHR 0xFF" by code_simp
  with True assms(2) have "current ls \<noteq> EOZ" by (auto simp: strchr_has_def)
  with True assms(1) save_and_next_left [of ls ls'] show ?thesis by (auto simp: check_next_def result_simps)
next
  case False
  with assms(1) show ?thesis by (simp add: check_next_def)
qed

lemma buffreplace_left [simp]: "lex_left (buffreplace a b ls) = lex_left ls"
  and decpoint_left [simp]: "lex_left (ls\<lparr>decpoint := c\<rparr>) = lex_left ls"
  by (simp_all add: buffreplace_def lex_left_def)

lemma read_numeral_left:
  assumes "read_numeral ls = Inr (r, ls')" and "current ls \<noteq> EOZ"
  shows "lex_left ls' < lex_left ls"
proof -
  obtain a b c e d x e' f where 1: "save_and_next ls = Inr a"
    and 2: "save_while (\<lambda>c. isdigit c \<or> c = uchar CHR ''.'') a = Inr b"
    and 3: "check_next b ''Ee'' = Inr (e, c)" and 4: "(if e then check_next c ''+-'' else Inr (False, c)) = Inr (x, d)"
    and 5: "save_while (\<lambda>c. isalnum c \<or> c = uchar CHR ''_'') d = Inr e'" and 6: "save 0 e' = Inr f"
    and 7: "(let ls = buffreplace CHR ''.'' (decpoint f) f
       in case luaO_str2d (locale_point ls) (cstr (lex_buff ls)) of
            Some r \<Rightarrow> Inr (r, ls) | None \<Rightarrow> trydecpoint ls) = Inr (r, ls')"
    using assms(1) by (auto simp: read_numeral_def result_simps)
  have "lex_left d \<le> lex_left c" using 4 check_next_left [of c "''+-''" x d] by (auto split: if_splits)
  moreover have "lex_left ls' = lex_left f"
    using 7 by (auto simp: Let_def trydecpoint_def split: option.splits)
  ultimately show ?thesis
    using save_and_next_left [OF 1 assms(2)] save_while_left [OF 2] check_next_left [OF 3] save_while_left [OF 5]
      save_same(1) [OF 6] by simp
qed

lemma read_string_loop_left: "read_string_loop del ls = Inr ls' \<Longrightarrow> lex_left ls' \<le> lex_left ls \<and> current ls' = del"
proof (induction del ls rule: read_string_loop.induct)
  case (1 del ls)
  note p = "1.prems" and IH = "1.IH"
  show ?case
  proof (cases "current ls = del")
    case True
    with p show ?thesis by (subst (asm) read_string_loop.simps) simp
  next
    case False
    with p have "current ls \<noteq> EOZ \<and> \<not> currIsNewline ls"
      by (subst (asm) read_string_loop.simps) (auto split: if_splits)
    then have ne: "current ls \<noteq> EOZ" "\<not> currIsNewline ls" by auto
    show ?thesis
    proof (cases "current ls = uchar CHR 0x5C")
      case True
      with p False ne obtain x where x: "read_escape ls = Inr x" "read_string_loop del x = Inr ls'"
        by (subst (asm) read_string_loop.simps) (auto simp: result_simps split: if_splits)
      from IH(1) [OF False ne True x] read_escape_left [OF x(1) ne(1)] show ?thesis by simp
    next
      case f: False
      with p False ne obtain x where x: "save_and_next ls = Inr x" "read_string_loop del x = Inr ls'"
        by (subst (asm) read_string_loop.simps) (auto simp: result_simps split: if_splits)
      from IH(2) [OF False ne f x] save_and_next_left [OF x(1) ne(1)] show ?thesis by simp
    qed
  qed
qed

lemma read_string_left:
  assumes "read_string del ls = Inr (x, ls')" and "current ls \<noteq> EOZ" "del \<noteq> EOZ"
  shows "lex_left ls' < lex_left ls"
proof -
  obtain a b c where 1: "save_and_next ls = Inr a" and 2: "read_string_loop del a = Inr b" and 3: "save_and_next b = Inr c"
    and 4: "buff_string 1 c = Inr (x, ls')"
    using assms(1) by (auto simp: read_string_def result_simps)
  have "current b \<noteq> EOZ" using read_string_loop_left [OF 2] assms(3) by simp
  with save_and_next_left [OF 1 assms(2)] read_string_loop_left [OF 2] save_and_next_left [OF 3] buff_string_left [OF 4]
  show ?thesis by simp
qed

lemma name_token_left:
  assumes "name_token ls sem = Inr (tk, s, ls')" and "current ls \<noteq> EOZ"
  shows "lex_left ls' < lex_left ls"
proof -
  obtain a b ts where 1: "save_and_next ls = Inr a" and 2: "save_while (\<lambda>c. isalnum c \<or> c = uchar CHR ''_'') a = Inr b"
    and 3: "luaX_newstring b (lex_buff b) = Inr (ts, ls')"
    using assms(1) by (auto simp: name_token_def result_simps split: if_splits)
  from save_and_next_left [OF 1 assms(2)] save_while_left [OF 2] newstring_left [OF 3] show ?thesis by simp
qed

lemma numeral_token_left:
  "numeral_token ls = Inr (tk, s, ls') \<Longrightarrow> current ls \<noteq> EOZ \<Longrightarrow> lex_left ls' < lex_left ls"
  by (auto simp: numeral_token_def result_simps dest: read_numeral_left)

lemma dots_token_left:
  assumes "dots_token ls sem = Inr (tk, s, ls')" and "current ls \<noteq> EOZ"
  shows "lex_left ls' < lex_left ls"
proof -
  obtain a d b where 1: "save_and_next ls = Inr a" and 2: "check_next a ''.'' = Inr (d, b)"
    and 3: "(if d then bind_result (check_next b ''.'') (\<lambda>(dot, ls). Inr (if dot then TK_DOTS else TK_CONCAT, sem, ls))
       else if \<not> isdigit (current b) then Inr (uchar CHR ''.'', sem, b) else numeral_token b) = Inr (tk, s, ls')"
    using assms(1) by (auto simp: dots_token_def result_simps)
  have "lex_left ls' \<le> lex_left b"
    using 3 numeral_token_left [of b tk s ls'] isdigit_not_EOZ [of "current b"]
    by (auto simp: result_simps dest: check_next_left split: if_splits)
  with save_and_next_left [OF 1 assms(2)] check_next_left [OF 2] show ?thesis by simp
qed

lemma compound_left:
  assumes "compound ls c t sem = Inr (tk, s, ls')" and "current ls \<noteq> EOZ"
  shows "lex_left ls' < lex_left ls"
proof -
  obtain a where 1: "next_char ls = Inr a"
    and 2: "(if current a \<noteq> uchar CHR ''='' then Inr (uchar c, sem, a)
       else bind_result (next_char a) (\<lambda>ls. Inr (t, sem, ls))) = Inr (tk, s, ls')"
    using assms(1) by (auto simp: compound_def result_simps)
  have "lex_left ls' \<le> lex_left a"
    using 2 next_char_left_le [of a ls'] dot_not_EOZ [of "current a"] by (auto simp: result_simps split: if_splits)
  with next_char_left [OF 1 assms(2)] show ?thesis by simp
qed

lemma token_at_left:
  assumes t: "token_at ls sem = Inr (tk, s, ls')" and ne: "current ls \<noteq> EOZ"
  shows "lex_left ls' < lex_left ls"
proof (cases "current ls = uchar CHR ''[''")
  case True
  with t obtain sep x where s: "skip_sep ls = Inr (sep, x)"
    by (auto simp: token_at_def Let_def result_simps)
  note l = skip_sep_left [OF s ne]
  show ?thesis
  proof (cases "0 \<le> sep")
    case True
    with t \<open>current ls = uchar CHR ''[''\<close> s obtain y where y: "read_long_string True sep x = Inr (y, ls')"
      by (auto simp: token_at_def Let_def result_simps)
    have "current x \<noteq> EOZ" using skip_sep_current [OF s True] ne by simp
    from read_long_string_left [OF y this] l show ?thesis by simp
  next
    case False
    with t \<open>current ls = uchar CHR ''[''\<close> s l show ?thesis
      by (auto simp: token_at_def Let_def result_simps split: if_splits)
  qed
next
  case False
  with t ne show ?thesis
    by (auto simp: token_at_def Let_def result_simps split: if_splits
        intro: compound_left dots_token_left numeral_token_left name_token_left read_string_left next_char_left)
qed


lemma token_at_EOZ: "current ls = EOZ \<Longrightarrow> token_at ls sem = Inr (TK_EOS, sem, ls)"
  by (auto simp: token_at_def Let_def dest: dot_not_EOZ)

lemma llex_loop_left_le:
  "llex_loop ls sem = Inr (tk, s, ls') \<Longrightarrow>
    lex_left ls' \<le> lex_left ls \<and> (tk \<noteq> TK_EOS \<or> current ls' \<noteq> EOZ \<longrightarrow> lex_left ls' < lex_left ls)"
proof (induction ls sem rule: llex_loop.induct)
  case (1 ls sem)
  note p = "1.prems" and IH = "1.IH"
  consider (nl) "currIsNewline ls" | (dash) "\<not> currIsNewline ls" "current ls = uchar CHR ''-''"
    | (sp) "\<not> currIsNewline ls" "current ls \<noteq> uchar CHR ''-''" "isspace (current ls)"
    | (tok) "\<not> currIsNewline ls" "current ls \<noteq> uchar CHR ''-''" "\<not> isspace (current ls)" by blast
  then show ?case
  proof cases
    case nl
    with p obtain x where x: "inclinenumber ls = Inr x" "llex_loop x sem = Inr (tk, s, ls')"
      by (subst (asm) llex_loop.simps) (auto simp: result_simps)
    from IH(1) [OF nl x] inclinenumber_left [OF x(1) newline_not_EOZ [OF nl]] show ?thesis by simp
  next
    case dash
    note ne = dot_not_EOZ [OF dash(2)]
    obtain x where x: "next_char ls = Inr x" using p dash by (subst (asm) llex_loop.simps) (auto simp: result_simps)
    note l = next_char_left [OF x ne]
    show ?thesis
    proof (cases "current x \<noteq> uchar CHR ''-''")
      case True
      with p dash x l show ?thesis by (subst (asm) llex_loop.simps) auto
    next
      case d: False
      with p dash x obtain y where y: "skip_comment x = Inr y" "llex_loop y sem = Inr (tk, s, ls')"
        by (subst (asm) llex_loop.simps) (auto simp: result_simps)
      have "current x \<noteq> EOZ" using d dot_not_EOZ by simp
      from IH(2) [OF dash x d y] skip_comment_left [OF y(1) this] l show ?thesis by simp
    qed
  next
    case sp
    then have ne: "current ls \<noteq> EOZ" by (auto simp: isspace_def EOZ_def)
    from p sp obtain x where x: "next_char ls = Inr x" "llex_loop x sem = Inr (tk, s, ls')"
      by (subst (asm) llex_loop.simps) (auto simp: result_simps)
    from IH(3) [OF sp x] next_char_left [OF x(1) ne] show ?thesis by simp
  next
    case tok
    with p have t: "token_at ls sem = Inr (tk, s, ls')" by (subst (asm) llex_loop.simps) simp
    show ?thesis
    proof (cases "current ls = EOZ")
      case True
      with t token_at_EOZ show ?thesis by auto
    next
      case False
      with token_at_left [OF t] show ?thesis by auto
    qed
  qed
qed

lemma llex_loop_left:
  "llex_loop ls sem = Inr (tk, s, ls') \<Longrightarrow> tk \<noteq> TK_EOS \<or> current ls' \<noteq> EOZ \<Longrightarrow> lex_left ls' < lex_left ls"
  using llex_loop_left_le by blast

section \<open>Tokenizing a chunk\<close>

text \<open>The tokens of the input up to its end, with at most \<open>f\<close> calls of \<open>llex\<close>.\<close>

fun tokens :: "nat \<Rightarrow> LexState \<Rightarrow> (int \<times> SemInfo) list result" where
  "tokens 0 ls = Inl NoFuel"
| "tokens (Suc f) ls =
     bind_result (llex ls SNone) (\<lambda>(tk, s, ls).
       if tk = TK_EOS \<and> current ls = EOZ then Inr []
       else bind_result (tokens f ls) (\<lambda>ts. Inr ((tk, s) # ts)))"

text \<open>A state that reads the bytes of \<open>s\<close> from a stream of one block.\<close>

definition lex_at :: "c_string \<Rightarrow> LexState" where
  "lex_at s =
     \<lparr>current = (case s of [] \<Rightarrow> EOZ | c # _ \<Rightarrow> uchar c), linenumber = 1, lastline = 1,
      lex_t = \<lparr>token = TK_EOS, seminfo = SNone\<rparr>, lookahead = \<lparr>token = TK_EOS, seminfo = SNone\<rparr>,
      lex_z = \<lparr>zn = int (length (tl s)), zp = tl s, zdata = []\<rparr>, lex_buff = [], lex_buffsize = LUA_MINBUFFER,
      lex_source = ''=chunk'', decpoint = CHR ''.'', locale_point = CHR ''.'', fs_h = small_table\<rparr>"

lemma lex_at_ok: "int (length s) < 2 ^ 64 \<Longrightarrow> lex_ok (lex_at s)"
  using uchar_bounds [of "hd s"] by (cases s) (auto simp: lex_ok_def lex_at_def LUA_MINBUFFER_def zio_ok_def)


lemma tokens_end:
  "lex_ok ls \<Longrightarrow> table_inv (fs_h ls) \<Longrightarrow> pair_count (fs_h ls) + lex_left ls < 2 ^ 26 \<Longrightarrow> lex_left ls < f \<Longrightarrow>
    lex_post (\<lambda>ts. length ts \<le> lex_left ls) (tokens f ls)"
proof (induction f arbitrary: ls)
  case (Suc f)
  have few: "pair_count (fs_h ls) < 2 ^ 26" using Suc.prems(3) by simp
  show ?case
    unfolding tokens.simps
  proof (rule lex_post_bind [OF llex_ok [OF Suc.prems(1,2) few]], clarify)
    fix tk s ls' assume l: "llex ls SNone = Inr (tk, s, ls')" and "tok_post ls (tk, s, ls')"
    then have x: "lex_ok ls'" "table_inv (fs_h ls')" "pair_count (fs_h ls') \<le> pair_count (fs_h ls) + 1" by (auto simp: lexed_def)
    have "lex_post (\<lambda>ts. length ts \<le> lex_left ls) (bind_result (tokens f ls') (\<lambda>ts. Inr ((tk, s) # ts)))"
      if "\<not> (tk = TK_EOS \<and> current ls' = EOZ)"
    proof -
      have less: "lex_left ls' < lex_left ls"
        using llex_loop_left [of "ls\<lparr>lex_buff := []\<rparr>" SNone tk s ls'] l that by (simp add: llex_def)
      have "lex_post (\<lambda>ts. length ts \<le> lex_left ls') (tokens f ls')"
        using x less Suc.prems(3,4) by (intro Suc.IH) auto
      then show ?thesis by (rule lex_post_bind) (use less in auto)
    qed
    then show "lex_post (\<lambda>ts. length ts \<le> lex_left ls) (if tk = TK_EOS \<and> current ls' = EOZ then Inr []
       else bind_result (tokens f ls') (\<lambda>ts. Inr ((tk, s) # ts)))" by simp
  qed
qed simp

section \<open>Properties\<close>

text \<open>
  Claim \<open>C19\<close>: One call of the lexer ends with a token, and the state is again one from which the
  lexer may go on, or with a syntax error. It never reads outside the input or the buffer, and it
  anchors at most one new string in the table of constants.
\<close>

theorem llex_total:
  assumes "lex_ok ls" and "table_inv (fs_h ls)" and "pair_count (fs_h ls) < 2 ^ 26"
  shows "(\<exists>tk s ls'. llex ls sem = Inr (tk, s, ls') \<and> lex_ok ls' \<and> table_inv (fs_h ls')
      \<and> pair_count (fs_h ls') \<le> pair_count (fs_h ls) + 1)
    \<or> (\<exists>m. llex ls sem = Inl (ErrSyntax m))"
  using llex_ok [OF assms, of sem] by (cases "llex ls sem") (auto simp: lex_post_def lexed_def)

lemma llex_total_witness:
  "(\<exists>tk s ls'. llex (lex_at ''[=[ x'') SNone = Inr (tk, s, ls') \<and> lex_ok ls')
    \<or> (\<exists>m. llex (lex_at ''[=[ x'') SNone = Inl (ErrSyntax m))"
  using llex_total [of "lex_at ''[=[ x''" SNone] lex_at_ok [of "''[=[ x''"] small_table_inv
  by (auto simp: lex_at_def)

text \<open>
  Claim \<open>C20\<close>: The lexer reaches the end of every chunk: calling it again and again, at most as
  often as there is input left, gives a list of tokens up to the end of the stream, or a syntax
  error.
\<close>

theorem tokens_reach_end:
  assumes "lex_ok ls" and "table_inv (fs_h ls)" and "pair_count (fs_h ls) + lex_left ls < 2 ^ 26"
    and "lex_left ls < f"
  shows "(\<exists>ts. tokens f ls = Inr ts \<and> length ts \<le> lex_left ls) \<or> (\<exists>m. tokens f ls = Inl (ErrSyntax m))"
  using tokens_end [OF assms] by (cases "tokens f ls") (auto simp: lex_post_def)

lemma tokens_reach_end_witness:
  "(\<exists>ts. tokens 10 (lex_at ''x=1'') = Inr ts) \<or> (\<exists>m. tokens 10 (lex_at ''x=1'') = Inl (ErrSyntax m))"
proof -
  have "lex_left (lex_at ''x=1'') = 5" by code_simp
  then show ?thesis
    using tokens_reach_end [of "lex_at ''x=1''" 10] lex_at_ok [of "''x=1''"] small_table_inv by (auto simp: lex_at_def)
qed

text \<open>
  The test for an exponent letter also accepts a zero byte, as \<open>strchr\<close> finds the end
  of the set: of a one, a zero byte and \<open>+5\<close> the lexer makes the single numeral 1.
\<close>

lemma zero_byte_in_numeral:
  "tokens 10 (lex_at (''1'' @ [CHR 0x00] @ ''+5'')) = Inr [(TK_NUMBER, SNumber (cast_num 1))]"
  by code_simp

end
