(* ===== verification/LuaMatch.thy ===== *)
theory LuaMatch
  imports LuaObject LuaStr2d
begin

text \<open>
  The pattern matcher of \<open>lstrlib.c\<close>. A pointer into the subject is an index, one into the
  pattern the rest of the pattern from there, with its terminating zero; a read past either
  end is \<open>OutOfBounds\<close>. The subject keeps the zero C puts after it: reading it at its length
  gives a zero. A result \<open>None\<close> is the null pointer. The capture array has the
  \<open>LUA_MAXCAPTURES\<close> entries of the code.
\<close>

section \<open>State\<close>

definition LUA_MAXCAPTURES :: nat where "LUA_MAXCAPTURES = 32"
definition CAP_UNFINISHED :: int where "CAP_UNFINISHED = - 1"
definition CAP_POSITION :: int where "CAP_POSITION = - 2"

record MatchState =
  ms_src :: c_string
  ms_level :: nat
  ms_capture :: "(nat \<times> int) list"

definition L_ESC :: char where "L_ESC = CHR ''%''"
definition NUL :: char where "NUL = CHR 0x00"

definition src_at :: "MatchState \<Rightarrow> nat \<Rightarrow> char result" where
  "src_at ms s =
     (if s < length (ms_src ms) then Inr (ms_src ms ! s)
      else if s = length (ms_src ms) then Inr NUL else Inl OutOfBounds)"

section \<open>Captures\<close>

definition check_capture :: "MatchState \<Rightarrow> int \<Rightarrow> nat result" where
  "check_capture ms l =
     (let l = l - uchar CHR ''1''
      in if l < 0 \<or> l \<ge> int (ms_level ms) \<or> snd (ms_capture ms ! nat l) = CAP_UNFINISHED
         then Inl (ErrRun ''invalid capture index'') else Inr (nat l))"

fun capture_to_close_loop :: "(nat \<times> int) list \<Rightarrow> nat \<Rightarrow> nat result" where
  "capture_to_close_loop cs 0 = Inl (ErrRun ''invalid pattern capture'')"
| "capture_to_close_loop cs (Suc level) =
     (if snd (cs ! level) = CAP_UNFINISHED then Inr level else capture_to_close_loop cs level)"

definition capture_to_close :: "MatchState \<Rightarrow> nat result" where
  "capture_to_close ms = capture_to_close_loop (ms_capture ms) (ms_level ms)"

section \<open>Single characters\<close>

text \<open>The loop of \<open>classend\<close> that looks for the closing bracket.\<close>

function bracket_end :: "c_string \<Rightarrow> c_string result" where
  "bracket_end p =
     (if p = [] then Inl OutOfBounds
      else if hd p = NUL then Inl (ErrRun (''malformed pattern (missing '' @ LUA_QL '']'' @ '')''))
      else let c = hd p; p = tl p
           in if p = [] then Inl OutOfBounds
              else let p = (if c = L_ESC \<and> hd p \<noteq> NUL then tl p else p)
                   in if p = [] then Inl OutOfBounds
                      else if hd p = CHR '']'' then Inr (tl p) else bracket_end p)"
  by pat_completeness auto
termination bracket_end
  by (relation "measure length") (auto simp: length_greater_0_conv [symmetric] simp del: length_greater_0_conv)

declare bracket_end.simps [simp del]

fun classend :: "c_string \<Rightarrow> c_string result" where
  "classend [] = Inl OutOfBounds"
| "classend (c # p) =
     (if c = L_ESC then
        (case p of
           [] \<Rightarrow> Inl OutOfBounds
         | d # q \<Rightarrow>
             if d = NUL then Inl (ErrRun (''malformed pattern (ends with '' @ LUA_QL ''%'' @ '')''))
             else Inr q)
      else if c = CHR ''['' then
        (case p of
           [] \<Rightarrow> Inl OutOfBounds
         | d # q \<Rightarrow> if d = CHR ''^'' then bracket_end q else bracket_end p)
      else Inr p)"

definition match_class :: "int \<Rightarrow> int \<Rightarrow> bool" where
  "match_class c cl =
     (let k = char_of (tolower cl);
          res = (\<lambda>b. if islower cl then b else \<not> b)
      in if k = CHR ''a'' then res (isalpha c)
         else if k = CHR ''c'' then res (iscntrl c)
         else if k = CHR ''d'' then res (isdigit c)
         else if k = CHR ''l'' then res (islower c)
         else if k = CHR ''p'' then res (ispunct c)
         else if k = CHR ''s'' then res (isspace c)
         else if k = CHR ''u'' then res (isupper c)
         else if k = CHR ''w'' then res (isalnum c)
         else if k = CHR ''x'' then res (isxdigit c)
         else if k = CHR ''z'' then res (c = 0)
         else cl = c)"

text \<open>
  The elements of a set, between the bracket (or the circumflex) and the closing bracket, which
  is what the code reads one past the last element.
\<close>

fun bracket_match :: "int \<Rightarrow> c_string \<Rightarrow> bool" where
  "bracket_match c [] = False"
| "bracket_match c (x # p) =
     (if x = L_ESC then
        (case p of
           [] \<Rightarrow> match_class c (uchar CHR '']'')
         | y # q \<Rightarrow> match_class c (uchar y) \<or> bracket_match c q)
      else case p of
        d # y # q \<Rightarrow>
          if d = CHR ''-'' then uchar x \<le> c \<and> c \<le> uchar y \<or> bracket_match c q
          else uchar x = c \<or> bracket_match c p
      | _ \<Rightarrow> uchar x = c \<or> bracket_match c p)"

text \<open>\<open>p\<close> starts at the opening bracket; \<open>ep\<close> is what follows the closing one.\<close>

definition matchbracketclass :: "int \<Rightarrow> c_string \<Rightarrow> c_string \<Rightarrow> bool" where
  "matchbracketclass c p ep =
     (let body = tl (take (length p - length ep - 1) p)
      in if body \<noteq> [] \<and> hd body = CHR ''^'' then \<not> bracket_match c (tl body) else bracket_match c body)"

definition singlematch :: "int \<Rightarrow> c_string \<Rightarrow> c_string \<Rightarrow> bool" where
  "singlematch c p ep =
     (if hd p = CHR ''.'' then True
      else if hd p = L_ESC then match_class c (uchar (p ! 1))
      else if hd p = CHR ''['' then matchbracketclass c p ep
      else uchar (hd p) = c)"

section \<open>Items with a continuation\<close>

text \<open>
  The functions that call \<open>match\<close> get it, for the rest of the pattern, as a parameter \<open>m\<close>.
\<close>

type_synonym outcome = "(nat option \<times> MatchState) result"

fun balance_loop :: "char \<Rightarrow> char \<Rightarrow> nat \<Rightarrow> nat \<Rightarrow> c_string \<Rightarrow> nat option" where
  "balance_loop b e count s [] = None"
| "balance_loop b e count s (c # r) =
     (if c = e then (if count = 1 then Some (s + 1) else balance_loop b e (count - 1) (s + 1) r)
      else if c = b then balance_loop b e (count + 1) (s + 1) r
      else balance_loop b e count (s + 1) r)"

definition matchbalance :: "MatchState \<Rightarrow> nat \<Rightarrow> c_string \<Rightarrow> nat option result" where
  "matchbalance ms s p =
     (case p of
        [] \<Rightarrow> Inl OutOfBounds
      | b # q \<Rightarrow>
          if b = NUL then Inl (ErrRun ''unbalanced pattern'')
          else case q of
            [] \<Rightarrow> Inl OutOfBounds
          | e # _ \<Rightarrow>
              if e = NUL then Inl (ErrRun ''unbalanced pattern'')
              else bind_result (src_at ms s) (\<lambda>c.
                if c \<noteq> b then Inr None
                else Inr (balance_loop b e 1 (s + 1) (drop (s + 1) (ms_src ms)))))"

fun max_try :: "(MatchState \<Rightarrow> nat \<Rightarrow> outcome) \<Rightarrow> MatchState \<Rightarrow> nat \<Rightarrow> nat \<Rightarrow> outcome" where
  "max_try m ms s i =
     bind_result (m ms (s + i)) (\<lambda>(res, ms).
       case res of
         Some r \<Rightarrow> Inr (Some r, ms)
       | None \<Rightarrow> (case i of 0 \<Rightarrow> Inr (None, ms) | Suc j \<Rightarrow> max_try m ms s j))"

declare max_try.simps [simp del]

definition max_expand ::
    "(MatchState \<Rightarrow> nat \<Rightarrow> outcome) \<Rightarrow> MatchState \<Rightarrow> nat \<Rightarrow> c_string \<Rightarrow> c_string \<Rightarrow> outcome" where
  "max_expand m ms s p ep =
     max_try m ms s (length (takeWhile (\<lambda>c. singlematch (uchar c) p ep) (drop s (ms_src ms))))"

text \<open>The last argument is the subject from \<open>s\<close> on.\<close>

fun min_try ::
    "(MatchState \<Rightarrow> nat \<Rightarrow> outcome) \<Rightarrow> (char \<Rightarrow> bool) \<Rightarrow> MatchState \<Rightarrow> nat \<Rightarrow> c_string \<Rightarrow> outcome" where
  "min_try m single ms s rest =
     bind_result (m ms s) (\<lambda>(res, ms).
       case res of
         Some r \<Rightarrow> Inr (Some r, ms)
       | None \<Rightarrow>
           (case rest of
              c # rest \<Rightarrow> if single c then min_try m single ms (s + 1) rest else Inr (None, ms)
            | [] \<Rightarrow> Inr (None, ms)))"

declare min_try.simps [simp del]

definition min_expand ::
    "(MatchState \<Rightarrow> nat \<Rightarrow> outcome) \<Rightarrow> MatchState \<Rightarrow> nat \<Rightarrow> c_string \<Rightarrow> c_string \<Rightarrow> outcome" where
  "min_expand m ms s p ep = min_try m (\<lambda>c. singlematch (uchar c) p ep) ms s (drop s (ms_src ms))"

definition start_capture :: "(MatchState \<Rightarrow> outcome) \<Rightarrow> MatchState \<Rightarrow> nat \<Rightarrow> int \<Rightarrow> outcome" where
  "start_capture m ms s what =
     (let level = ms_level ms
      in if level \<ge> LUA_MAXCAPTURES then Inl (ErrRun ''too many captures'')
         else bind_result (m (ms\<lparr>ms_capture := (ms_capture ms)[level := (s, what)], ms_level := level + 1\<rparr>)) (\<lambda>(res, ms).
                Inr (res, if res = None then ms\<lparr>ms_level := ms_level ms - 1\<rparr> else ms)))"

definition end_capture :: "(MatchState \<Rightarrow> outcome) \<Rightarrow> MatchState \<Rightarrow> nat \<Rightarrow> outcome" where
  "end_capture m ms s =
     bind_result (capture_to_close ms) (\<lambda>l.
       let init = fst (ms_capture ms ! l)
       in bind_result (m (ms\<lparr>ms_capture := (ms_capture ms)[l := (init, int s - int init)]\<rparr>)) (\<lambda>(res, ms).
            Inr (res, if res = None
                      then ms\<lparr>ms_capture := (ms_capture ms)[l := (fst (ms_capture ms ! l), CAP_UNFINISHED)]\<rparr>
                      else ms)))"

text \<open>\<open>len\<close> is unsigned: the length of a position capture is larger than any subject.\<close>

definition match_capture :: "MatchState \<Rightarrow> nat \<Rightarrow> int \<Rightarrow> nat option result" where
  "match_capture ms s l =
     bind_result (check_capture ms l) (\<lambda>l.
       let (init, len) = ms_capture ms ! l; len = len mod 2 ^ 64
       in if int (length (ms_src ms)) - int s \<ge> len then
            if int init + len \<le> int (length (ms_src ms)) then
              Inr (if take (nat len) (drop init (ms_src ms)) = take (nat len) (drop s (ms_src ms))
                   then Some (s + nat len) else None)
            else Inl OutOfBounds
          else Inr None)"

section \<open>\<open>match\<close>\<close>

lemma bracket_end_shorter: "bracket_end p = Inr ep \<Longrightarrow> length ep < length p"
proof (induction p rule: bracket_end.induct)
  case (1 p)
  let ?p = "if hd p = L_ESC \<and> hd (tl p) \<noteq> NUL then tl (tl p) else tl p"
  have "p \<noteq> [] \<and> hd p \<noteq> NUL \<and> tl p \<noteq> [] \<and> ?p \<noteq> []
      \<and> (hd ?p = CHR '']'' \<and> ep = tl ?p \<or> hd ?p \<noteq> CHR '']'' \<and> bracket_end ?p = Inr ep)"
    using "1.prems" unfolding bracket_end.simps [of p] Let_def
    by (simp split: if_splits) (auto simp: NUL_def)
  then have p: "p \<noteq> []" "hd p \<noteq> NUL" "tl p \<noteq> []" "?p \<noteq> []"
    "hd ?p = CHR '']'' \<and> ep = tl ?p \<or> hd ?p \<noteq> CHR '']'' \<and> bracket_end ?p = Inr ep" by blast+
  have "length ?p < length p" using p(1) by (cases p) auto
  moreover
  have "x \<noteq> [] \<Longrightarrow> length (tl x) < length x" for x :: c_string by (cases x) auto
  note shorter = this [OF p(4)]
  from p(5) have "length ep < length ?p"
  proof
    assume "hd ?p = CHR '']'' \<and> ep = tl ?p"
    with shorter show ?thesis by blast
  next
    assume "hd ?p \<noteq> CHR '']'' \<and> bracket_end ?p = Inr ep"
    then show ?thesis using "1.IH" [OF p(1,2) refl refl p(3) refl p(4)] by blast
  qed
  ultimately show ?case by simp
qed

lemma classend_shorter: "classend p = Inr ep \<Longrightarrow> length ep < length p"
  by (cases p) (auto dest!: bracket_end_shorter split: if_splits list.splits)

declare classend.simps [simp del]

text \<open>
  The pattern item at \<open>p\<close> is parsed first: what \<open>match\<close> does in its cases, in their order.
\<close>

function match :: "MatchState \<Rightarrow> nat \<Rightarrow> c_string \<Rightarrow> outcome" where
  "match ms s p =
     (case p of
        [] \<Rightarrow> Inl OutOfBounds
      | c # p1 \<Rightarrow>
          if c = CHR ''('' then
            (case p1 of
               [] \<Rightarrow> Inl OutOfBounds
             | d # p2 \<Rightarrow>
                 if d = CHR '')'' then start_capture (\<lambda>ms. match ms s p2) ms s CAP_POSITION
                 else start_capture (\<lambda>ms. match ms s p1) ms s CAP_UNFINISHED)
          else if c = CHR '')'' then end_capture (\<lambda>ms. match ms s p1) ms s
          else if c = L_ESC \<and> p1 = [] then Inl OutOfBounds
          else if c = L_ESC \<and> hd p1 = CHR ''b'' then
            bind_result (matchbalance ms s (tl p1)) (\<lambda>r. case r of
              None \<Rightarrow> Inr (None, ms)
            | Some s \<Rightarrow> match ms s (drop 3 p1))
          else if c = L_ESC \<and> hd p1 = CHR ''f'' then
            (let p = tl p1
             in if p = [] then Inl OutOfBounds
                else if hd p \<noteq> CHR ''['' then Inl (ErrRun (''missing '' @ LUA_QL ''['' @ '' after '' @ LUA_QL ''%f'' @ '' in pattern''))
                else bind_result (classend p) (\<lambda>ep.
                  bind_result (if s = 0 then Inr NUL else src_at ms (s - 1)) (\<lambda>previous.
                  bind_result (src_at ms s) (\<lambda>cur.
                    if matchbracketclass (uchar previous) p ep \<or> \<not> matchbracketclass (uchar cur) p ep
                    then Inr (None, ms) else match ms s ep))))
          else if c = L_ESC \<and> isdigit (uchar (hd p1)) then
            bind_result (match_capture ms s (uchar (hd p1))) (\<lambda>r. case r of
              None \<Rightarrow> Inr (None, ms)
            | Some s \<Rightarrow> match ms s (tl p1))
          else if c = NUL then Inr (Some s, ms)
          else if c = CHR ''$'' \<and> p1 = [] then Inl OutOfBounds
          else if c = CHR ''$'' \<and> hd p1 = NUL then
            Inr (if s = length (ms_src ms) then Some s else None, ms)
          else
            bind_result (classend p) (\<lambda>ep.
              let m = (s < length (ms_src ms) \<and> singlematch (uchar (ms_src ms ! s)) p ep)
              in case ep of
                   [] \<Rightarrow> Inl OutOfBounds
                 | q # ep1 \<Rightarrow>
                     if q = CHR ''?'' then
                       bind_result (if m then match ms (s + 1) ep1 else Inr (None, ms)) (\<lambda>(res, ms).
                         case res of Some r \<Rightarrow> Inr (Some r, ms) | None \<Rightarrow> match ms s ep1)
                     else if q = CHR ''*'' then max_expand (\<lambda>ms s. match ms s ep1) ms s p ep
                     else if q = CHR ''+'' then
                       (if m then max_expand (\<lambda>ms s. match ms s ep1) ms (s + 1) p ep else Inr (None, ms))
                     else if q = CHR ''-'' then min_expand (\<lambda>ms s. match ms s ep1) ms s p ep
                     else if \<not> m then Inr (None, ms)
                     else match ms (s + 1) ep))"
  by pat_completeness auto
termination match
proof (relation "measure (\<lambda>(ms, s, p). length p)")
  fix ms ms' :: MatchState and s s' :: nat and c d q :: char and p p' p1 p2 ep ep1 :: c_string
  let ?R = "measure (\<lambda>(ms, s, p). length p) :: ((MatchState \<times> nat \<times> c_string) \<times> (MatchState \<times> nat \<times> c_string)) set"
  show "wf ?R" by simp
  show "((ms', s', p2), (ms, s, p)) \<in> ?R" if "p = c # p1" "p1 = d # p2" using that by simp
  show "((ms', s', p1), (ms, s, p)) \<in> ?R" if "p = c # p1" using that by simp
  then show "((ms', s', p1), (ms, s, p)) \<in> ?R" if "p = c # p1" using that by simp
  show "((ms', s', drop 3 p1), (ms, s, p)) \<in> ?R" if "p = c # p1" using that by simp
  show "((ms', s', tl p1), (ms, s, p)) \<in> ?R" if "p = c # p1" using that by simp
  show "((ms', s', ep), (ms, s, p)) \<in> ?R" if "p = c # p1" "p' = tl p1" "classend p' = Inr ep"
    using that classend_shorter [of p' ep] by simp
  have e: "((ms', s', ep), (ms, s, p)) \<in> ?R" if "classend p = Inr ep"
    using that classend_shorter [of p ep] by simp
  then show "((ms', s', ep), (ms, s, p)) \<in> ?R" if "classend p = Inr ep" using that .
  have e1: "((ms', s', ep1), (ms, s, p)) \<in> ?R" if "classend p = Inr ep" "ep = q # ep1"
    using that classend_shorter [of p ep] by simp
  then show "((ms', s', ep1), (ms, s, p)) \<in> ?R" if "classend p = Inr ep" "ep = q # ep1" using that .
  from e1 show "((ms', s', ep1), (ms, s, p)) \<in> ?R" if "classend p = Inr ep" "ep = q # ep1" using that .
  from e1 show "((ms', s', ep1), (ms, s, p)) \<in> ?R" if "classend p = Inr ep" "ep = q # ep1" using that .
  from e1 show "((ms', s', ep1), (ms, s, p)) \<in> ?R" if "classend p = Inr ep" "ep = q # ep1" using that .
  from e1 show "((ms', s', ep1), (ms, s, p)) \<in> ?R" if "classend p = Inr ep" "ep = q # ep1" using that .
qed

declare match.simps [simp del]

end
