(* ===== verification/LuaSprintf.thy ===== *)
theory LuaSprintf
  imports LuaStr2d
begin

text \<open>
  \<open>sprintf\<close> of the C library for one conversion, as \<open>lua_number2str\<close> (\<open>luaconf.h\<close>) and
  \<open>string.format\<close> use it: the conversions of \<open>c d i o u x X e E f g G s\<close> with flags, width
  and precision, in round-to-nearest. The decimal point of the locale is an argument.
\<close>

section \<open>Conversion specifications\<close>

record conv_spec =
  f_minus :: bool
  f_plus :: bool
  f_space :: bool
  f_alt :: bool
  f_zero :: bool
  f_width :: nat
  f_prec :: "nat option"
  f_conv :: char

text \<open>The argument: an integer of 64 bits (or a promoted \<open>int\<close>), a double, a string.\<close>

datatype sprintf_arg = SInt int | SDouble lua_Number | SStr c_string

definition is_flag :: "char \<Rightarrow> bool" where
  "is_flag c \<longleftrightarrow> c \<in> {CHR ''-'', CHR ''+'', CHR '' '', CHR ''#'', CHR ''0''}"

definition nat_of_digits :: "c_string \<Rightarrow> nat" where
  "nat_of_digits ds = nat (digits_value 10 ds)"

text \<open>The text after the percent sign; length modifiers are skipped.\<close>

definition parse_spec :: "c_string \<Rightarrow> conv_spec option" where
  "parse_spec s =
     (let flags = takeWhile is_flag s;
          (width, s1) = span isdigit (dropWhile is_flag s);
          (prec, s2) = (case s1 of
             c # s' \<Rightarrow> if c = CHR ''.'' then (case span isdigit s' of (ds, r) \<Rightarrow> (Some (nat_of_digits ds), r))
                        else (None, s1)
           | [] \<Rightarrow> (None, s1));
          s3 = dropWhile (\<lambda>c. c = CHR ''l'') s2
      in case s3 of
           [] \<Rightarrow> None
         | c # _ \<Rightarrow> Some \<lparr>f_minus = CHR ''-'' \<in> set flags, f_plus = CHR ''+'' \<in> set flags,
                         f_space = CHR '' '' \<in> set flags, f_alt = CHR ''#'' \<in> set flags,
                         f_zero = CHR ''0'' \<in> set flags, f_width = nat_of_digits width,
                         f_prec = prec, f_conv = c\<rparr>)"

section \<open>Padding\<close>

definition sign_prefix :: "conv_spec \<Rightarrow> bool \<Rightarrow> c_string" where
  "sign_prefix f neg =
     (if neg then ''-'' else if f_plus f then ''+'' else if f_space f then '' '' else [])"

definition pad :: "conv_spec \<Rightarrow> bool \<Rightarrow> c_string \<Rightarrow> c_string \<Rightarrow> c_string" where
  "pad f zeros pre body =
     (let n = f_width f - length (pre @ body)
      in if f_minus f then pre @ body @ replicate n CHR '' ''
         else if f_zero f \<and> zeros then pre @ replicate n CHR ''0'' @ body
         else replicate n CHR '' '' @ pre @ body)"

section \<open>Integers\<close>

fun show_base :: "nat \<Rightarrow> c_string \<Rightarrow> nat \<Rightarrow> c_string" where
  "show_base b ds n =
     (if b < 2 then [] else if n < b then [ds ! n] else show_base b ds (n div b) @ [ds ! (n mod b)])"

declare show_base.simps [simp del]

definition min_digits :: "conv_spec \<Rightarrow> c_string \<Rightarrow> c_string" where
  "min_digits f s =
     (case f_prec f of
        None \<Rightarrow> s
      | Some p \<Rightarrow> if s = ''0'' \<and> p = 0 then [] else replicate (p - length s) CHR ''0'' @ s)"

definition format_signed :: "conv_spec \<Rightarrow> int \<Rightarrow> c_string" where
  "format_signed f k =
     pad f (f_prec f = None) (sign_prefix f (k < 0)) (min_digits f (show_nat (nat \<bar>k\<bar>)))"

definition format_unsigned :: "conv_spec \<Rightarrow> int \<Rightarrow> c_string" where
  "format_unsigned f k =
     (let n = nat (k mod 2 ^ 64);
          c = f_conv f;
          lower = ''0123456789abcdef'';
          body = min_digits f
            (if c = CHR ''o'' then show_base 8 lower n
             else if c = CHR ''x'' then show_base 16 lower n
             else if c = CHR ''X'' then show_base 16 ''0123456789ABCDEF'' n
             else show_nat n);
          body = (if c = CHR ''o'' \<and> f_alt f \<and> (body = [] \<or> hd body \<noteq> CHR ''0'') then CHR ''0'' # body else body);
          pre = (if f_alt f \<and> n \<noteq> 0 \<and> (c = CHR ''x'' \<or> c = CHR ''X'') then [CHR ''0'', c] else [])
      in pad f (f_prec f = None) pre body)"

section \<open>Floating point\<close>

text \<open>A finite non-zero double is \<open>num_mant x * 2 ^ num_pow x\<close> counted from \<open>2 ^ - 1074\<close>.\<close>

definition num_ratio :: "lua_Number \<Rightarrow> int \<times> int" where
  "num_ratio x = (num_mant x * 2 ^ nat (num_pow x - 1074), 2 ^ nat (1074 - num_pow x))"

text \<open>The decimal exponent: \<open>10 ^ X \<le> n / d < 10 ^ (X + 1)\<close>.\<close>

definition decimal_exp :: "int \<Rightarrow> int \<Rightarrow> int" where
  "decimal_exp n d =
     (if n \<ge> d then int (length (show_nat (nat (n div d)))) - 1
      else - int (length (show_nat (nat ((d - 1) div n)))))"

text \<open>\<open>P\<close> significant digits and the exponent of the first, rounded.\<close>

definition sig_digits :: "int \<Rightarrow> int \<Rightarrow> nat \<Rightarrow> c_string \<times> int" where
  "sig_digits n d P =
     (if n = 0 then (replicate P CHR ''0'', 0)
      else let X = decimal_exp n d; e = int P - 1 - X;
               q = round_half_even (n * 10 ^ nat e) (d * 10 ^ nat (- e))
           in if q = 10 ^ P then (show_nat (nat (q div 10)), X + 1) else (show_nat (nat q), X))"

definition exp_suffix :: "char \<Rightarrow> int \<Rightarrow> c_string" where
  "exp_suffix c X =
     (let s = show_nat (nat \<bar>X\<bar>)
      in c # (if X < 0 then CHR ''-'' else CHR ''+'') # (if length s < 2 then CHR ''0'' # s else s))"

definition with_point :: "conv_spec \<Rightarrow> char \<Rightarrow> c_string \<Rightarrow> c_string \<Rightarrow> c_string" where
  "with_point f point a b = (if b = [] \<and> \<not> f_alt f then a else a @ point # b)"

text \<open>\<open>P\<close> digits after the point.\<close>

definition fixed_digits :: "int \<Rightarrow> int \<Rightarrow> nat \<Rightarrow> c_string \<times> c_string" where
  "fixed_digits n d P =
     (let s = show_nat (nat (round_half_even (n * 10 ^ P) d));
          s = replicate (P + 1 - length s) CHR ''0'' @ s
      in (take (length s - P) s, drop (length s - P) s))"

definition strip_zeros :: "c_string \<Rightarrow> c_string" where
  "strip_zeros s = rev (dropWhile (\<lambda>c. c = CHR ''0'') (rev s))"

definition format_exp :: "conv_spec \<Rightarrow> char \<Rightarrow> bool \<Rightarrow> int \<Rightarrow> int \<Rightarrow> nat \<Rightarrow> c_string" where
  "format_exp f point strip n d P =
     (case sig_digits n d (P + 1) of
        (s, X) \<Rightarrow>
          with_point f point [hd s] (if strip then strip_zeros (tl s) else tl s)
          @ exp_suffix (if isupper (uchar (f_conv f)) then CHR ''E'' else CHR ''e'') X)"

definition format_fixed :: "conv_spec \<Rightarrow> char \<Rightarrow> bool \<Rightarrow> int \<Rightarrow> int \<Rightarrow> nat \<Rightarrow> c_string" where
  "format_fixed f point strip n d P =
     (case fixed_digits n d P of
        (a, b) \<Rightarrow> with_point f point a (if strip then strip_zeros b else b))"

definition format_general :: "conv_spec \<Rightarrow> char \<Rightarrow> int \<Rightarrow> int \<Rightarrow> nat \<Rightarrow> c_string" where
  "format_general f point n d P =
     (let P = (if P = 0 then 1 else P);
          X = snd (sig_digits n d P);
          strip = (\<not> f_alt f)
      in if - 4 \<le> X \<and> X < int P then format_fixed f point strip n d (nat (int P - 1 - X))
         else format_exp f point strip n d (P - 1))"

definition format_double :: "char \<Rightarrow> conv_spec \<Rightarrow> lua_Number \<Rightarrow> c_string" where
  "format_double point f x =
     (let c = f_conv f; up = isupper (uchar c); pre = sign_prefix f (num_neg x)
      in if is_nan x then pad f False pre (if up then ''NAN'' else ''nan'')
         else if is_inf x then pad f False pre (if up then ''INF'' else ''inf'')
         else let (n, d) = num_ratio x; P = (case f_prec f of None \<Rightarrow> 6 | Some p \<Rightarrow> p)
              in pad f True pre
                   (if c = CHR ''e'' \<or> c = CHR ''E'' then format_exp f point False n d P
                    else if c = CHR ''f'' then format_fixed f point False n d P
                    else format_general f point n d P))"

section \<open>\<open>sprintf\<close>\<close>

text \<open>
  What one conversion writes, with the bytes after an embedded zero; \<open>None\<close> if the
  specification does not fit the argument, which is undefined.
\<close>

definition sprintf :: "char \<Rightarrow> c_string \<Rightarrow> sprintf_arg \<Rightarrow> c_string option" where
  "sprintf point form a =
     (case parse_spec (tl form) of
        None \<Rightarrow> None
      | Some f \<Rightarrow>
          (case a of
             SInt k \<Rightarrow>
               if f_conv f = CHR ''c'' then Some (pad f False [] [char_of (nat (k mod 256))])
               else if f_conv f = CHR ''d'' \<or> f_conv f = CHR ''i'' then Some (format_signed f k)
               else if f_conv f \<in> {CHR ''o'', CHR ''u'', CHR ''x'', CHR ''X''} then Some (format_unsigned f k)
               else None
           | SDouble x \<Rightarrow>
               if f_conv f \<in> {CHR ''e'', CHR ''E'', CHR ''f'', CHR ''g'', CHR ''G''} then Some (format_double point f x)
               else None
           | SStr s \<Rightarrow>
               if f_conv f = CHR ''s'' then
                 (let s = takeWhile (\<lambda>c. c \<noteq> CHR 0x00) s
                  in Some (pad f False [] (case f_prec f of None \<Rightarrow> s | Some p \<Rightarrow> take p s)))
               else None))"

section \<open>\<open>lua_number2str\<close>\<close>

definition LUA_NUMBER_FMT :: c_string where "LUA_NUMBER_FMT = ''%.14g''"

definition lua_number2str :: "char \<Rightarrow> lua_Number \<Rightarrow> c_string" where
  "lua_number2str point n = the (sprintf point LUA_NUMBER_FMT (SDouble n))"

end
