(* ===== verification/LuaAux.thy ===== *)
theory LuaAux
  imports LuaObject LuaSprintf
begin

text \<open>
  What a C function sees of its arguments (\<open>lapi.c\<close>, \<open>lauxlib.c\<close>, \<open>lvm.c\<close>): the access
  functions for a positive stack index, the conversions between numbers and strings, and the
  argument checks with their messages. The arguments are the slots from \<open>L->base\<close> to
  \<open>L->top\<close>. \<open>lua_tolstring\<close> turns a number in its slot into the string it returns; nothing
  modelled here reads such a slot as a number afterwards.
\<close>

section \<open>The frame of a C function\<close>

text \<open>\<open>c_namewhat\<close> and \<open>c_name\<close> are what \<open>lua_getinfo\<close> says of the running function.\<close>

record call =
  c_args :: "TValue list"
  c_namewhat :: c_string
  c_name :: "c_string option"
  c_point :: char

definition LUA_TNONE :: int where "LUA_TNONE = - 1"

text \<open>The positive indices of \<open>index2adr\<close>; \<open>None\<close> is \<open>luaO_nilobject\<close>.\<close>

definition index2adr :: "call \<Rightarrow> nat \<Rightarrow> TValue option" where
  "index2adr L idx = (if idx - 1 \<ge> length (c_args L) then None else Some (c_args L ! (idx - 1)))"

definition lua_gettop :: "call \<Rightarrow> int" where "lua_gettop L = int (length (c_args L))"

definition lua_type :: "call \<Rightarrow> nat \<Rightarrow> int" where
  "lua_type L idx = (case index2adr L idx of None \<Rightarrow> LUA_TNONE | Some v \<Rightarrow> ttype v)"

definition luaT_typenames :: "c_string list" where
  "luaT_typenames =
     [''nil'', ''boolean'', ''userdata'', ''number'', ''string'', ''table'', ''function'',
      ''userdata'', ''thread'', ''proto'', ''upval'']"

definition lua_typename :: "int \<Rightarrow> c_string" where
  "lua_typename t = (if t = LUA_TNONE then ''no value'' else luaT_typenames ! nat t)"

definition lua_isnoneornil :: "call \<Rightarrow> nat \<Rightarrow> bool" where
  "lua_isnoneornil L idx \<longleftrightarrow> lua_type L idx \<le> 0"

definition lua_toboolean :: "call \<Rightarrow> nat \<Rightarrow> bool" where
  "lua_toboolean L idx = (case index2adr L idx of None \<Rightarrow> False | Some v \<Rightarrow> \<not> l_isfalse v)"

section \<open>Numbers and strings\<close>

fun luaV_tonumber :: "char \<Rightarrow> TValue \<Rightarrow> lua_Number option" where
  "luaV_tonumber point (TNumber n) = Some n"
| "luaV_tonumber point (TGC (GString s)) = luaO_str2d point (cstr s)"
| "luaV_tonumber point _ = None"

fun luaV_tostring :: "char \<Rightarrow> TValue \<Rightarrow> c_string option" where
  "luaV_tostring point (TNumber n) = Some (lua_number2str point n)"
| "luaV_tostring point _ = None"

definition tonumber :: "call \<Rightarrow> nat \<Rightarrow> lua_Number option" where
  "tonumber L idx = (case index2adr L idx of None \<Rightarrow> None | Some v \<Rightarrow> luaV_tonumber (c_point L) v)"

definition lua_isnumber :: "call \<Rightarrow> nat \<Rightarrow> bool" where
  "lua_isnumber L idx \<longleftrightarrow> tonumber L idx \<noteq> None"

definition lua_isstring :: "call \<Rightarrow> nat \<Rightarrow> bool" where
  "lua_isstring L idx \<longleftrightarrow> (let t = lua_type L idx in t = LUA_TSTRING \<or> t = LUA_TNUMBER)"

definition lua_tonumber :: "call \<Rightarrow> nat \<Rightarrow> lua_Number" where
  "lua_tonumber L idx = (case tonumber L idx of Some n \<Rightarrow> n | None \<Rightarrow> 0)"

text \<open>
  \<open>lua_number2integer\<close> is the C conversion to \<open>ptrdiff_t\<close>. A value out of range is undefined
  in C; the instruction compilers emit on x86-64 gives the least integer.
\<close>

definition INT64_MIN :: int where "INT64_MIN = - (2 ^ 63)"

definition lua_number2integer :: "lua_Number \<Rightarrow> int" where
  "lua_number2integer d =
     (if is_nan d \<or> is_inf d then INT64_MIN
      else let k = num_trunc d in if INT64_MIN \<le> k \<and> k < 2 ^ 63 then k else INT64_MIN)"

definition lua_tointeger :: "call \<Rightarrow> nat \<Rightarrow> int" where
  "lua_tointeger L idx = (case tonumber L idx of Some n \<Rightarrow> lua_number2integer n | None \<Rightarrow> 0)"

definition lua_tolstring :: "call \<Rightarrow> nat \<Rightarrow> c_string option" where
  "lua_tolstring L idx =
     (case index2adr L idx of
        None \<Rightarrow> None
      | Some v \<Rightarrow> (case v of TGC (GString s) \<Rightarrow> Some s | _ \<Rightarrow> luaV_tostring (c_point L) v))"

section \<open>Argument checks\<close>

definition luaL_argerror :: "call \<Rightarrow> int \<Rightarrow> c_string \<Rightarrow> 'a result" where
  "luaL_argerror L narg extramsg =
     (let narg = (if c_namewhat L = ''method'' then narg - 1 else narg);
          name = (case c_name L of None \<Rightarrow> ''?'' | Some n \<Rightarrow> n)
      in if c_namewhat L = ''method'' \<and> narg = 0 then
           Inl (ErrRun (''calling '' @ LUA_QL name @ '' on bad self ('' @ extramsg @ '')''))
         else
           Inl (ErrRun (''bad argument #'' @ show_int narg @ '' to '' @ LUA_QL name
                        @ '' ('' @ extramsg @ '')'')))"

definition luaL_typerror :: "call \<Rightarrow> nat \<Rightarrow> c_string \<Rightarrow> 'a result" where
  "luaL_typerror L narg tname =
     luaL_argerror L (int narg) (tname @ '' expected, got '' @ lua_typename (lua_type L narg))"

definition tag_error :: "call \<Rightarrow> nat \<Rightarrow> int \<Rightarrow> 'a result" where
  "tag_error L narg tag = luaL_typerror L narg (lua_typename tag)"

definition luaL_argcheck :: "call \<Rightarrow> bool \<Rightarrow> nat \<Rightarrow> c_string \<Rightarrow> unit result" where
  "luaL_argcheck L cond narg extramsg =
     (if cond then Inr () else luaL_argerror L (int narg) extramsg)"

definition luaL_checktype :: "call \<Rightarrow> nat \<Rightarrow> int \<Rightarrow> unit result" where
  "luaL_checktype L narg t = (if lua_type L narg \<noteq> t then tag_error L narg t else Inr ())"

definition luaL_checkany :: "call \<Rightarrow> nat \<Rightarrow> unit result" where
  "luaL_checkany L narg =
     (if lua_type L narg = LUA_TNONE then luaL_argerror L (int narg) ''value expected'' else Inr ())"

definition luaL_checklstring :: "call \<Rightarrow> nat \<Rightarrow> c_string result" where
  "luaL_checklstring L narg =
     (case lua_tolstring L narg of None \<Rightarrow> tag_error L narg LUA_TSTRING | Some s \<Rightarrow> Inr s)"

definition luaL_optlstring :: "call \<Rightarrow> nat \<Rightarrow> c_string \<Rightarrow> c_string result" where
  "luaL_optlstring L narg d =
     (if lua_isnoneornil L narg then Inr d else luaL_checklstring L narg)"

definition luaL_checknumber :: "call \<Rightarrow> nat \<Rightarrow> lua_Number result" where
  "luaL_checknumber L narg =
     (let d = lua_tonumber L narg
      in if luai_numeq d 0 \<and> \<not> lua_isnumber L narg then tag_error L narg LUA_TNUMBER else Inr d)"

definition luaL_optnumber :: "call \<Rightarrow> nat \<Rightarrow> lua_Number \<Rightarrow> lua_Number result" where
  "luaL_optnumber L narg d =
     (if lua_isnoneornil L narg then Inr d else luaL_checknumber L narg)"

definition luaL_checkinteger :: "call \<Rightarrow> nat \<Rightarrow> int result" where
  "luaL_checkinteger L narg =
     (let d = lua_tointeger L narg
      in if d = 0 \<and> \<not> lua_isnumber L narg then tag_error L narg LUA_TNUMBER else Inr d)"

definition luaL_optinteger :: "call \<Rightarrow> nat \<Rightarrow> int \<Rightarrow> int result" where
  "luaL_optinteger L narg d =
     (if lua_isnoneornil L narg then Inr d else luaL_checkinteger L narg)"

text \<open>The conversion from \<open>ptrdiff_t\<close> to \<open>int\<close> keeps the low 32 bits.\<close>

definition cast_int :: "int \<Rightarrow> int" where
  "cast_int k = signed_take_bit 31 k"

definition luaL_checkint :: "call \<Rightarrow> nat \<Rightarrow> int result" where
  "luaL_checkint L narg = bind_result (luaL_checkinteger L narg) (\<lambda>k. Inr (cast_int k))"

definition luaL_optint :: "call \<Rightarrow> nat \<Rightarrow> int \<Rightarrow> int result" where
  "luaL_optint L narg d = bind_result (luaL_optinteger L narg d) (\<lambda>k. Inr (cast_int k))"

fun find_option :: "c_string \<Rightarrow> c_string list \<Rightarrow> nat \<Rightarrow> nat option" where
  "find_option name [] i = None"
| "find_option name (x # xs) i = (if cstr x = cstr name then Some i else find_option name xs (i + 1))"

definition luaL_checkoption :: "call \<Rightarrow> nat \<Rightarrow> c_string option \<Rightarrow> c_string list \<Rightarrow> nat result" where
  "luaL_checkoption L narg def lst =
     bind_result (case def of Some d \<Rightarrow> luaL_optlstring L narg d | None \<Rightarrow> luaL_checklstring L narg) (\<lambda>name.
       case find_option name lst 0 of
         Some i \<Rightarrow> Inr i
       | None \<Rightarrow> luaL_argerror L (int narg) (''invalid option '' @ LUA_QL (cstr name)))"

definition LUAI_MAXCSTACK :: int where "LUAI_MAXCSTACK = 2048"

definition luaL_checkstack :: "call \<Rightarrow> int \<Rightarrow> c_string \<Rightarrow> unit result" where
  "luaL_checkstack L space mes =
     (if lua_gettop L + space > LUAI_MAXCSTACK
      then Inl (ErrRun (''stack overflow ('' @ mes @ '')'')) else Inr ())"

text \<open>Strings and numbers as results.\<close>

abbreviation push_string :: "c_string \<Rightarrow> TValue" where "push_string s \<equiv> TGC (GString s)"
abbreviation push_integer :: "int \<Rightarrow> TValue" where "push_integer k \<equiv> TNumber (cast_num k)"

section \<open>Strings and numbers\<close>

lemma tolstring_string [simp]:
  "index2adr L n = Some (TGC (GString s)) \<Longrightarrow> lua_tolstring L n = Some s"
  by (simp add: lua_tolstring_def)

lemma checklstring_string [simp]:
  "index2adr L n = Some (TGC (GString s)) \<Longrightarrow> luaL_checklstring L n = Inr s"
  by (simp add: luaL_checklstring_def)

lemma cast_int_id [simp]: "INT_MIN \<le> k \<Longrightarrow> k \<le> INT_MAX \<Longrightarrow> cast_int k = k"
  unfolding cast_int_def by (rule signed_take_bit_int_eq_self) (simp_all add: INT_MIN_def INT_MAX_def)

end
