(* ===== verification/LuaStrlib.thy ===== *)
theory LuaStrlib
  imports LuaMatch LuaAux LuaDump
begin

text \<open>
  The string library (\<open>lstrlib.c\<close>). A function takes its frame and gives the values it
  returns. A \<open>luaL_Buffer\<close> is the text added to it so far: its pieces, which the code keeps on
  the stack above the arguments, are not seen as arguments here. A read or copy that leaves its
  string is \<open>OutOfBounds\<close>. What \<open>string.gsub\<close> calls back, a Lua function or an index
  operation, is an argument: it gets and returns a state of its own.
\<close>

section \<open>Substrings and bytes\<close>

definition mem_slice :: "c_string \<Rightarrow> int \<Rightarrow> int \<Rightarrow> c_string result" where
  "mem_slice s i n =
     (if 0 \<le> i \<and> 0 \<le> n \<and> i + n \<le> int (length s) then Inr (take (nat n) (drop (nat i) s))
      else Inl OutOfBounds)"

definition str_len :: "call \<Rightarrow> TValue list result" where
  "str_len L = bind_result (luaL_checklstring L 1) (\<lambda>s. Inr [push_integer (int (length s))])"

definition posrelat :: "int \<Rightarrow> int \<Rightarrow> int" where
  "posrelat pos len = (if pos \<ge> 0 then pos else len + pos + 1)"

definition str_sub :: "call \<Rightarrow> TValue list result" where
  "str_sub L =
     bind_result (luaL_checklstring L 1) (\<lambda>s. let l = int (length s) in
     bind_result (luaL_checkinteger L 2) (\<lambda>i. let start = posrelat i l in
     bind_result (luaL_optinteger L 3 (- 1)) (\<lambda>j. let end = posrelat j l in
       let start = (if start < 1 then 1 else start); end = (if end > l then l else end)
       in if start \<le> end then
            bind_result (mem_slice s (start - 1) (end - start + 1)) (\<lambda>r. Inr [push_string r])
          else Inr [push_string []])))"

definition str_reverse :: "call \<Rightarrow> TValue list result" where
  "str_reverse L = bind_result (luaL_checklstring L 1) (\<lambda>s. Inr [push_string (rev s)])"

definition str_lower :: "call \<Rightarrow> TValue list result" where
  "str_lower L =
     bind_result (luaL_checklstring L 1) (\<lambda>s. Inr [push_string (map (\<lambda>c. char_of (tolower (uchar c))) s)])"

definition str_upper :: "call \<Rightarrow> TValue list result" where
  "str_upper L =
     bind_result (luaL_checklstring L 1) (\<lambda>s. Inr [push_string (map (\<lambda>c. char_of (toupper (uchar c))) s)])"

definition str_rep :: "call \<Rightarrow> TValue list result" where
  "str_rep L =
     bind_result (luaL_checklstring L 1) (\<lambda>s.
     bind_result (luaL_checkint L 2) (\<lambda>n. Inr [push_string (concat (replicate (nat n) s))]))"

definition str_byte :: "call \<Rightarrow> TValue list result" where
  "str_byte L =
     bind_result (luaL_checklstring L 1) (\<lambda>s. let l = int (length s) in
     bind_result (luaL_optinteger L 2 1) (\<lambda>i. let posi = posrelat i l in
     bind_result (luaL_optinteger L 3 posi) (\<lambda>j. let pose = posrelat j l in
       let posi = (if posi \<le> 0 then 1 else posi);
           pose = (if pose mod 2 ^ 64 > l then l else pose)
       in if posi > pose then Inr []
          else let n = cast_int (pose - posi + 1)
               in if posi + n \<le> pose then Inl (ErrRun ''string slice too long'')
                  else bind_result (luaL_checkstack L n ''string slice too long'') (\<lambda>_.
                    bind_result (mem_slice s (posi - 1) n) (\<lambda>r.
                      Inr (map (\<lambda>c. push_integer (uchar c)) r))))))"

fun str_char_loop :: "call \<Rightarrow> nat list \<Rightarrow> c_string \<Rightarrow> c_string result" where
  "str_char_loop L [] b = Inr b"
| "str_char_loop L (i # is) b =
     bind_result (luaL_checkint L i) (\<lambda>c.
     bind_result (luaL_argcheck L (c mod 256 = c) i ''invalid value'') (\<lambda>_.
       str_char_loop L is (b @ [char_of (nat (c mod 256))])))"

definition str_char :: "call \<Rightarrow> TValue list result" where
  "str_char L =
     bind_result (str_char_loop L [1..<nat (lua_gettop L) + 1] []) (\<lambda>b. Inr [push_string b])"

text \<open>\<open>lua_dump\<close> (\<open>lapi.c\<close>) dumps a Lua function; \<open>proto_of\<close> gives its prototype.\<close>

definition str_dump :: "(TValue \<Rightarrow> Proto option) \<Rightarrow> call \<Rightarrow> TValue list result" where
  "str_dump proto_of L =
     bind_result (luaL_checktype L 1 LUA_TFUNCTION) (\<lambda>_.
       case (case proto_of (c_args L ! 0) of
               Some p \<Rightarrow> luaU_dump p strlib_writer [] False
             | None \<Rightarrow> (1, [])) of
         (status, b) \<Rightarrow>
           if status \<noteq> 0 then Inl (ErrRun ''unable to dump given function'') else Inr [push_string b])"

section \<open>Searching\<close>

definition memchr :: "c_string \<Rightarrow> char \<Rightarrow> nat option" where
  "memchr s c = (if c \<in> set s then Some (length (takeWhile (\<lambda>d. d \<noteq> c) s)) else None)"

text \<open>The loop of \<open>lmemfind\<close>: \<open>l1\<close> positions from \<open>pos\<close> on are still possible.\<close>

function lmemfind_loop :: "c_string \<Rightarrow> c_string \<Rightarrow> nat \<Rightarrow> nat \<Rightarrow> nat option" where
  "lmemfind_loop s s2 pos l1 =
     (case memchr (take l1 (drop pos s)) (hd s2) of
        None \<Rightarrow> None
      | Some k \<Rightarrow>
          let init = pos + k + 1
          in if l1 = 0 then None
             else if take (length s2 - 1) (drop init s) = tl s2 then Some (init - 1)
             else lmemfind_loop s s2 init (l1 - (init - pos)))"
  by pat_completeness auto
termination by (relation "measure (\<lambda>(s, s2, pos, l1). l1)") auto

declare lmemfind_loop.simps [simp del]

definition lmemfind :: "c_string \<Rightarrow> c_string \<Rightarrow> nat option" where
  "lmemfind s1 s2 =
     (if s2 = [] then Some 0
      else if length s2 > length s1 then None
      else lmemfind_loop s1 s2 0 (length s1 - (length s2 - 1)))"

section \<open>Captures as values\<close>

definition push_onecapture :: "MatchState \<Rightarrow> nat \<Rightarrow> nat \<Rightarrow> nat \<Rightarrow> TValue result" where
  "push_onecapture ms i s e =
     (if i \<ge> ms_level ms then
        (if i = 0 then bind_result (mem_slice (ms_src ms) (int s) (int e - int s)) (\<lambda>r. Inr (push_string r))
         else Inl (ErrRun ''invalid capture index''))
      else let (init, l) = ms_capture ms ! i
           in if l = CAP_UNFINISHED then Inl (ErrRun ''unfinished capture'')
              else if l = CAP_POSITION then Inr (push_integer (int init + 1))
              else bind_result (mem_slice (ms_src ms) (int init) l) (\<lambda>r. Inr (push_string r)))"

fun push_capture_list :: "MatchState \<Rightarrow> nat \<Rightarrow> nat \<Rightarrow> nat list \<Rightarrow> TValue list result" where
  "push_capture_list ms s e [] = Inr []"
| "push_capture_list ms s e (i # is) =
     bind_result (push_onecapture ms i s e) (\<lambda>v.
     bind_result (push_capture_list ms s e is) (\<lambda>vs. Inr (v # vs)))"

text \<open>The match from \<open>s\<close> to \<open>e\<close>; \<open>None\<close> for the null pointers \<open>str_find_aux\<close> passes.\<close>

definition push_captures :: "MatchState \<Rightarrow> (nat \<times> nat) option \<Rightarrow> TValue list result" where
  "push_captures ms se =
     (let nlevels = (if ms_level ms = 0 \<and> se \<noteq> None then 1 else ms_level ms);
          (s, e) = (case se of Some se \<Rightarrow> se | None \<Rightarrow> (0, 0))
      in push_capture_list ms s e [0..<nlevels])"

section \<open>\<open>find\<close>, \<open>match\<close> and \<open>gmatch\<close>\<close>

text \<open>
  A match attempt starts with level 0; what the capture array holds then is never read.
\<close>

definition match_start :: "c_string \<Rightarrow> MatchState" where
  "match_start src = \<lparr>ms_src = src, ms_level = 0, ms_capture = replicate LUA_MAXCAPTURES (0, 0)\<rparr>"

definition SPECIALS :: c_string where "SPECIALS = ''^$*+?.([%-''"

text \<open>The start and the end of the first match from \<open>s1\<close> on.\<close>

function find_loop ::
    "c_string \<Rightarrow> c_string \<Rightarrow> bool \<Rightarrow> nat \<Rightarrow> (nat \<times> nat \<times> MatchState) option result" where
  "find_loop src p anchor s1 =
     bind_result (match (match_start src) s1 p) (\<lambda>(res, ms). case res of
       Some e \<Rightarrow> Inr (Some (s1, e, ms))
     | None \<Rightarrow> if s1 < length src \<and> \<not> anchor then find_loop src p anchor (s1 + 1) else Inr None)"
  by pat_completeness auto
termination by (relation "measure (\<lambda>(src, p, anchor, s1). length src - s1)") auto

declare find_loop.simps [simp del]

definition split_anchor :: "c_string \<Rightarrow> bool \<times> c_string" where
  "split_anchor p = (if p \<noteq> [] \<and> hd p = CHR ''^'' then (True, tl p) else (False, p))"

definition str_find_aux :: "bool \<Rightarrow> call \<Rightarrow> TValue list result" where
  "str_find_aux fnd L =
     bind_result (luaL_checklstring L 1) (\<lambda>s.
     bind_result (luaL_checklstring L 2) (\<lambda>p.
     bind_result (luaL_optinteger L 3 1) (\<lambda>i.
       let init = posrelat i (int (length s)) - 1;
           init = (if init < 0 then 0 else if init > int (length s) then length s else nat init)
       in if fnd \<and> (lua_toboolean L 4 \<or> set (cstr p) \<inter> set SPECIALS = {}) then
            (case lmemfind (drop init s) p of
               Some k \<Rightarrow> Inr [push_integer (int (init + k) + 1), push_integer (int (init + k) + int (length p))]
             | None \<Rightarrow> Inr [TNil])
          else
            (case split_anchor p of
               (anchor, p) \<Rightarrow>
                 bind_result (find_loop s (p @ [NUL]) anchor init) (\<lambda>r. case r of
                   None \<Rightarrow> Inr [TNil]
                 | Some (s1, e, ms) \<Rightarrow>
                     if fnd then
                       bind_result (push_captures ms None) (\<lambda>vs.
                         Inr ([push_integer (int s1 + 1), push_integer (int e)] @ vs))
                     else push_captures ms (Some (s1, e)))))))"

definition str_find :: "call \<Rightarrow> TValue list result" where "str_find L = str_find_aux True L"
definition str_match :: "call \<Rightarrow> TValue list result" where "str_match L = str_find_aux False L"

text \<open>The upvalues of the iterator: subject, pattern and where to go on.\<close>

record gmatch_upvalues =
  gm_s :: c_string
  gm_p :: c_string
  gm_pos :: nat

definition gmatch :: "call \<Rightarrow> gmatch_upvalues result" where
  "gmatch L =
     bind_result (luaL_checklstring L 1) (\<lambda>s.
     bind_result (luaL_checklstring L 2) (\<lambda>p. Inr \<lparr>gm_s = s, gm_p = p, gm_pos = 0\<rparr>))"

definition gmatch_aux :: "gmatch_upvalues \<Rightarrow> (TValue list \<times> gmatch_upvalues) result" where
  "gmatch_aux g =
     (if gm_pos g > length (gm_s g) then Inr ([], g)
      else bind_result (find_loop (gm_s g) (gm_p g @ [NUL]) False (gm_pos g)) (\<lambda>r. case r of
             None \<Rightarrow> Inr ([], g)
           | Some (src, e, ms) \<Rightarrow>
               let newstart = (if e = src then e + 1 else e)
               in bind_result (push_captures ms (Some (src, e))) (\<lambda>vs.
                    Inr (vs, g\<lparr>gm_pos := newstart\<rparr>))))"

definition gfind_nodef :: "call \<Rightarrow> TValue list result" where
  "gfind_nodef L =
     Inl (ErrRun (LUA_QL ''string.gfind'' @ '' was renamed to '' @ LUA_QL ''string.gmatch''))"

section \<open>\<open>gsub\<close>\<close>

fun add_s_loop :: "char \<Rightarrow> MatchState \<Rightarrow> nat \<Rightarrow> nat \<Rightarrow> c_string \<Rightarrow> c_string \<Rightarrow> c_string result" where
  "add_s_loop point ms s e [] b = Inr b"
| "add_s_loop point ms s e (c # news) b =
     (if c \<noteq> L_ESC then add_s_loop point ms s e news (b @ [c])
      else case news of
             [] \<Rightarrow> Inr (b @ [NUL])
           | d # news \<Rightarrow>
               if \<not> isdigit (uchar d) then add_s_loop point ms s e news (b @ [d])
               else if d = CHR ''0'' then
                 bind_result (mem_slice (ms_src ms) (int s) (int e - int s)) (\<lambda>r.
                   add_s_loop point ms s e news (b @ r))
               else
                 bind_result (push_onecapture ms (nat (uchar d - uchar CHR ''1'')) s e) (\<lambda>v.
                   case v of
                     TGC (GString r) \<Rightarrow> add_s_loop point ms s e news (b @ r)
                   | _ \<Rightarrow> (case luaV_tostring point v of
                              Some r \<Rightarrow> add_s_loop point ms s e news (b @ r)
                            | None \<Rightarrow> Inl OutOfBounds)))"

definition add_s :: "call \<Rightarrow> MatchState \<Rightarrow> c_string \<Rightarrow> nat \<Rightarrow> nat \<Rightarrow> c_string result" where
  "add_s L ms b s e =
     (case lua_tolstring L 3 of
        Some news \<Rightarrow> add_s_loop (c_point L) ms s e news b
      | None \<Rightarrow> Inl OutOfBounds)"

text \<open>The calls into the interpreter: \<open>lua_call\<close> with one result and \<open>lua_gettable\<close>.\<close>

record 'w host =
  h_call :: "'w \<Rightarrow> TValue \<Rightarrow> TValue list \<Rightarrow> (TValue \<times> 'w) result"
  h_gettable :: "'w \<Rightarrow> TValue \<Rightarrow> TValue \<Rightarrow> (TValue \<times> 'w) result"

definition add_value ::
    "'w host \<Rightarrow> call \<Rightarrow> MatchState \<Rightarrow> c_string \<Rightarrow> nat \<Rightarrow> nat \<Rightarrow> 'w \<Rightarrow> (c_string \<times> 'w) result" where
  "add_value H L ms b s e w =
     (let t = lua_type L 3
      in if t = LUA_TNUMBER \<or> t = LUA_TSTRING then bind_result (add_s L ms b s e) (\<lambda>b. Inr (b, w))
         else
           bind_result
             (if t = LUA_TFUNCTION then
                bind_result (push_captures ms (Some (s, e))) (\<lambda>vs. h_call H w (c_args L ! 2) vs)
              else if t = LUA_TTABLE then
                bind_result (push_onecapture ms 0 s e) (\<lambda>v. h_gettable H w (c_args L ! 2) v)
              else luaL_argerror L 3 ''string/function/table expected'')
             (\<lambda>(v, w).
               if l_isfalse v then
                 bind_result (mem_slice (ms_src ms) (int s) (int e - int s)) (\<lambda>r. Inr (b @ r, w))
               else case v of
                      TGC (GString r) \<Rightarrow> Inr (b @ r, w)
                    | TNumber n \<Rightarrow> Inr (b @ lua_number2str (c_point L) n, w)
                    | _ \<Rightarrow> Inl (ErrRun (''invalid replacement value (a '' @ lua_typename (ttype v) @ '')''))))"

function gsub_loop ::
    "'w host \<Rightarrow> call \<Rightarrow> c_string \<Rightarrow> c_string \<Rightarrow> bool \<Rightarrow> int \<Rightarrow> nat \<Rightarrow> int \<Rightarrow> c_string \<Rightarrow> 'w
     \<Rightarrow> (c_string \<times> int \<times> 'w) result" where
  "gsub_loop H L srcs p anchor max_s src n b w =
     (let finish = (\<lambda>src n b w.
            bind_result (mem_slice srcs (int src) (int (length srcs) - int src)) (\<lambda>r. Inr (b @ r, n, w)))
      in if n < max_s then
           bind_result (match (match_start srcs) src p) (\<lambda>(res, ms).
           bind_result
             (case res of
                Some e \<Rightarrow> bind_result (add_value H L ms b src e w) (\<lambda>(b, w). Inr (n + 1, b, w))
              | None \<Rightarrow> Inr (n, b, w))
             (\<lambda>(n, b, w).
               case (case res of Some e \<Rightarrow> if e > src then Some (e, b) else None | None \<Rightarrow> None) of
                 Some (src', b') \<Rightarrow>
                   if anchor then finish src' n b' w
                   else if src > length srcs then Inl OutOfBounds
                   else gsub_loop H L srcs p anchor max_s src' n b' w
               | None \<Rightarrow>
                   if src < length srcs then
                     (if anchor then finish (src + 1) n (b @ [srcs ! src]) w
                      else gsub_loop H L srcs p anchor max_s (src + 1) n (b @ [srcs ! src]) w)
                   else finish src n b w))
         else finish src n b w)"
  by pat_completeness auto
termination
  by (relation "measure (\<lambda>(H, L, srcs, p, anchor, max_s, src, n, b, w). Suc (length srcs) - src)")
     (auto split: option.splits if_splits)

declare gsub_loop.simps [simp del]

definition str_gsub :: "'w host \<Rightarrow> 'w \<Rightarrow> call \<Rightarrow> (TValue list \<times> 'w) result" where
  "str_gsub H w L =
     bind_result (luaL_checklstring L 1) (\<lambda>src.
     bind_result (luaL_checklstring L 2) (\<lambda>p.
     bind_result (luaL_optint L 4 (int (length src) + 1)) (\<lambda>max_s.
       case split_anchor p of
         (anchor, p) \<Rightarrow>
           bind_result (gsub_loop H L src (p @ [NUL]) anchor max_s 0 0 [] w) (\<lambda>(b, n, w).
             Inr ([push_string b, push_integer n], w)))))"

section \<open>\<open>format\<close>\<close>

definition MAX_ITEM :: nat where "MAX_ITEM = 512"
definition FLAGS :: c_string where "FLAGS = ''-+ #0''"
definition LUA_INTFRMLEN :: c_string where "LUA_INTFRMLEN = ''l''"

text \<open>The sizes count the terminating zeros of the two literals.\<close>

definition MAX_FORMAT :: nat where
  "MAX_FORMAT = (length FLAGS + 1) + (length LUA_INTFRMLEN + 1) + 10"

definition quoted_char :: "char \<Rightarrow> c_string" where
  "quoted_char c =
     (if c = CHR 0x22 \<or> c = CHR 0x5C \<or> c = CHR 0x0A then [CHR 0x5C, c]
      else if c = CHR 0x0D then [CHR 0x5C, CHR ''r'']
      else if c = CHR 0x00 then CHR 0x5C # ''000''
      else [c])"

definition addquoted :: "call \<Rightarrow> nat \<Rightarrow> c_string \<Rightarrow> c_string result" where
  "addquoted L arg b =
     bind_result (luaL_checklstring L arg) (\<lambda>s.
       Inr (b @ CHR 0x22 # concat (map quoted_char s) @ [CHR 0x22]))"

definition skip_digit :: "c_string \<Rightarrow> c_string" where
  "skip_digit p = (if isdigit (uchar (hd p)) then tl p else p)"

text \<open>
  The text from the character after the percent sign on, with its terminating zero. The result
  is what is left from the conversion character on, and the specification for \<open>sprintf\<close>.
\<close>

definition scanformat :: "c_string \<Rightarrow> (c_string \<times> c_string) result" where
  "scanformat strfrmt =
     (let p = dropWhile (\<lambda>c. c \<noteq> NUL \<and> c \<in> set FLAGS) strfrmt
      in if length strfrmt - length p \<ge> length FLAGS + 1 then Inl (ErrRun ''invalid format (repeated flags)'')
         else let p = skip_digit (skip_digit p);
                  p = (if hd p = CHR ''.'' then skip_digit (skip_digit (tl p)) else p)
              in if isdigit (uchar (hd p)) then Inl (ErrRun ''invalid format (width or precision too long)'')
                 else Inr (p, CHR ''%'' # take (length strfrmt - length p + 1) strfrmt))"

definition addintlen :: "c_string \<Rightarrow> c_string" where
  "addintlen form = butlast form @ LUA_INTFRMLEN @ [last form]"

text \<open>The conversions of a number to \<open>int\<close>, \<open>long\<close> and \<open>unsigned long\<close>, as x86-64 does them.\<close>

definition num_to_ulong :: "lua_Number \<Rightarrow> int" where
  "num_to_ulong d =
     (if is_nan d \<or> is_inf d then 2 ^ 63
      else let k = num_trunc d in if - (2 ^ 63) \<le> k \<and> k < 2 ^ 64 then k mod 2 ^ 64 else 2 ^ 63)"

definition run_sprintf :: "char \<Rightarrow> c_string \<Rightarrow> sprintf_arg \<Rightarrow> c_string result" where
  "run_sprintf point form a =
     (case sprintf point form a of
        None \<Rightarrow> Inl OutOfBounds
      | Some s \<Rightarrow> if length s < MAX_ITEM then Inr s else Inl OutOfBounds)"

text \<open>One item: what is added to the buffer.\<close>

definition format_item :: "call \<Rightarrow> nat \<Rightarrow> char \<Rightarrow> c_string \<Rightarrow> c_string result" where
  "format_item L arg c form =
     (let run = run_sprintf (c_point L); cut = (\<lambda>r. bind_result r (\<lambda>buff. Inr (cstr buff)))
      in if c = CHR ''c'' then
           bind_result (luaL_checknumber L arg) (\<lambda>x. cut (run form (SInt (lua_number2int x))))
         else if c = CHR ''d'' \<or> c = CHR ''i'' then
           bind_result (luaL_checknumber L arg) (\<lambda>x. cut (run (addintlen form) (SInt (lua_number2integer x))))
         else if c = CHR ''o'' \<or> c = CHR ''u'' \<or> c = CHR ''x'' \<or> c = CHR ''X'' then
           bind_result (luaL_checknumber L arg) (\<lambda>x. cut (run (addintlen form) (SInt (num_to_ulong x))))
         else if c = CHR ''e'' \<or> c = CHR ''E'' \<or> c = CHR ''f'' \<or> c = CHR ''g'' \<or> c = CHR ''G'' then
           bind_result (luaL_checknumber L arg) (\<lambda>x. cut (run form (SDouble x)))
         else if c = CHR ''q'' then addquoted L arg []
         else if c = CHR ''s'' then
           bind_result (luaL_checklstring L arg) (\<lambda>s.
             if CHR ''.'' \<notin> set form \<and> length s \<ge> 100 then Inr s
             else cut (run form (SStr s)))
         else Inl (ErrRun (''invalid option '' @ LUA_QL (CHR ''%'' # cstr [c]) @ '' to '' @ LUA_QL ''format'')))"

function format_loop :: "call \<Rightarrow> nat \<Rightarrow> c_string \<Rightarrow> c_string \<Rightarrow> c_string result" where
  "format_loop L arg strfrmt b =
     (case strfrmt of
        [] \<Rightarrow> Inr b
      | c # s1 \<Rightarrow>
          if c \<noteq> L_ESC then format_loop L arg s1 (b @ [c])
          else if s1 \<noteq> [] \<and> hd s1 = L_ESC then format_loop L arg (tl s1) (b @ [hd s1])
          else
            let arg = arg + 1
            in bind_result (scanformat (s1 @ [NUL])) (\<lambda>(p, form).
               bind_result (format_item L arg (hd p) form) (\<lambda>r.
                 format_loop L arg (drop (length s1 + 2 - length p) s1) (b @ r))))"
  by pat_completeness auto
termination by (relation "measure (\<lambda>(L, arg, strfrmt, b). length strfrmt)") auto

declare format_loop.simps [simp del]

definition str_format :: "call \<Rightarrow> TValue list result" where
  "str_format L =
     bind_result (luaL_checklstring L 1) (\<lambda>strfrmt.
     bind_result (format_loop L 1 strfrmt []) (\<lambda>b. Inr [push_string b]))"

end
