(* ===== verification/LuaMatchSpec.thy ===== *)
theory LuaMatchSpec
  imports LuaMatch
begin

text \<open>
  What a pattern matches, without the search: the relation \<open>matches\<close> reads a pattern item by
  item and lets a repeated item take any admissible number of characters. The matcher of
  \<open>LuaMatch\<close> decides it, stays inside the subject, the pattern and the capture array, and
  undoes its captures when it fails.
\<close>

section \<open>Pattern items\<close>

datatype pattern_item =
    IEnd
  | IEndOfSubject
  | IOpen int c_string
  | IClose c_string
  | IBalance char char c_string
  | IFrontier c_string c_string
  | IBackref int c_string
  | ISingle c_string c_string
  | IRepeat char c_string c_string c_string

definition repeat_chars :: "char set" where
  "repeat_chars = {CHR ''?'', CHR ''*'', CHR ''+'', CHR ''-''}"

definition single_item :: "c_string \<Rightarrow> pattern_item result" where
  "single_item p =
     bind_result (classend p) (\<lambda>ep.
       case ep of
         [] \<Rightarrow> Inl OutOfBounds
       | q # ep1 \<Rightarrow> if q \<in> repeat_chars then Inr (IRepeat q p ep ep1) else Inr (ISingle p ep))"

definition item_of :: "c_string \<Rightarrow> pattern_item result" where
  "item_of p =
     (case p of
        [] \<Rightarrow> Inl OutOfBounds
      | c # p1 \<Rightarrow>
          if c = CHR ''('' then
            (case p1 of
               [] \<Rightarrow> Inl OutOfBounds
             | d # p2 \<Rightarrow> if d = CHR '')'' then Inr (IOpen CAP_POSITION p2) else Inr (IOpen CAP_UNFINISHED p1))
          else if c = CHR '')'' then Inr (IClose p1)
          else if c = L_ESC then
            (case p1 of
               [] \<Rightarrow> Inl OutOfBounds
             | d # p2 \<Rightarrow>
                 if d = CHR ''b'' then
                   (case p2 of
                      [] \<Rightarrow> Inl OutOfBounds
                    | b # p3 \<Rightarrow>
                        if b = NUL then Inl (ErrRun ''unbalanced pattern'')
                        else (case p3 of
                                [] \<Rightarrow> Inl OutOfBounds
                              | e # p4 \<Rightarrow> if e = NUL then Inl (ErrRun ''unbalanced pattern'')
                                          else Inr (IBalance b e p4)))
                 else if d = CHR ''f'' then
                   (case p2 of
                      [] \<Rightarrow> Inl OutOfBounds
                    | b # _ \<Rightarrow>
                        if b \<noteq> CHR ''['' then
                          Inl (ErrRun (''missing '' @ LUA_QL ''['' @ '' after '' @ LUA_QL ''%f'' @ '' in pattern''))
                        else bind_result (classend p2) (\<lambda>ep. Inr (IFrontier p2 ep)))
                 else if isdigit (uchar d) then Inr (IBackref (uchar d) p2)
                 else single_item p)
          else if c = NUL then Inr IEnd
          else if c = CHR ''$'' then
            (case p1 of
               [] \<Rightarrow> Inl OutOfBounds
             | d # _ \<Rightarrow> if d = NUL then Inr IEndOfSubject else single_item p)
          else single_item p)"

lemma bind_result_assoc:
  "bind_result (bind_result m f) g = bind_result m (\<lambda>x. bind_result (f x) g)"
  by (cases m) simp_all

lemma bind_single_item:
  assumes "\<And>ep. F ep = (case ep of [] \<Rightarrow> Inl OutOfBounds
      | q # ep1 \<Rightarrow> if q \<in> repeat_chars then G (IRepeat q p ep ep1) else G (ISingle p ep))"
  shows "bind_result (classend p) F = bind_result (single_item p) G"
  by (cases "classend p") (simp_all add: single_item_def assms split: list.split)

text \<open>\<open>match\<close> item by item.\<close>

definition run_item :: "MatchState \<Rightarrow> nat \<Rightarrow> pattern_item \<Rightarrow> outcome" where
  "run_item ms s it =
    (case it of
       IEnd \<Rightarrow> Inr (Some s, ms)
     | IEndOfSubject \<Rightarrow> Inr (if s = length (ms_src ms) then Some s else None, ms)
     | IOpen what q \<Rightarrow> start_capture (\<lambda>ms. match ms s q) ms s what
     | IClose q \<Rightarrow> end_capture (\<lambda>ms. match ms s q) ms s
     | IBalance b e q \<Rightarrow>
         bind_result (src_at ms s) (\<lambda>c.
           case (if c \<noteq> b then None else balance_loop b e 1 (s + 1) (drop (s + 1) (ms_src ms))) of
             None \<Rightarrow> Inr (None, ms) | Some s \<Rightarrow> match ms s q)
     | IFrontier q ep \<Rightarrow>
         bind_result (if s = 0 then Inr NUL else src_at ms (s - 1)) (\<lambda>previous.
         bind_result (src_at ms s) (\<lambda>cur.
           if matchbracketclass (uchar previous) q ep \<or> \<not> matchbracketclass (uchar cur) q ep
           then Inr (None, ms) else match ms s ep))
     | IBackref l q \<Rightarrow>
         bind_result (match_capture ms s l) (\<lambda>r. case r of
           None \<Rightarrow> Inr (None, ms) | Some s \<Rightarrow> match ms s q)
     | ISingle q ep \<Rightarrow>
         if s < length (ms_src ms) \<and> singlematch (uchar (ms_src ms ! s)) q ep
         then match ms (s + 1) ep else Inr (None, ms)
     | IRepeat r q ep ep1 \<Rightarrow>
         let m = (s < length (ms_src ms) \<and> singlematch (uchar (ms_src ms ! s)) q ep)
         in if r = CHR ''?'' then
              bind_result (if m then match ms (s + 1) ep1 else Inr (None, ms)) (\<lambda>(res, ms).
                case res of Some r \<Rightarrow> Inr (Some r, ms) | None \<Rightarrow> match ms s ep1)
            else if r = CHR ''*'' then max_expand (\<lambda>ms s. match ms s ep1) ms s q ep
            else if r = CHR ''+'' then
              (if m then max_expand (\<lambda>ms s. match ms s ep1) ms (s + 1) q ep else Inr (None, ms))
            else min_expand (\<lambda>ms s. match ms s ep1) ms s q ep)"

lemma match_item: "match ms s p = bind_result (item_of p) (run_item ms s)"
proof (cases "p")
  case Nil
  then show ?thesis by (simp add: match.simps item_of_def)
next
  case (Cons c p1)
  have distinct: "L_ESC \<noteq> CHR ''(''" "L_ESC \<noteq> CHR '')''" "NUL \<noteq> L_ESC" "NUL \<noteq> CHR ''(''" "NUL \<noteq> CHR '')''"
    "NUL \<noteq> CHR ''$''" "L_ESC \<noteq> CHR ''$''" by (simp_all add: L_ESC_def NUL_def)
  have single: ?thesis
    if "item_of p = single_item p"
      and "match ms s p =
         bind_result (classend p) (\<lambda>ep.
              let m = (s < length (ms_src ms) \<and> singlematch (uchar (ms_src ms ! s)) p ep)
              in case ep of
                   [] \<Rightarrow> Inl OutOfBounds
                 | q # ep1 \<Rightarrow>
                     if q = CHR ''?'' then
                       bind_result (if m then match ms (s + 1) ep1 else Inr (None, ms)) (\<lambda>(res, ms).
                         case res of Some r \<Rightarrow> Inr (Some r, ms) | None \<Rightarrow> match ms s ep1)
                     else if q = CHR ''*'' then max_expand (\<lambda>ms s. match ms s ep1) ms s p ep
                     else if q = CHR ''+'' then
                       (if m then max_expand (\<lambda>ms s. match ms s ep1) ms (s + 1) p ep else Inr (None, ms))
                     else if q = CHR ''-'' then min_expand (\<lambda>ms s. match ms s ep1) ms s p ep
                     else if \<not> m then Inr (None, ms)
                     else match ms (s + 1) ep)"
    unfolding that
  proof (rule bind_single_item)
    fix ep
    show "(let m = s < length (ms_src ms) \<and> singlematch (uchar (ms_src ms ! s)) p ep
              in case ep of
                   [] \<Rightarrow> Inl OutOfBounds
                 | q # ep1 \<Rightarrow>
                     if q = CHR ''?'' then
                       bind_result (if m then match ms (s + 1) ep1 else Inr (None, ms)) (\<lambda>(res, ms).
                         case res of Some r \<Rightarrow> Inr (Some r, ms) | None \<Rightarrow> match ms s ep1)
                     else if q = CHR ''*'' then max_expand (\<lambda>ms s. match ms s ep1) ms s p ep
                     else if q = CHR ''+'' then
                       (if m then max_expand (\<lambda>ms s. match ms s ep1) ms (s + 1) p ep else Inr (None, ms))
                     else if q = CHR ''-'' then min_expand (\<lambda>ms s. match ms s ep1) ms s p ep
                     else if \<not> m then Inr (None, ms)
                     else match ms (s + 1) ep) =
          (case ep of [] \<Rightarrow> Inl OutOfBounds
           | q # ep1 \<Rightarrow> if q \<in> repeat_chars then run_item ms s (IRepeat q p ep ep1) else run_item ms s (ISingle p ep))"
    proof (cases ep)
      case ep: (Cons q ep1)
      consider "q = CHR ''?''" | "q = CHR ''*''" | "q = CHR ''+''" | "q = CHR ''-''" | "q \<notin> repeat_chars"
        by (auto simp: repeat_chars_def)
      then show ?thesis by cases (simp_all add: ep repeat_chars_def run_item_def Let_def)
    qed simp
  qed
  show ?thesis
  proof (cases "c = L_ESC")
    case True
    show ?thesis
    proof (cases p1)
      case Nil
      then show ?thesis using Cons True distinct by (simp add: match.simps item_of_def)
    next
      case C1: (Cons d p2)
      show ?thesis
      proof (cases "d = CHR ''b'' \<or> d = CHR ''f'' \<or> isdigit (uchar d)")
        case True': True
        have esc: "match ms s p = (
          if d = CHR ''b'' then
            bind_result (matchbalance ms s p2) (\<lambda>r. case r of
              None \<Rightarrow> Inr (None, ms) | Some s \<Rightarrow> match ms s (drop 2 p2))
          else if d = CHR ''f'' then
            (let p = p2
             in if p = [] then Inl OutOfBounds
                else if hd p \<noteq> CHR ''['' then Inl (ErrRun (''missing '' @ LUA_QL ''['' @ '' after '' @ LUA_QL ''%f'' @ '' in pattern''))
                else bind_result (classend p) (\<lambda>ep.
                  bind_result (if s = 0 then Inr NUL else src_at ms (s - 1)) (\<lambda>previous.
                  bind_result (src_at ms s) (\<lambda>cur.
                    if matchbracketclass (uchar previous) p ep \<or> \<not> matchbracketclass (uchar cur) p ep
                    then Inr (None, ms) else match ms s ep))))
          else bind_result (match_capture ms s (uchar d)) (\<lambda>r. case r of
              None \<Rightarrow> Inr (None, ms) | Some s \<Rightarrow> match ms s p2))"
          by (subst match.simps, simp add: True Cons C1 distinct, use True' in blast)
        consider "d = CHR ''b''" | "d = CHR ''f''" | "d \<noteq> CHR ''b''" "d \<noteq> CHR ''f''" "isdigit (uchar d)"
          using True' by blast
        then show ?thesis
        proof cases
          case 1
          show ?thesis
          proof (cases p2)
            case (Cons b p3)
            then show ?thesis unfolding esc using 1
              by (cases p3; cases "src_at ms s")
                (simp_all add: item_of_def run_item_def matchbalance_def True C1 \<open>p = c # p1\<close> distinct)
          qed (unfold esc, simp add: 1 item_of_def matchbalance_def True C1 \<open>p = c # p1\<close> distinct)
        next
          case 2
          show ?thesis unfolding esc using 2
            by (cases p2) (simp_all add: item_of_def run_item_def True C1 \<open>p = c # p1\<close> distinct Let_def bind_result_assoc)
        next
          case 3
          then show ?thesis unfolding esc
            by (simp add: item_of_def run_item_def True C1 \<open>p = c # p1\<close> distinct)
        qed
      next
        case False
        show ?thesis
          by (rule single; (subst match.simps)?)
            (use distinct False in \<open>simp_all add: True Cons C1 item_of_def\<close>)
      qed
    qed
  next
    case False
    show ?thesis
    proof (cases "c = CHR ''('' \<or> c = CHR '')'' \<or> c = NUL \<or> c = CHR ''$'' \<and> (p1 = [] \<or> hd p1 = NUL)")
      case True
      then show ?thesis using distinct False
        by (subst match.simps) (auto simp: Cons item_of_def run_item_def bind_result_def split: list.splits)
    next
      case F2: False
      show ?thesis
        by (rule single; (subst match.simps)?)
          (use distinct False F2 in \<open>auto simp: Cons item_of_def split: list.splits\<close>)
    qed
  qed
qed

section \<open>What an item leaves of the pattern\<close>

fun item_rest :: "pattern_item \<Rightarrow> c_string" where
  "item_rest IEnd = [NUL]"
| "item_rest IEndOfSubject = [NUL]"
| "item_rest (IOpen what q) = q"
| "item_rest (IClose q) = q"
| "item_rest (IBalance b e q) = q"
| "item_rest (IFrontier q ep) = ep"
| "item_rest (IBackref l q) = q"
| "item_rest (ISingle q ep) = ep"
| "item_rest (IRepeat r q ep ep1) = ep1"

definition scanned :: "c_string result \<Rightarrow> bool" where
  "scanned r = (case r of Inl e \<Rightarrow> legal e | Inr ep \<Rightarrow> NUL \<in> set ep)"

lemma scanned_simps [simp]: "scanned (Inl e) = legal e" "scanned (Inr ep) = (NUL \<in> set ep)"
  by (simp_all add: scanned_def)

lemma NUL_in_tl: "NUL \<in> set p \<Longrightarrow> hd p \<noteq> NUL \<Longrightarrow> NUL \<in> set (tl p)"
  by (cases p) auto

lemma bracket_end_scanned: "NUL \<in> set p \<Longrightarrow> scanned (bracket_end p)"
proof (induction p rule: bracket_end.induct)
  case (1 p)
  show ?case
  proof (cases "hd p = NUL")
    case True
    then show ?thesis using "1.prems" by (subst bracket_end.simps) auto
  next
    case False
    let ?p = "if hd p = L_ESC \<and> hd (tl p) \<noteq> NUL then tl (tl p) else tl p"
    have t: "NUL \<in> set (tl p)" using NUL_in_tl "1.prems" False by blast
    then have q: "NUL \<in> set ?p" using NUL_in_tl by auto
    then have ne: "p \<noteq> []" "tl p \<noteq> []" "?p \<noteq> []" using t by (auto split: if_splits)
    have unf: "bracket_end p = (if hd ?p = CHR '']'' then Inr (tl ?p) else bracket_end ?p)"
      by (subst bracket_end.simps) (use ne False in \<open>simp add: Let_def\<close>)
    show ?thesis
    proof (cases "hd ?p = CHR '']''")
      case True
      moreover have "NUL \<in> set (tl ?p)" using q True by (intro NUL_in_tl) (simp_all add: NUL_def)
      ultimately show ?thesis unfolding unf by (simp only: refl if_True scanned_simps)
    next
      case F: False
      have "scanned (bracket_end ?p)"
        by (rule "1.IH" [OF ne(1) False refl refl ne(2) refl ne(3) F q])
      then show ?thesis unfolding unf using F by (simp only: if_False)
    qed
  qed
qed

lemma classend_scanned:
  assumes "NUL \<in> set (c # p)" and "c \<noteq> NUL"
  shows "scanned (classend (c # p))"
  using assms bracket_end_scanned [of p] bracket_end_scanned [of "tl p"]
  by (cases p) (auto simp: classend.simps NUL_def)

definition item_scanned :: "c_string \<Rightarrow> pattern_item result \<Rightarrow> bool" where
  "item_scanned p r =
     (case r of Inl e \<Rightarrow> legal e
      | Inr it \<Rightarrow> NUL \<in> set (item_rest it) \<and> (it \<noteq> IEnd \<and> it \<noteq> IEndOfSubject \<longrightarrow> length (item_rest it) < length p))"

lemma item_scanned_simps [simp]:
  "item_scanned p (Inl e) = legal e"
  "item_scanned p (Inr it) \<longleftrightarrow>
     NUL \<in> set (item_rest it) \<and> (it \<noteq> IEnd \<and> it \<noteq> IEndOfSubject \<longrightarrow> length (item_rest it) < length p)"
  by (simp_all add: item_scanned_def)

lemma single_item_scanned:
  assumes "NUL \<in> set (c # p)" and "c \<noteq> NUL"
  shows "item_scanned (c # p) (single_item (c # p))"
proof (cases "classend (c # p)")
  case (Inl e)
  then show ?thesis using classend_scanned [OF assms] by (simp add: single_item_def)
next
  case (Inr ep)
  have nul: "NUL \<in> set ep" using classend_scanned [OF assms] Inr by simp
  have len: "length ep < length (c # p)" using classend_shorter [OF Inr] .
  show ?thesis
  proof (cases ep)
    case Nil
    then show ?thesis using nul by simp
  next
    case (Cons q ep1)
    have "q \<in> repeat_chars \<Longrightarrow> q \<noteq> NUL" by (auto simp: repeat_chars_def NUL_def)
    then show ?thesis using nul len by (auto simp: single_item_def Inr Cons)
  qed
qed

lemma item_of_scanned: "NUL \<in> set p \<Longrightarrow> item_scanned p (item_of p)"
proof -
  assume nul: "NUL \<in> set p"
  then obtain c p1 where p: "p = c # p1" by (cases p) auto
  have lits: "NUL \<noteq> CHR ''(''" "NUL \<noteq> CHR '')''" "NUL \<noteq> L_ESC" "NUL \<noteq> CHR ''$''" "NUL \<noteq> CHR ''b''"
    "NUL \<noteq> CHR ''f''" "NUL \<noteq> CHR ''[''" "\<not> isdigit (uchar NUL)"
    by (simp_all add: NUL_def L_ESC_def isdigit_def uchar_def)
  have single: "item_scanned p (single_item p)" if "c \<noteq> NUL"
    using single_item_scanned [of c p1] nul that by (simp add: p)
  show ?thesis
  proof (cases "c = NUL")
    case True
    then show ?thesis using lits by (simp add: item_of_def p)
  next
    case False
    then have n1: "NUL \<in> set p1" using nul by (simp add: p)
    then obtain d p2 where p1: "p1 = d # p2" by (cases p1) auto
    show ?thesis
    proof (cases "c = L_ESC")
      case True
      show ?thesis
      proof (cases "d = NUL")
        case True
        then show ?thesis using single False lits \<open>c = L_ESC\<close> by (simp add: item_of_def p p1)
      next
        case d: False
        then have n2: "NUL \<in> set p2" using n1 by (simp add: p1)
        then obtain b p3 where p2: "p2 = b # p3" by (cases p2) auto
        show ?thesis
        proof (cases "d = CHR ''b''")
          case True
          then show ?thesis using lits n2 \<open>c = L_ESC\<close>
            by (cases p3) (auto simp: item_of_def p p1 p2 L_ESC_def)
        next
          case nb: False
          show ?thesis
          proof (cases "d = CHR ''f''")
            case True
            show ?thesis
            proof (cases "b = CHR ''[''")
              case False
              then show ?thesis using lits True \<open>c = L_ESC\<close> by (simp add: item_of_def p p1 p2 L_ESC_def)
            next
              case br: True
              have "b \<noteq> NUL" using br lits by simp
              then have sc: "scanned (classend p2)" using classend_scanned [of b p3] n2 by (simp add: p2)
              have "item_of p = bind_result (classend p2) (\<lambda>ep. Inr (IFrontier p2 ep))"
                using True \<open>c = L_ESC\<close> br by (simp add: item_of_def p p1 p2 L_ESC_def)
              then show ?thesis using sc classend_shorter [of p2]
                by (cases "classend p2") (auto simp: p p1)
            qed
          next
            case False
            then show ?thesis using lits n2 nb single \<open>c = L_ESC\<close> \<open>c \<noteq> NUL\<close>
              by (simp add: item_of_def p p1 L_ESC_def)
          qed
        qed
      qed
    next
      case esc: False
      show ?thesis using False n1 single lits esc
        by (auto simp: item_of_def p p1)
    qed
  qed
qed

section \<open>What a pattern matches\<close>

type_synonym captures = "(nat \<times> int) list"

definition char_at :: "c_string \<Rightarrow> nat \<Rightarrow> char" where
  "char_at src s = (if s < length src then src ! s else NUL)"

definition item_at :: "c_string \<Rightarrow> c_string \<Rightarrow> c_string \<Rightarrow> nat \<Rightarrow> bool" where
  "item_at src q ep s \<longleftrightarrow> s < length src \<and> singlematch (uchar (src ! s)) q ep"

text \<open>The nesting depth after \<open>w\<close>, which follows an opening delimiter.\<close>

definition depth :: "char \<Rightarrow> char \<Rightarrow> c_string \<Rightarrow> int" where
  "depth b e w = 1 + (\<Sum>x\<leftarrow>w. if x = e then - 1 else if x = b then 1 else 0)"

definition balanced :: "char \<Rightarrow> char \<Rightarrow> c_string \<Rightarrow> bool" where
  "balanced b e w \<longleftrightarrow> depth b e w = 0 \<and> (\<forall>k < length w. depth b e (take k w) > 0)"

text \<open>The innermost open capture.\<close>

definition innermost :: "captures \<Rightarrow> nat \<Rightarrow> bool" where
  "innermost c l \<longleftrightarrow> l < length c \<and> snd (c ! l) = CAP_UNFINISHED
     \<and> (\<forall>k. l < k \<and> k < length c \<longrightarrow> snd (c ! k) \<noteq> CAP_UNFINISHED)"

definition captured :: "c_string \<Rightarrow> captures \<Rightarrow> nat \<Rightarrow> c_string \<Rightarrow> bool" where
  "captured src c k w \<longleftrightarrow> k < length c \<and> 0 \<le> snd (c ! k)
     \<and> fst (c ! k) + nat (snd (c ! k)) \<le> length src
     \<and> w = take (nat (snd (c ! k))) (drop (fst (c ! k)) src)"

definition admissible :: "char \<Rightarrow> nat \<Rightarrow> bool" where
  "admissible r k \<longleftrightarrow> (if r = CHR ''?'' then k \<le> 1 else if r = CHR ''+'' then 1 \<le> k else True)"

text \<open>
  \<open>matches src c p s e c'\<close>: the pattern \<open>p\<close> matches the subject from \<open>s\<close> to \<open>e\<close> and turns the
  captures \<open>c\<close> into \<open>c'\<close>.
\<close>

inductive matches :: "c_string \<Rightarrow> captures \<Rightarrow> c_string \<Rightarrow> nat \<Rightarrow> nat \<Rightarrow> captures \<Rightarrow> bool" for src where
  m_end: "item_of p = Inr IEnd \<Longrightarrow> matches src c p s s c"
| m_eos: "item_of p = Inr IEndOfSubject \<Longrightarrow> s = length src \<Longrightarrow> matches src c p s s c"
| m_open: "item_of p = Inr (IOpen what q) \<Longrightarrow> matches src (c @ [(s, what)]) q s e c' \<Longrightarrow> matches src c p s e c'"
| m_close: "item_of p = Inr (IClose q) \<Longrightarrow> innermost c l \<Longrightarrow>
    matches src (c[l := (fst (c ! l), int s - int (fst (c ! l)))]) q s e c' \<Longrightarrow> matches src c p s e c'"
| m_balance: "item_of p = Inr (IBalance b d q) \<Longrightarrow> char_at src s = b \<Longrightarrow> s + 1 + k \<le> length src \<Longrightarrow>
    balanced b d (take k (drop (s + 1) src)) \<Longrightarrow>
    matches src c q (s + 1 + k) e c' \<Longrightarrow> matches src c p s e c'"
| m_frontier: "item_of p = Inr (IFrontier q ep) \<Longrightarrow>
    \<not> matchbracketclass (uchar (if s = 0 then NUL else char_at src (s - 1))) q ep \<Longrightarrow>
    matchbracketclass (uchar (char_at src s)) q ep \<Longrightarrow>
    matches src c ep s e c' \<Longrightarrow> matches src c p s e c'"
| m_backref: "item_of p = Inr (IBackref l q) \<Longrightarrow> uchar CHR ''1'' \<le> l \<Longrightarrow>
    captured src c (nat (l - uchar CHR ''1'')) w \<Longrightarrow> take (length w) (drop s src) = w \<Longrightarrow>
    matches src c q (s + length w) e c' \<Longrightarrow> matches src c p s e c'"
| m_single: "item_of p = Inr (ISingle q ep) \<Longrightarrow> item_at src q ep s \<Longrightarrow>
    matches src c ep (s + 1) e c' \<Longrightarrow> matches src c p s e c'"
| m_repeat: "item_of p = Inr (IRepeat r q ep ep1) \<Longrightarrow> admissible r k \<Longrightarrow>
    (\<forall>i < k. item_at src q ep (s + i)) \<Longrightarrow>
    matches src c ep1 (s + k) e c' \<Longrightarrow> matches src c p s e c'"

lemma matches_item:
  assumes "item_of p = Inr it"
  shows "matches src c p s e c' \<longleftrightarrow> (case it of
     IEnd \<Rightarrow> e = s \<and> c' = c
   | IEndOfSubject \<Rightarrow> s = length src \<and> e = s \<and> c' = c
   | IOpen what q \<Rightarrow> matches src (c @ [(s, what)]) q s e c'
   | IClose q \<Rightarrow> (\<exists>l. innermost c l \<and> matches src (c[l := (fst (c ! l), int s - int (fst (c ! l)))]) q s e c')
   | IBalance b d q \<Rightarrow> char_at src s = b \<and> (\<exists>k. s + 1 + k \<le> length src
        \<and> balanced b d (take k (drop (s + 1) src)) \<and> matches src c q (s + 1 + k) e c')
   | IFrontier q ep \<Rightarrow> \<not> matchbracketclass (uchar (if s = 0 then NUL else char_at src (s - 1))) q ep
        \<and> matchbracketclass (uchar (char_at src s)) q ep \<and> matches src c ep s e c'
   | IBackref l q \<Rightarrow> uchar CHR ''1'' \<le> l \<and> (\<exists>w. captured src c (nat (l - uchar CHR ''1'')) w
        \<and> take (length w) (drop s src) = w \<and> matches src c q (s + length w) e c')
   | ISingle q ep \<Rightarrow> item_at src q ep s \<and> matches src c ep (s + 1) e c'
   | IRepeat r q ep ep1 \<Rightarrow> (\<exists>k. admissible r k \<and> (\<forall>i < k. item_at src q ep (s + i))
        \<and> matches src c ep1 (s + k) e c'))"
  by (subst matches.simps) (simp add: assms split: pattern_item.split; blast)

section \<open>Outcomes\<close>

definition caps :: "MatchState \<Rightarrow> captures" where
  "caps ms = take (ms_level ms) (ms_capture ms)"

definition capture_ok :: "c_string \<Rightarrow> nat \<times> int \<Rightarrow> bool" where
  "capture_ok src = (\<lambda>(i, l). i \<le> length src
     \<and> (l = CAP_UNFINISHED \<or> l = CAP_POSITION \<or> 0 \<le> l \<and> int i + l \<le> int (length src)))"

definition state_ok :: "c_string \<Rightarrow> MatchState \<Rightarrow> bool" where
  "state_ok src ms \<longleftrightarrow> ms_src ms = src \<and> length src < 2 ^ 63 \<and> length (ms_capture ms) = LUA_MAXCAPTURES
     \<and> ms_level ms \<le> LUA_MAXCAPTURES \<and> (\<forall>x \<in> set (caps ms). capture_ok src x)"

text \<open>
  The outcome \<open>out\<close> of an attempt from \<open>s\<close> with the captures \<open>c\<close> settles whether \<open>R\<close> holds of
  some end and captures.
\<close>

definition decides ::
    "c_string \<Rightarrow> nat \<Rightarrow> captures \<Rightarrow> (nat \<Rightarrow> captures \<Rightarrow> bool) \<Rightarrow> outcome \<Rightarrow> bool" where
  "decides src s c R out =
     (case out of
        Inl e \<Rightarrow> legal e
      | Inr (res, ms) \<Rightarrow> state_ok src ms \<and>
          (case res of
             Some e \<Rightarrow> s \<le> e \<and> e \<le> length src \<and> R e (caps ms)
           | None \<Rightarrow> caps ms = c \<and> (\<forall>e c'. \<not> R e c')))"

lemma decides_simps [simp]:
  "decides src s c R (Inl x) = legal x"
  "decides src s c R (Inr (Some e, ms)) \<longleftrightarrow> state_ok src ms \<and> s \<le> e \<and> e \<le> length src \<and> R e (caps ms)"
  "decides src s c R (Inr (None, ms)) \<longleftrightarrow> state_ok src ms \<and> caps ms = c \<and> (\<forall>e c'. \<not> R e c')"
  by (simp_all add: decides_def)

lemma outcome_cases:
  fixes out :: outcome
  obtains (error) x where "out = Inl x" | (found) e ms where "out = Inr (Some e, ms)"
    | (failed) ms where "out = Inr (None, ms)"
  by (cases out) (auto, metis option.exhaust prod.exhaust)

lemma decides_from: "decides src s' c R out \<Longrightarrow> s \<le> s' \<Longrightarrow> decides src s c R out"
  by (cases out rule: outcome_cases) auto

lemma decides_iff: "decides src s c R out \<Longrightarrow> (\<And>e c'. R e c' \<longleftrightarrow> R' e c') \<Longrightarrow> decides src s c R' out"
  by (cases out rule: outcome_cases) auto

text \<open>Trying a second way where the first fails.\<close>

lemma decides_or_else:
  assumes "decides src s c R out"
    and "\<And>ms. state_ok src ms \<Longrightarrow> caps ms = c \<Longrightarrow> decides src s c R' (f ms)"
  shows "decides src s c (\<lambda>e c'. R e c' \<or> R' e c')
           (bind_result out (\<lambda>(res, ms). case res of Some r \<Rightarrow> Inr (Some r, ms) | None \<Rightarrow> f ms))"
proof (cases out rule: outcome_cases)
  case (failed ms)
  then have "decides src s c R' (f ms)" "\<forall>e c'. \<not> R e c'" using assms by auto
  then show ?thesis by (auto simp: failed elim: decides_iff)
qed (use assms in auto)

text \<open>Going on with \<open>m\<close> at \<open>s0\<close> or later, with the captures \<open>c\<close>.\<close>

definition continues ::
    "c_string \<Rightarrow> nat \<Rightarrow> captures \<Rightarrow> (nat \<Rightarrow> nat \<Rightarrow> captures \<Rightarrow> bool) \<Rightarrow> (MatchState \<Rightarrow> nat \<Rightarrow> outcome) \<Rightarrow> bool" where
  "continues src s0 c R m \<longleftrightarrow>
     (\<forall>ms s. state_ok src ms \<and> caps ms = c \<and> s0 \<le> s \<and> s \<le> length src \<longrightarrow> decides src s c (R s) (m ms s))"

lemma continuesD:
  "continues src s0 c R m \<Longrightarrow> state_ok src ms \<Longrightarrow> caps ms = c \<Longrightarrow> s0 \<le> s \<Longrightarrow> s \<le> length src
   \<Longrightarrow> decides src s c (R s) (m ms s)"
  by (simp add: continues_def)

lemma max_try_decides:
  assumes "continues src s0 c R m" and "state_ok src ms" and "caps ms = c" and "s0 \<le> s" and "s + n \<le> length src"
  shows "decides src s c (\<lambda>e c'. \<exists>k \<le> n. R (s + k) e c') (max_try m ms s n)"
  using assms
proof (induction n arbitrary: ms)
  case 0
  have "decides src s c (R s) (m ms s)" using continuesD [OF 0(1-4)] 0 by simp
  then show ?case by (cases "m ms s" rule: outcome_cases) (auto simp: max_try.simps [of _ _ _ 0])
next
  case (Suc n)
  have "decides src (s + Suc n) c (R (s + Suc n)) (m ms (s + Suc n))"
    using continuesD [OF Suc.prems(1-3)] Suc.prems(4,5) by simp
  then have "decides src s c (R (s + Suc n)) (m ms (s + Suc n))" by (rule decides_from) simp
  moreover have "decides src s c (\<lambda>e c'. \<exists>k \<le> n. R (s + k) e c') (max_try m ms' s n)"
    if "state_ok src ms'" "caps ms' = c" for ms' using Suc.IH [OF Suc.prems(1) that] Suc.prems(4,5) by simp
  ultimately have "decides src s c (\<lambda>e c'. R (s + Suc n) e c' \<or> (\<exists>k \<le> n. R (s + k) e c'))
      (bind_result (m ms (s + Suc n)) (\<lambda>(res, ms). case res of Some r \<Rightarrow> Inr (Some r, ms) | None \<Rightarrow> max_try m ms s n))"
    by (rule decides_or_else)
  moreover have "max_try m ms s (Suc n) = (bind_result (m ms (s + Suc n)) (\<lambda>(res, ms). case res of Some r \<Rightarrow> Inr (Some r, ms) | None \<Rightarrow> max_try m ms s n))"
    by (subst max_try.simps) (simp only: nat.case)
  ultimately show ?case by (auto simp: le_Suc_eq elim!: decides_iff)
qed

lemma min_try_decides:
  assumes "continues src s0 c R m" and "state_ok src ms" and "caps ms = c" and "s0 \<le> s" and "s \<le> length src"
  shows "decides src s c (\<lambda>e c'. \<exists>k. (\<forall>i < k. item_at src q ep (s + i)) \<and> R (s + k) e c')
           (min_try m (\<lambda>c. singlematch (uchar c) q ep) ms s (drop s src))"
  using assms
proof (induction "length src - s" arbitrary: s ms)
  case 0
  then have s: "s = length src" by simp
  have "decides src s c (R s) (m ms s)" using continuesD 0(2-6) by blast
  moreover have "(\<forall>i < k. item_at src q ep (s + i)) \<longleftrightarrow> k = 0" for k
    by (cases k) (auto simp: s item_at_def)
  ultimately show ?case
    by (cases "m ms s" rule: outcome_cases) (auto simp: min_try.simps [of _ _ _ _ "[]"] s)
next
  case (Suc n)
  then have lt: "s < length src" by simp
  then have ds: "drop s src = src ! s # drop (s + 1) src" by (simp add: Cons_nth_drop_Suc)
  let ?single = "\<lambda>c. singlematch (uchar c) q ep"
  let ?Q = "\<lambda>s e c'. \<exists>k. (\<forall>i < k. item_at src q ep (s + i)) \<and> R (s + k) e c'"
  let ?next = "\<lambda>ms. if ?single (src ! s) then min_try m ?single ms (s + 1) (drop (s + 1) src) else Inr (None, ms)"
  have now: "decides src s c (R s) (m ms s)" using continuesD Suc.prems by blast
  have more: "decides src s c (\<lambda>e c'. item_at src q ep s \<and> ?Q (s + 1) e c') (?next ms')"
    if ms': "state_ok src ms'" "caps ms' = c" for ms'
  proof (cases "?single (src ! s)")
    case True
    have "decides src (s + 1) c (?Q (s + 1)) (min_try m ?single ms' (s + 1) (drop (s + 1) src))"
      using Suc.hyps(1) [OF _ Suc.prems(1) ms', of "s + 1"] Suc.hyps(2) Suc.prems(4) lt by simp
    then have "decides src s c (?Q (s + 1)) (min_try m ?single ms' (s + 1) (drop (s + 1) src))"
      by (rule decides_from) simp
    then show ?thesis using True lt by (simp add: item_at_def)
  qed (use ms' in \<open>simp add: item_at_def\<close>)
  have "min_try m ?single ms s (drop s src) =
      bind_result (m ms s) (\<lambda>(res, ms). case res of Some r \<Rightarrow> Inr (Some r, ms) | None \<Rightarrow> ?next ms)"
    by (subst min_try.simps) (simp only: ds list.case)
  moreover have "?Q s e c' \<longleftrightarrow> R s e c' \<or> item_at src q ep s \<and> ?Q (s + 1) e c'" for e c'
  proof
    assume "?Q s e c'"
    then obtain k where k: "\<forall>i < k. item_at src q ep (s + i)" "R (s + k) e c'" by blast
    show "R s e c' \<or> item_at src q ep s \<and> ?Q (s + 1) e c'"
    proof (cases k)
      case 0
      then show ?thesis using k by simp
    next
      case (Suc k')
      then have "item_at src q ep s" using k(1) by fastforce
      moreover have "\<forall>i < k'. item_at src q ep (s + 1 + i)" using k(1) Suc by auto
      ultimately show ?thesis using k(2) Suc by auto
    qed
  next
    assume "R s e c' \<or> item_at src q ep s \<and> ?Q (s + 1) e c'"
    then show "?Q s e c'"
    proof
      assume "item_at src q ep s \<and> ?Q (s + 1) e c'"
      then obtain k where "item_at src q ep s" "\<forall>i < k. item_at src q ep (s + 1 + i)" "R (s + 1 + k) e c'" by blast
      then show ?thesis by (intro exI [of _ "Suc k"]) (auto simp: less_Suc_eq_0_disj)
    qed (auto intro: exI [of _ 0])
  qed
  ultimately show ?case using decides_or_else [OF now more] by (auto elim: decides_iff)
qed

lemma takeWhile_items:
  "s \<le> length src \<Longrightarrow>
   k \<le> length (takeWhile (\<lambda>c. singlematch (uchar c) q ep) (drop s src)) \<longleftrightarrow> (\<forall>i < k. item_at src q ep (s + i))"
proof (induction k arbitrary: s)
  case (Suc k)
  show ?case
  proof (cases "s < length src")
    case True
    then have "drop s src = src ! s # drop (Suc s) src" by (simp add: Cons_nth_drop_Suc)
    then show ?thesis using Suc.IH [of "Suc s"] True
      by (auto simp: item_at_def less_Suc_eq_0_disj)
  next
    case False
    then show ?thesis using Suc.prems by (auto simp: item_at_def)
  qed
qed simp

lemma max_expand_decides:
  assumes "continues src s0 c R m" and "state_ok src ms" and "caps ms = c" and "s0 \<le> s" and "s \<le> length src"
  shows "decides src s c (\<lambda>e c'. \<exists>k. (\<forall>i < k. item_at src q ep (s + i)) \<and> R (s + k) e c')
           (max_expand m ms s q ep)"
proof -
  let ?n = "length (takeWhile (\<lambda>c. singlematch (uchar c) q ep) (drop s src))"
  have "?n \<le> length (drop s src)" by (rule length_takeWhile_le)
  then have "s + ?n \<le> length src" using assms(5) by simp
  then have "decides src s c (\<lambda>e c'. \<exists>k \<le> ?n. R (s + k) e c') (max_try m ms s ?n)"
    by (rule max_try_decides [OF assms(1-4)])
  moreover have "ms_src ms = src" using assms(2) by (simp add: state_ok_def)
  ultimately show ?thesis by (auto simp: max_expand_def takeWhile_items [OF assms(5)] elim!: decides_iff)
qed

lemma min_expand_decides:
  assumes "continues src s0 c R m" and "state_ok src ms" and "caps ms = c" and "s0 \<le> s" and "s \<le> length src"
  shows "decides src s c (\<lambda>e c'. \<exists>k. (\<forall>i < k. item_at src q ep (s + i)) \<and> R (s + k) e c')
           (min_expand m ms s q ep)"
  using min_try_decides [OF assms] assms(2) by (simp add: min_expand_def state_ok_def)

section \<open>Captures\<close>

definition open_before :: "captures \<Rightarrow> nat \<Rightarrow> bool" where
  "open_before c s \<longleftrightarrow> (\<forall>x \<in> set c. snd x = CAP_UNFINISHED \<longrightarrow> fst x \<le> s)"

lemma length_caps: "state_ok src ms \<Longrightarrow> length (caps ms) = ms_level ms"
  by (simp add: state_ok_def caps_def)

lemma caps_nth: "l < ms_level ms \<Longrightarrow> caps ms ! l = ms_capture ms ! l"
  by (simp add: caps_def)

lemma start_capture_decides:
  assumes ok: "state_ok src ms" and s: "s \<le> length src"
    and what: "what = CAP_UNFINISHED \<or> what = CAP_POSITION"
    and m: "\<And>ms'. state_ok src ms' \<Longrightarrow> caps ms' = caps ms @ [(s, what)] \<Longrightarrow>
      decides src s (caps ms @ [(s, what)]) R (m ms')"
  shows "decides src s (caps ms) R (start_capture m ms s what)"
proof (cases "ms_level ms \<ge> LUA_MAXCAPTURES")
  case True
  then show ?thesis by (simp add: start_capture_def)
next
  case False
  let ?ms = "ms\<lparr>ms_capture := (ms_capture ms)[ms_level ms := (s, what)], ms_level := ms_level ms + 1\<rparr>"
  have c: "caps ?ms = caps ms @ [(s, what)]"
    using False ok by (simp add: caps_def state_ok_def take_Suc_conv_app_nth)
  have "state_ok src ?ms" using ok False s what unfolding state_ok_def c by (auto simp: capture_ok_def)
  note d = m [OF this c]
  have run: "start_capture m ms s what =
      bind_result (m ?ms) (\<lambda>(res, ms). Inr (res, if res = None then ms\<lparr>ms_level := ms_level ms - 1\<rparr> else ms))"
    using False by (simp only: start_capture_def Let_def if_False)
  from d show ?thesis
  proof (cases "m ?ms" rule: outcome_cases)
    case (failed ms')
    with d have r: "state_ok src ms'" "caps ms' = caps ms @ [(s, what)]" "\<forall>e c'. \<not> R e c'"
      by auto
    let ?ms' = "ms'\<lparr>ms_level := ms_level ms' - 1\<rparr>"
    have "ms_level ms' = Suc (length (caps ms))" using length_caps [OF r(1)] r(2) by simp
    then have c': "caps ?ms' = caps ms" using r(2) by (simp add: caps_def) (metis append_eq_conv_conj length_take
        min.absorb2 nat_le_linear take_all_iff take_take)
    moreover have "state_ok src ?ms'" using r(1) ok unfolding state_ok_def c' by auto
    ultimately show ?thesis unfolding run failed using r(3) by simp
  qed (auto simp: run simp del: One_nat_def)
qed

lemma capture_to_close_loop_spec:
  "case capture_to_close_loop cs n of
     Inl e \<Rightarrow> legal e \<and> (\<forall>k < n. snd (cs ! k) \<noteq> CAP_UNFINISHED)
   | Inr l \<Rightarrow> l < n \<and> snd (cs ! l) = CAP_UNFINISHED \<and> (\<forall>k. l < k \<and> k < n \<longrightarrow> snd (cs ! k) \<noteq> CAP_UNFINISHED)"
  by (induction n) (auto simp: less_Suc_eq split: sum.splits)

lemma innermost_unique: "innermost c l \<Longrightarrow> innermost c l' \<Longrightarrow> l = l'"
  by (auto simp: innermost_def) (meson linorder_neqE_nat)

lemma capture_to_close_spec:
  assumes "state_ok src ms"
  shows "case capture_to_close ms of Inl e \<Rightarrow> legal e | Inr l \<Rightarrow> innermost (caps ms) l"
  using capture_to_close_loop_spec [where cs = "ms_capture ms" and n = "ms_level ms"] length_caps [OF assms]
  by (auto simp: capture_to_close_def innermost_def caps_nth split: sum.splits)

lemma end_capture_decides:
  assumes ok: "state_ok src ms" and s: "s \<le> length src" and op: "open_before (caps ms) s"
    and m: "\<And>ms' c. state_ok src ms' \<Longrightarrow> caps ms' = c \<Longrightarrow> open_before c s \<Longrightarrow> decides src s c (R c) (m ms')"
  shows "decides src s (caps ms)
           (\<lambda>e c'. \<exists>l. innermost (caps ms) l \<and>
              R ((caps ms)[l := (fst (caps ms ! l), int s - int (fst (caps ms ! l)))]) e c')
           (end_capture m ms s)"
proof (cases "capture_to_close ms")
  case (Inl e)
  then show ?thesis using capture_to_close_spec [OF ok] by (simp add: end_capture_def)
next
  case (Inr l)
  then have inner: "innermost (caps ms) l" using capture_to_close_spec [OF ok] by simp
  then have l: "l < ms_level ms" "snd (caps ms ! l) = CAP_UNFINISHED"
    by (simp_all add: innermost_def length_caps [OF ok])
  define init where "init = fst (caps ms ! l)"
  have init': "fst (ms_capture ms ! l) = init" using l by (simp add: init_def caps_nth)
  have mem: "caps ms ! l \<in> set (caps ms)" using l(1) length_caps [OF ok] by simp
  then have le: "init \<le> s" using op l(2) by (simp add: open_before_def init_def)
  let ?c = "(caps ms)[l := (init, int s - int init)]"
  let ?ms = "ms\<lparr>ms_capture := (ms_capture ms)[l := (init, int s - int init)]\<rparr>"
  have c: "caps ?ms = ?c" by (simp add: caps_def take_update_swap)
  have sub: "set ?c \<subseteq> insert (init, int s - int init) (set (caps ms))" by (rule set_update_subset_insert)
  have "capture_ok src (init, int s - int init)" using le s by (simp add: capture_ok_def)
  then have ok': "state_ok src ?ms" using ok sub unfolding state_ok_def c by auto
  have op': "open_before ?c s" using op sub le by (fastforce simp: open_before_def)
  have exl: "(\<exists>l'. innermost (caps ms) l' \<and> R ((caps ms)[l' := (fst (caps ms ! l'), int s - int (fst (caps ms ! l')))]) e c')
      \<longleftrightarrow> R ?c e c'" for e c'
    using inner innermost_unique unfolding init_def by blast
  have run: "end_capture m ms s = bind_result (m ?ms) (\<lambda>(res, ms). Inr (res, if res = None
        then ms\<lparr>ms_capture := (ms_capture ms)[l := (fst (ms_capture ms ! l), CAP_UNFINISHED)]\<rparr> else ms))"
    by (simp add: end_capture_def Inr init' Let_def)
  note d = m [OF ok' c op']
  show ?thesis unfolding exl
  proof (cases "m ?ms" rule: outcome_cases)
    case (failed ms')
    then have r: "state_ok src ms'" "caps ms' = ?c" "\<forall>e c'. \<not> R ?c e c'" using d by auto
    have lev: "ms_level ms' = ms_level ms" using length_caps [OF r(1)] r(2) length_caps [OF ok] by simp
    have "caps ms' ! l = (init, int s - int init)" using r(2) l(1) length_caps [OF ok] by simp
    then have "fst (ms_capture ms' ! l) = init" using l(1) lev caps_nth [of l ms'] by simp
    moreover have "caps ms ! l = (init, CAP_UNFINISHED)" using l(2) by (simp add: init_def prod_eq_iff)
    ultimately have c'': "caps (ms'\<lparr>ms_capture := (ms_capture ms')[l := (fst (ms_capture ms' ! l), CAP_UNFINISHED)]\<rparr>) = caps ms"
      using r(2) list_update_id [of "caps ms" l] by (simp add: caps_def take_update_swap)
    then have "state_ok src (ms'\<lparr>ms_capture := (ms_capture ms')[l := (fst (ms_capture ms' ! l), CAP_UNFINISHED)]\<rparr>)"
      using r(1) ok unfolding state_ok_def c'' by auto
    then show "decides src s (caps ms) (R ?c) (end_capture m ms s)" unfolding run by (simp add: failed c'' r(3))
  qed (use d run in auto)
qed

section \<open>Back references and balanced text\<close>

lemma match_capture_spec:
  assumes ok: "state_ok src ms" and s: "s \<le> length src"
  shows "case match_capture ms s l of
     Inl e \<Rightarrow> legal e
   | Inr res \<Rightarrow> uchar CHR ''1'' \<le> l \<and> (\<forall>s'. res = Some s' \<longleftrightarrow>
       (\<exists>w. captured src (caps ms) (nat (l - uchar CHR ''1'')) w \<and> take (length w) (drop s src) = w \<and> s' = s + length w))"
proof (cases "check_capture ms l")
  case (Inl e)
  then show ?thesis by (auto simp: match_capture_def check_capture_def Let_def split: if_splits)
next
  case (Inr k)
  then have k: "uchar CHR ''1'' \<le> l" "k = nat (l - uchar CHR ''1'')" "k < ms_level ms"
    "snd (ms_capture ms ! k) \<noteq> CAP_UNFINISHED"
    by (auto simp: check_capture_def Let_def split: if_splits)
  obtain i n where c: "caps ms ! k = (i, n)" by (cases "caps ms ! k")
  then have c': "ms_capture ms ! k = (i, n)" using k(3) by (simp add: caps_nth)
  have "caps ms ! k \<in> set (caps ms)" using k(3) length_caps [OF ok] by simp
  then have "capture_ok src (i, n)" using ok c by (metis state_ok_def)
  moreover have "n \<noteq> CAP_UNFINISHED" using k(4) c' by simp
  ultimately have n: "i \<le> length src" "n = CAP_POSITION \<or> 0 \<le> n \<and> int i + n \<le> int (length src)"
    by (simp_all add: capture_ok_def)
  have src: "ms_src ms = src" "length src < 2 ^ 63" using ok by (simp_all add: state_ok_def)
  from n(2) show ?thesis
  proof
    assume p: "n = CAP_POSITION"
    have "n mod 2 ^ 64 = 2 ^ 64 - 2" by (simp add: p CAP_POSITION_def)
    moreover have "int (length src) < 2 ^ 63" using src(2) by (metis of_nat_less_iff of_nat_numeral of_nat_power)
    ultimately have "\<not> int (length src) - int s \<ge> n mod 2 ^ 64" using s by simp
    then have "match_capture ms s l = Inr None" by (simp add: match_capture_def Inr c' src Let_def)
    then show ?thesis using k(1,2) c by (simp add: captured_def p CAP_POSITION_def)
  next
    assume p: "0 \<le> n \<and> int i + n \<le> int (length src)"
    have "int (length src) < 2 ^ 63" using src(2) by (metis of_nat_less_iff of_nat_numeral of_nat_power)
    then have "n mod 2 ^ 64 = n" using p by (intro mod_pos_pos_trivial) auto
    then have run: "match_capture ms s l = Inr (if int (length src) - int s \<ge> n \<and>
        take (nat n) (drop i src) = take (nat n) (drop s src) then Some (s + nat n) else None)"
      using p by (simp add: match_capture_def Inr c' src Let_def)
    define w0 where "w0 = take (nat n) (drop i src)"
    have capt: "captured src (caps ms) k w \<longleftrightarrow> w = w0" for w
      using p k(3) length_caps [OF ok] by (auto simp: captured_def c w0_def)
    have "nat n \<le> length src - i" using p by linarith
    then have len: "length w0 = nat n" by (simp add: w0_def)
    have "int (length src) - int s \<ge> n" if "take (nat n) (drop s src) = w0"
      using arg_cong [OF that, of length] p s len by (simp add: min_def split: if_splits)
    then have "match_capture ms s l = Inr (if take (nat n) (drop s src) = w0 then Some (s + nat n) else None)"
      unfolding run w0_def by auto
    then show ?thesis using k(1) by (simp add: k(2) [symmetric] capt len) auto
  qed
qed

lemma depth_simps [simp]:
  "depth b e [] = 1"
  "depth b e (x # w) = depth b e w + (if x = e then - 1 else if x = b then 1 else 0)"
  by (simp_all add: depth_def)

lemma ex_shift: "\<not> P 0 \<Longrightarrow> (\<And>k. P (Suc k) \<longleftrightarrow> Q k) \<Longrightarrow> (\<exists>k. P k) \<longleftrightarrow> (\<exists>k :: nat. Q k)"
  by (metis not0_implies_Suc)

lemma balance_loop_spec:
  assumes "1 \<le> n"
  shows "balance_loop b e n s r = Some s' \<longleftrightarrow>
    (\<exists>k \<le> length r. s' = s + k \<and> int n - 1 + depth b e (take k r) = 0
       \<and> (\<forall>j < k. int n - 1 + depth b e (take j r) > 0))"
  using assms
proof (induction r arbitrary: n s)
  case Nil
  then show ?case by auto
next
  case (Cons x r)
  have shift: "(\<exists>k \<le> length (x # r). s' = s + k \<and> int n - 1 + depth b e (take k (x # r)) = 0
        \<and> (\<forall>j < k. int n - 1 + depth b e (take j (x # r)) > 0)) \<longleftrightarrow>
      (\<exists>k \<le> length r. s' = s + 1 + k \<and> int n - 1 + (if x = e then - 1 else if x = b then 1 else 0) + depth b e (take k r) = 0
        \<and> (\<forall>j < k. int n - 1 + (if x = e then - 1 else if x = b then 1 else 0) + depth b e (take j r) > 0))"
    (is "(\<exists>k. ?P k) \<longleftrightarrow> (\<exists>k. ?Q k)")
  proof (rule ex_shift)
    show "\<not> ?P 0" using Cons.prems by simp
    fix k
    have "(\<forall>j < Suc k. F j) \<longleftrightarrow> F 0 \<and> (\<forall>j < k. F (Suc j))" for F :: "nat \<Rightarrow> bool"
      by (auto simp: less_Suc_eq_0_disj)
    note split = this [of "\<lambda>j. int n - 1 + depth b e (take j (x # r)) > 0"]
    show "?P (Suc k) \<longleftrightarrow> ?Q k" using Cons.prems unfolding split by (simp add: algebra_simps)
  qed
  show ?case
  proof (cases "x = e \<and> n = 1")
    case True
    have "?thesis \<longleftrightarrow> (s' = s + 1 \<longleftrightarrow> (\<exists>k \<le> length r. s' = s + 1 + k \<and> - 1 + depth b e (take k r) = 0
        \<and> (\<forall>j < k. - 1 + depth b e (take j r) > 0)))"
      unfolding shift using True by auto
    moreover have "\<dots>"
    proof
      assume "s' = s + 1"
      then show "\<exists>k \<le> length r. s' = s + 1 + k \<and> - 1 + depth b e (take k r) = 0
        \<and> (\<forall>j < k. - 1 + depth b e (take j r) > 0)" by (intro exI [of _ 0]) simp
    next
      assume "\<exists>k \<le> length r. s' = s + 1 + k \<and> - 1 + depth b e (take k r) = 0
        \<and> (\<forall>j < k. - 1 + depth b e (take j r) > 0)"
      then obtain k where k: "s' = s + 1 + k" "\<forall>j < k. - 1 + depth b e (take j r) > 0" by blast
      have "k = 0"
      proof (rule ccontr)
        assume "k \<noteq> 0"
        then show False using k(2) [rule_format, of 0] by simp
      qed
      then show "s' = s + 1" using k by simp
    qed
    ultimately show ?thesis by blast
  next
    case False
    define n' where "n' = (if x = e then n - 1 else if x = b then n + 1 else n)"
    have "1 \<le> n'" using False Cons.prems by (auto simp: n'_def)
    have step: "balance_loop b e n s (x # r) = balance_loop b e n' (s + 1) r"
      using False by (simp add: n'_def)
    have val: "int n - 1 + (if x = e then - 1 else if x = b then 1 else 0) = int n' - 1"
      using Cons.prems by (simp add: n'_def of_nat_diff)
    show ?thesis unfolding shift val step by (rule Cons.IH [OF \<open>1 \<le> n'\<close>])
  qed
qed

section \<open>The matcher decides what a pattern matches\<close>

lemma src_at_char: "state_ok src ms \<Longrightarrow> s \<le> length src \<Longrightarrow> src_at ms s = Inr (char_at src s)"
  by (auto simp: src_at_def char_at_def state_ok_def)

lemma open_before_mono: "open_before c s \<Longrightarrow> s \<le> s' \<Longrightarrow> open_before c s'"
  by (auto simp: open_before_def intro: order_trans)

lemma open_before_snoc: "open_before c s \<Longrightarrow> open_before (c @ [(s, what)]) s"
  by (auto simp: open_before_def)

lemma item_single_repeat:
  "single_item p = Inr it \<Longrightarrow>
     (\<exists>ep. it = ISingle p ep) \<or> (\<exists>r ep ep1. it = IRepeat r p ep ep1 \<and> r \<in> repeat_chars)"
  by (cases "classend p") (auto simp: single_item_def split: list.splits if_splits)

lemma item_of_open: "item_of p = Inr (IOpen what q) \<Longrightarrow> what = CAP_UNFINISHED \<or> what = CAP_POSITION"
  by (auto simp: item_of_def bind_result_eq_Inr split: list.splits if_splits dest: item_single_repeat)

lemma item_of_repeat: "item_of p = Inr (IRepeat r q ep ep1) \<Longrightarrow> r \<in> repeat_chars"
  by (auto simp: item_of_def bind_result_eq_Inr split: list.splits if_splits dest: item_single_repeat)

lemma match_decides_lemma:
  assumes "NUL \<in> set p" and "state_ok src ms" and "s \<le> length src" and "open_before (caps ms) s"
  shows "decides src s (caps ms) (matches src (caps ms) p s) (match ms s p)"
  using assms
proof (induction "length p" arbitrary: p ms s rule: less_induct)
  case less
  note ok = less.prems(2) and s = less.prems(3) and op = less.prems(4)
  have src: "ms_src ms = src" using ok by (simp add: state_ok_def)
  show ?case
  proof (cases "item_of p")
    case (Inl e)
    then show ?thesis using item_of_scanned [OF less.prems(1)] by (simp add: match_item)
  next
    case it: (Inr it)
    have sc: "NUL \<in> set (item_rest it)"
      "it \<noteq> IEnd \<Longrightarrow> it \<noteq> IEndOfSubject \<Longrightarrow> length (item_rest it) < length p"
      using item_of_scanned [OF less.prems(1)] it by auto
    have run: "match ms s p = run_item ms s it" by (simp add: match_item it)
    note spec = matches_item [OF it]
    have IH: "decides src s' (caps ms') (matches src (caps ms') (item_rest it) s') (match ms' s' (item_rest it))"
      if "it \<noteq> IEnd" "it \<noteq> IEndOfSubject" "state_ok src ms'" "s' \<le> length src" "open_before (caps ms') s'"
      for ms' s' using less.hyps [OF sc(2)] sc(1) that by blast
    have cont: "continues src s (caps ms) (\<lambda>s'. matches src (caps ms) (item_rest it) s')
        (\<lambda>ms s. match ms s (item_rest it))" if "it \<noteq> IEnd" "it \<noteq> IEndOfSubject"
      unfolding continues_def
    proof (intro allI impI)
      fix ms' s' assume a: "state_ok src ms' \<and> caps ms' = caps ms \<and> s \<le> s' \<and> s' \<le> length src"
      then have "open_before (caps ms') s'" using op open_before_mono by auto
      then show "decides src s' (caps ms) (matches src (caps ms) (item_rest it) s') (match ms' s' (item_rest it))"
        using IH [OF that, of ms' s'] a by simp
    qed
    have go: "decides src s (caps ms) (matches src (caps ms) (item_rest it) s') (match ms s' (item_rest it))"
      if "it \<noteq> IEnd" "it \<noteq> IEndOfSubject" "s \<le> s'" "s' \<le> length src" for s'
      using continuesD [OF cont [OF that(1,2)] ok refl that(3,4)] that(3) by (rule decides_from)
    show ?thesis
    proof (cases it)
      case IEnd
      then show ?thesis using ok s by (simp add: run run_item_def spec)
    next
      case IEndOfSubject
      then show ?thesis using ok s by (simp add: run run_item_def spec src)
    next
      case (IOpen what q)
      have "decides src s (caps ms) (\<lambda>e c'. matches src (caps ms @ [(s, what)]) q s e c')
          (start_capture (\<lambda>ms. match ms s q) ms s what)"
      proof (rule start_capture_decides [OF ok s])
        show "what = CAP_UNFINISHED \<or> what = CAP_POSITION" using item_of_open it IOpen by blast
        fix ms' assume ms': "state_ok src ms'" "caps ms' = caps ms @ [(s, what)]"
        then show "decides src s (caps ms @ [(s, what)]) (matches src (caps ms @ [(s, what)]) q s) (match ms' s q)"
          using IH [of ms' s] s open_before_snoc [OF op] by (simp add: IOpen)
      qed
      then show ?thesis unfolding run run_item_def IOpen pattern_item.case by (rule decides_iff) (simp add: spec IOpen)
    next
      case (IClose q)
      have "decides src s (caps ms)
           (\<lambda>e c'. \<exists>l. innermost (caps ms) l \<and>
              matches src ((caps ms)[l := (fst (caps ms ! l), int s - int (fst (caps ms ! l)))]) q s e c')
           (end_capture (\<lambda>ms. match ms s q) ms s)"
      proof (rule end_capture_decides [OF ok s op])
        fix ms' c assume "state_ok src ms'" "caps ms' = c" "open_before c s"
        then show "decides src s c (matches src c q s) (match ms' s q)"
          using IH [of ms' s] s by (auto simp: IClose)
      qed
      then show ?thesis unfolding run run_item_def IClose pattern_item.case by (rule decides_iff) (simp add: spec IClose)
    next
      case (IBalance b d q)
      let ?r = "drop (s + 1) src"
      let ?next = "if char_at src s \<noteq> b then None else balance_loop b d 1 (s + 1) ?r"
      have nxt: "?next = Some s' \<longleftrightarrow> (char_at src s = b \<and> (\<exists>k. s + 1 + k \<le> length src
          \<and> balanced b d (take k ?r) \<and> s' = s + 1 + k))" for s'
      proof -
        have bal: "k \<le> length ?r \<Longrightarrow> balanced b d (take k ?r) \<longleftrightarrow>
            int 1 - 1 + depth b d (take k ?r) = 0 \<and> (\<forall>j < k. int 1 - 1 + depth b d (take j ?r) > 0)" for k
          by (auto simp: balanced_def min_def)
        show ?thesis
        proof (cases "s = length src")
          case True
          then show ?thesis by simp
        next
          case False
          then have "k \<le> length ?r \<longleftrightarrow> s + 1 + k \<le> length src" for k using s by auto
          then show ?thesis using balance_loop_spec [of 1 b d "s + 1" ?r s'] bal by auto
        qed
      qed
      have run': "match ms s p = (case ?next of None \<Rightarrow> Inr (None, ms) | Some s' \<Rightarrow> match ms s' q)"
        by (simp only: run run_item_def IBalance pattern_item.case src_at_char [OF ok s] bind_result_simps src)
      show ?thesis
      proof (cases ?next)
        case None
        then have "\<not> matches src (caps ms) p s e c'" for e c'
          using nxt by (auto simp: spec IBalance)
        then show ?thesis using None ok by (simp add: run')
      next
        case (Some s')
        then obtain k where k: "s + 1 + k \<le> length src" "balanced b d (take k ?r)" "s' = s + 1 + k" "char_at src s = b"
          using nxt by blast
        have iff: "matches src (caps ms) q s' e c' \<longleftrightarrow> matches src (caps ms) p s e c'" for e c'
        proof -
          have "k' = k" if "s + 1 + k' \<le> length src" "balanced b d (take k' ?r)" for k'
            using nxt [of "s + 1 + k'"] Some k that by auto
          then show ?thesis unfolding spec IBalance pattern_item.case using k by metis
        qed
        have "decides src s (caps ms) (matches src (caps ms) q s') (match ms s' q)"
          using go [of s'] k(1,3) by (simp add: IBalance)
        then show ?thesis unfolding run' Some option.case using iff by (rule decides_iff)
      qed
    next
      case (IFrontier q ep)
      let ?prev = "if s = 0 then NUL else char_at src (s - 1)"
      have prev: "(if s = 0 then Inr NUL else src_at ms (s - 1)) = Inr ?prev"
        using src_at_char [OF ok, of "s - 1"] s by simp
      have run': "match ms s p = (if matchbracketclass (uchar ?prev) q ep
          \<or> \<not> matchbracketclass (uchar (char_at src s)) q ep then Inr (None, ms) else match ms s ep)"
        unfolding run run_item_def IFrontier pattern_item.case prev src_at_char [OF ok s] bind_result_simps
        by (rule refl)
      show ?thesis
      proof (cases "matchbracketclass (uchar ?prev) q ep \<or> \<not> matchbracketclass (uchar (char_at src s)) q ep")
        case True
        then have "\<not> matches src (caps ms) p s e c'" for e c' unfolding spec IFrontier pattern_item.case by blast
        then show ?thesis using True ok by (simp only: run' if_True decides_simps) simp
      next
        case False
        have iff: "matches src (caps ms) ep s e c' \<longleftrightarrow> matches src (caps ms) p s e c'" for e c'
          unfolding spec IFrontier pattern_item.case using False by blast
        have "decides src s (caps ms) (matches src (caps ms) ep s) (match ms s ep)"
          using go [of s] s by (simp add: IFrontier)
        then have "decides src s (caps ms) (matches src (caps ms) p s) (match ms s ep)" using iff by (rule decides_iff)
        then show ?thesis unfolding run' using False by (simp only: if_False)
      qed
    next
      case (IBackref l q)
      show ?thesis
      proof (cases "match_capture ms s l")
        case (Inl e)
        then show ?thesis using match_capture_spec [OF ok s, of l] by (simp add: run run_item_def IBackref)
      next
        case (Inr res)
        then have l: "uchar CHR ''1'' \<le> l" and res: "\<And>s'. res = Some s' \<longleftrightarrow>
            (\<exists>w. captured src (caps ms) (nat (l - uchar CHR ''1'')) w \<and> take (length w) (drop s src) = w \<and> s' = s + length w)"
          using match_capture_spec [OF ok s, of l] by simp_all
        have m: "matches src (caps ms) p s e c' \<longleftrightarrow> (\<exists>s'. res = Some s' \<and> matches src (caps ms) q s' e c')" for e c'
          unfolding spec IBackref pattern_item.case res using l by blast
        show ?thesis
        proof (cases res)
          case None
          then show ?thesis using ok by (simp add: run run_item_def IBackref Inr m)
        next
          case (Some s')
          then obtain w where w: "take (length w) (drop s src) = w" "s' = s + length w" using res by blast
          have "s' \<le> length src" using arg_cong [OF w(1), of length] w(2) s by (simp add: min_def split: if_splits)
          then have "decides src s (caps ms) (matches src (caps ms) q s') (match ms s' q)"
            using go [of s'] w(2) by (simp add: IBackref)
          then have "decides src s (caps ms) (matches src (caps ms) p s) (match ms s' q)"
            by (rule decides_iff) (simp add: m Some)
          then show ?thesis by (simp add: run run_item_def IBackref Inr Some)
        qed
      qed
    next
      case (ISingle q ep)
      have run': "match ms s p = (if item_at src q ep s then match ms (s + 1) ep else Inr (None, ms))"
        by (simp add: run run_item_def ISingle src item_at_def)
      show ?thesis
      proof (cases "item_at src q ep s")
        case True
        then have "decides src s (caps ms) (matches src (caps ms) ep (s + 1)) (match ms (s + 1) ep)"
          using go [of "s + 1"] by (simp add: ISingle item_at_def)
        then show ?thesis unfolding run' using True by (simp add: spec ISingle) (erule decides_iff, simp add: spec ISingle)
      qed (use ok in \<open>simp add: run' spec ISingle\<close>)
    next
      case (IRepeat r q ep ep1)
      let ?m = "\<lambda>ms s. match ms s ep1"
      have cont': "continues src s (caps ms) (\<lambda>s'. matches src (caps ms) ep1 s') ?m"
        using cont by (simp add: IRepeat)
      have m: "(s < length (ms_src ms) \<and> singlematch (uchar (ms_src ms ! s)) q ep) \<longleftrightarrow> item_at src q ep s"
        by (simp add: item_at_def src)
      note run' = run [unfolded IRepeat run_item_def pattern_item.case m Let_def]
      have "r \<in> repeat_chars" using item_of_repeat it IRepeat by blast
      then consider "r = CHR ''?''" | "r = CHR ''*''" | "r = CHR ''+''" | "r = CHR ''-''"
        by (auto simp: repeat_chars_def)
      then show ?thesis
      proof cases
        case 1
        have first: "decides src s (caps ms) (\<lambda>e c'. item_at src q ep s \<and> matches src (caps ms) ep1 (s + 1) e c')
            (if item_at src q ep s then match ms (s + 1) ep1 else Inr (None, ms))"
          using go [of "s + 1"] ok by (auto simp: IRepeat item_at_def)
        have "decides src s (caps ms) (\<lambda>e c'. (item_at src q ep s \<and> matches src (caps ms) ep1 (s + 1) e c')
              \<or> matches src (caps ms) ep1 s e c') (match ms s p)"
          unfolding run' 1 if_True simp_thms
          by (rule decides_or_else [OF first]) (use continuesD [OF cont'] s in blast)
        moreover have "(\<exists>k. admissible r k \<and> (\<forall>i < k. item_at src q ep (s + i)) \<and> matches src (caps ms) ep1 (s + k) e c')
            \<longleftrightarrow> (item_at src q ep s \<and> matches src (caps ms) ep1 (s + 1) e c') \<or> matches src (caps ms) ep1 s e c'" for e c'
        proof -
          have "admissible r k \<longleftrightarrow> k = 0 \<or> k = 1" for k by (auto simp: admissible_def 1)
          then show ?thesis by (simp add: ex_disj_distrib conj_disj_distribR) auto
        qed
        ultimately show ?thesis by (elim decides_iff) (simp add: spec IRepeat)
      next
        case 2
        have "decides src s (caps ms) (\<lambda>e c'. \<exists>k. (\<forall>i < k. item_at src q ep (s + i)) \<and> matches src (caps ms) ep1 (s + k) e c')
            (match ms s p)"
          using max_expand_decides [OF cont' ok refl order_refl s] by (simp add: run' 2)
        then show ?thesis by (rule decides_iff) (simp add: spec IRepeat admissible_def 2)
      next
        case 3
        show ?thesis
        proof (cases "item_at src q ep s")
          case False
          have "\<not> (\<exists>k. admissible r k \<and> (\<forall>i < k. item_at src q ep (s + i)) \<and> matches src (caps ms) ep1 (s + k) e c')" for e c'
            using False by (fastforce simp: admissible_def 3)
          then show ?thesis using ok False by (simp add: run' 3 spec IRepeat)
        next
          case True
          then have le: "s + 1 \<le> length src" by (simp add: item_at_def)
          have "decides src (s + 1) (caps ms) (\<lambda>e c'. \<exists>k. (\<forall>i < k. item_at src q ep (s + 1 + i)) \<and> matches src (caps ms) ep1 (s + 1 + k) e c')
              (match ms s p)"
            using max_expand_decides [OF cont' ok refl _ le] True by (simp add: run' 3)
          then have d: "decides src s (caps ms) (\<lambda>e c'. \<exists>k. (\<forall>i < k. item_at src q ep (s + 1 + i)) \<and> matches src (caps ms) ep1 (s + 1 + k) e c')
              (match ms s p)" by (rule decides_from) simp
          have "(\<exists>k. admissible r k \<and> (\<forall>i < k. item_at src q ep (s + i)) \<and> matches src (caps ms) ep1 (s + k) e c')
              \<longleftrightarrow> (\<exists>k. (\<forall>i < k. item_at src q ep (s + 1 + i)) \<and> matches src (caps ms) ep1 (s + 1 + k) e c')" for e c'
          proof (rule ex_shift)
            fix k show "admissible r (Suc k) \<and> (\<forall>i < Suc k. item_at src q ep (s + i)) \<and> matches src (caps ms) ep1 (s + Suc k) e c'
                \<longleftrightarrow> (\<forall>i < k. item_at src q ep (s + 1 + i)) \<and> matches src (caps ms) ep1 (s + 1 + k) e c'"
              using True by (auto simp: admissible_def 3 less_Suc_eq_0_disj)
          qed (simp add: admissible_def 3)
          then show ?thesis by (intro decides_iff [OF d]) (simp add: spec IRepeat)
        qed
      next
        case 4
        have "decides src s (caps ms) (\<lambda>e c'. \<exists>k. (\<forall>i < k. item_at src q ep (s + i)) \<and> matches src (caps ms) ep1 (s + k) e c')
            (match ms s p)"
          using min_expand_decides [OF cont' ok refl order_refl s] by (simp add: run' 4)
        then show ?thesis by (rule decides_iff) (simp add: spec IRepeat admissible_def 4)
      qed
    qed
  qed
qed

end
