(* ===== verification/LuaSearchSpec.thy ===== *)
theory LuaSearchSpec
  imports LuaStrlibSpec
begin

text \<open>
  The plain search of \<open>string.find\<close>, which scans for the first character and compares the rest,
  against its specification, and against the matcher it replaces.
\<close>

section \<open>\<open>lmemfind\<close>\<close>

definition occurs :: "c_string \<Rightarrow> c_string \<Rightarrow> nat \<Rightarrow> bool" where
  "occurs p s k \<longleftrightarrow> take (length p) (drop k s) = p"

lemma find_skip: "\<forall>x \<in> set xs. \<not> P x \<Longrightarrow> List.find P (xs @ ys) = List.find P ys"
  by (induction xs) auto

lemma find_none: "\<forall>x \<in> set xs. \<not> P x \<Longrightarrow> List.find P xs = None"
  by (induction xs) auto

lemma find_map: "List.find P (map f xs) = map_option f (List.find (P \<circ> f) xs)"
  by (induction xs) auto

lemma occurs_length: "occurs p s k \<Longrightarrow> p \<noteq> [] \<Longrightarrow> k + length p \<le> length s"
  unfolding occurs_def using length_take [of "length p" "drop k s"] by (cases p) auto

lemma occurs_Cons:
  "k < length s \<Longrightarrow> occurs (c # p) s k \<longleftrightarrow> s ! k = c \<and> occurs p s (Suc k)"
  by (auto simp: occurs_def Cons_nth_drop_Suc [symmetric])

lemma memchr_spec:
  "case memchr s c of
     None \<Rightarrow> \<forall>i < length s. s ! i \<noteq> c
   | Some k \<Rightarrow> k < length s \<and> s ! k = c \<and> (\<forall>i < k. s ! i \<noteq> c)"
proof (cases "c \<in> set s")
  case True
  then obtain xs ys where s: "s = xs @ c # ys" "c \<notin> set xs" by (meson split_list_first)
  have "length (takeWhile (\<lambda>d. d \<noteq> c) s) = length xs"
    using s by (auto simp add: takeWhile_append takeWhile_eq_all_conv)
  moreover have "s ! i \<noteq> c" if "i < length xs" for i using that s by (metis nth_append nth_mem)
  moreover have "s ! length xs = c" "length xs < length s" using s by simp_all
  ultimately show ?thesis using True by (simp add: memchr_def)
next
  case False
  then show ?thesis by (auto simp: memchr_def)
qed

lemma lmemfind_loop_first:
  assumes "s2 \<noteq> []" and "pos + l1 + (length s2 - 1) = length s"
  shows "lmemfind_loop s s2 pos l1 = List.find (occurs s2 s) [pos..<pos + l1]"
  using assms(2)
proof (induction l1 arbitrary: pos rule: less_induct)
  case (less l1)
  obtain c p where s2: "s2 = c # p" using assms(1) by (cases s2) auto
  let ?w = "take l1 (drop pos s)"
  have w: "length ?w = l1" "\<And>i. i < l1 \<Longrightarrow> ?w ! i = s ! (pos + i)" using less.prems by auto
  have lt: "k < length s" if "k < pos + l1" for k using less.prems that by simp
  show ?case
  proof (cases "memchr ?w c")
    case None
    then have "s ! k \<noteq> c" if "k \<in> set [pos..<pos + l1]" for k
      using memchr_spec [of ?w c] w that by (auto dest!: spec [of _ "k - pos"])
    then have "\<forall>k \<in> set [pos..<pos + l1]. \<not> occurs s2 s k" using lt by (simp add: s2 occurs_Cons)
    then show ?thesis using None by (subst lmemfind_loop.simps) (simp add: s2 find_none)
  next
    case (Some k)
    then have k: "k < l1" "s ! (pos + k) = c" "\<forall>i < k. s ! (pos + i) \<noteq> c"
      using memchr_spec [of ?w c] w by auto
    have "\<not> occurs s2 s i" if "i \<in> set [pos..<pos + k]" for i
      using k(1,3) lt [of i] that by (auto simp: s2 occurs_Cons dest!: spec [of _ "i - pos"])
    moreover have "[pos..<pos + l1] = [pos..<pos + k] @ (pos + k) # [pos + k + 1..<pos + l1]"
    proof -
      have "[pos..<pos + l1] = [pos..<pos + k] @ [pos + k..<pos + l1]"
        using upt_add_eq_append [of pos "pos + k" "l1 - k"] k(1) by simp
      then show ?thesis using k(1) by (simp add: upt_conv_Cons)
    qed
    ultimately have F: "List.find (occurs s2 s) [pos..<pos + l1] =
        (if occurs p s (pos + k + 1) then Some (pos + k) else List.find (occurs s2 s) [pos + k + 1..<pos + l1])"
      using k lt [of "pos + k"] by (simp add: find_skip s2 occurs_Cons)
    have "lmemfind_loop s s2 pos l1 =
        (if occurs p s (pos + k + 1) then Some (pos + k) else lmemfind_loop s s2 (pos + k + 1) (l1 - (k + 1)))"
      using Some k by (subst lmemfind_loop.simps) (simp add: s2 Let_def occurs_def)
    also have "lmemfind_loop s s2 (pos + k + 1) (l1 - (k + 1)) =
        List.find (occurs s2 s) [pos + k + 1..<pos + k + 1 + (l1 - (k + 1))]"
      using k less.prems by (intro less.IH) auto
    also have "pos + k + 1 + (l1 - (k + 1)) = pos + l1" using k by simp
    finally show ?thesis using F by simp
  qed
qed

lemma lmemfind_occurs: "lmemfind s1 s2 = List.find (occurs s2 s1) [0..<length s1 + 1]"
proof (cases "s2 = []")
  case True
  then show ?thesis by (simp add: lmemfind_def upt_conv_Cons occurs_def del: upt_Suc)
next
  case ne: False
  show ?thesis
  proof (cases "length s2 > length s1")
    case True
    then show ?thesis using ne occurs_length [of s2 s1]
      by (auto simp: lmemfind_def simp del: upt_Suc intro!: find_none [symmetric])
  next
    case False
    let ?n = "length s1 - (length s2 - 1)"
    have n: "?n \<le> length s1 + 1" "?n + length s2 = length s1 + 1" using False ne by (cases s2; simp)+
    have "lmemfind s1 s2 = List.find (occurs s2 s1) [0..<?n]"
      using lmemfind_loop_first [OF ne, of 0 ?n s1] False ne n by (cases s2) (auto simp: lmemfind_def)
    also have "\<dots> = List.find (occurs s2 s1) ([0..<?n] @ [?n..<length s1 + 1])"
    proof -
      have none: "List.find (occurs s2 s1) [?n..<length s1 + 1] = None"
      proof (intro find_none ballI notI)
        fix x assume x: "x \<in> set [?n..<length s1 + 1]" "occurs s2 s1 x"
        then have "x + length s2 \<le> length s1" using occurs_length ne by blast
        moreover have "?n \<le> x" using x(1) by (simp del: upt_Suc)
        ultimately show False using n(2) by linarith
      qed
      have "List.find P (xs @ ys) = List.find P xs" if "List.find P ys = None" for P and xs ys :: "nat list"
        using that by (induction xs) auto
      from this [OF none] show ?thesis by (rule sym)
    qed
    also have "[0..<?n] @ [?n..<length s1 + 1] = [0..<length s1 + 1]"
      using n(1) by (metis le0 upt_add_eq_append le_add_diff_inverse)
    finally show ?thesis .
  qed
qed

text \<open>
  Claim \<open>C28\<close>: \<open>lmemfind\<close>, which looks for the first character and compares the rest only where
  it stands, gives the first place where the whole string occurs.
\<close>

theorem lmemfind_first:
  "lmemfind s1 s2 = List.find (\<lambda>k. take (length s2) (drop k s1) = s2) [0..<length s1 + 1]"
  using lmemfind_occurs [of s1 s2] by (simp add: occurs_def [abs_def] del: upt_Suc)

section \<open>A pattern without special characters\<close>

definition plain :: "c_string \<Rightarrow> bool" where
  "plain p \<longleftrightarrow> set p \<inter> set SPECIALS = {} \<and> CHR '')'' \<notin> set p \<and> NUL \<notin> set p"

lemma plain_Cons:
  assumes "plain (c # p)"
  shows "plain p" "item_of (c # p @ [NUL]) = Inr (ISingle (c # p @ [NUL]) (p @ [NUL]))"
    "singlematch x (c # p @ [NUL]) (p @ [NUL]) \<longleftrightarrow> uchar c = x"
proof -
  have c: "c \<notin> {CHR ''^'', CHR ''$'', CHR ''*'', CHR ''+'', CHR ''?'', CHR ''.'', CHR ''('', CHR ''['', CHR ''%'',
      CHR ''-'', CHR '')'', NUL}"
    using assms by (auto simp: plain_def SPECIALS_def)
  show p: "plain p" using assms by (auto simp: plain_def)
  have "hd (p @ [NUL]) \<notin> repeat_chars"
    using p by (cases p) (auto simp: plain_def SPECIALS_def repeat_chars_def NUL_def)
  then have "single_item (c # p @ [NUL]) = Inr (ISingle (c # p @ [NUL]) (p @ [NUL]))"
    using c by (cases "p @ [NUL]") (auto simp: single_item_def classend.simps L_ESC_def)
  then show "item_of (c # p @ [NUL]) = Inr (ISingle (c # p @ [NUL]) (p @ [NUL]))"
    using c by (simp add: item_of_def L_ESC_def)
  show "singlematch x (c # p @ [NUL]) (p @ [NUL]) \<longleftrightarrow> uchar c = x"
    using c by (auto simp: singlematch_def L_ESC_def)
qed

lemma match_plain:
  assumes "plain p" and "s \<le> length (ms_src ms)"
  shows "match ms s (p @ [NUL]) = Inr (if occurs p (ms_src ms) s then Some (s + length p) else None, ms)"
  using assms
proof (induction p arbitrary: s)
  case Nil
  have "item_of [NUL] = Inr IEnd" by (simp add: item_of_def NUL_def L_ESC_def)
  then show ?case by (simp add: match_item run_item_def occurs_def)
next
  case (Cons c p)
  note pl = plain_Cons [OF Cons.prems(1)]
  show ?case
  proof (cases "s < length (ms_src ms)")
    case True
    then have "match ms (s + 1) (p @ [NUL]) =
        Inr (if occurs p (ms_src ms) (s + 1) then Some (s + 1 + length p) else None, ms)"
      by (intro Cons.IH pl(1)) simp
    then show ?thesis using True pl(2,3)
      by (auto simp: match_item [of ms s] run_item_def occurs_Cons)
  next
    case False
    then have "\<not> occurs (c # p) (ms_src ms) s" using occurs_length [of "c # p"] by force
    then show ?thesis using False pl(2) by (simp add: match_item [of ms s] run_item_def)
  qed
qed

lemma find_loop_plain:
  assumes "plain p" and "s \<le> length src"
  shows "bind_result (find_loop src (p @ [NUL]) False s) (\<lambda>r. Inr (map_option (\<lambda>(s, e, ms). (s, e)) r))
    = Inr (map_option (\<lambda>k. (k, k + length p)) (List.find (occurs p src) [s..<length src + 1]))"
  using assms(2)
proof (induction "length src - s" arbitrary: s)
  case 0
  then have s: "s = length src" by simp
  show ?case unfolding s using match_plain [OF assms(1), of "length src" "match_start src"]
    by (subst find_loop.simps) (simp add: match_start_def)
next
  case (Suc n)
  then have lt: "s < length src" by simp
  have m: "match (match_start src) s (p @ [NUL]) =
      Inr (if occurs p src s then Some (s + length p) else None, match_start src)"
    using match_plain [OF assms(1), of s "match_start src"] Suc.prems by (simp add: match_start_def)
  have "[s..<length src + 1] = s # [s + 1..<length src + 1]" using lt by (simp add: upt_conv_Cons)
  moreover have "bind_result (find_loop src (p @ [NUL]) False (s + 1)) (\<lambda>r. Inr (map_option (\<lambda>(s, e, ms). (s, e)) r))
    = Inr (map_option (\<lambda>k. (k, k + length p)) (List.find (occurs p src) [s + 1..<length src + 1]))"
    using Suc.hyps(2) lt by (intro Suc.hyps(1)) auto
  ultimately show ?case using lt by (subst find_loop.simps) (simp add: m del: upt_Suc)
qed

text \<open>
  Claim \<open>C17\<close>: For a pattern without special characters the plain search of \<open>string.find\<close> agrees
  with the matcher: both find the same place, or none. The list of special characters lacks the
  closing parenthesis, on which the matcher reports an error and the plain search does not.
\<close>

theorem plain_search_agrees:
  assumes "set p \<inter> set SPECIALS = {}" and "CHR '')'' \<notin> set p" and "CHR 0x00 \<notin> set p" and "init \<le> length src"
  shows "bind_result (find_loop src (p @ [CHR 0x00]) False init) (\<lambda>r. Inr (map_option (\<lambda>(s, e, ms). (s, e)) r))
    = Inr (map_option (\<lambda>k. (init + k, init + k + length p)) (lmemfind (drop init src) p))"
proof -
  have "plain p" using assms(1-3) by (simp add: plain_def NUL_def)
  moreover have "map_option (\<lambda>k. (k, k + length p)) (List.find (occurs p src) [init..<length src + 1]) =
      map_option (\<lambda>k. (init + k, init + k + length p)) (List.find (occurs p (drop init src)) [0..<length (drop init src) + 1])"
  proof -
    have "[init..<length src + 1] = map (\<lambda>k. init + k) [0..<length (drop init src) + 1]"
      using assms(4) by (simp add: map_add_upt add.commute del: upt_Suc)
    moreover have "occurs p src (init + k) \<longleftrightarrow> occurs p (drop init src) k" for k
      by (simp add: occurs_def add.commute)
    ultimately show ?thesis by (simp add: find_map o_def map_option.compositionality del: upt_Suc)
  qed
  ultimately show ?thesis using find_loop_plain [of p init src] assms(4)
    by (simp add: lmemfind_occurs NUL_def del: upt_Suc)
qed

lemma plain_search_agrees_witness:
  "bind_result (find_loop ''hello'' (''lo'' @ [CHR 0x00]) False 1) (\<lambda>r. Inr (map_option (\<lambda>(s, e, ms). (s, e)) r))
   = Inr (Some (3, 5))"
proof -
  have "lmemfind (drop 1 ''hello'') ''lo'' = Some 2" by code_simp
  then show ?thesis using plain_search_agrees [of "''lo''" 1 "''hello''"] by (simp add: SPECIALS_def)
qed

end
