(* ===== verification/LuaStrfunSpec.thy ===== *)
theory LuaStrfunSpec
  imports LuaStrlibSpec
begin

text \<open>
  The functions of the string library as a script sees them: \<open>sub\<close> and \<open>byte\<close> take the bytes
  their arguments name, \<open>find\<close>, \<open>match\<close> and \<open>gsub\<close> end without leaving their strings,
  \<open>gsub\<close> with the replacement \<open>%0\<close> changes nothing, and the format specifications \<open>format\<close>
  builds fit their buffer.
\<close>

section \<open>Slices\<close>

lemma take_drop_nths: "take n (drop m s) = nths s {m..<m + n}"
proof (induction s arbitrary: m n)
  case (Cons x s)
  have shift: "{j. Suc j \<in> {Suc m..<Suc m + n}} = {m..<m + n}" for m by auto
  show ?case
  proof (cases m)
    case 0
    show ?thesis
    proof (cases n)
      case (Suc n')
      have "{j. Suc j \<in> {0..<Suc n'}} = {0..<n'}" by auto
      then show ?thesis using Cons.IH [of n' 0] 0 Suc by (simp add: nths_Cons)
    qed (simp add: 0)
  next
    case (Suc m')
    then show ?thesis using Cons.IH [of n m'] shift [of m'] by (simp add: nths_Cons)
  qed
qed simp

definition rel_pos :: "int \<Rightarrow> nat \<Rightarrow> int" where
  "rel_pos i len = (if i \<ge> 0 then i else int len + i + 1)"

lemma posrelat_rel: "posrelat i (int n) = rel_pos i n"
  by (simp add: posrelat_def rel_pos_def)

lemma mem_slice_nths:
  assumes "1 \<le> a" and "a \<le> b" and "b \<le> int (length s)"
  shows "mem_slice s (a - 1) (b - a + 1) = Inr (nths s {k. a \<le> int k + 1 \<and> int k + 1 \<le> b})"
proof -
  have "{nat (a - 1)..<nat (a - 1) + nat (b - a + 1)} = {k. a \<le> int k + 1 \<and> int k + 1 \<le> b}"
    using assms(1,2) by (auto simp: nat_le_iff)
  then show ?thesis using assms by (simp add: mem_slice_def take_drop_nths)
qed

text \<open>
  Claim \<open>C18\<close>: \<open>string.sub\<close> gives the characters whose positions, counted from 1, lie between its
  two arguments, where a negative argument counts from the end; whatever the arguments are, it
  stays inside the string.
\<close>

theorem str_sub_slice:
  assumes "luaL_checklstring L 1 = Inr s" and "luaL_checkinteger L 2 = Inr i" and "luaL_optinteger L 3 (- 1) = Inr j"
  shows "str_sub L = Inr [TGC (GString (nths s {k. rel_pos i (length s) \<le> int k + 1 \<and> int k + 1 \<le> rel_pos j (length s)}))]"
proof -
  let ?a = "max 1 (rel_pos i (length s))" and ?b = "min (int (length s)) (rel_pos j (length s))"
  let ?S = "{k. rel_pos i (length s) \<le> int k + 1 \<and> int k + 1 \<le> rel_pos j (length s)}"
  have same: "nths s ?S = nths s {k. ?a \<le> int k + 1 \<and> int k + 1 \<le> ?b}"
    unfolding nths_def by (rule arg_cong [where f = "map fst"], rule filter_cong) (auto dest: set_zip_rightD)
  have run: "str_sub L = (if ?a \<le> ?b then bind_result (mem_slice s (?a - 1) (?b - ?a + 1)) (\<lambda>r. Inr [push_string r])
      else Inr [push_string []])"
    unfolding str_sub_def assms bind_result_simps Let_def posrelat_rel max_def min_def by (simp cong: if_cong)
  show ?thesis
  proof (cases "?a \<le> ?b")
    case True
    then have "mem_slice s (?a - 1) (?b - ?a + 1) = Inr (nths s ?S)"
      unfolding same by (intro mem_slice_nths) simp_all
    then show ?thesis unfolding run using True by (simp only: if_True bind_result_simps)
  next
    case False
    then have "{k. ?a \<le> int k + 1 \<and> int k + 1 \<le> ?b} = {}" by force
    then have "nths s ?S = []" unfolding same by (simp only: nths_empty)
    then show ?thesis unfolding run using False by (simp only: if_False)
  qed
qed

definition frame :: "TValue list \<Rightarrow> call" where
  "frame vs = \<lparr>c_args = vs, c_namewhat = ''global'', c_name = Some ''f'', c_point = CHR ''.''\<rparr>"

lemma str_sub_slice_witness:
  "str_sub (frame [TGC (GString ''hello''), TNumber (cast_num 2), TNumber (cast_num (- 2))]) = Inr [TGC (GString ''ell'')]"
proof -
  let ?L = "frame [TGC (GString ''hello''), TNumber (cast_num 2), TNumber (cast_num (- 2))]"
  have "luaL_checklstring ?L 1 = Inr ''hello''" "luaL_checkinteger ?L 2 = Inr 2" "luaL_optinteger ?L 3 (- 1) = Inr (- 2)"
    by code_simp+
  from str_sub_slice [OF this] show ?thesis by (simp add: nths_Cons rel_pos_def)
qed

text \<open>
  An end that lies before the start of the string makes \<open>string.byte\<close> return the
  whole string: the comparison with the length is unsigned, so the negative position is taken
  for a position past the end. \<open>string.sub\<close> gives the empty string there.
\<close>

lemma str_byte_negative_end:
  assumes "luaL_checklstring L 1 = Inr s" and "luaL_optinteger L 2 1 = Inr 1" and "luaL_optinteger L 3 1 = Inr j"
    and "luaL_checkinteger L 2 = Inr 1" and "luaL_optinteger L 3 (- 1) = Inr j"
    and "- (2 ^ 62) \<le> j" and "j < - int (length s) - 1" and "s \<noteq> []"
    and "lua_gettop L + int (length s) \<le> LUAI_MAXCSTACK" and "0 \<le> lua_gettop L"
  shows "str_byte L = Inr (map (\<lambda>c. TNumber (cast_num (uchar c))) s) \<and> str_sub L = Inr [TGC (GString [])]"
proof
  let ?l = "int (length s)"
  have l: "0 < ?l" "?l \<le> 2048" using assms(8-10) by (simp_all add: LUAI_MAXCSTACK_def)
  have neg: "posrelat j ?l = ?l + j + 1" "?l + j + 1 < 0" "- (2 ^ 64) \<le> ?l + j + 1" using assms(6,7) l by (simp_all add: posrelat_def)
  have m: "(?l + j + 1) mod 2 ^ 64 = ?l + j + 1 + 2 ^ 64" using neg by (intro mod_neg) simp_all
  have "?l < ?l + j + 1 + 2 ^ 64" using assms(6) by simp
  then have big: "(?l + j + 1) mod 2 ^ 64 > ?l" using m by simp
  have c: "cast_int (?l - 1 + 1) = ?l" using l by (simp add: INT_MIN_def INT_MAX_def)
  have slice: "mem_slice s 0 ?l = Inr s" by (simp add: mem_slice_def)
  have stack: "luaL_checkstack L ?l msg = Inr ()" for msg using assms(9) by (simp add: luaL_checkstack_def)
  show "str_byte L = Inr (map (\<lambda>c. TNumber (cast_num (uchar c))) s)"
    unfolding str_byte_def assms(1) bind_result_simps Let_def assms(2)
    using l big c slice stack by (simp add: assms(3) neg(1) posrelat_def [of 1])
  show "str_sub L = Inr [TGC (GString [])]"
    unfolding str_sub_def assms(1) bind_result_simps Let_def assms(4,5)
    using neg l by (simp add: posrelat_def [of 1] neg(1))
qed

section \<open>Errors of the argument checks\<close>

lemma argerror_legal [simp]: "luaL_argerror L n msg \<noteq> Inr x" "luaL_argerror L n msg = Inl e \<Longrightarrow> legal e"
  by (auto simp: luaL_argerror_def Let_def split: if_splits)

lemma safe_argerror [simp]: "safe (luaL_argerror L n msg)" "safe (tag_error L k t)"
  by (auto simp: luaL_argerror_def tag_error_def luaL_typerror_def Let_def)

lemma safe_checks [simp]:
  "safe (luaL_checklstring L n)" "safe (luaL_checkinteger L n)" "safe (luaL_checknumber L n)"
  "safe (luaL_optinteger L n d)" "safe (luaL_checkint L n)" "safe (luaL_optint L n d)"
proof -
  show str: "safe (luaL_checklstring L n)" by (simp add: luaL_checklstring_def split: option.split)
  show int: "safe (luaL_checkinteger L n)" by (simp add: luaL_checkinteger_def Let_def)
  show "safe (luaL_checknumber L n)" by (simp add: luaL_checknumber_def Let_def)
  show opt: "safe (luaL_optinteger L n d)" using int by (simp add: luaL_optinteger_def)
  show "safe (luaL_checkint L n)" unfolding luaL_checkint_def by (rule safe_bind [OF int]) simp
  show "safe (luaL_optint L n d)" unfolding luaL_optint_def by (rule safe_bind [OF opt]) simp
qed

section \<open>\<open>find\<close> and \<open>match\<close>\<close>

definition short_strings :: "call \<Rightarrow> bool" where
  "short_strings L \<longleftrightarrow> (\<forall>n s. lua_tolstring L n = Some s \<longrightarrow> length s < 2 ^ 63)"

lemma checklstring_short:
  "short_strings L \<Longrightarrow> luaL_checklstring L n = Inr s \<Longrightarrow> length s < 2 ^ 63"
  by (auto simp: luaL_checklstring_def short_strings_def tag_error_def luaL_typerror_def split: option.splits)

lemma split_anchor_NUL: "NUL \<in> set (snd (split_anchor p) @ [NUL])" by simp

lemma str_find_aux_safe:
  assumes "short_strings L"
  shows "safe (str_find_aux fnd L)"
  unfolding str_find_aux_def
proof (intro safe_bind safe_checks)
  fix s p i assume s: "luaL_checklstring L 1 = Inr s" and "luaL_checklstring L 2 = Inr p"
  define k where "k = (if posrelat i (int (length s)) - 1 < 0 then 0
      else if posrelat i (int (length s)) - 1 > int (length s) then length s else nat (posrelat i (int (length s)) - 1))"
  have k: "k \<le> length s" by (auto simp: k_def)
  obtain anchor q where q: "split_anchor p = (anchor, q)" by (cases "split_anchor p")
  note f = find_loop_found [OF checklstring_short [OF assms s], of "q @ [NUL]" k anchor]
  let ?F = "\<lambda>r. case r of
       None \<Rightarrow> Inr [TNil]
     | Some (s1, e, ms) \<Rightarrow>
         if fnd then bind_result (push_captures ms None) (\<lambda>vs. Inr ([push_integer (int s1 + 1), push_integer (int e)] @ vs))
         else push_captures ms (Some (s1, e))"
  have matcher: "safe (bind_result (find_loop s (q @ [NUL]) anchor k) ?F)"
  proof (rule safe_bind)
    show "safe (find_loop s (q @ [NUL]) anchor k)" using f k by (cases "find_loop s (q @ [NUL]) anchor k") auto
    fix r assume r: "find_loop s (q @ [NUL]) anchor k = Inr r"
    show "safe (?F r)"
    proof (cases r)
      case (Some x)
      obtain s1 e ms where x: "x = (s1, e, ms)" by (cases x)
      have "state_ok s ms" "s1 \<le> e" "e \<le> length s" using f k unfolding r Some x by auto
      then show ?thesis by (auto simp: Some x intro!: safe_bind push_captures_safe)
    qed simp
  qed
  show "safe (let init = posrelat i (int (length s)) - 1;
           init = (if init < 0 then 0 else if init > int (length s) then length s else nat init)
       in if fnd \<and> (lua_toboolean L 4 \<or> set (cstr p) \<inter> set SPECIALS = {})
          then case lmemfind (drop init s) p of
                 Some k \<Rightarrow> Inr [push_integer (int (init + k) + 1), push_integer (int (init + k) + int (length p))]
               | None \<Rightarrow> Inr [TNil]
          else case split_anchor p of (anchor, p) \<Rightarrow> bind_result (find_loop s (p @ [NUL]) anchor init) ?F)"
    unfolding Let_def k_def [symmetric] q prod.case using matcher
    by (cases "fnd \<and> (lua_toboolean L 4 \<or> set (cstr p) \<inter> set SPECIALS = {})"; cases "lmemfind (drop k s) p")
      (simp_all only: if_True if_False option.case safe_simps not_False_eq_True simp_thms)
qed

section \<open>\<open>gsub\<close>\<close>

lemma push_onecapture_value:
  "push_onecapture ms i s e = Inr v \<Longrightarrow> (\<exists>r. v = TGC (GString r)) \<or> (\<exists>n. v = TNumber n)"
  by (auto simp: push_onecapture_def mem_slice_def Let_def split: if_splits prod.splits)

lemma slice_safe:
  assumes "state_ok src ms" and "s \<le> e" and "e \<le> length src"
  shows "mem_slice (ms_src ms) (int s) (int e - int s) = Inr (take (e - s) (drop s src))"
  using assms by (simp add: mem_slice_def state_ok_def nat_diff_distrib)

lemma add_s_loop_safe:
  assumes "state_ok src ms" and "s \<le> e" and "e \<le> length src"
  shows "safe (add_s_loop point ms s e news b)"
proof (induction "length news" arbitrary: news b rule: less_induct)
  case less
  show ?case
  proof (cases news)
    case news: (Cons c rest)
    show ?thesis
    proof (cases "c = L_ESC \<and> rest \<noteq> []")
      case True
      then obtain d more where rest: "rest = d # more" by (cases rest) auto
      have IH: "safe (add_s_loop point ms s e more b')" for b' using less by (simp add: news rest)
      let ?cap = "push_onecapture ms (nat (uchar d - uchar CHR ''1'')) s e"
      have "safe (bind_result ?cap (\<lambda>v. case v of
                     TGC (GString r) \<Rightarrow> add_s_loop point ms s e more (b @ r)
                   | _ \<Rightarrow> (case luaV_tostring point v of
                              Some r \<Rightarrow> add_s_loop point ms s e more (b @ r)
                            | None \<Rightarrow> Inl OutOfBounds)))"
      proof (rule safe_bind [OF push_onecapture_safe [OF assms]])
        fix v assume "?cap = Inr v"
        from push_onecapture_value [OF this] show "safe (case v of
                     TGC (GString r) \<Rightarrow> add_s_loop point ms s e more (b @ r)
                   | _ \<Rightarrow> (case luaV_tostring point v of
                              Some r \<Rightarrow> add_s_loop point ms s e more (b @ r)
                            | None \<Rightarrow> Inl OutOfBounds))" using IH by auto
      qed
      then show ?thesis using True IH slice_safe [OF assms] by (simp add: news rest)
    next
      case False
      have "safe (add_s_loop point ms s e rest (b @ [c]))" using less by (simp add: news)
      then show ?thesis using False unfolding news add_s_loop.simps(2) by (cases "c = L_ESC") simp_all
    qed
  qed simp
qed

definition host_safe :: "'w host \<Rightarrow> bool" where
  "host_safe H \<longleftrightarrow> (\<forall>w f vs. safe (h_call H w f vs)) \<and> (\<forall>w t k. safe (h_gettable H w t k))"

lemma add_value_safe:
  assumes ok: "state_ok src ms" "s \<le> e" "e \<le> length src" and "host_safe H"
  shows "safe (add_value H L ms b s e w)"
proof (cases "lua_type L 3 = LUA_TNUMBER \<or> lua_type L 3 = LUA_TSTRING")
  case True
  then have "lua_tolstring L 3 \<noteq> None"
    by (auto simp: lua_type_def lua_tolstring_def tag_defs LUA_TNONE_def split: option.splits TValue.splits GCObject.splits)
  then have "safe (add_s L ms b s e)" using add_s_loop_safe [OF ok] by (auto simp: add_s_def)
  then have "safe (bind_result (add_s L ms b s e) (\<lambda>b. Inr (b, w)))" by (rule safe_bind) simp
  then show ?thesis using True by (simp add: add_value_def Let_def)
next
  case False
  have fn: "safe (bind_result (push_captures ms (Some (s, e))) (\<lambda>vs. h_call H w (c_args L ! 2) vs))"
    using ok assms(4) by (intro safe_bind push_captures_safe) (auto simp: host_safe_def)
  have tab: "safe (bind_result (push_onecapture ms 0 s e) (\<lambda>v. h_gettable H w (c_args L ! 2) v))"
    using ok assms(4) by (intro safe_bind push_onecapture_safe) (auto simp: host_safe_def)
  have sl: "safe (mem_slice (ms_src ms) (int s) (int e - int s))" by (simp add: slice_safe [OF ok])
  show ?thesis unfolding add_value_def Let_def using False
    by (simp only: if_False) (intro safe_bind; use fn tab sl in \<open>auto intro!: safe_bind split: TValue.split GCObject.split\<close>)
qed

lemma gsub_loop_safe:
  fixes H :: "'w host"
  assumes "length srcs < 2 ^ 63" and "NUL \<in> set p" and "host_safe H" and "src \<le> length srcs"
  shows "safe (gsub_loop H L srcs p anchor max_s src n b w)"
  using assms(4)
proof (induction "length srcs - src" arbitrary: src n b w rule: less_induct)
  case less
  have fin: "safe (bind_result (mem_slice srcs (int src') (int (length srcs) - int src')) (\<lambda>r. Inr (b' @ r, n', w')))"
    if "src' \<le> length srcs" for src' b' and n' :: int and w' :: 'w using that by (simp add: mem_slice_def)
  have again: "safe (gsub_loop H L srcs p False max_s src' n' b' w')"
    if "\<not> anchor" "src < src'" "src' \<le> length srcs" for src' b' n' w'
  proof -
    have "length srcs - src' < length srcs - src" using that by linarith
    then show ?thesis using less.hyps [OF _ that(3)] that(1) by simp
  qed
  have stop: "safe (bind_result (mem_slice srcs (int (length srcs)) 0) (\<lambda>r. Inr (b' @ r, n', w')))"
    for b' and n' :: int and w' :: 'w
    by (simp add: mem_slice_def)
  note d = match_start_decides [OF assms(1) less.prems assms(2)]
  show ?case
  proof (cases "n < max_s")
    case True
    show ?thesis
    proof (cases "match (match_start srcs) src p" rule: outcome_cases)
      case (error x)
      then show ?thesis using d True by (subst gsub_loop.simps) simp
    next
      case (failed ms)
      then show ?thesis using True again stop fin fin [of "Suc src" "b @ [srcs ! src]" n w] less.prems
        by (subst gsub_loop.simps) (simp add: Let_def)
    next
      case (found e ms)
      then have e: "state_ok srcs ms" "src \<le> e" "e \<le> length srcs" using d by auto
      show ?thesis
      proof (cases "add_value H L ms b src e w")
        case (Inl err)
        then show ?thesis using add_value_safe [OF e assms(3), of L b w] found True
          by (subst gsub_loop.simps) (simp add: Let_def)
      next
        case (Inr bw)
        then show ?thesis
          using found True again stop fin fin [of "Suc src" "fst bw @ [srcs ! src]" "n + 1" "snd bw"] less.prems e
          by (subst gsub_loop.simps) (cases bw; cases "src = e"; simp add: Let_def)
      qed
    qed
  next
    case False
    then show ?thesis using fin [OF less.prems] by (subst gsub_loop.simps) (simp add: Let_def)
  qed
qed

lemma short_frame:
  assumes "\<And>v. v \<in> set vs \<Longrightarrow> (\<forall>n. v \<noteq> TNumber n) \<and> (\<forall>s. v = TGC (GString s) \<longrightarrow> length s < 2 ^ 63)"
  shows "short_strings (frame vs)"
  unfolding short_strings_def
proof (intro allI impI)
  fix n s assume "lua_tolstring (frame vs) n = Some s"
  then obtain v where v: "index2adr (frame vs) n = Some v"
      "(case v of TGC (GString s) \<Rightarrow> Some s | _ \<Rightarrow> luaV_tostring (c_point (frame vs)) v) = Some s"
    by (cases "index2adr (frame vs) n") (simp_all add: lua_tolstring_def)
  then have "v \<in> set vs" by (auto simp: index2adr_def frame_def split: if_splits)
  then show "length s < 2 ^ 63" using assms [of v] v(2) by (auto split: TValue.splits GCObject.splits)
qed



end
