(* ===== verification/LuaCode.thy ===== *)
theory LuaCode
  imports LuaProto LuaLex
begin

text \<open>
  \<open>lcode.c\<close>, the code generator. The state is the \<open>FuncState\<close> of the function being compiled:
  its arrays of instructions, line numbers and constants, with the sizes allocated so far, and
  its counters. \<open>fs_ls\<close> is the lexer; the table \<open>fs->h\<close> that finds constants is its \<open>fs_h\<close>.
  The lists of jumps that wait for a target are threaded through the offsets of the jump
  instructions; a walk along one gets the size of the code as fuel, and \<open>NoFuel\<close> stands for a
  walk that would never end. An access outside an array is \<open>OutOfBounds\<close>.
\<close>

section \<open>State (\<open>lparser.h\<close>, \<open>lcode.h\<close>)\<close>

definition NO_JUMP :: int where "NO_JUMP = - 1"

datatype BinOpr =
    OPR_ADD | OPR_SUB | OPR_MUL | OPR_DIV | OPR_MOD | OPR_POW
  | OPR_CONCAT
  | OPR_NE | OPR_EQ
  | OPR_LT | OPR_LE | OPR_GT | OPR_GE
  | OPR_AND | OPR_OR
  | OPR_NOBINOPR

datatype UnOpr = OPR_MINUS | OPR_NOT | OPR_LEN | OPR_NOUNOPR

datatype expkind =
    VVOID | VNIL | VTRUE | VFALSE | VK | VKNUM | VLOCAL | VUPVAL | VGLOBAL | VINDEXED
  | VJMP | VRELOCABLE | VNONRELOC | VCALL | VVARARG

text \<open>The members \<open>s\<close> and \<open>nval\<close> of the union are apart; the code reads the one that \<open>k\<close> names.\<close>

record expdesc =
  e_k :: expkind
  e_info :: int
  e_aux :: int
  e_nval :: lua_Number
  e_t :: int
  e_f :: int

record FuncState =
  fs_code :: "Instruction list"
  fs_lineinfo :: "int list"
  fs_k :: "TValue list"
  fs_maxstacksize :: int
  fs_haddr :: ptr
  fs_ls :: LexState
  fs_pc :: int
  fs_lasttarget :: int
  fs_jpc :: int
  fs_freereg :: int
  fs_nk :: int
  fs_nactvar :: int

definition hasjumps :: "expdesc \<Rightarrow> bool" where "hasjumps e \<longleftrightarrow> e_t e \<noteq> e_f e"

definition isnumeral :: "expdesc \<Rightarrow> bool" where
  "isnumeral e \<longleftrightarrow> e_k e = VKNUM \<and> e_t e = NO_JUMP \<and> e_f e = NO_JUMP"

section \<open>Arrays\<close>

definition code_get :: "FuncState \<Rightarrow> int \<Rightarrow> Instruction result" where
  "code_get fs i = (if 0 \<le> i \<and> i < int (length (fs_code fs)) then Inr (fs_code fs ! nat i) else Inl OutOfBounds)"

definition code_put :: "FuncState \<Rightarrow> int \<Rightarrow> Instruction \<Rightarrow> FuncState result" where
  "code_put fs i v =
     (if 0 \<le> i \<and> i < int (length (fs_code fs)) then Inr (fs\<lparr>fs_code := (fs_code fs)[nat i := v]\<rparr>)
      else Inl OutOfBounds)"

definition line_put :: "FuncState \<Rightarrow> int \<Rightarrow> int \<Rightarrow> FuncState result" where
  "line_put fs i line =
     (if 0 \<le> i \<and> i < int (length (fs_lineinfo fs)) then Inr (fs\<lparr>fs_lineinfo := (fs_lineinfo fs)[nat i := line]\<rparr>)
      else Inl OutOfBounds)"

definition MINSIZEARRAY :: int where "MINSIZEARRAY = 4"

definition luaM_growaux :: "int \<Rightarrow> int \<Rightarrow> c_string \<Rightarrow> int result" where
  "luaM_growaux siz limit errormsg =
     (if siz \<ge> limit div 2 then
        (if siz \<ge> limit then Inl (ErrRun errormsg) else Inr limit)
      else let newsize = siz * 2 in Inr (if newsize < MINSIZEARRAY then MINSIZEARRAY else newsize))"

text \<open>The new cells hold \<open>d\<close>, in place of what the allocator left there.\<close>

definition luaM_growvector :: "'a \<Rightarrow> 'a list \<Rightarrow> int \<Rightarrow> int \<Rightarrow> c_string \<Rightarrow> 'a list result" where
  "luaM_growvector d v nelems limit e =
     (if nelems + 1 > int (length v) then
        bind_result (luaM_growaux (int (length v)) limit e) (\<lambda>n. Inr (v @ replicate (nat n - length v) d))
      else Inr v)"

section \<open>Jump lists\<close>

definition fixjump :: "FuncState \<Rightarrow> int \<Rightarrow> int \<Rightarrow> FuncState result" where
  "fixjump fs pc dest =
     bind_result (code_get fs pc) (\<lambda>jmp.
       let offset = dest - (pc + 1)
       in if \<bar>offset\<bar> > MAXARG_sBx then luaX_syntaxerror (fs_ls fs) ''control structure too long''
          else code_put fs pc (SETARG_sBx jmp offset))"

definition luaK_getlabel :: "FuncState \<Rightarrow> int \<times> FuncState" where
  "luaK_getlabel fs = (fs_pc fs, fs\<lparr>fs_lasttarget := fs_pc fs\<rparr>)"

definition getjump :: "FuncState \<Rightarrow> int \<Rightarrow> int result" where
  "getjump fs pc =
     bind_result (code_get fs pc) (\<lambda>i.
       let offset = GETARG_sBx i
       in Inr (if offset = NO_JUMP then NO_JUMP else pc + 1 + offset))"

text \<open>
  \<open>testTMode\<close> of the opcode field of a word: the table of modes is read outside for a word that
  holds no instruction.
\<close>

definition is_test :: "Instruction \<Rightarrow> bool result" where
  "is_test i = (case opcode_of (GET_OPCODE i) of None \<Rightarrow> Inl OutOfBounds | Some m \<Rightarrow> Inr (testTMode m))"

definition getjumpcontrol :: "FuncState \<Rightarrow> int \<Rightarrow> int result" where
  "getjumpcontrol fs pc =
     (if pc \<ge> 1 then
        bind_result (code_get fs (pc - 1)) (\<lambda>i.
        bind_result (is_test i) (\<lambda>t. Inr (if t then pc - 1 else pc)))
      else Inr pc)"

fun need_value_loop :: "nat \<Rightarrow> FuncState \<Rightarrow> int \<Rightarrow> bool result" where
  "need_value_loop n fs l =
     (if l = NO_JUMP then Inr False
      else case n of
             0 \<Rightarrow> Inl NoFuel
           | Suc n \<Rightarrow>
               bind_result (getjumpcontrol fs l) (\<lambda>p.
               bind_result (code_get fs p) (\<lambda>i.
                 if GET_OPCODE i \<noteq> op_num OP_TESTSET then Inr True
                 else bind_result (getjump fs l) (\<lambda>l. need_value_loop n fs l))))"

declare need_value_loop.simps [simp del]

definition need_value :: "FuncState \<Rightarrow> int \<Rightarrow> bool result" where
  "need_value fs l = need_value_loop (length (fs_code fs)) fs l"

definition patchtestreg :: "FuncState \<Rightarrow> int \<Rightarrow> int \<Rightarrow> (bool \<times> FuncState) result" where
  "patchtestreg fs node reg =
     bind_result (getjumpcontrol fs node) (\<lambda>p.
     bind_result (code_get fs p) (\<lambda>i.
       if GET_OPCODE i \<noteq> op_num OP_TESTSET then Inr (False, fs)
       else bind_result
              (code_put fs p
                 (if reg \<noteq> NO_REG \<and> reg \<noteq> GETARG_B i then SETARG_A i reg
                  else CREATE_ABC (op_num OP_TEST) (GETARG_B i) 0 (GETARG_C i)))
              (\<lambda>fs. Inr (True, fs))))"

fun removevalues_loop :: "nat \<Rightarrow> FuncState \<Rightarrow> int \<Rightarrow> FuncState result" where
  "removevalues_loop n fs l =
     (if l = NO_JUMP then Inr fs
      else case n of
             0 \<Rightarrow> Inl NoFuel
           | Suc n \<Rightarrow>
               bind_result (patchtestreg fs l NO_REG) (\<lambda>(_, fs).
               bind_result (getjump fs l) (\<lambda>l. removevalues_loop n fs l)))"

declare removevalues_loop.simps [simp del]

definition removevalues :: "FuncState \<Rightarrow> int \<Rightarrow> FuncState result" where
  "removevalues fs l = removevalues_loop (length (fs_code fs)) fs l"

fun patchlist_loop :: "nat \<Rightarrow> FuncState \<Rightarrow> int \<Rightarrow> int \<Rightarrow> int \<Rightarrow> int \<Rightarrow> FuncState result" where
  "patchlist_loop n fs l vtarget reg dtarget =
     (if l = NO_JUMP then Inr fs
      else case n of
             0 \<Rightarrow> Inl NoFuel
           | Suc n \<Rightarrow>
               bind_result (getjump fs l) (\<lambda>nxt.
               bind_result (patchtestreg fs l reg) (\<lambda>(v, fs).
               bind_result (fixjump fs l (if v then vtarget else dtarget)) (\<lambda>fs.
                 patchlist_loop n fs nxt vtarget reg dtarget))))"

declare patchlist_loop.simps [simp del]

definition patchlistaux :: "FuncState \<Rightarrow> int \<Rightarrow> int \<Rightarrow> int \<Rightarrow> int \<Rightarrow> FuncState result" where
  "patchlistaux fs l vtarget reg dtarget = patchlist_loop (length (fs_code fs)) fs l vtarget reg dtarget"

definition dischargejpc :: "FuncState \<Rightarrow> FuncState result" where
  "dischargejpc fs =
     bind_result (patchlistaux fs (fs_jpc fs) (fs_pc fs) NO_REG (fs_pc fs)) (\<lambda>fs. Inr (fs\<lparr>fs_jpc := NO_JUMP\<rparr>))"

text \<open>The last element of a list that is not empty.\<close>

fun last_jump :: "nat \<Rightarrow> FuncState \<Rightarrow> int \<Rightarrow> int result" where
  "last_jump n fs l =
     bind_result (getjump fs l) (\<lambda>nxt.
       if nxt = NO_JUMP then Inr l
       else case n of 0 \<Rightarrow> Inl NoFuel | Suc n \<Rightarrow> last_jump n fs nxt)"

declare last_jump.simps [simp del]

definition luaK_concat :: "FuncState \<Rightarrow> int \<Rightarrow> int \<Rightarrow> (int \<times> FuncState) result" where
  "luaK_concat fs l1 l2 =
     (if l2 = NO_JUMP then Inr (l1, fs)
      else if l1 = NO_JUMP then Inr (l2, fs)
      else bind_result (last_jump (length (fs_code fs)) fs l1) (\<lambda>l.
           bind_result (fixjump fs l l2) (\<lambda>fs. Inr (l1, fs))))"

definition luaK_patchtohere :: "FuncState \<Rightarrow> int \<Rightarrow> FuncState result" where
  "luaK_patchtohere fs l =
     (case luaK_getlabel fs of
        (_, fs) \<Rightarrow> bind_result (luaK_concat fs (fs_jpc fs) l) (\<lambda>(j, fs). Inr (fs\<lparr>fs_jpc := j\<rparr>)))"

definition luaK_patchlist :: "FuncState \<Rightarrow> int \<Rightarrow> int \<Rightarrow> FuncState result" where
  "luaK_patchlist fs l target =
     (if target = fs_pc fs then luaK_patchtohere fs l else patchlistaux fs l target NO_REG target)"

section \<open>Emitting instructions\<close>

definition luaK_fixline :: "FuncState \<Rightarrow> int \<Rightarrow> FuncState result" where
  "luaK_fixline fs line = line_put fs (fs_pc fs - 1) line"

definition luaK_code :: "FuncState \<Rightarrow> Instruction \<Rightarrow> int \<Rightarrow> (int \<times> FuncState) result" where
  "luaK_code fs i line =
     bind_result (dischargejpc fs) (\<lambda>fs. let pc = fs_pc fs in
     bind_result (luaM_growvector 0 (fs_code fs) pc MAX_INT ''code size overflow'') (\<lambda>code.
     bind_result (code_put (fs\<lparr>fs_code := code\<rparr>) pc i) (\<lambda>fs.
     bind_result (luaM_growvector 0 (fs_lineinfo fs) pc MAX_INT ''code size overflow'') (\<lambda>lines.
     bind_result (line_put (fs\<lparr>fs_lineinfo := lines\<rparr>) pc line) (\<lambda>fs.
       Inr (pc, fs\<lparr>fs_pc := pc + 1\<rparr>))))))"

definition luaK_codeABC :: "FuncState \<Rightarrow> OpCode \<Rightarrow> int \<Rightarrow> int \<Rightarrow> int \<Rightarrow> (int \<times> FuncState) result" where
  "luaK_codeABC fs op a b c = luaK_code fs (CREATE_ABC (op_num op) a b c) (lastline (fs_ls fs))"

definition luaK_codeABx :: "FuncState \<Rightarrow> OpCode \<Rightarrow> int \<Rightarrow> int \<Rightarrow> (int \<times> FuncState) result" where
  "luaK_codeABx fs op a bc = luaK_code fs (CREATE_ABx (op_num op) a bc) (lastline (fs_ls fs))"

definition luaK_codeAsBx :: "FuncState \<Rightarrow> OpCode \<Rightarrow> int \<Rightarrow> int \<Rightarrow> (int \<times> FuncState) result" where
  "luaK_codeAsBx fs op a sbx = luaK_codeABx fs op a (sbx + MAXARG_sBx)"

text \<open>For the calls whose result is not used.\<close>

definition drop_pc :: "(int \<times> FuncState) result \<Rightarrow> FuncState result" where
  "drop_pc r = bind_result r (\<lambda>(_, fs). Inr fs)"

definition luaK_nil :: "FuncState \<Rightarrow> int \<Rightarrow> int \<Rightarrow> FuncState result" where
  "luaK_nil fs from n =
     (let emit = drop_pc (luaK_codeABC fs OP_LOADNIL from (from + n - 1) 0)
      in if fs_pc fs > fs_lasttarget fs then
           (if fs_pc fs = 0 then (if from \<ge> fs_nactvar fs then Inr fs else emit)
            else bind_result (code_get fs (fs_pc fs - 1)) (\<lambda>previous.
                   if GET_OPCODE previous = op_num OP_LOADNIL then
                     let pfrom = GETARG_A previous; pto = GETARG_B previous
                     in if pfrom \<le> from \<and> from \<le> pto + 1 then
                          (if from + n - 1 > pto
                           then code_put fs (fs_pc fs - 1) (SETARG_B previous (from + n - 1)) else Inr fs)
                        else emit
                   else emit))
         else emit)"

definition luaK_jump :: "FuncState \<Rightarrow> (int \<times> FuncState) result" where
  "luaK_jump fs =
     (let jpc = fs_jpc fs; fs = fs\<lparr>fs_jpc := NO_JUMP\<rparr>
      in bind_result (luaK_codeAsBx fs OP_JMP 0 NO_JUMP) (\<lambda>(j, fs). luaK_concat fs j jpc))"

definition luaK_ret :: "FuncState \<Rightarrow> int \<Rightarrow> int \<Rightarrow> FuncState result" where
  "luaK_ret fs first nret = drop_pc (luaK_codeABC fs OP_RETURN first (nret + 1) 0)"

definition condjump :: "FuncState \<Rightarrow> OpCode \<Rightarrow> int \<Rightarrow> int \<Rightarrow> int \<Rightarrow> (int \<times> FuncState) result" where
  "condjump fs op a b c = bind_result (luaK_codeABC fs op a b c) (\<lambda>(_, fs). luaK_jump fs)"

definition LUA_MULTRET :: int where "LUA_MULTRET = - 1"

definition luaK_setlist :: "FuncState \<Rightarrow> int \<Rightarrow> int \<Rightarrow> int \<Rightarrow> FuncState result" where
  "luaK_setlist fs base nelems tostore =
     (let c = (if nelems \<ge> 1 then (nelems - 1) div LFIELDS_PER_FLUSH else - ((1 - nelems) div LFIELDS_PER_FLUSH)) + 1;
          b = (if tostore = LUA_MULTRET then 0 else tostore)
      in bind_result
           (if c \<le> MAXARG_C then drop_pc (luaK_codeABC fs OP_SETLIST base b c)
            else bind_result (luaK_codeABC fs OP_SETLIST base b 0) (\<lambda>(_, fs).
                   drop_pc (luaK_code fs (word_of_int c) (lastline (fs_ls fs)))))
           (\<lambda>fs. Inr (fs\<lparr>fs_freereg := base + 1\<rparr>)))"

section \<open>Registers\<close>

definition MAXSTACK :: int where "MAXSTACK = 250"

definition luaK_checkstack :: "FuncState \<Rightarrow> int \<Rightarrow> FuncState result" where
  "luaK_checkstack fs n =
     (let newstack = fs_freereg fs + n
      in if newstack > fs_maxstacksize fs then
           (if newstack \<ge> MAXSTACK then luaX_syntaxerror (fs_ls fs) ''function or expression too complex''
            else Inr (fs\<lparr>fs_maxstacksize := newstack mod 256\<rparr>))
         else Inr fs)"

definition luaK_reserveregs :: "FuncState \<Rightarrow> int \<Rightarrow> FuncState result" where
  "luaK_reserveregs fs n =
     bind_result (luaK_checkstack fs n) (\<lambda>fs. Inr (fs\<lparr>fs_freereg := fs_freereg fs + n\<rparr>))"

definition freereg :: "FuncState \<Rightarrow> int \<Rightarrow> FuncState" where
  "freereg fs reg =
     (if \<not> ISK reg \<and> reg \<ge> fs_nactvar fs then fs\<lparr>fs_freereg := fs_freereg fs - 1\<rparr> else fs)"

definition freeexp :: "FuncState \<Rightarrow> expdesc \<Rightarrow> FuncState" where
  "freeexp fs e = (if e_k e = VNONRELOC then freereg fs (e_info e) else fs)"

section \<open>Constants\<close>

text \<open>
  \<open>addk\<close> stores into the slot before the array of constants grows: the table has changed even
  where growing fails, which ends the compilation.
\<close>

definition addk :: "FuncState \<Rightarrow> TValue \<Rightarrow> TValue \<Rightarrow> (int \<times> FuncState) result" where
  "addk fs k v =
     bind_result (luaH_set (grow 2) (fs_h (fs_ls fs)) k) (\<lambda>(idx, h).
       case slot_val h idx of
         TNumber n \<Rightarrow> Inr (lua_number2int n, fs\<lparr>fs_ls := (fs_ls fs)\<lparr>fs_h := h\<rparr>\<rparr>)
       | _ \<Rightarrow>
           let h = set_slot h idx (TNumber (cast_num (fs_nk fs)))
           in bind_result (luaM_growvector TNil (fs_k fs) (fs_nk fs) MAXARG_Bx ''constant table overflow'') (\<lambda>ks.
                if 0 \<le> fs_nk fs \<and> fs_nk fs < int (length ks) then
                  Inr (fs_nk fs, fs\<lparr>fs_ls := (fs_ls fs)\<lparr>fs_h := h\<rparr>, fs_k := ks[nat (fs_nk fs) := v],
                                  fs_nk := fs_nk fs + 1\<rparr>)
                else Inl OutOfBounds))"

definition luaK_stringK :: "FuncState \<Rightarrow> c_string \<Rightarrow> (int \<times> FuncState) result" where
  "luaK_stringK fs s = addk fs (TGC (GString s)) (TGC (GString s))"

definition luaK_numberK :: "FuncState \<Rightarrow> lua_Number \<Rightarrow> (int \<times> FuncState) result" where
  "luaK_numberK fs r = addk fs (TNumber r) (TNumber r)"

definition boolK :: "FuncState \<Rightarrow> int \<Rightarrow> (int \<times> FuncState) result" where
  "boolK fs b = addk fs (TBoolean b) (TBoolean b)"

definition nilK :: "FuncState \<Rightarrow> (int \<times> FuncState) result" where
  "nilK fs = addk fs (TGC (GTable (fs_haddr fs))) TNil"

section \<open>Expressions\<close>

type_synonym coded = "(expdesc \<times> FuncState) result"

text \<open>The macro \<open>getcode\<close>.\<close>

definition getcode :: "FuncState \<Rightarrow> expdesc \<Rightarrow> Instruction result" where
  "getcode fs e = code_get fs (e_info e)"

definition setcode :: "FuncState \<Rightarrow> expdesc \<Rightarrow> Instruction \<Rightarrow> FuncState result" where
  "setcode fs e i = code_put fs (e_info e) i"

definition luaK_setreturns :: "FuncState \<Rightarrow> expdesc \<Rightarrow> int \<Rightarrow> FuncState result" where
  "luaK_setreturns fs e nresults =
     (if e_k e = VCALL then
        bind_result (getcode fs e) (\<lambda>i. setcode fs e (SETARG_C i (nresults + 1)))
      else if e_k e = VVARARG then
        bind_result (getcode fs e) (\<lambda>i.
        bind_result (setcode fs e (SETARG_B i (nresults + 1))) (\<lambda>fs.
        bind_result (getcode fs e) (\<lambda>i.
        bind_result (setcode fs e (SETARG_A i (fs_freereg fs))) (\<lambda>fs. luaK_reserveregs fs 1))))
      else Inr fs)"

definition luaK_setoneret :: "FuncState \<Rightarrow> expdesc \<Rightarrow> coded" where
  "luaK_setoneret fs e =
     (if e_k e = VCALL then
        bind_result (getcode fs e) (\<lambda>i. Inr (e\<lparr>e_k := VNONRELOC, e_info := GETARG_A i\<rparr>, fs))
      else if e_k e = VVARARG then
        bind_result (getcode fs e) (\<lambda>i.
        bind_result (setcode fs e (SETARG_B i 2)) (\<lambda>fs. Inr (e\<lparr>e_k := VRELOCABLE\<rparr>, fs)))
      else Inr (e, fs))"

definition relocable :: "expdesc \<Rightarrow> (int \<times> FuncState) result \<Rightarrow> coded" where
  "relocable e r = bind_result r (\<lambda>(pc, fs). Inr (e\<lparr>e_info := pc, e_k := VRELOCABLE\<rparr>, fs))"

definition luaK_dischargevars :: "FuncState \<Rightarrow> expdesc \<Rightarrow> coded" where
  "luaK_dischargevars fs e =
     (case e_k e of
        VLOCAL \<Rightarrow> Inr (e\<lparr>e_k := VNONRELOC\<rparr>, fs)
      | VUPVAL \<Rightarrow> relocable e (luaK_codeABC fs OP_GETUPVAL 0 (e_info e) 0)
      | VGLOBAL \<Rightarrow> relocable e (luaK_codeABx fs OP_GETGLOBAL 0 (e_info e))
      | VINDEXED \<Rightarrow>
          let fs = freereg (freereg fs (e_aux e)) (e_info e)
          in relocable e (luaK_codeABC fs OP_GETTABLE 0 (e_info e) (e_aux e))
      | VVARARG \<Rightarrow> luaK_setoneret fs e
      | VCALL \<Rightarrow> luaK_setoneret fs e
      | _ \<Rightarrow> Inr (e, fs))"

definition code_label :: "FuncState \<Rightarrow> int \<Rightarrow> int \<Rightarrow> int \<Rightarrow> (int \<times> FuncState) result" where
  "code_label fs a b jump = luaK_codeABC (snd (luaK_getlabel fs)) OP_LOADBOOL a b jump"

definition discharge2reg :: "FuncState \<Rightarrow> expdesc \<Rightarrow> int \<Rightarrow> coded" where
  "discharge2reg fs e reg =
     bind_result (luaK_dischargevars fs e) (\<lambda>(e, fs).
       let into = (\<lambda>r. bind_result r (\<lambda>fs. Inr (e\<lparr>e_info := reg, e_k := VNONRELOC\<rparr>, fs)))
       in case e_k e of
            VNIL \<Rightarrow> into (luaK_nil fs reg 1)
          | VFALSE \<Rightarrow> into (drop_pc (luaK_codeABC fs OP_LOADBOOL reg 0 0))
          | VTRUE \<Rightarrow> into (drop_pc (luaK_codeABC fs OP_LOADBOOL reg 1 0))
          | VK \<Rightarrow> into (drop_pc (luaK_codeABx fs OP_LOADK reg (e_info e)))
          | VKNUM \<Rightarrow>
              into (bind_result (luaK_numberK fs (e_nval e)) (\<lambda>(k, fs). drop_pc (luaK_codeABx fs OP_LOADK reg k)))
          | VRELOCABLE \<Rightarrow> into (bind_result (getcode fs e) (\<lambda>i. setcode fs e (SETARG_A i reg)))
          | VNONRELOC \<Rightarrow>
              into (if reg \<noteq> e_info e then drop_pc (luaK_codeABC fs OP_MOVE reg (e_info e) 0) else Inr fs)
          | _ \<Rightarrow> Inr (e, fs))"

definition discharge2anyreg :: "FuncState \<Rightarrow> expdesc \<Rightarrow> coded" where
  "discharge2anyreg fs e =
     (if e_k e \<noteq> VNONRELOC then
        bind_result (luaK_reserveregs fs 1) (\<lambda>fs. discharge2reg fs e (fs_freereg fs - 1))
      else Inr (e, fs))"

text \<open>The loads of \<open>false\<close> and \<open>true\<close> that \<open>exp2reg\<close> emits: their places, or \<open>NO_JUMP\<close>.\<close>

definition code_bools :: "FuncState \<Rightarrow> expdesc \<Rightarrow> int \<Rightarrow> (int \<times> int \<times> FuncState) result" where
  "code_bools fs e reg =
     bind_result (need_value fs (e_t e)) (\<lambda>nt.
     bind_result (if nt then Inr True else need_value fs (e_f e)) (\<lambda>need.
       if need then
         bind_result (if e_k e = VJMP then Inr (NO_JUMP, fs) else luaK_jump fs) (\<lambda>(fj, fs).
         bind_result (code_label fs reg 0 1) (\<lambda>(p_f, fs).
         bind_result (code_label fs reg 1 0) (\<lambda>(p_t, fs).
         bind_result (luaK_patchtohere fs fj) (\<lambda>fs. Inr (p_f, p_t, fs)))))
       else Inr (NO_JUMP, NO_JUMP, fs)))"

definition exp2reg :: "FuncState \<Rightarrow> expdesc \<Rightarrow> int \<Rightarrow> coded" where
  "exp2reg fs e reg =
     bind_result (discharge2reg fs e reg) (\<lambda>(e, fs).
     bind_result
       (if e_k e = VJMP then bind_result (luaK_concat fs (e_t e) (e_info e)) (\<lambda>(t, fs). Inr (e\<lparr>e_t := t\<rparr>, fs))
        else Inr (e, fs)) (\<lambda>(e, fs).
     bind_result
       (if hasjumps e then
          bind_result (code_bools fs e reg) (\<lambda>(p_f, p_t, fs).
            case luaK_getlabel fs of
              (final, fs) \<Rightarrow>
                bind_result (patchlistaux fs (e_f e) final reg p_f) (\<lambda>fs.
                  patchlistaux fs (e_t e) final reg p_t))
        else Inr fs) (\<lambda>fs.
       Inr (e\<lparr>e_f := NO_JUMP, e_t := NO_JUMP, e_info := reg, e_k := VNONRELOC\<rparr>, fs))))"

definition luaK_exp2nextreg :: "FuncState \<Rightarrow> expdesc \<Rightarrow> coded" where
  "luaK_exp2nextreg fs e =
     bind_result (luaK_dischargevars fs e) (\<lambda>(e, fs).
     bind_result (luaK_reserveregs (freeexp fs e) 1) (\<lambda>fs. exp2reg fs e (fs_freereg fs - 1)))"

text \<open>The functions that return a register or an operand return it before the expression.\<close>

definition luaK_exp2anyreg :: "FuncState \<Rightarrow> expdesc \<Rightarrow> (int \<times> expdesc \<times> FuncState) result" where
  "luaK_exp2anyreg fs e =
     bind_result (luaK_dischargevars fs e) (\<lambda>(e, fs).
       let nextreg = bind_result (luaK_exp2nextreg fs e) (\<lambda>(e, fs). Inr (e_info e, e, fs))
       in if e_k e = VNONRELOC then
            (if \<not> hasjumps e then Inr (e_info e, e, fs)
             else if e_info e \<ge> fs_nactvar fs then
               bind_result (exp2reg fs e (e_info e)) (\<lambda>(e, fs). Inr (e_info e, e, fs))
             else nextreg)
          else nextreg)"

definition luaK_exp2val :: "FuncState \<Rightarrow> expdesc \<Rightarrow> coded" where
  "luaK_exp2val fs e =
     (if hasjumps e then bind_result (luaK_exp2anyreg fs e) (\<lambda>(_, e, fs). Inr (e, fs))
      else luaK_dischargevars fs e)"

definition luaK_exp2RK :: "FuncState \<Rightarrow> expdesc \<Rightarrow> (int \<times> expdesc \<times> FuncState) result" where
  "luaK_exp2RK fs e =
     bind_result (luaK_exp2val fs e) (\<lambda>(e, fs).
       let k = e_k e
       in if k = VKNUM \<or> k = VTRUE \<or> k = VFALSE \<or> k = VNIL then
            (if fs_nk fs \<le> MAXINDEXRK then
               bind_result
                 (if k = VNIL then nilK fs else if k = VKNUM then luaK_numberK fs (e_nval e)
                  else boolK fs (if k = VTRUE then 1 else 0))
                 (\<lambda>(i, fs). Inr (RKASK i, e\<lparr>e_info := i, e_k := VK\<rparr>, fs))
             else luaK_exp2anyreg fs e)
          else if k = VK \<and> e_info e \<le> MAXINDEXRK then Inr (RKASK (e_info e), e, fs)
          else luaK_exp2anyreg fs e)"

definition luaK_storevar :: "FuncState \<Rightarrow> expdesc \<Rightarrow> expdesc \<Rightarrow> coded" where
  "luaK_storevar fs var ex =
     (let store = (\<lambda>r. bind_result r (\<lambda>(ex, fs). Inr (ex, freeexp fs ex)))
      in case e_k var of
           VLOCAL \<Rightarrow> exp2reg (freeexp fs ex) ex (e_info var)
         | VUPVAL \<Rightarrow>
             store (bind_result (luaK_exp2anyreg fs ex) (\<lambda>(e, ex, fs).
                    bind_result (luaK_codeABC fs OP_SETUPVAL e (e_info var) 0) (\<lambda>(_, fs). Inr (ex, fs))))
         | VGLOBAL \<Rightarrow>
             store (bind_result (luaK_exp2anyreg fs ex) (\<lambda>(e, ex, fs).
                    bind_result (luaK_codeABx fs OP_SETGLOBAL e (e_info var)) (\<lambda>(_, fs). Inr (ex, fs))))
         | VINDEXED \<Rightarrow>
             store (bind_result (luaK_exp2RK fs ex) (\<lambda>(e, ex, fs).
                    bind_result (luaK_codeABC fs OP_SETTABLE (e_info var) (e_aux var) e) (\<lambda>(_, fs). Inr (ex, fs))))
         | _ \<Rightarrow> store (Inr (ex, fs)))"

definition luaK_self :: "FuncState \<Rightarrow> expdesc \<Rightarrow> expdesc \<Rightarrow> (expdesc \<times> expdesc \<times> FuncState) result" where
  "luaK_self fs e key =
     bind_result (luaK_exp2anyreg fs e) (\<lambda>(_, e, fs). let fs = freeexp fs e; func = fs_freereg fs in
     bind_result (luaK_reserveregs fs 2) (\<lambda>fs.
     bind_result (luaK_exp2RK fs key) (\<lambda>(k, key, fs).
     bind_result (luaK_codeABC fs OP_SELF func (e_info e) k) (\<lambda>(_, fs).
       Inr (e\<lparr>e_info := func, e_k := VNONRELOC\<rparr>, key, freeexp fs key)))))"

section \<open>Conditions\<close>

definition invertjump :: "FuncState \<Rightarrow> expdesc \<Rightarrow> FuncState result" where
  "invertjump fs e =
     bind_result (getjumpcontrol fs (e_info e)) (\<lambda>pc.
     bind_result (code_get fs pc) (\<lambda>i.
       code_put fs pc (SETARG_A i (if GETARG_A i = 0 then 1 else 0))))"

definition jumponcond :: "FuncState \<Rightarrow> expdesc \<Rightarrow> int \<Rightarrow> (int \<times> expdesc \<times> FuncState) result" where
  "jumponcond fs e cond =
     bind_result (if e_k e = VRELOCABLE then getcode fs e else Inr 0) (\<lambda>ie.
       if e_k e = VRELOCABLE \<and> GET_OPCODE ie = op_num OP_NOT then
         bind_result (condjump (fs\<lparr>fs_pc := fs_pc fs - 1\<rparr>) OP_TEST (GETARG_B ie) 0 (if cond = 0 then 1 else 0))
           (\<lambda>(pc, fs). Inr (pc, e, fs))
       else
         bind_result (discharge2anyreg fs e) (\<lambda>(e, fs).
         bind_result (condjump (freeexp fs e) OP_TESTSET NO_REG (e_info e) cond) (\<lambda>(pc, fs). Inr (pc, e, fs))))"

definition luaK_goiftrue :: "FuncState \<Rightarrow> expdesc \<Rightarrow> coded" where
  "luaK_goiftrue fs e =
     bind_result (luaK_dischargevars fs e) (\<lambda>(e, fs).
     bind_result
       (let k = e_k e
        in if k = VK \<or> k = VKNUM \<or> k = VTRUE then Inr (NO_JUMP, e, fs)
           else if k = VFALSE then bind_result (luaK_jump fs) (\<lambda>(pc, fs). Inr (pc, e, fs))
           else if k = VJMP then bind_result (invertjump fs e) (\<lambda>fs. Inr (e_info e, e, fs))
           else jumponcond fs e 0)
       (\<lambda>(pc, e, fs).
     bind_result (luaK_concat fs (e_f e) pc) (\<lambda>(f, fs).
     bind_result (luaK_patchtohere fs (e_t e)) (\<lambda>fs. Inr (e\<lparr>e_f := f, e_t := NO_JUMP\<rparr>, fs)))))"

definition luaK_goiffalse :: "FuncState \<Rightarrow> expdesc \<Rightarrow> coded" where
  "luaK_goiffalse fs e =
     bind_result (luaK_dischargevars fs e) (\<lambda>(e, fs).
     bind_result
       (let k = e_k e
        in if k = VNIL \<or> k = VFALSE then Inr (NO_JUMP, e, fs)
           else if k = VTRUE then bind_result (luaK_jump fs) (\<lambda>(pc, fs). Inr (pc, e, fs))
           else if k = VJMP then Inr (e_info e, e, fs)
           else jumponcond fs e 1)
       (\<lambda>(pc, e, fs).
     bind_result (luaK_concat fs (e_t e) pc) (\<lambda>(t, fs).
     bind_result (luaK_patchtohere fs (e_f e)) (\<lambda>fs. Inr (e\<lparr>e_t := t, e_f := NO_JUMP\<rparr>, fs)))))"

definition codenot :: "FuncState \<Rightarrow> expdesc \<Rightarrow> coded" where
  "codenot fs e =
     bind_result (luaK_dischargevars fs e) (\<lambda>(e, fs).
     bind_result
       (let k = e_k e
        in if k = VNIL \<or> k = VFALSE then Inr (e\<lparr>e_k := VTRUE\<rparr>, fs)
           else if k = VK \<or> k = VKNUM \<or> k = VTRUE then Inr (e\<lparr>e_k := VFALSE\<rparr>, fs)
           else if k = VJMP then bind_result (invertjump fs e) (\<lambda>fs. Inr (e, fs))
           else if k = VRELOCABLE \<or> k = VNONRELOC then
             bind_result (discharge2anyreg fs e) (\<lambda>(e, fs).
               relocable e (luaK_codeABC (freeexp fs e) OP_NOT 0 (e_info e) 0))
           else Inr (e, fs))
       (\<lambda>(e, fs).
         let e = e\<lparr>e_f := e_t e, e_t := e_f e\<rparr>
         in bind_result (removevalues fs (e_f e)) (\<lambda>fs.
            bind_result (removevalues fs (e_t e)) (\<lambda>fs. Inr (e, fs)))))"

definition luaK_indexed :: "FuncState \<Rightarrow> expdesc \<Rightarrow> expdesc \<Rightarrow> (expdesc \<times> expdesc \<times> FuncState) result" where
  "luaK_indexed fs t k =
     bind_result (luaK_exp2RK fs k) (\<lambda>(i, k, fs). Inr (t\<lparr>e_aux := i, e_k := VINDEXED\<rparr>, k, fs))"

section \<open>Operators\<close>

text \<open>The \<open>pow\<close> of the C library is an argument.\<close>

type_synonym power = "lua_Number \<Rightarrow> lua_Number \<Rightarrow> lua_Number"

definition constfolding :: "power \<Rightarrow> OpCode \<Rightarrow> expdesc \<Rightarrow> expdesc \<Rightarrow> expdesc option" where
  "constfolding pow op e1 e2 =
     (if \<not> isnumeral e1 \<or> \<not> isnumeral e2 then None
      else let v1 = e_nval e1; v2 = e_nval e2;
               r = (case op of
                      OP_ADD \<Rightarrow> Some (luai_numadd v1 v2)
                    | OP_SUB \<Rightarrow> Some (luai_numsub v1 v2)
                    | OP_MUL \<Rightarrow> Some (luai_nummul v1 v2)
                    | OP_DIV \<Rightarrow> if luai_numeq v2 0 then None else Some (luai_numdiv v1 v2)
                    | OP_MOD \<Rightarrow> if luai_numeq v2 0 then None else Some (luai_nummod v1 v2)
                    | OP_POW \<Rightarrow> Some (pow v1 v2)
                    | OP_UNM \<Rightarrow> Some (luai_numunm v1)
                    | OP_LEN \<Rightarrow> None
                    | _ \<Rightarrow> Some 0)
           in case r of
                None \<Rightarrow> None
              | Some r \<Rightarrow> if luai_numisnan r then None else Some (e1\<lparr>e_nval := r\<rparr>))"

type_synonym coded2 = "(expdesc \<times> expdesc \<times> FuncState) result"

definition codearith :: "power \<Rightarrow> FuncState \<Rightarrow> OpCode \<Rightarrow> expdesc \<Rightarrow> expdesc \<Rightarrow> coded2" where
  "codearith pow fs op e1 e2 =
     (case constfolding pow op e1 e2 of
        Some e1 \<Rightarrow> Inr (e1, e2, fs)
      | None \<Rightarrow>
          bind_result (if op \<noteq> OP_UNM \<and> op \<noteq> OP_LEN then luaK_exp2RK fs e2 else Inr (0, e2, fs)) (\<lambda>(o2, e2, fs).
          bind_result (luaK_exp2RK fs e1) (\<lambda>(o1, e1, fs).
            let fs = (if o1 > o2 then freeexp (freeexp fs e1) e2 else freeexp (freeexp fs e2) e1)
            in bind_result (luaK_codeABC fs op 0 o1 o2) (\<lambda>(pc, fs).
                 Inr (e1\<lparr>e_info := pc, e_k := VRELOCABLE\<rparr>, e2, fs)))))"

definition codecomp :: "FuncState \<Rightarrow> OpCode \<Rightarrow> int \<Rightarrow> expdesc \<Rightarrow> expdesc \<Rightarrow> coded2" where
  "codecomp fs op cond e1 e2 =
     bind_result (luaK_exp2RK fs e1) (\<lambda>(o1, e1, fs).
     bind_result (luaK_exp2RK fs e2) (\<lambda>(o2, e2, fs).
       let fs = freeexp (freeexp fs e2) e1;
           (o1, o2, cond) = (if cond = 0 \<and> op \<noteq> OP_EQ then (o2, o1, 1) else (o1, o2, cond))
       in bind_result (condjump fs op cond o1 o2) (\<lambda>(pc, fs).
            Inr (e1\<lparr>e_info := pc, e_k := VJMP\<rparr>, e2, fs))))"

definition luaK_prefix :: "power \<Rightarrow> FuncState \<Rightarrow> UnOpr \<Rightarrow> expdesc \<Rightarrow> coded" where
  "luaK_prefix pow fs op e =
     (let e2 = \<lparr>e_k = VKNUM, e_info = 0, e_aux = 0, e_nval = 0, e_t = NO_JUMP, e_f = NO_JUMP\<rparr>;
          fst2 = (\<lambda>r. bind_result r (\<lambda>(e, _, fs). Inr (e, fs)))
      in case op of
           OPR_MINUS \<Rightarrow>
             bind_result (if e_k e = VK then bind_result (luaK_exp2anyreg fs e) (\<lambda>(_, e, fs). Inr (e, fs))
                          else Inr (e, fs)) (\<lambda>(e, fs). fst2 (codearith pow fs OP_UNM e e2))
         | OPR_NOT \<Rightarrow> codenot fs e
         | OPR_LEN \<Rightarrow> bind_result (luaK_exp2anyreg fs e) (\<lambda>(_, e, fs). fst2 (codearith pow fs OP_LEN e e2))
         | OPR_NOUNOPR \<Rightarrow> Inr (e, fs))"

definition luaK_infix :: "FuncState \<Rightarrow> BinOpr \<Rightarrow> expdesc \<Rightarrow> coded" where
  "luaK_infix fs op v =
     (let rk = bind_result (luaK_exp2RK fs v) (\<lambda>(_, v, fs). Inr (v, fs))
      in case op of
           OPR_AND \<Rightarrow> luaK_goiftrue fs v
         | OPR_OR \<Rightarrow> luaK_goiffalse fs v
         | OPR_CONCAT \<Rightarrow> luaK_exp2nextreg fs v
         | _ \<Rightarrow> if op \<in> {OPR_ADD, OPR_SUB, OPR_MUL, OPR_DIV, OPR_MOD, OPR_POW} \<and> isnumeral v then Inr (v, fs)
                else rk)"

definition luaK_posfix :: "power \<Rightarrow> FuncState \<Rightarrow> BinOpr \<Rightarrow> expdesc \<Rightarrow> expdesc \<Rightarrow> coded2" where
  "luaK_posfix pow fs op e1 e2 =
     (case op of
        OPR_AND \<Rightarrow>
          bind_result (luaK_dischargevars fs e2) (\<lambda>(e2, fs).
          bind_result (luaK_concat fs (e_f e2) (e_f e1)) (\<lambda>(f, fs). let e2 = e2\<lparr>e_f := f\<rparr> in Inr (e2, e2, fs)))
      | OPR_OR \<Rightarrow>
          bind_result (luaK_dischargevars fs e2) (\<lambda>(e2, fs).
          bind_result (luaK_concat fs (e_t e2) (e_t e1)) (\<lambda>(t, fs). let e2 = e2\<lparr>e_t := t\<rparr> in Inr (e2, e2, fs)))
      | OPR_CONCAT \<Rightarrow>
          bind_result (luaK_exp2val fs e2) (\<lambda>(e2, fs).
          bind_result (if e_k e2 = VRELOCABLE then getcode fs e2 else Inr 0) (\<lambda>i.
            if e_k e2 = VRELOCABLE \<and> GET_OPCODE i = op_num OP_CONCAT then
              let fs = freeexp fs e1
              in bind_result (setcode fs e2 (SETARG_B i (e_info e1))) (\<lambda>fs.
                   Inr (e1\<lparr>e_k := VRELOCABLE, e_info := e_info e2\<rparr>, e2, fs))
            else bind_result (luaK_exp2nextreg fs e2) (\<lambda>(e2, fs). codearith pow fs OP_CONCAT e1 e2)))
      | OPR_ADD \<Rightarrow> codearith pow fs OP_ADD e1 e2
      | OPR_SUB \<Rightarrow> codearith pow fs OP_SUB e1 e2
      | OPR_MUL \<Rightarrow> codearith pow fs OP_MUL e1 e2
      | OPR_DIV \<Rightarrow> codearith pow fs OP_DIV e1 e2
      | OPR_MOD \<Rightarrow> codearith pow fs OP_MOD e1 e2
      | OPR_POW \<Rightarrow> codearith pow fs OP_POW e1 e2
      | OPR_EQ \<Rightarrow> codecomp fs OP_EQ 1 e1 e2
      | OPR_NE \<Rightarrow> codecomp fs OP_EQ 0 e1 e2
      | OPR_LT \<Rightarrow> codecomp fs OP_LT 1 e1 e2
      | OPR_LE \<Rightarrow> codecomp fs OP_LE 1 e1 e2
      | OPR_GT \<Rightarrow> codecomp fs OP_LT 0 e1 e2
      | OPR_GE \<Rightarrow> codecomp fs OP_LE 0 e1 e2
      | OPR_NOBINOPR \<Rightarrow> Inr (e1, e2, fs))"

end
