(* ===== verification/LuaCodeSpec.thy ===== *)
theory LuaCodeSpec
  imports LuaCode LuaTableSpec
begin

text \<open>
  What the code generator does to the lists of pending jumps, to the instructions it emits and
  to the table of constants. A list of jumps is abstracted to the list of the positions of its
  jumps.
\<close>

section \<open>Fields of a jump\<close>

lemma put_Bx_other:
  "GET_OPCODE (SETARG_Bx i u) = GET_OPCODE i" "GETARG_A (SETARG_Bx i u) = GETARG_A i"
  by (simp_all add: get_fields set_fields get_put_other)

lemma GETARG_Bx_SETARG_Bx: "0 \<le> u \<Longrightarrow> u < 2 ^ 18 \<Longrightarrow> GETARG_Bx (SETARG_Bx i u) = u"
  using get_put_same [of 14 18 i "word_of_int u"] by (simp add: get_fields set_fields uint_word_of_int_mask)

lemma sBx_simps [simp]:
  "\<bar>d\<bar> \<le> MAXARG_sBx \<Longrightarrow> GETARG_sBx (SETARG_sBx i d) = d"
  "GET_OPCODE (SETARG_sBx i d) = GET_OPCODE i" "GETARG_A (SETARG_sBx i d) = GETARG_A i"
  by (simp_all add: GETARG_sBx_def SETARG_sBx_def put_Bx_other GETARG_Bx_SETARG_Bx maxarg_defs size_defs)

lemma SETARG_A_simps [simp]:
  "GET_OPCODE (SETARG_A i u) = GET_OPCODE i" "GETARG_B (SETARG_A i u) = GETARG_B i" "GETARG_C (SETARG_A i u) = GETARG_C i"
  "GETARG_sBx (SETARG_A i u) = GETARG_sBx i"
  by (simp_all add: GETARG_sBx_def get_fields set_fields get_put_other)

section \<open>Lists of jumps\<close>

definition jump_next :: "Instruction list \<Rightarrow> int \<Rightarrow> int" where
  "jump_next C j = (let d = GETARG_sBx (C ! nat j) in if d = NO_JUMP then NO_JUMP else j + 1 + d)"

fun jlist :: "Instruction list \<Rightarrow> int \<Rightarrow> int list \<Rightarrow> bool" where
  "jlist C l [] \<longleftrightarrow> l = NO_JUMP"
| "jlist C l (j # js) \<longleftrightarrow> l = j \<and> 0 \<le> j \<and> j < int (length C) \<and> jlist C (jump_next C j) js"

lemma jlist_bounds: "jlist C l js \<Longrightarrow> j \<in> set js \<Longrightarrow> 0 \<le> j \<and> j < int (length C)"
  by (induction js arbitrary: l) auto

lemma jlist_NO_JUMP [simp]: "jlist C NO_JUMP js \<longleftrightarrow> js = []"
  by (cases js) (auto simp: NO_JUMP_def)

lemma jlist_not_NO_JUMP: "jlist C l (j # js) \<Longrightarrow> l \<noteq> NO_JUMP"
  by (auto simp: NO_JUMP_def)

lemma jlist_unique: "jlist C l js \<Longrightarrow> jlist C l js' \<Longrightarrow> js = js'"
proof (induction js arbitrary: l js')
  case (Cons j js)
  then show ?case by (cases js') (auto simp: NO_JUMP_def)
qed simp

lemma jlist_suffix: "jlist C l (xs @ j # ys) \<Longrightarrow> jlist C j (j # ys)"
  by (induction xs arbitrary: l) auto

lemma jlist_distinct: "jlist C l js \<Longrightarrow> distinct js"
proof (induction js arbitrary: l)
  case (Cons j js)
  have "j \<notin> set js"
  proof
    assume "j \<in> set js"
    then obtain xs ys where js: "js = xs @ j # ys" by (meson split_list)
    have "jlist C j (j # ys)" using Cons.prems js jlist_suffix [of C l "j # xs" j ys] by simp
    moreover have "jlist C j (j # js)" using Cons.prems by auto
    ultimately have "j # ys = j # js" by (rule jlist_unique)
    then show False using js by simp
  qed
  then show ?case using Cons by auto
qed simp

lemma jlist_length:
  assumes "jlist C l js"
  shows "length js \<le> length C"
proof -
  have "length js = card (nat ` set js)"
    using jlist_distinct [OF assms] jlist_bounds [OF assms]
    by (subst card_image) (auto simp: inj_on_def distinct_card dest!: eq_nat_nat_iff [THEN iffD1, rotated 2])
  also have "\<dots> \<le> card {..<length C}" using jlist_bounds [OF assms] by (intro card_mono) (auto simp: nat_less_iff)
  finally show ?thesis by simp
qed

text \<open>A list does not see changes to other instructions, or to other fields of its jumps.\<close>

lemma jlist_cong:
  assumes "length C = length C'" and "\<And>j. j \<in> set js \<Longrightarrow> GETARG_sBx (C' ! nat j) = GETARG_sBx (C ! nat j)"
  shows "jlist C' l js = jlist C l js"
  using assms(2) by (induction js arbitrary: l) (auto simp: assms(1) jump_next_def)

lemma getjump_next: "0 \<le> j \<Longrightarrow> j < int (length (fs_code fs)) \<Longrightarrow> getjump fs j = Inr (jump_next (fs_code fs) j)"
  by (simp add: getjump_def code_get_def jump_next_def Let_def)

lemma fixjump_cases:
  assumes "0 \<le> j" and "j < int (length (fs_code fs))"
  shows "fixjump fs j dest =
    (if \<bar>dest - (j + 1)\<bar> > MAXARG_sBx then luaX_syntaxerror (fs_ls fs) ''control structure too long''
     else Inr (fs\<lparr>fs_code := (fs_code fs)[nat j := SETARG_sBx (fs_code fs ! nat j) (dest - (j + 1))]\<rparr>))"
  using assms by (simp add: fixjump_def code_get_def code_put_def Let_def)

lemma last_jump_last:
  "jlist (fs_code fs) l js \<Longrightarrow> js \<noteq> [] \<Longrightarrow> length js \<le> n \<Longrightarrow> last_jump n fs l = Inr (last js)"
proof (induction js arbitrary: l n)
  case (Cons j js)
  then have j: "getjump fs j = Inr (jump_next (fs_code fs) j)" by (intro getjump_next) auto
  obtain m where n: "n = Suc m" using Cons.prems(3) by (cases n) auto
  show ?case
  proof (cases js)
    case Nil
    then show ?thesis using Cons.prems j by (subst last_jump.simps) simp
  next
    case (Cons k ks)
    then have "last_jump m fs k = Inr (last js)" "jump_next (fs_code fs) j = k" "k \<noteq> NO_JUMP"
      using Cons.IH [of k m] Cons.prems n by (auto simp: NO_JUMP_def)
    then show ?thesis using Cons.prems j n Cons by (subst last_jump.simps) simp
  qed
qed simp

lemma jlist_append:
  assumes "jlist C l js" and "jlist C l2 js2" and "js \<noteq> []" and "js2 \<noteq> []" and "set js \<inter> set js2 = {}"
    and "C' = C[nat (last js) := SETARG_sBx (C ! nat (last js)) (l2 - (last js + 1))]"
    and "\<bar>l2 - (last js + 1)\<bar> \<le> MAXARG_sBx"
  shows "jlist C' l (js @ js2)"
  using assms(1,3,5,6,7)
proof (induction js arbitrary: l)
  case (Cons j js)
  have l2: "l2 \<in> set js2" "l2 \<noteq> NO_JUMP" using assms(2,4) by (cases js2; auto simp: NO_JUMP_def)+
  have C2: "jlist C' l2 js2"
  proof (subst jlist_cong [where C = C])
    show "length C = length C'" using Cons.prems by simp
    fix k assume k: "k \<in> set js2"
    have "last (j # js) \<in> set (j # js)" by simp
    then have "k \<noteq> last (j # js)" using k Cons.prems(3) by blast
    moreover have "0 \<le> k" "0 \<le> last (j # js)"
      using jlist_bounds [OF assms(2) k] jlist_bounds [OF Cons.prems(1), of "last (j # js)"] by auto
    ultimately show "GETARG_sBx (C' ! nat k) = GETARG_sBx (C ! nat k)"
      using Cons.prems(4) by (simp add: nat_eq_iff nth_list_update)
  qed (rule assms(2))
  show ?case
  proof (cases js)
    case Nil
    then have "jump_next C' j = l2"
      using Cons.prems l2 by (auto simp: jump_next_def Let_def NO_JUMP_def)
    then show ?thesis using Nil Cons.prems C2 by auto
  next
    case (Cons k ks)
    have "j \<noteq> last js" using jlist_distinct [OF Cons.prems(1)] Cons last_in_set [of js] by (metis distinct.simps(2) list.distinct(1))
    moreover have "0 \<le> j" "0 \<le> last js"
      using jlist_bounds [OF Cons.prems(1), of j] jlist_bounds [OF Cons.prems(1), of "last js"] Cons by auto
    ultimately have "jump_next C' j = jump_next C j"
      using Cons.prems(4) Cons by (simp add: jump_next_def nat_eq_iff nth_list_update)
    then show ?thesis using Cons.IH Cons.prems Cons by auto
  qed
qed simp

text \<open>The error a syntax error is.\<close>

definition syntax_error :: "LexState \<Rightarrow> c_string \<Rightarrow> lua_error" where
  "syntax_error ls msg = (case (luaX_syntaxerror ls msg :: unit result) of Inl e \<Rightarrow> e | Inr _ \<Rightarrow> NoFuel)"

lemma luaX_syntaxerror_Inl: "luaX_syntaxerror ls msg = Inl (syntax_error ls msg)"
  by (auto simp: syntax_error_def luaX_syntaxerror_def luaX_lexerror_def Let_def bind_result_def split: sum.split)

lemma luaK_concat_list:
  assumes "jlist (fs_code fs) l1 js1" and "jlist (fs_code fs) l2 js2" and "set js1 \<inter> set js2 = {}"
  shows "case luaK_concat fs l1 l2 of
      Inr (l, fs') \<Rightarrow> jlist (fs_code fs') l (js1 @ js2) \<and> fs' = fs\<lparr>fs_code := fs_code fs'\<rparr>
        \<and> length (fs_code fs') = length (fs_code fs)
        \<and> (\<forall>i. (js1 = [] \<or> i \<noteq> nat (last js1)) \<longrightarrow> fs_code fs' ! i = fs_code fs ! i)
    | Inl e \<Rightarrow> js1 \<noteq> [] \<and> js2 \<noteq> [] \<and> \<bar>l2 - (last js1 + 1)\<bar> > MAXARG_sBx
        \<and> e = syntax_error (fs_ls fs) ''control structure too long''"
proof (cases "js1 = [] \<or> js2 = []")
  case True
  then show ?thesis using assms by (cases js1; cases js2) (auto simp: luaK_concat_def)
next
  case False
  let ?j = "last js1"
  have ne: "l1 \<noteq> NO_JUMP" "l2 \<noteq> NO_JUMP" using False assms by (cases js1; cases js2; auto simp: NO_JUMP_def)+
  have j: "0 \<le> ?j" "?j < int (length (fs_code fs))" using jlist_bounds [OF assms(1), of ?j] False by auto
  have run: "luaK_concat fs l1 l2 = bind_result (fixjump fs ?j l2) (\<lambda>fs. Inr (l1, fs))"
    using ne last_jump_last [OF assms(1) _ jlist_length [OF assms(1)]] False by (simp add: luaK_concat_def)
  show ?thesis
  proof (cases "\<bar>l2 - (?j + 1)\<bar> > MAXARG_sBx")
    case True
    then show ?thesis using False j by (simp add: run fixjump_cases luaX_syntaxerror_Inl)
  next
    case short: False
    let ?C = "(fs_code fs)[nat ?j := SETARG_sBx (fs_code fs ! nat ?j) (l2 - (?j + 1))]"
    have "jlist ?C l1 (js1 @ js2)"
      using jlist_append [OF assms(1,2) _ _ assms(3) refl] False short by simp
    then show ?thesis using j short False by (simp add: run fixjump_cases)
  qed
qed

section \<open>Patching a list\<close>

text \<open>
  The jumps of a list, and for each an instruction before it, or none. A raw count after an
  extended \<open>OP_SETLIST\<close> is no instruction: \<open>getjumpcontrol\<close> would read the table of modes with it.
\<close>

definition jumps_ok :: "Instruction list \<Rightarrow> int list \<Rightarrow> bool" where
  "jumps_ok C js \<longleftrightarrow> (\<forall>j \<in> set js. GET_OPCODE (C ! nat j) = op_num OP_JMP
     \<and> (1 \<le> j \<longrightarrow> opcode_of (GET_OPCODE (C ! nat (j - 1))) \<noteq> None))"

definition tests_set :: "Instruction list \<Rightarrow> int \<Rightarrow> bool" where
  "tests_set C j \<longleftrightarrow> 1 \<le> j \<and> GET_OPCODE (C ! nat (j - 1)) = op_num OP_TESTSET"

definition retest :: "int \<Rightarrow> Instruction \<Rightarrow> Instruction" where
  "retest reg i =
     (if reg \<noteq> NO_REG \<and> reg \<noteq> GETARG_B i then SETARG_A i reg
      else CREATE_ABC (op_num OP_TEST) (GETARG_B i) 0 (GETARG_C i))"

definition patch_code :: "Instruction list \<Rightarrow> int list \<Rightarrow> int \<Rightarrow> int \<Rightarrow> int \<Rightarrow> Instruction list" where
  "patch_code C js vtarget reg dtarget =
     map (\<lambda>i. if int i \<in> set js
              then SETARG_sBx (C ! i) ((if tests_set C (int i) then vtarget else dtarget) - (int i + 1))
              else if int i + 1 \<in> set js \<and> GET_OPCODE (C ! i) = op_num OP_TESTSET then retest reg (C ! i)
              else C ! i) [0..<length C]"

lemma length_patch_code [simp]: "length (patch_code C js vt reg dt) = length C"
  by (simp add: patch_code_def)

lemma patch_code_nth:
  "i < length C \<Longrightarrow> patch_code C js vt reg dt ! i =
     (if int i \<in> set js then SETARG_sBx (C ! i) ((if tests_set C (int i) then vt else dt) - (int i + 1))
      else if int i + 1 \<in> set js \<and> GET_OPCODE (C ! i) = op_num OP_TESTSET then retest reg (C ! i) else C ! i)"
  by (simp add: patch_code_def)

lemma patch_code_Nil [simp]: "patch_code C [] vt reg dt = C"
  by (rule nth_equalityI) (simp_all add: patch_code_nth)

lemma op_num_diff [simp]:
  "op_num OP_JMP \<noteq> op_num OP_TESTSET" "op_num OP_TEST \<noteq> op_num OP_TESTSET" "op_num OP_JMP \<noteq> op_num OP_LOADNIL"
  by simp_all

lemma is_test_TESTSET: "GET_OPCODE i = op_num OP_TESTSET \<Longrightarrow> is_test i = Inr True"
  by (simp add: is_test_def del: op_num.simps)

lemma create_opcode: "0 \<le> x \<Longrightarrow> x < 64 \<Longrightarrow> GET_OPCODE (CREATE_ABC x y z w) = x"
proof -
  have "get_field 0 6 (push_bit q u :: Instruction) = 0" if "6 \<le> q" for q u
    using that by (intro bit_word_eqI) (auto simp: field_simps_lua bit_simps)
  then show "0 \<le> x \<Longrightarrow> x < 64 \<Longrightarrow> GET_OPCODE (CREATE_ABC x y z w) = x"
    using get_field_push_same [of 0 6 "word_of_int x :: Instruction"]
    by (simp add: GET_OPCODE_field CREATE_ABC_def size_defs get_field_or uint_word_of_int_mask)
qed

lemma retest_opcode: "GET_OPCODE (retest reg i) \<in> {GET_OPCODE i, op_num OP_TEST}"
proof -
  have "GET_OPCODE (CREATE_ABC (op_num OP_TEST) (GETARG_B i) 0 (GETARG_C i)) = op_num OP_TEST"
    by (rule create_opcode) simp_all
  then show ?thesis by (simp add: retest_def del: op_num.simps)
qed

lemma patchtestreg_cases:
  assumes "jumps_ok C js" and "j \<in> set js" and "0 \<le> j" and "j < int (length C)" and "fs_code fs = C"
  shows "patchtestreg fs j reg = Inr (tests_set C j,
     fs\<lparr>fs_code := if tests_set C j then C[nat (j - 1) := retest reg (C ! nat (j - 1))] else C\<rparr>)"
proof (cases "1 \<le> j")
  case True
  let ?w = "C ! nat (j - 1)"
  obtain m where m: "opcode_of (GET_OPCODE ?w) = Some m" using assms True by (auto simp: jumps_ok_def)
  have pre: "code_get fs (j - 1) = Inr ?w" using True assms by (simp add: code_get_def)
  have here: "code_get fs j = Inr (C ! nat j)" "GET_OPCODE (C ! nat j) = op_num OP_JMP"
    using assms by (auto simp: code_get_def jumps_ok_def)
  have ctl: "getjumpcontrol fs j = Inr (if testTMode m then j - 1 else j)"
    using True pre m by (simp add: getjumpcontrol_def is_test_def)
  show ?thesis
  proof (cases "GET_OPCODE ?w = op_num OP_TESTSET")
    case t: True
    then have "testTMode m" using is_test_TESTSET [OF t] m by (simp add: is_test_def)
    then have "getjumpcontrol fs j = Inr (j - 1)" by (simp add: ctl)
    moreover have "code_put fs (j - 1) w = Inr (fs\<lparr>fs_code := C[nat (j - 1) := w]\<rparr>)" for w
      using True assms(4,5) by (simp add: code_put_def)
    ultimately show ?thesis using True t pre
      by (simp add: patchtestreg_def tests_set_def retest_def del: op_num.simps)
  next
    case False
    then have "patchtestreg fs j reg = Inr (False, fs)"
      using ctl pre here by (simp add: patchtestreg_def op_num_diff del: op_num.simps)
    then show ?thesis using False assms(5) by (simp add: tests_set_def)
  qed
next
  case False
  have "code_get fs j = Inr (C ! nat j)" "GET_OPCODE (C ! nat j) = op_num OP_JMP"
    using assms by (auto simp: code_get_def jumps_ok_def)
  then have "patchtestreg fs j reg = Inr (False, fs)"
    using False by (simp add: patchtestreg_def getjumpcontrol_def op_num_diff del: op_num.simps)
  then show ?thesis using False assms(5) by (simp add: tests_set_def)
qed

lemma patch_step:
  fixes vt reg dt :: int
  assumes "jumps_ok C (j # js)" and "j \<notin> set js" and "0 \<le> j" and "\<forall>k \<in> set js. 0 \<le> k \<and> k < int (length C)"
  defines "C' \<equiv> patch_code C [j] vt reg dt"
  shows "jumps_ok C' js" and "k \<in> set js \<Longrightarrow> tests_set C' k = tests_set C k"
    and "patch_code C' js vt reg dt = patch_code C (j # js) vt reg dt"
    and "k \<in> set js \<Longrightarrow> GETARG_sBx (C' ! nat k) = GETARG_sBx (C ! nat k)"
proof -
  have op: "GET_OPCODE (C' ! i) = GET_OPCODE (C ! i)
      \<or> (int i + 1 = j \<and> GET_OPCODE (C ! i) = op_num OP_TESTSET \<and> GET_OPCODE (C' ! i) \<in> {op_num OP_TESTSET, op_num OP_TEST})"
    if "i < length C" for i
    using that retest_opcode [of reg "C ! i"] by (auto simp: C'_def patch_code_nth simp del: op_num.simps)
  have jmp: "GET_OPCODE (C ! nat k) = op_num OP_JMP" if "k \<in> set (j # js)" for k
    using assms(1) that by (auto simp: jumps_ok_def)
  have same: "C' ! nat k = C ! nat k" if "k \<in> set js" for k
    using that assms(2-4) jmp [of k] by (auto simp: C'_def patch_code_nth op_num_diff simp del: op_num.simps)
  show "k \<in> set js \<Longrightarrow> GETARG_sBx (C' ! nat k) = GETARG_sBx (C ! nat k)" by (simp add: same)
  have before: "opcode_of (GET_OPCODE (C' ! nat (k - 1))) \<noteq> None" if "k \<in> set js" "1 \<le> k" for k
  proof -
    have "opcode_of (GET_OPCODE (C ! nat (k - 1))) \<noteq> None" using assms(1) that by (auto simp: jumps_ok_def)
    moreover have "nat (k - 1) < length C" using assms(4) that by auto
    ultimately show ?thesis using op [of "nat (k - 1)"] by (auto simp del: op_num.simps)
  qed
  show "jumps_ok C' js" using before jmp by (simp add: jumps_ok_def same)
  show tests: "tests_set C' k = tests_set C k" if k: "k \<in> set js" for k
  proof (cases "1 \<le> k")
    case True
    then have "nat (k - 1) < length C" "int (nat (k - 1)) + 1 \<noteq> j" using assms(2,4) k by auto
    then have "GET_OPCODE (C' ! nat (k - 1)) = GET_OPCODE (C ! nat (k - 1))" using op [of "nat (k - 1)"] by simp
    then show ?thesis by (simp add: tests_set_def)
  qed (simp add: tests_set_def)
  show "patch_code C' js vt reg dt = patch_code C (j # js) vt reg dt"
  proof (rule nth_equalityI)
    fix i assume "i < length (patch_code C' js vt reg dt)"
    then have i: "i < length C" "i < length C'" by (simp_all add: C'_def)
    consider (list) "int i \<in> set js" | (jump) "int i = j" | (other) "int i \<notin> set js" "int i \<noteq> j" by blast
    then show "patch_code C' js vt reg dt ! i = patch_code C (j # js) vt reg dt ! i"
    proof cases
      case list
      then show ?thesis using i same [of "int i"] tests [of "int i"] by (simp add: patch_code_nth)
    next
      case jump
      then have "GET_OPCODE (C' ! i) = op_num OP_JMP" using jmp [of j] op [OF i(1)] by auto
      then show ?thesis using jump assms(2) i by (auto simp: patch_code_nth C'_def op_num_diff simp del: op_num.simps)
    next
      case other
      show ?thesis
      proof (cases "int i + 1 = j")
        case True
        then show ?thesis using other i assms(2) by (auto simp: patch_code_nth C'_def)
      next
        case False
        then have "C' ! i = C ! i" using other i by (simp add: C'_def patch_code_nth)
        then show ?thesis using other i False by (auto simp: patch_code_nth)
      qed
    qed
  qed (simp add: C'_def)
qed

lemma patchlist_loop_patches:
  assumes "jlist (fs_code fs) l js" and "jumps_ok (fs_code fs) js" and "length js \<le> n"
  shows "patchlist_loop n fs l vt reg dt =
    (if \<exists>j \<in> set js. \<bar>(if tests_set (fs_code fs) j then vt else dt) - (j + 1)\<bar> > MAXARG_sBx
     then Inl (syntax_error (fs_ls fs) ''control structure too long'')
     else Inr (fs\<lparr>fs_code := patch_code (fs_code fs) js vt reg dt\<rparr>))"
  using assms
proof (induction js arbitrary: fs l n)
  case Nil
  then show ?case by (subst patchlist_loop.simps) simp
next
  case (Cons j js)
  let ?C = "fs_code fs"
  let ?C' = "patch_code ?C [j] vt reg dt"
  let ?to = "if tests_set ?C j then vt else dt"
  obtain m where n: "n = Suc m" using Cons.prems(3) by (cases n) auto
  have j: "0 \<le> j" "j < int (length ?C)" "l = j" "l \<noteq> NO_JUMP" "jlist ?C (jump_next ?C j) js"
    using Cons.prems(1) by (auto simp: NO_JUMP_def)
  have dist: "j \<notin> set js" using jlist_distinct [OF Cons.prems(1)] by simp
  have inside: "\<forall>k \<in> set js. 0 \<le> k \<and> k < int (length ?C)" using jlist_bounds [OF j(5)] by blast
  note step = patch_step [OF Cons.prems(2) dist j(1) inside, where vt = vt and reg = reg and dt = dt]
  let ?R = "if tests_set ?C j then ?C[nat (j - 1) := retest reg (?C ! nat (j - 1))] else ?C"
  have reach: "getjump fs j = Inr (jump_next ?C j)" by (rule getjump_next [OF j(1,2)])
  have test: "patchtestreg fs j reg = Inr (tests_set ?C j, fs\<lparr>fs_code := ?R\<rparr>)"
    by (rule patchtestreg_cases [OF Cons.prems(2) _ j(1,2) refl]) simp
  have keep: "?R ! nat j = ?C ! nat j" using j(1) by (auto simp: tests_set_def nth_list_update nat_eq_iff)
  have fixed: "fixjump (fs\<lparr>fs_code := ?R\<rparr>) j ?to =
      (if \<bar>?to - (j + 1)\<bar> > MAXARG_sBx then Inl (syntax_error (fs_ls fs) ''control structure too long'')
       else Inr (fs\<lparr>fs_code := ?C'\<rparr>))"
  proof -
    have "?R[nat j := SETARG_sBx (?C ! nat j) (?to - (j + 1))] = ?C'"
    proof (rule nth_equalityI)
      fix i assume "i < length (?R[nat j := SETARG_sBx (?C ! nat j) (?to - (j + 1))])"
      then have i: "i < length ?C" by (simp split: if_splits)
      have eq: "i = nat j \<longleftrightarrow> int i = j" "nat (j - 1) = i \<longleftrightarrow> (if 1 \<le> j then int i + 1 = j else i = 0)" using j(1) by auto
      show "?R[nat j := SETARG_sBx (?C ! nat j) (?to - (j + 1))] ! i = ?C' ! i"
        using i j(1,2) eq by (auto simp: patch_code_nth nth_list_update tests_set_def)
    qed simp
    then show ?thesis
      using fixjump_cases [of j "fs\<lparr>fs_code := ?R\<rparr>" ?to] j(1,2) keep by (simp add: luaX_syntaxerror_Inl)
  qed
  have run: "patchlist_loop n fs l vt reg dt =
      bind_result (fixjump (fs\<lparr>fs_code := ?R\<rparr>) j ?to) (\<lambda>fs. patchlist_loop m fs (jump_next ?C j) vt reg dt)"
    unfolding n j(3) using j(3,4) reach test by (subst patchlist_loop.simps) (simp del: patchlist_loop.simps)
  show ?case
  proof (cases "\<bar>?to - (j + 1)\<bar> > MAXARG_sBx")
    case True
    then show ?thesis unfolding run fixed by simp
  next
    case False
    have "jlist ?C' (jump_next ?C j) js" using jlist_cong [where C = ?C and C' = ?C' and js = js, OF _ step(4)] j(5) by simp
    moreover have "length js \<le> m" using Cons.prems(3) n by simp
    ultimately have "patchlist_loop m (fs\<lparr>fs_code := ?C'\<rparr>) (jump_next ?C j) vt reg dt =
      (if \<exists>k \<in> set js. \<bar>(if tests_set ?C' k then vt else dt) - (k + 1)\<bar> > MAXARG_sBx
       then Inl (syntax_error (fs_ls fs) ''control structure too long'')
       else Inr (fs\<lparr>fs_code := patch_code ?C' js vt reg dt\<rparr>))"
      using Cons.IH [of "fs\<lparr>fs_code := ?C'\<rparr>" "jump_next ?C j" m] step(1) by simp
    then show ?thesis unfolding run fixed using False step(2,3) by simp
  qed
qed

section \<open>Emitting an instruction\<close>

text \<open>Where a jump goes, as the interpreter computes it.\<close>

definition jump_target :: "Instruction list \<Rightarrow> int \<Rightarrow> int" where
  "jump_target C j = j + 1 + GETARG_sBx (C ! nat j)"

lemma patch_code_target:
  assumes "j \<in> set js" and "0 \<le> j" and "j < int (length C)" and "\<bar>(if tests_set C j then vt else dt) - (j + 1)\<bar> \<le> MAXARG_sBx"
  shows "jump_target (patch_code C js vt reg dt) j = (if tests_set C j then vt else dt)"
  using assms by (simp add: jump_target_def patch_code_nth)

lemma growvector_cases:
  assumes "luaM_growvector d v n limit e = Inr v'" and "0 \<le> n" and "n \<le> int (length v)" and "1 \<le> limit"
  shows "n < int (length v') \<and> (\<exists>xs. v' = v @ xs)"
  using assms by (auto simp: luaM_growvector_def luaM_growaux_def MINSIZEARRAY_def Let_def split: if_splits)

lemma growvector_safe: "safe (luaM_growvector d v n limit e)"
  by (auto simp: luaM_growvector_def luaM_growaux_def Let_def intro!: safe_bind)

lemma syntax_error_legal_iff: "legal (syntax_error ls m) \<longleftrightarrow> safe (luaX_syntaxerror ls m :: unit result)"
  by (simp add: luaX_syntaxerror_Inl)

definition arrays_ok :: "FuncState \<Rightarrow> bool" where
  "arrays_ok fs \<longleftrightarrow> 0 \<le> fs_pc fs \<and> fs_pc fs \<le> int (length (fs_code fs)) \<and> fs_pc fs \<le> int (length (fs_lineinfo fs))"

lemma luaK_code_emits:
  assumes "arrays_ok fs" and "jlist (fs_code fs) (fs_jpc fs) js" and "jumps_ok (fs_code fs) js"
    and "\<forall>j \<in> set js. j < fs_pc fs" and "luaK_code fs i line = Inr (pc, fs')"
  shows "pc = fs_pc fs" and "fs_pc fs' = pc + 1" and "fs_jpc fs' = NO_JUMP" and "arrays_ok fs'"
    and "fs_code fs' ! nat pc = i" and "fs_lineinfo fs' ! nat pc = line"
    and "k < nat pc \<Longrightarrow> fs_code fs' ! k = patch_code (fs_code fs) js pc NO_REG pc ! k"
    and "\<forall>j \<in> set js. \<bar>pc - (j + 1)\<bar> \<le> MAXARG_sBx"
    and "fs' = fs\<lparr>fs_code := fs_code fs', fs_lineinfo := fs_lineinfo fs', fs_pc := pc + 1, fs_jpc := NO_JUMP\<rparr>"
proof -
  let ?pc = "fs_pc fs"
  let ?C = "patch_code (fs_code fs) js ?pc NO_REG ?pc"
  have patch: "patchlistaux fs (fs_jpc fs) ?pc NO_REG ?pc =
    (if \<exists>j \<in> set js. \<bar>?pc - (j + 1)\<bar> > MAXARG_sBx then Inl (syntax_error (fs_ls fs) ''control structure too long'')
     else Inr (fs\<lparr>fs_code := ?C\<rparr>))"
    using patchlist_loop_patches [OF assms(2,3) jlist_length [OF assms(2)], of ?pc NO_REG ?pc]
    by (simp add: patchlistaux_def cong: if_cong)
  have near: "\<forall>j \<in> set js. \<bar>?pc - (j + 1)\<bar> \<le> MAXARG_sBx"
  proof (rule ccontr)
    assume "\<not> ?thesis"
    then have "\<exists>j \<in> set js. \<bar>?pc - (j + 1)\<bar> > MAXARG_sBx" by (meson not_le)
    then show False using assms(5) patch by (simp add: luaK_code_def dischargejpc_def)
  qed
  then have "\<not> (\<exists>j \<in> set js. \<bar>?pc - (j + 1)\<bar> > MAXARG_sBx)" by auto
  then have dis: "dischargejpc fs = Inr (fs\<lparr>fs_code := ?C, fs_jpc := NO_JUMP\<rparr>)" by (simp add: dischargejpc_def patch)
  let ?fs = "fs\<lparr>fs_code := ?C, fs_jpc := NO_JUMP\<rparr>"
  obtain code fa lines fb where code: "luaM_growvector 0 ?C ?pc MAX_INT ''code size overflow'' = Inr code"
    and fa: "code_put (?fs\<lparr>fs_code := code\<rparr>) ?pc i = Inr fa"
    and lines: "luaM_growvector 0 (fs_lineinfo fa) ?pc MAX_INT ''code size overflow'' = Inr lines"
    and fb: "line_put (fa\<lparr>fs_lineinfo := lines\<rparr>) ?pc line = Inr fb" "pc = ?pc" "fs' = fb\<lparr>fs_pc := ?pc + 1\<rparr>"
    using assms(5) unfolding luaK_code_def dis Let_def by (auto simp: bind_result_eq_Inr)
  have fa': "fa = fs\<lparr>fs_code := code[nat ?pc := i], fs_jpc := NO_JUMP\<rparr>"
    using fa by (auto simp: code_put_def split: if_splits)
  have fb': "fb = fs\<lparr>fs_code := code[nat ?pc := i], fs_lineinfo := lines[nat ?pc := line], fs_jpc := NO_JUMP\<rparr>"
    using fb(1) by (auto simp: line_put_def fa' split: if_splits)
  have big: "(1::int) \<le> MAX_INT" by (simp add: MAX_INT_def INT_MAX_def)
  obtain xs where xs: "?pc < int (length code)" "code = ?C @ xs"
    using growvector_cases [OF code _ _ big] assms(1) by (auto simp: arrays_ok_def)
  obtain ys where ys: "?pc < int (length lines)" "lines = fs_lineinfo fs @ ys"
    using growvector_cases [OF lines _ _ big] assms(1) by (auto simp: arrays_ok_def fa')
  have pc0: "0 \<le> ?pc" using assms(1) by (simp add: arrays_ok_def)
  have res: "pc = ?pc" "fs' = fs\<lparr>fs_code := code[nat ?pc := i], fs_lineinfo := lines[nat ?pc := line], fs_pc := ?pc + 1, fs_jpc := NO_JUMP\<rparr>"
    using fb(2,3) fb' by simp_all
  show "pc = ?pc" by (rule res)
  show "fs_pc fs' = pc + 1" "fs_jpc fs' = NO_JUMP" "\<forall>j \<in> set js. \<bar>pc - (j + 1)\<bar> \<le> MAXARG_sBx"
    using res near by simp_all
  show "fs' = fs\<lparr>fs_code := fs_code fs', fs_lineinfo := fs_lineinfo fs', fs_pc := pc + 1, fs_jpc := NO_JUMP\<rparr>"
    using res by simp
  show "arrays_ok fs'" "fs_code fs' ! nat pc = i" "fs_lineinfo fs' ! nat pc = line"
    using res pc0 xs(1) ys(1) by (auto simp: arrays_ok_def nat_less_iff)
  have "nat ?pc \<le> length (fs_code fs)" using assms(1) by (simp add: arrays_ok_def nat_le_iff)
  then show "k < nat pc \<Longrightarrow> fs_code fs' ! k = patch_code (fs_code fs) js pc NO_REG pc ! k"
    using res xs(2) by (simp add: nth_append)
qed

lemma concat_jumps_ok:
  assumes "jlist (fs_code fs) l1 js1" and "jlist (fs_code fs) l2 js2" and "set js1 \<inter> set js2 = {}"
    and "jumps_ok (fs_code fs) (js1 @ js2)" and "luaK_concat fs l1 l2 = Inr (l, fs')"
  shows "jlist (fs_code fs') l (js1 @ js2)" and "jumps_ok (fs_code fs') (js1 @ js2)"
    and "fs' = fs\<lparr>fs_code := fs_code fs'\<rparr>" and "length (fs_code fs') = length (fs_code fs)"
    and "int k \<notin> set js1 \<Longrightarrow> fs_code fs' ! k = fs_code fs ! k"
    and "GET_OPCODE (fs_code fs' ! k) = GET_OPCODE (fs_code fs ! k)"
proof -
  consider (same) "js1 = [] \<or> js2 = []" | (link) "js1 \<noteq> []" "js2 \<noteq> []" by blast
  then have "fs' = fs \<or> (js1 \<noteq> [] \<and> (\<exists>d. fs' = fs\<lparr>fs_code := (fs_code fs)[nat (last js1) := SETARG_sBx (fs_code fs ! nat (last js1)) d]\<rparr>))"
  proof cases
    case same
    then show ?thesis using assms(1,2,5) by (cases js1; cases js2) (auto simp: luaK_concat_def split: if_splits)
  next
    case link
    then have "l1 \<noteq> NO_JUMP" "l2 \<noteq> NO_JUMP" using assms by (cases js1; cases js2; auto simp: NO_JUMP_def)+
    then have "bind_result (fixjump fs (last js1) l2) (\<lambda>fs. Inr (l1, fs)) = Inr (l, fs')"
      using assms(5) last_jump_last [OF assms(1) link(1) jlist_length [OF assms(1)]] by (simp add: luaK_concat_def)
    moreover have "0 \<le> last js1" "last js1 < int (length (fs_code fs))"
      using jlist_bounds [OF assms(1), of "last js1"] link(1) by auto
    ultimately show ?thesis using link(1) by (auto simp: fixjump_cases luaX_syntaxerror_Inl split: if_splits)
  qed
  then have "length (fs_code fs') = length (fs_code fs)
    \<and> (\<forall>k. GET_OPCODE (fs_code fs' ! k) = GET_OPCODE (fs_code fs ! k))
    \<and> (\<forall>k. int k \<notin> set js1 \<longrightarrow> fs_code fs' ! k = fs_code fs ! k)"
  proof
    assume a: "js1 \<noteq> [] \<and> (\<exists>d. fs' = fs\<lparr>fs_code := (fs_code fs)[nat (last js1) := SETARG_sBx (fs_code fs ! nat (last js1)) d]\<rparr>)"
    then have l: "last js1 \<in> set js1" "0 \<le> last js1" "last js1 < int (length (fs_code fs))"
      using jlist_bounds [OF assms(1), of "last js1"] by auto
    then show ?thesis using a by (auto simp: nth_list_update nat_less_iff)
  qed simp
  then have shape: "length (fs_code fs') = length (fs_code fs)"
    "\<And>k. GET_OPCODE (fs_code fs' ! k) = GET_OPCODE (fs_code fs ! k)"
    "\<And>k. int k \<notin> set js1 \<Longrightarrow> fs_code fs' ! k = fs_code fs ! k" by blast+
  show "length (fs_code fs') = length (fs_code fs)" "GET_OPCODE (fs_code fs' ! k) = GET_OPCODE (fs_code fs ! k)"
    by (simp_all add: shape(1,2))
  show "int k \<notin> set js1 \<Longrightarrow> fs_code fs' ! k = fs_code fs ! k" by (rule shape(3))
  show "jumps_ok (fs_code fs') (js1 @ js2)" using assms(4) shape(2) by (simp add: jumps_ok_def)
  show "jlist (fs_code fs') l (js1 @ js2)" "fs' = fs\<lparr>fs_code := fs_code fs'\<rparr>"
    using luaK_concat_list [OF assms(1-3)] assms(5) by auto
qed

section \<open>Constants\<close>

text \<open>
  The key under which a constant is found: the constant itself, and the table of constants, whose
  address \<open>h\<close> is, for nil.
\<close>

definition names :: "ptr \<Rightarrow> TValue \<Rightarrow> TValue \<Rightarrow> bool" where
  "names h k v \<longleftrightarrow> (if k = TGC (GTable h) then v = TNil else luaO_rawequalObj k v)"

definition consts_ok :: "FuncState \<Rightarrow> bool" where
  "consts_ok fs \<longleftrightarrow> table_inv (fs_h (fs_ls fs)) \<and> 0 \<le> fs_nk fs \<and> fs_nk fs \<le> int (length (fs_k fs))
     \<and> int (length (fs_k fs)) \<le> MAXARG_Bx
     \<and> (\<forall>k n. intact k \<longrightarrow> tget (fs_h (fs_ls fs)) k = TNumber n \<longrightarrow>
          (\<exists>i. 0 \<le> i \<and> i < fs_nk fs \<and> n = cast_num i \<and> names (fs_haddr fs) k (fs_k fs ! nat i)))"

lemma consts_okD:
  "consts_ok fs \<Longrightarrow> intact k \<Longrightarrow> tget (fs_h (fs_ls fs)) k = TNumber n \<Longrightarrow>
    \<exists>i. 0 \<le> i \<and> i < fs_nk fs \<and> n = cast_num i \<and> names (fs_haddr fs) k (fs_k fs ! nat i)"
  by (simp add: consts_ok_def)

lemma tget_equal:
  assumes "table_inv t" and "luaO_rawequalObj a b" and "intact a" and "intact b"
  shows "tget t a = tget t b"
proof -
  have ok: "table_ok t" "sizearray t \<le> INT_MAX" using assms(1) by (auto simp: table_inv_def INT_MAX_def)
  have same: "luaO_rawequalObj k a = luaO_rawequalObj k b" for k
    using rawequal_trans [of k a b] rawequal_trans [of k b a] rawequal_sym [of a b] assms(2) by blast
  note A = tget_pairs [OF ok(1) assms(3) ok(2)] and B = tget_pairs [OF ok(1) assms(4) ok(2)]
  show ?thesis
  proof (cases "\<exists>(k, v) \<in> set (pairs t). luaO_rawequalObj k a")
    case True
    then obtain k v where kv: "(k, v) \<in> set (pairs t)" "luaO_rawequalObj k a" by auto
    then have "luaO_rawequalObj k b" by (simp only: same)
    then show ?thesis using A(1) [OF kv] B(1) [OF kv(1)] by simp
  next
    case False
    then have "\<forall>(k, v) \<in> set (pairs t). \<not> luaO_rawequalObj k a" by blast
    moreover from this have "\<forall>(k, v) \<in> set (pairs t). \<not> luaO_rawequalObj k b" by (simp only: same)
    ultimately show ?thesis using A(2) B(2) by simp
  qed
qed

lemma cast_num_index:
  assumes "consts_ok fs" and "0 \<le> i" "i < fs_nk fs" and "0 \<le> j" "j < fs_nk fs" and "cast_num i = cast_num j"
  shows "i = j"
proof -
  have "fs_nk fs \<le> INT_MAX" using assms(1) by (simp add: consts_ok_def maxarg_defs size_defs INT_MAX_def)
  then have "lua_number2int (cast_num i) = i" "lua_number2int (cast_num j) = j"
    using assms(2-5) by (auto intro!: lua_number2int_cast_num simp: INT_MIN_def)
  then show ?thesis using assms(6) by metis
qed

lemma names_equal:
  assumes "luaO_rawequalObj k k'" and "names h k v"
  shows "names h k' v"
proof (cases "k' = TGC (GTable h)")
  case True
  then have "k = k'" using assms(1) by (cases k) auto
  then show ?thesis using assms(2) by simp
next
  case False
  then have "k \<noteq> TGC (GTable h)" using assms(1) by (cases k') auto
  then show ?thesis using False assms rawequal_trans [of k' k v] rawequal_sym [of k k'] by (simp add: names_def)
qed

lemma grow_consts:
  assumes "0 \<le> n" and "n \<le> int (length ks)" and "int (length ks) \<le> MAXARG_Bx"
  shows "case luaM_growvector TNil ks n MAXARG_Bx e of
      Inr ks' \<Rightarrow> n < int (length ks') \<and> int (length ks') \<le> MAXARG_Bx \<and> (\<forall>j < nat n. ks' ! j = ks ! j)
    | Inl err \<Rightarrow> err = ErrRun e \<and> n = MAXARG_Bx"
  using assms
  by (auto simp: luaM_growvector_def luaM_growaux_def MINSIZEARRAY_def Let_def nth_append maxarg_defs size_defs)

lemma addk_cases:
  assumes ok: "consts_ok fs" and k: "valid_key k" and n: "names (fs_haddr fs) k v"
    and few: "pair_count (fs_h (fs_ls fs)) < 2 ^ 26"
  shows "case addk fs k v of
      Inr (i, fs') \<Rightarrow> consts_ok fs' \<and> 0 \<le> i \<and> i < fs_nk fs' \<and> names (fs_haddr fs) k (fs_k fs' ! nat i)
        \<and> (\<forall>j < nat (fs_nk fs). fs_k fs' ! j = fs_k fs ! j)
        \<and> tget (fs_h (fs_ls fs')) k = TNumber (cast_num i)
        \<and> (if \<exists>m. tget (fs_h (fs_ls fs)) k = TNumber m
           then tget (fs_h (fs_ls fs)) k = TNumber (cast_num i) \<and> fs_nk fs' = fs_nk fs \<and> fs_k fs' = fs_k fs
           else i = fs_nk fs \<and> fs_nk fs' = fs_nk fs + 1 \<and> fs_k fs' ! nat i = v)
        \<and> pair_count (fs_h (fs_ls fs')) \<le> pair_count (fs_h (fs_ls fs)) + 1 \<and> fs_haddr fs' = fs_haddr fs
    | Inl e \<Rightarrow> e = ErrRun ''constant table overflow'' \<and> fs_nk fs = MAXARG_Bx
        \<and> (\<forall>m. tget (fs_h (fs_ls fs)) k \<noteq> TNumber m)"
proof -
  let ?h = "fs_h (fs_ls fs)"
  have inv: "table_inv ?h" and kk: "intact k" using ok k by (simp_all add: consts_ok_def valid_key_def)
  have "int (length (pairs ?h)) < 2 ^ 26" using few by (simp add: pair_count_def)
  from luaH_set_settles [OF inv k this, of 1]
  obtain s h where s: "luaH_set (grow 2) ?h k = Inr (s, h)" "slot_for ?h k s h" "\<And>v. updated ?h k v (set_slot h s v)"
    by (auto simp: numeral_2_eq_2)
  have small: "MAXARG_Bx < INT_MAX" by (simp add: maxarg_defs size_defs INT_MAX_def)
  have range: "lua_number2int (cast_num i) = i" if "0 \<le> i" "i \<le> MAXARG_Bx" for i
    using that small by (intro lua_number2int_cast_num) (auto simp: INT_MIN_def)
  show ?thesis
  proof (cases "\<exists>m. tget ?h k = TNumber m")
    case True
    then obtain i where i: "0 \<le> i" "i < fs_nk fs" "tget ?h k = TNumber (cast_num i)" "names (fs_haddr fs) k (fs_k fs ! nat i)"
      using consts_okD [OF ok kk] by blast
    then have run: "addk fs k v = Inr (i, fs\<lparr>fs_ls := (fs_ls fs)\<lparr>fs_h := h\<rparr>\<rparr>)"
      using s(1,2) range [of i] ok by (simp add: addk_def slot_for_def consts_ok_def)
    have "updated ?h k (slot_val h s) (set_slot h s (slot_val h s))" by (rule s(3))
    moreover have "set_slot h s (slot_val h s) = h" by (cases s) (simp_all add: set_slot_def slot_val_def)
    ultimately have "pair_count h \<le> pair_count ?h + 1" using updated_pair_count [OF inv k] by simp
    then show ?thesis using ok i s(2) kk unfolding run by (auto simp: consts_ok_def slot_for_def)
  next
    case False
    let ?n = "fs_nk fs"
    let ?h' = "set_slot h s (TNumber (cast_num ?n))"
    have up: "updated ?h k (TNumber (cast_num ?n)) ?h'" by (rule s(3))
    have n0: "0 \<le> ?n" "?n \<le> int (length (fs_k fs))" "int (length (fs_k fs)) \<le> MAXARG_Bx" using ok by (simp_all add: consts_ok_def)
    let ?g = "luaM_growvector TNil (fs_k fs) ?n MAXARG_Bx ''constant table overflow''"
    have run: "addk fs k v = bind_result ?g (\<lambda>ks.
        if 0 \<le> ?n \<and> ?n < int (length ks) then
          Inr (?n, fs\<lparr>fs_ls := (fs_ls fs)\<lparr>fs_h := ?h'\<rparr>, fs_k := ks[nat ?n := v], fs_nk := ?n + 1\<rparr>)
        else Inl OutOfBounds)"
      using s(1,2) False by (simp add: addk_def slot_for_def Let_def split: TValue.split)
    show ?thesis
    proof (cases ?g)
      case (Inl e)
      then show ?thesis using False grow_consts [OF n0, of "''constant table overflow''"] unfolding run by simp
    next
      case (Inr ks)
      then have ks: "?n < int (length ks)" "int (length ks) \<le> MAXARG_Bx" "\<forall>j < nat ?n. ks ! j = fs_k fs ! j"
        using grow_consts [OF n0, of "''constant table overflow''"] by simp_all
      let ?k = "ks[nat ?n := v]"
      have here: "?k ! nat ?n = v" using ks(1) n0(1) by (simp add: nat_less_iff)
      have old: "?k ! j = fs_k fs ! j" if "j < nat ?n" for j using that ks(3) by simp
      have "\<exists>i. 0 \<le> i \<and> i < ?n + 1 \<and> m = cast_num i \<and> names (fs_haddr fs) k' (?k ! nat i)"
        if "intact k'" "tget ?h' k' = TNumber m" for k' m
      proof (cases "luaO_rawequalObj k k'")
        case True
        then have "m = cast_num ?n" using up that by (simp add: updated_def)
        then show ?thesis using names_equal [OF True n] here n0(1) by (intro exI [of _ ?n]) simp
      next
        case False
        then have "tget ?h k' = TNumber m" using up that by (simp add: updated_def)
        from consts_okD [OF ok that(1) this]
        obtain i where i: "0 \<le> i" "i < ?n" "m = cast_num i" "names (fs_haddr fs) k' (fs_k fs ! nat i)" by blast
        have "?k ! nat i = fs_k fs ! nat i" by (rule old) (use i(1,2) in linarith)
        then have "names (fs_haddr fs) k' (?k ! nat i)" using i(4) by (simp only:)
        moreover have "i < ?n + 1" using i(2) by simp
        ultimately show ?thesis using i(1,3) by blast
      qed
      then have "consts_ok (fs\<lparr>fs_ls := (fs_ls fs)\<lparr>fs_h := ?h'\<rparr>, fs_k := ?k, fs_nk := ?n + 1\<rparr>)"
        using up ks n0 by (simp add: consts_ok_def updated_def)
      moreover have "tget ?h' k = TNumber (cast_num ?n)" using up kk k by (simp add: updated_def valid_key_def)
      moreover have "addk fs k v = Inr (?n, fs\<lparr>fs_ls := (fs_ls fs)\<lparr>fs_h := ?h'\<rparr>, fs_k := ?k, fs_nk := ?n + 1\<rparr>)"
        unfolding run Inr using ks(1) n0(1) by simp
      ultimately show ?thesis using False here old n n0(1) updated_pair_count [OF inv k up] by simp
    qed
  qed
qed

section \<open>Runs of nil\<close>

text \<open>The registers a \<open>LOADNIL\<close> clears.\<close>

definition nil_regs :: "Instruction \<Rightarrow> int set" where
  "nil_regs i = (if GET_OPCODE i = op_num OP_LOADNIL then {GETARG_A i..GETARG_B i} else {})"

lemma loadnil_create:
  assumes "0 \<le> a" and "a < 256" and "0 \<le> b" and "b < 512"
  shows "nil_regs (CREATE_ABC (op_num OP_LOADNIL) a b 0) = {a..b}"
  using assms get_field_create [of "op_num OP_LOADNIL" a b 0] by (simp add: nil_regs_def)

lemma loadnil_extend:
  assumes "GET_OPCODE i = op_num OP_LOADNIL" and "0 \<le> b" and "b < 512"
  shows "nil_regs (SETARG_B i b) = {GETARG_A i..b}"
proof -
  have "GETARG_B (SETARG_B i b) = b"
    using get_put_same [of 23 9 i "word_of_int b"] assms(2,3) by (simp add: get_fields set_fields uint_word_of_int_mask)
  moreover have "GET_OPCODE (SETARG_B i b) = GET_OPCODE i" "GETARG_A (SETARG_B i b) = GETARG_A i"
    by (simp_all add: get_fields set_fields get_put_other)
  ultimately show ?thesis using assms(1) by (simp add: nil_regs_def)
qed

section \<open>Properties\<close>

text \<open>A function whose code is a test and the jump it controls, for the examples.\<close>

definition sample_lex :: LexState where
  "sample_lex = \<lparr>current = EOZ, linenumber = 1, lastline = 1, lex_t = \<lparr>token = TK_EOS, seminfo = SNone\<rparr>,
     lookahead = \<lparr>token = TK_EOS, seminfo = SNone\<rparr>, lex_z = \<lparr>zn = 0, zp = [], zdata = []\<rparr>, lex_buff = [],
     lex_buffsize = 0, lex_source = ''=f'', decpoint = CHR ''.'', locale_point = CHR ''.'',
     fs_h = \<lparr>flags = 0, lsizenode = 0, metatable = None, t_array = [], t_node = [dummynode], is_dummy = True, lastfree = 0\<rparr>\<rparr>"

definition sample_fs :: FuncState where
  "sample_fs = \<lparr>fs_code = [CREATE_ABC (op_num OP_TESTSET) NO_REG 0 1, CREATE_ABx (op_num OP_JMP) 0 (NO_JUMP + MAXARG_sBx)],
     fs_lineinfo = [1, 1], fs_k = [], fs_maxstacksize = 2, fs_haddr = 0, fs_ls = sample_lex, fs_pc = 2, fs_lasttarget = - 1,
     fs_jpc = NO_JUMP, fs_freereg = 1, fs_nk = 0, fs_nactvar = 1\<rparr>"

text \<open>
  Claim \<open>C32\<close>: \<open>patchlistaux\<close> ends on every list of pending jumps. Each jump that a \<open>TESTSET\<close>
  controls goes to the value target, every other one to the default target; the \<open>TESTSET\<close>s get
  the register, or become \<open>TEST\<close>s; nothing else changes. It fails only where a jump is too long.
\<close>

theorem patchlistaux_patches:
  assumes "jlist (fs_code fs) l js" and "jumps_ok (fs_code fs) js"
  shows "patchlistaux fs l vt reg dt =
    (if \<exists>j \<in> set js. \<bar>(if tests_set (fs_code fs) j then vt else dt) - (j + 1)\<bar> > MAXARG_sBx
     then Inl (syntax_error (fs_ls fs) ''control structure too long'')
     else Inr (fs\<lparr>fs_code := patch_code (fs_code fs) js vt reg dt\<rparr>))"
  unfolding patchlistaux_def by (rule patchlist_loop_patches [OF assms jlist_length [OF assms(1)]])

lemma patchlistaux_patches_witness:
  "\<exists>C. patchlistaux sample_fs 1 5 3 7 = Inr (sample_fs\<lparr>fs_code := C\<rparr>) \<and> GETARG_A (C ! 0) = 3 \<and> jump_target C 1 = 5"
proof -
  have ok: "jlist (fs_code sample_fs) 1 [1]" "jumps_ok (fs_code sample_fs) [1]"
    and near: "\<forall>j \<in> set [1]. \<bar>(if tests_set (fs_code sample_fs) j then 5 else 7) - (j + 1)\<bar> \<le> MAXARG_sBx"
    and C: "GETARG_A (patch_code (fs_code sample_fs) [1] 5 3 7 ! 0) = 3" "jump_target (patch_code (fs_code sample_fs) [1] 5 3 7) 1 = 5"
    by code_simp+
  from near have "\<not> (\<exists>j \<in> set [1]. \<bar>(if tests_set (fs_code sample_fs) j then 5 else 7) - (j + 1)\<bar> > MAXARG_sBx)"
    by (simp only: not_less bex_simps)
  then have "patchlistaux sample_fs 1 5 3 7 = Inr (sample_fs\<lparr>fs_code := patch_code (fs_code sample_fs) [1] 5 3 7\<rparr>)"
    using patchlistaux_patches [OF ok, of 5 3 7] by (simp only: if_False)
  then show ?thesis using C by blast
qed

text \<open>
  Claim \<open>C33\<close>: The jumps of a list given to \<open>luaK_patchtohere\<close>, and those already waiting, all
  go to the next instruction that is emitted; that instruction stands where \<open>luaK_code\<close> says,
  and of the code before it only those jumps and the tests that control them have changed.
\<close>

theorem patchtohere_lands:
  assumes "arrays_ok fs" and "jlist (fs_code fs) (fs_jpc fs) js0" and "jlist (fs_code fs) l js"
    and "set js0 \<inter> set js = {}" and "jumps_ok (fs_code fs) (js0 @ js)" and "\<forall>j \<in> set (js0 @ js). j < fs_pc fs"
    and "luaK_patchtohere fs l = Inr fs1" and "luaK_code fs1 i line = Inr (pc, fs2)"
  shows "pc = fs_pc fs \<and> fs_code fs2 ! nat pc = i \<and> fs_jpc fs2 = NO_JUMP \<and> arrays_ok fs2
    \<and> (\<forall>j \<in> set (js0 @ js). jump_target (fs_code fs2) j = pc)
    \<and> (\<forall>k < nat pc. int k \<notin> set (js0 @ js) \<and> (int k + 1 \<in> set (js0 @ js) \<longrightarrow> GET_OPCODE (fs_code fs ! k) \<noteq> op_num OP_TESTSET)
          \<longrightarrow> fs_code fs2 ! k = fs_code fs ! k)"
proof -
  let ?js = "js0 @ js"
  let ?fs = "fs\<lparr>fs_lasttarget := fs_pc fs\<rparr>"
  obtain j f where c: "luaK_concat ?fs (fs_jpc fs) l = Inr (j, f)" and fs1: "fs1 = f\<lparr>fs_jpc := j\<rparr>"
    using assms(7) by (auto simp: luaK_patchtohere_def luaK_getlabel_def bind_result_eq_Inr)
  have pre: "jlist (fs_code ?fs) (fs_jpc fs) js0" "jlist (fs_code ?fs) l js" "jumps_ok (fs_code ?fs) ?js"
    using assms(2,3,5) by simp_all
  note C = concat_jumps_ok [OF pre(1,2) assms(4) pre(3) c]
  obtain D where f: "f = ?fs\<lparr>fs_code := D\<rparr>" using C(3) by blast
  have ok: "arrays_ok fs1" "jlist (fs_code fs1) (fs_jpc fs1) ?js" "jumps_ok (fs_code fs1) ?js" "\<forall>j \<in> set ?js. j < fs_pc fs1"
    using assms(1,6) C(1,2,4) by (simp_all add: fs1 f arrays_ok_def)
  note E = luaK_code_emits [OF ok assms(8)]
  have pc: "pc = fs_pc fs" using E(1) by (simp add: fs1 f)
  have D: "fs_code fs1 = D" "length D = length (fs_code fs)" "nat pc \<le> length D"
    using C(4) assms(1) by (simp_all add: fs1 f pc arrays_ok_def nat_le_iff)
  have "jump_target (fs_code fs2) j = pc" if j: "j \<in> set ?js" for j
  proof -
    have b: "0 \<le> j" "j < pc" using jlist_bounds [OF ok(2) j] assms(6) j pc by auto
    then have "fs_code fs2 ! nat j = patch_code D ?js pc NO_REG pc ! nat j" using E(7) D(1) by simp
    moreover have "jump_target (patch_code D ?js pc NO_REG pc) j = pc"
    proof (rule trans [OF patch_code_target])
      show "\<bar>(if tests_set D j then pc else pc) - (j + 1)\<bar> \<le> MAXARG_sBx" using E(8) j by simp
    qed (use j b D(3) in simp_all)
    ultimately show ?thesis by (simp add: jump_target_def)
  qed
  moreover have "fs_code fs2 ! k = fs_code fs ! k"
    if k: "k < nat pc" "int k \<notin> set ?js" "int k + 1 \<in> set ?js \<longrightarrow> GET_OPCODE (fs_code fs ! k) \<noteq> op_num OP_TESTSET" for k
  proof -
    have "GET_OPCODE (D ! k) = GET_OPCODE (fs_code fs ! k)" "D ! k = fs_code fs ! k"
      using C(5,6) [of k] k(2) by (simp_all add: f)
    then show ?thesis using k D E(7) [OF k(1)] by (auto simp: patch_code_nth simp del: op_num.simps)
  qed
  ultimately show ?thesis using pc E(3-5) by blast
qed

lemma patchtohere_lands_witness:
  "\<exists>fs1 pc fs2. luaK_patchtohere sample_fs 1 = Inr fs1 \<and> luaK_code fs1 0 1 = Inr (pc, fs2) \<and> jump_target (fs_code fs2) 1 = pc"
proof -
  have start: "arrays_ok sample_fs" "jlist (fs_code sample_fs) (fs_jpc sample_fs) []" "jlist (fs_code sample_fs) 1 [1]"
    "jumps_ok (fs_code sample_fs) ([] @ [1])" "\<forall>j \<in> set ([] @ [1]). j < fs_pc sample_fs"
    by code_simp+
  obtain fs1 where 1: "luaK_patchtohere sample_fs 1 = Inr fs1" "fs1 = projr (luaK_patchtohere sample_fs 1)"
    using that by (cases "luaK_patchtohere sample_fs 1") (simp, code_simp, simp)
  have "\<not> isl (luaK_code fs1 0 1)" unfolding 1(2) by code_simp
  then obtain pc fs2 where 2: "luaK_code fs1 0 1 = Inr (pc, fs2)" by (cases "luaK_code fs1 0 1") auto
  from patchtohere_lands [OF start(1-3) _ start(4,5) 1(1) 2] show ?thesis using 1 2 by auto
qed

text \<open>
  Claim \<open>C34\<close>: \<open>addk\<close> returns the index of a constant equal to the one asked for. It keeps all
  earlier constants and adds one only when the table has none for the key; the invariant that
  ties the table to the array of constants is kept. It fails only when the array is full.
\<close>

theorem addk_pools:
  assumes "consts_ok fs" and "valid_key k" and "names (fs_haddr fs) k v" and "pair_count (fs_h (fs_ls fs)) < 2 ^ 26"
  shows "(\<exists>i fs'. addk fs k v = Inr (i, fs') \<and> consts_ok fs' \<and> 0 \<le> i \<and> i < fs_nk fs' \<and> names (fs_haddr fs) k (fs_k fs' ! nat i)
      \<and> (\<forall>j < nat (fs_nk fs). fs_k fs' ! j = fs_k fs ! j)
      \<and> fs_nk fs' = fs_nk fs + (if \<exists>m. tget (fs_h (fs_ls fs)) k = TNumber m then 0 else 1))
    \<or> (addk fs k v = Inl (ErrRun ''constant table overflow'') \<and> fs_nk fs = MAXARG_Bx)"
  using addk_cases [OF assms] by (cases "addk fs k v") (auto split: if_splits)

lemma sample_consts: "consts_ok sample_fs" "pair_count (fs_h (fs_ls sample_fs)) = 0"
proof -
  let ?h = "fs_h (fs_ls sample_fs)"
  have b: "blank ?h" "sizearray ?h = 0" by (simp_all add: blank_def sample_fs_def sample_lex_def sizearray_def)
  then have inv: "table_inv ?h" by (simp add: table_inv_def blank_ok)
  have p: "pairs ?h = []" by (simp add: pairs_def node_pairs_def sample_fs_def sample_lex_def dummynode_def)
  then show "pair_count ?h = 0" by (simp add: pair_count_def)
  have "tget ?h k = TNil" if "intact k" for k
    using pairs_complete [of ?h k] inv p b(2) that by (auto simp: table_inv_def INT_MAX_def)
  then show "consts_ok sample_fs" using inv
    by (simp add: consts_ok_def) (simp add: sample_fs_def maxarg_defs size_defs)
qed

lemma addk_pools_witness:
  "\<exists>i fs'. addk sample_fs (TBoolean 1) (TBoolean 1) = Inr (i, fs') \<and> fs_k fs' ! nat i = TBoolean 1 \<and> consts_ok fs'"
proof -
  have "valid_key (TBoolean 1)" "names (fs_haddr sample_fs) (TBoolean 1) (TBoolean 1)"
    by (simp_all add: valid_key_def intact_def names_def)
  moreover have "fs_nk sample_fs \<noteq> MAXARG_Bx" by code_simp
  ultimately obtain i fs' where r: "addk sample_fs (TBoolean 1) (TBoolean 1) = Inr (i, fs')" "consts_ok fs'"
      "names (fs_haddr sample_fs) (TBoolean 1) (fs_k fs' ! nat i)"
    using addk_pools [OF sample_consts(1), of "TBoolean 1" "TBoolean 1"] sample_consts(2) by auto
  then have "fs_k fs' ! nat i = TBoolean 1" by (cases "fs_k fs' ! nat i") (auto simp: names_def)
  then show ?thesis using r by blast
qed

text \<open>
  Claim \<open>C38\<close>: The constants 0 and -0 of a function share one entry: whichever comes first is also
  loaded for the other, although dividing by them gives infinities of opposite sign.
\<close>

theorem zeros_share_constant:
  assumes "consts_ok fs" and "pair_count (fs_h (fs_ls fs)) < 2 ^ 26 - 1" and "is_zero x" and "is_zero y"
    and "luaK_numberK fs x = Inr (i, fs1)"
  shows "\<exists>fs2. luaK_numberK fs1 y = Inr (i, fs2) \<and> fs_k fs2 = fs_k fs1"
proof -
  have key: "valid_key (TNumber z)" "names h (TNumber z) (TNumber z)" if "is_zero z" for z h
    using that is_zero_cases [OF that] by (auto simp: valid_key_def intact_def names_def luai_numeq_def; code_simp)+
  have eq: "luaO_rawequalObj (TNumber x) (TNumber y)"
    using is_zero_cases [OF assms(3)] is_zero_cases [OF assms(4)] by (auto; code_simp)
  have 1: "consts_ok fs1" "tget (fs_h (fs_ls fs1)) (TNumber x) = TNumber (cast_num i)" "0 \<le> i" "i < fs_nk fs1"
      "pair_count (fs_h (fs_ls fs1)) < 2 ^ 26"
    using addk_cases [OF assms(1) key [OF assms(3)]] assms(2,5) by (auto simp: luaK_numberK_def)
  have "tget (fs_h (fs_ls fs1)) (TNumber y) = TNumber (cast_num i)"
  proof (rule trans [OF tget_equal 1(2)])
    show "table_inv (fs_h (fs_ls fs1))" using 1(1) by (simp add: consts_ok_def)
  qed (use eq rawequal_sym in \<open>auto simp: intact_def\<close>)
  then show ?thesis
    using addk_cases [OF 1(1) key [OF assms(4)] 1(5)] cast_num_index [OF 1(1,3,4)]
    by (cases "addk fs1 (TNumber y) (TNumber y)") (auto simp: luaK_numberK_def)
qed

lemma zeros_share_constant_witness:
  "\<exists>i fs1 fs2. luaK_numberK sample_fs 0 = Inr (i, fs1) \<and> luaK_numberK fs1 0x8000000000000000 = Inr (i, fs2)
    \<and> luai_numdiv (cast_num 1) 0 \<noteq> luai_numdiv (cast_num 1) 0x8000000000000000"
proof -
  have z: "is_zero 0" "is_zero 0x8000000000000000" by code_simp+
  have "valid_key (TNumber 0)" "names (fs_haddr sample_fs) (TNumber 0) (TNumber 0)"
    by (simp_all add: valid_key_def intact_def names_def) (code_simp+)
  moreover have "fs_nk sample_fs \<noteq> MAXARG_Bx" by code_simp
  ultimately obtain i fs1 where r: "luaK_numberK sample_fs 0 = Inr (i, fs1)"
    using addk_cases [OF sample_consts(1), of "TNumber 0" "TNumber 0"] sample_consts(2)
    by (cases "addk sample_fs (TNumber 0) (TNumber 0)") (auto simp: luaK_numberK_def)
  moreover have "luai_numdiv (cast_num 1) 0 \<noteq> luai_numdiv (cast_num 1) 0x8000000000000000" by code_simp
  ultimately show ?thesis
    using zeros_share_constant [OF sample_consts(1) _ z r] sample_consts(2) by auto
qed



end
