(* ===== verification/LuaVM.thy ===== *)
theory LuaVM
  imports LuaAux LuaTable
begin

text \<open>
  \<open>ltm.c\<close> and the operations of \<open>lvm.c\<close> on values: tag methods and their cache, indexing,
  comparison, concatenation and arithmetic, with the errors of \<open>ldebug.c\<close>. The tables live in
  the global state; running a function is the argument \<open>vm_call\<close>, which may change all of it.
\<close>

section \<open>Global state\<close>

text \<open>
  \<open>g_tables\<close> are the tables by address, \<open>g_umeta\<close> the metatables of the userdata, \<open>g_mt\<close> those of
  the basic types (\<open>G(L)->mt\<close>), \<open>g_rest\<close> is everything else a function may change.
\<close>

record 'w global =
  g_tables :: "ptr \<Rightarrow> Table"
  g_umeta :: "ptr \<Rightarrow> ptr option"
  g_mt :: "int \<Rightarrow> ptr option"
  g_rest :: 'w

text \<open>
  \<open>vm_call\<close> is \<open>luaD_call\<close> with one result; \<open>vm_name\<close> is what \<open>getobjname\<close> says of the operand of
  an instruction; \<open>vm_point\<close>, \<open>vm_strcoll\<close> and \<open>vm_pow\<close> come from the C library and its locale.
\<close>

record 'w vm =
  vm_call :: "'w global \<Rightarrow> TValue \<Rightarrow> TValue list \<Rightarrow> (TValue \<times> 'w global) result"
  vm_name :: "'w global \<Rightarrow> TValue \<Rightarrow> (c_string \<times> c_string) option"
  vm_point :: char
  vm_strcoll :: "c_string \<Rightarrow> c_string \<Rightarrow> int"
  vm_pow :: "lua_Number \<Rightarrow> lua_Number \<Rightarrow> lua_Number"

definition put_table :: "'w global \<Rightarrow> ptr \<Rightarrow> Table \<Rightarrow> 'w global" where
  "put_table G p t = G\<lparr>g_tables := (g_tables G)(p := t)\<rparr>"

definition ttisfunction :: "TValue \<Rightarrow> bool" where "ttisfunction v \<longleftrightarrow> ttype v = LUA_TFUNCTION"

section \<open>Tag methods (\<open>ltm.h\<close>, \<open>ltm.c\<close>)\<close>

datatype TMS =
    TM_INDEX | TM_NEWINDEX | TM_GC | TM_MODE | TM_EQ
  | TM_ADD | TM_SUB | TM_MUL | TM_DIV | TM_MOD | TM_POW | TM_UNM | TM_LEN | TM_LT | TM_LE
  | TM_CONCAT | TM_CALL

fun tm_num :: "TMS \<Rightarrow> nat" where
  "tm_num TM_INDEX = 0"
| "tm_num TM_NEWINDEX = 1"
| "tm_num TM_GC = 2"
| "tm_num TM_MODE = 3"
| "tm_num TM_EQ = 4"
| "tm_num TM_ADD = 5"
| "tm_num TM_SUB = 6"
| "tm_num TM_MUL = 7"
| "tm_num TM_DIV = 8"
| "tm_num TM_MOD = 9"
| "tm_num TM_POW = 10"
| "tm_num TM_UNM = 11"
| "tm_num TM_LEN = 12"
| "tm_num TM_LT = 13"
| "tm_num TM_LE = 14"
| "tm_num TM_CONCAT = 15"
| "tm_num TM_CALL = 16"

definition luaT_eventname :: "c_string list" where
  "luaT_eventname =
     [''__index'', ''__newindex'', ''__gc'', ''__mode'', ''__eq'',
      ''__add'', ''__sub'', ''__mul'', ''__div'', ''__mod'',
      ''__pow'', ''__unm'', ''__len'', ''__lt'', ''__le'',
      ''__concat'', ''__call'']"

text \<open>The names that \<open>luaT_init\<close> stores in \<open>G(L)->tmname\<close>.\<close>

definition tmname :: "TMS \<Rightarrow> c_string" where "tmname e = luaT_eventname ! tm_num e"

definition luaT_gettm :: "Table \<Rightarrow> TMS \<Rightarrow> c_string \<Rightarrow> (TValue option \<times> Table) result" where
  "luaT_gettm events event ename =
     bind_result (luaH_getstr events ename) (\<lambda>s.
       let tm = slot_val events s
       in if ttisnil tm then Inr (None, events\<lparr>flags := flags events OR push_bit (tm_num event) 1\<rparr>)
          else Inr (Some tm, events))"

definition fasttm :: "'w global \<Rightarrow> ptr option \<Rightarrow> TMS \<Rightarrow> (TValue option \<times> 'w global) result" where
  "fasttm G mt e =
     (case mt of
        None \<Rightarrow> Inr (None, G)
      | Some p \<Rightarrow>
          let et = g_tables G p
          in if flags et AND push_bit (tm_num e) 1 \<noteq> 0 then Inr (None, G)
             else bind_result (luaT_gettm et e (tmname e)) (\<lambda>(tm, et). Inr (tm, put_table G p et)))"

definition luaT_gettmbyobj :: "'w global \<Rightarrow> TValue \<Rightarrow> TMS \<Rightarrow> TValue result" where
  "luaT_gettmbyobj G v event =
     (let mt = (case v of
                  TGC (GTable p) \<Rightarrow> metatable (g_tables G p)
                | TGC (GUserdata p) \<Rightarrow> g_umeta G p
                | _ \<Rightarrow> g_mt G (ttype v))
      in case mt of
           None \<Rightarrow> Inr TNil
         | Some p \<Rightarrow> bind_result (luaH_getstr (g_tables G p) (tmname event)) (\<lambda>s. Inr (slot_val (g_tables G p) s)))"

section \<open>Errors (\<open>ldebug.c\<close>)\<close>

definition type_name :: "TValue \<Rightarrow> c_string" where "type_name v = luaT_typenames ! nat (ttype v)"

definition luaG_typeerror :: "'w vm \<Rightarrow> 'w global \<Rightarrow> TValue \<Rightarrow> c_string \<Rightarrow> 'a result" where
  "luaG_typeerror H G v action =
     (case vm_name H G v of
        Some (kind, name) \<Rightarrow>
          Inl (ErrRun (''attempt to '' @ action @ '' '' @ kind @ '' '' @ LUA_QL name @ '' (a '' @ type_name v @ '' value)''))
      | None \<Rightarrow> Inl (ErrRun (''attempt to '' @ action @ '' a '' @ type_name v @ '' value'')))"

definition luaG_concaterror :: "'w vm \<Rightarrow> 'w global \<Rightarrow> TValue \<Rightarrow> TValue \<Rightarrow> 'a result" where
  "luaG_concaterror H G p1 p2 = luaG_typeerror H G (if ttisstring p1 then p2 else p1) ''concatenate''"

definition luaG_aritherror :: "'w vm \<Rightarrow> 'w global \<Rightarrow> TValue \<Rightarrow> TValue \<Rightarrow> 'a result" where
  "luaG_aritherror H G p1 p2 =
     luaG_typeerror H G (if luaV_tonumber (vm_point H) p1 = None then p1 else p2) ''perform arithmetic on''"

definition luaG_ordererror :: "TValue \<Rightarrow> TValue \<Rightarrow> 'a result" where
  "luaG_ordererror p1 p2 =
     (let t1 = type_name p1; t2 = type_name p2
      in if t1 ! 2 = t2 ! 2 then Inl (ErrRun (''attempt to compare two '' @ t1 @ '' values''))
         else Inl (ErrRun (''attempt to compare '' @ t1 @ '' with '' @ t2)))"

section \<open>Calls\<close>

definition callTMres :: "'w vm \<Rightarrow> 'w global \<Rightarrow> TValue \<Rightarrow> TValue \<Rightarrow> TValue \<Rightarrow> (TValue \<times> 'w global) result" where
  "callTMres H G f p1 p2 = vm_call H G f [p1, p2]"

definition callTM :: "'w vm \<Rightarrow> 'w global \<Rightarrow> TValue \<Rightarrow> TValue \<Rightarrow> TValue \<Rightarrow> TValue \<Rightarrow> 'w global result" where
  "callTM H G f p1 p2 p3 = bind_result (vm_call H G f [p1, p2, p3]) (\<lambda>(_, G). Inr G)"

definition call_binTM ::
    "'w vm \<Rightarrow> 'w global \<Rightarrow> TValue \<Rightarrow> TValue \<Rightarrow> TMS \<Rightarrow> (TValue \<times> 'w global) option result" where
  "call_binTM H G p1 p2 event =
     bind_result (luaT_gettmbyobj G p1 event) (\<lambda>tm.
     bind_result (if ttisnil tm then luaT_gettmbyobj G p2 event else Inr tm) (\<lambda>tm.
       if ttisnil tm then Inr None else bind_result (callTMres H G tm p1 p2) (\<lambda>r. Inr (Some r))))"

definition get_compTM ::
    "'w global \<Rightarrow> ptr option \<Rightarrow> ptr option \<Rightarrow> TMS \<Rightarrow> (TValue option \<times> 'w global) result" where
  "get_compTM G mt1 mt2 event =
     bind_result (fasttm G mt1 event) (\<lambda>(tm1, G).
       case tm1 of
         None \<Rightarrow> Inr (None, G)
       | Some tm1 \<Rightarrow>
           if mt1 = mt2 then Inr (Some tm1, G)
           else bind_result (fasttm G mt2 event) (\<lambda>(tm2, G).
                  case tm2 of
                    None \<Rightarrow> Inr (None, G)
                  | Some tm2 \<Rightarrow> Inr (if luaO_rawequalObj tm1 tm2 then Some tm1 else None, G)))"

text \<open>\<open>None\<close> is the result -1.\<close>

definition call_orderTM ::
    "'w vm \<Rightarrow> 'w global \<Rightarrow> TValue \<Rightarrow> TValue \<Rightarrow> TMS \<Rightarrow> (bool \<times> 'w global) option result" where
  "call_orderTM H G p1 p2 event =
     bind_result (luaT_gettmbyobj G p1 event) (\<lambda>tm1.
       if ttisnil tm1 then Inr None
       else bind_result (luaT_gettmbyobj G p2 event) (\<lambda>tm2.
              if \<not> luaO_rawequalObj tm1 tm2 then Inr None
              else bind_result (callTMres H G tm1 p1 p2) (\<lambda>(v, G). Inr (Some (\<not> l_isfalse v, G)))))"

section \<open>Indexing\<close>

definition MAXTAGLOOP :: nat where "MAXTAGLOOP = 100"

text \<open>The loops count down the rounds that are left.\<close>

fun gettable_loop :: "nat \<Rightarrow> 'w vm \<Rightarrow> 'w global \<Rightarrow> TValue \<Rightarrow> TValue \<Rightarrow> (TValue \<times> 'w global) result" where
  "gettable_loop 0 H G t key = Inl (ErrRun ''loop in gettable'')"
| "gettable_loop (Suc n) H G t key =
     (let meta = (\<lambda>tm G. if ttisfunction tm then callTMres H G tm t key else gettable_loop n H G tm key)
      in case t of
           TGC (GTable p) \<Rightarrow>
             bind_result (luaH_get (g_tables G p) key) (\<lambda>s.
               let res = slot_val (g_tables G p) s
               in if \<not> ttisnil res then Inr (res, G)
                  else bind_result (fasttm G (metatable (g_tables G p)) TM_INDEX) (\<lambda>(tm, G).
                         case tm of None \<Rightarrow> Inr (res, G) | Some tm \<Rightarrow> meta tm G))
         | _ \<Rightarrow>
             bind_result (luaT_gettmbyobj G t TM_INDEX) (\<lambda>tm.
               if ttisnil tm then luaG_typeerror H G t ''index'' else meta tm G))"

definition luaV_gettable :: "'w vm \<Rightarrow> 'w global \<Rightarrow> TValue \<Rightarrow> TValue \<Rightarrow> (TValue \<times> 'w global) result" where
  "luaV_gettable H G t key = gettable_loop MAXTAGLOOP H G t key"

fun settable_loop :: "nat \<Rightarrow> 'w vm \<Rightarrow> 'w global \<Rightarrow> TValue \<Rightarrow> TValue \<Rightarrow> TValue \<Rightarrow> 'w global result" where
  "settable_loop 0 H G t key val = Inl (ErrRun ''loop in settable'')"
| "settable_loop (Suc n) H G t key val =
     (let meta = (\<lambda>tm G. if ttisfunction tm then callTM H G tm t key val else settable_loop n H G tm key val)
      in case t of
           TGC (GTable p) \<Rightarrow>
             bind_result (luaH_set (grow 2) (g_tables G p) key) (\<lambda>(s, h).
               let G = put_table G p h;
                   store = (\<lambda>G. Inr (put_table G p (set_slot (g_tables G p) s val)))
               in if \<not> ttisnil (slot_val h s) then store G
                  else bind_result (fasttm G (metatable h) TM_NEWINDEX) (\<lambda>(tm, G).
                         case tm of None \<Rightarrow> store G | Some tm \<Rightarrow> meta tm G))
         | _ \<Rightarrow>
             bind_result (luaT_gettmbyobj G t TM_NEWINDEX) (\<lambda>tm.
               if ttisnil tm then luaG_typeerror H G t ''index'' else meta tm G))"

definition luaV_settable :: "'w vm \<Rightarrow> 'w global \<Rightarrow> TValue \<Rightarrow> TValue \<Rightarrow> TValue \<Rightarrow> 'w global result" where
  "luaV_settable H G t key val = settable_loop MAXTAGLOOP H G t key val"

section \<open>Comparison\<close>

text \<open>
  \<open>strcoll\<close> compares the strings up to their first zero. If it equates strings of different
  lengths, \<open>r\<close> may be left behind its end.
\<close>

function l_strcmp :: "(c_string \<Rightarrow> c_string \<Rightarrow> int) \<Rightarrow> c_string \<Rightarrow> c_string \<Rightarrow> int result" where
  "l_strcmp strcoll l r =
     (let temp = strcoll (cstr l) (cstr r)
      in if temp \<noteq> 0 then Inr temp
         else let len = length (cstr l)
              in if len = length r then Inr (if len = length l then 0 else 1)
                 else if len = length l then Inr (- 1)
                 else if len > length r then Inl OutOfBounds
                 else l_strcmp strcoll (drop (len + 1) l) (drop (len + 1) r))"
  by pat_completeness auto
termination
proof (relation "measure (\<lambda>(_, l, _). length l)", goal_cases)
  case (2 strcoll l r temp len)
  have "length (cstr l) \<le> length l" by (simp add: cstr_def length_takeWhile_le)
  with 2 show ?case by simp
qed simp

declare l_strcmp.simps [simp del]

definition luaV_lessthan :: "'w vm \<Rightarrow> 'w global \<Rightarrow> TValue \<Rightarrow> TValue \<Rightarrow> (bool \<times> 'w global) result" where
  "luaV_lessthan H G l r =
     (if ttype l \<noteq> ttype r then luaG_ordererror l r
      else case (l, r) of
             (TNumber a, TNumber b) \<Rightarrow> Inr (luai_numlt a b, G)
           | (TGC (GString a), TGC (GString b)) \<Rightarrow>
               bind_result (l_strcmp (vm_strcoll H) a b) (\<lambda>c. Inr (c < 0, G))
           | _ \<Rightarrow>
               bind_result (call_orderTM H G l r TM_LT) (\<lambda>res.
                 case res of Some r \<Rightarrow> Inr r | None \<Rightarrow> luaG_ordererror l r))"

definition lessequal :: "'w vm \<Rightarrow> 'w global \<Rightarrow> TValue \<Rightarrow> TValue \<Rightarrow> (bool \<times> 'w global) result" where
  "lessequal H G l r =
     (if ttype l \<noteq> ttype r then luaG_ordererror l r
      else case (l, r) of
             (TNumber a, TNumber b) \<Rightarrow> Inr (luai_numle a b, G)
           | (TGC (GString a), TGC (GString b)) \<Rightarrow>
               bind_result (l_strcmp (vm_strcoll H) a b) (\<lambda>c. Inr (c \<le> 0, G))
           | _ \<Rightarrow>
               bind_result (call_orderTM H G l r TM_LE) (\<lambda>res.
                 case res of
                   Some r \<Rightarrow> Inr r
                 | None \<Rightarrow>
                     bind_result (call_orderTM H G r l TM_LT) (\<lambda>res.
                       case res of Some (b, G) \<Rightarrow> Inr (\<not> b, G) | None \<Rightarrow> luaG_ordererror l r)))"

text \<open>\<open>luaV_equalval\<close> is called for values of the same type.\<close>

definition luaV_equalval :: "'w vm \<Rightarrow> 'w global \<Rightarrow> TValue \<Rightarrow> TValue \<Rightarrow> (bool \<times> 'w global) result" where
  "luaV_equalval H G t1 t2 =
     (let try = (\<lambda>r. bind_result r (\<lambda>(tm, G).
                   case tm of
                     None \<Rightarrow> Inr (False, G)
                   | Some tm \<Rightarrow> bind_result (callTMres H G tm t1 t2) (\<lambda>(v, G). Inr (\<not> l_isfalse v, G))))
      in case (t1, t2) of
           (TGC (GUserdata a), TGC (GUserdata b)) \<Rightarrow>
             if a = b then Inr (True, G) else try (get_compTM G (g_umeta G a) (g_umeta G b) TM_EQ)
         | (TGC (GTable a), TGC (GTable b)) \<Rightarrow>
             if a = b then Inr (True, G)
             else try (get_compTM G (metatable (g_tables G a)) (metatable (g_tables G b)) TM_EQ)
         | _ \<Rightarrow> Inr (luaO_rawequalObj t1 t2, G))"

section \<open>Concatenation\<close>

definition MAX_SIZET :: int where "MAX_SIZET = 2 ^ 64 - 3"

text \<open>The macro \<open>tostring\<close>, and the strings below the top with the values that are left.\<close>

fun tostring :: "char \<Rightarrow> TValue \<Rightarrow> c_string option" where
  "tostring point (TGC (GString s)) = Some s"
| "tostring point v = luaV_tostring point v"

fun gather :: "char \<Rightarrow> int \<Rightarrow> TValue list \<Rightarrow> (c_string list \<times> TValue list) result" where
  "gather point len [] = Inr ([], [])"
| "gather point len (v # vs) =
     (case tostring point v of
        None \<Rightarrow> Inr ([], v # vs)
      | Some s \<Rightarrow>
          if int (length s) \<ge> MAX_SIZET - len then Inl (ErrRun ''string length overflow'')
          else bind_result (gather point (len + int (length s)) vs) (\<lambda>(ss, vs). Inr (s # ss, vs)))"

lemma gather_length: "gather point len vs = Inr (ss, ws) \<Longrightarrow> length ss + length ws = length vs"
  by (induction point len vs arbitrary: ss ws rule: gather.induct)
    (auto simp: bind_result_eq_Inr split: option.splits if_splits)

lemma gather_first: "gather point len (v # vs) = Inr (ss, ws) \<Longrightarrow> tostring point v \<noteq> None \<Longrightarrow> ss \<noteq> []"
  by (auto simp: bind_result_eq_Inr split: if_splits)

text \<open>The operands are a list with the top of the stack first.\<close>

function concat_loop :: "'w vm \<Rightarrow> 'w global \<Rightarrow> TValue list \<Rightarrow> (TValue \<times> 'w global) result" where
  "concat_loop H G vs =
     (case vs of
        [] \<Rightarrow> Inl OutOfBounds
      | [v] \<Rightarrow> Inr (v, G)
      | v1 # v2 # rest \<Rightarrow>
          case (if tostring (vm_point H) v2 = None then None else tostring (vm_point H) v1) of
            None \<Rightarrow>
              bind_result (call_binTM H G v2 v1 TM_CONCAT) (\<lambda>res.
                case res of
                  None \<Rightarrow> luaG_concaterror H G v2 v1
                | Some (v, G) \<Rightarrow> concat_loop H G (v # rest))
          | Some s1 \<Rightarrow>
              if s1 = [] then
                (case tostring (vm_point H) v2 of
                   Some s2 \<Rightarrow> concat_loop H G (TGC (GString s2) # rest)
                 | None \<Rightarrow> Inl OutOfBounds)
              else bind_result (gather (vm_point H) (int (length s1)) (v2 # rest)) (\<lambda>(ss, rest).
                     concat_loop H G (TGC (GString (concat (rev (s1 # ss)))) # rest)))"
  by pat_completeness auto
termination
proof (relation "measure (\<lambda>(H, G, vs). length vs)", goal_cases)
  case (4 H G vs v1 vs' v2 rest s1 x ss rest')
  then have g: "gather (vm_point H) (int (length s1)) (v2 # rest) = Inr (ss, rest')" "tostring (vm_point H) v2 \<noteq> None"
    by (auto split: if_splits)
  with gather_length [OF g(1)] gather_first [OF g] 4 show ?case by (cases ss) simp_all
qed auto

declare concat_loop.simps [simp del]

text \<open>\<open>luaV_concat\<close> of the values from the bottom to the top; two at least.\<close>

definition luaV_concat :: "'w vm \<Rightarrow> 'w global \<Rightarrow> TValue list \<Rightarrow> (TValue \<times> 'w global) result" where
  "luaV_concat H G vs = concat_loop H G (rev vs)"

section \<open>Arithmetic\<close>

definition arith_op :: "'w vm \<Rightarrow> TMS \<Rightarrow> lua_Number \<Rightarrow> lua_Number \<Rightarrow> lua_Number option" where
  "arith_op H op nb nc =
     (case op of
        TM_ADD \<Rightarrow> Some (luai_numadd nb nc)
      | TM_SUB \<Rightarrow> Some (luai_numsub nb nc)
      | TM_MUL \<Rightarrow> Some (luai_nummul nb nc)
      | TM_DIV \<Rightarrow> Some (luai_numdiv nb nc)
      | TM_MOD \<Rightarrow> Some (luai_nummod nb nc)
      | TM_POW \<Rightarrow> Some (vm_pow H nb nc)
      | TM_UNM \<Rightarrow> Some (luai_numunm nb)
      | _ \<Rightarrow> None)"

text \<open>Without an operation the register is left as it is; \<open>ra\<close> is what it holds.\<close>

definition Arith :: "'w vm \<Rightarrow> 'w global \<Rightarrow> TValue \<Rightarrow> TValue \<Rightarrow> TValue \<Rightarrow> TMS \<Rightarrow> (TValue \<times> 'w global) result" where
  "Arith H G ra rb rc op =
     (case (luaV_tonumber (vm_point H) rb, luaV_tonumber (vm_point H) rc) of
        (Some nb, Some nc) \<Rightarrow>
          Inr (case arith_op H op nb nc of Some r \<Rightarrow> TNumber r | None \<Rightarrow> ra, G)
      | _ \<Rightarrow>
          bind_result (call_binTM H G rb rc op) (\<lambda>res.
            case res of Some r \<Rightarrow> Inr r | None \<Rightarrow> luaG_aritherror H G rb rc))"

end
