(* ===== verification/LuaVMSpec.thy ===== *)
theory LuaVMSpec
  imports LuaVM LuaTableSpec
begin

text \<open>
  What the operations of the interpreter on values promise: strings are ordered
  lexicographically whatever zeros they hold, a concatenation is the text of its operands, the
  cache of absent tag methods agrees with the metatables. Three places where the code does not
  do what it means to are stated at the end.
\<close>

section \<open>The order of strings\<close>

abbreviation nul :: char where "nul \<equiv> CHR 0x00"

definition byte_less :: "(char \<times> char) set" where "byte_less = {(a, b). uchar a < uchar b}"

definition str_less :: "c_string \<Rightarrow> c_string \<Rightarrow> bool" where "str_less l r \<longleftrightarrow> (l, r) \<in> lexord byte_less"

text \<open>\<open>strcoll\<close> in the locale ``C'', which compares the bytes of strings without zeros.\<close>

definition c_locale :: "(c_string \<Rightarrow> c_string \<Rightarrow> int) \<Rightarrow> bool" where
  "c_locale strcoll \<longleftrightarrow> (\<forall>a b. nul \<notin> set a \<longrightarrow> nul \<notin> set b \<longrightarrow>
     (strcoll a b < 0 \<longleftrightarrow> str_less a b) \<and> (strcoll a b = 0 \<longleftrightarrow> a = b))"

lemma byte_less_irrefl [simp]: "(a, a) \<notin> byte_less"
  by (simp add: byte_less_def)

lemma uchar_nul [simp]: "uchar nul = 0" by (simp add: uchar_def)

lemma uchar_zero: "uchar c = 0 \<longleftrightarrow> c = nul"
proof -
  have "uchar c = uchar nul \<longleftrightarrow> c = nul" unfolding uchar_def by (rule of_char_eq_iff)
  then show ?thesis by simp
qed

lemma NUL_least [simp]: "(nul, c) \<in> byte_less \<longleftrightarrow> c \<noteq> nul" "(c, nul) \<notin> byte_less"
  using uchar_bounds [of c] uchar_zero [of c] by (auto simp: byte_less_def)

lemma cstr_simps [simp]: "cstr [] = []" "cstr (c # s) = (if c = nul then [] else c # cstr s)"
  by (simp_all add: cstr_def)

lemma NUL_cstr: "nul \<notin> set (cstr s)"
  by (induction s) auto

lemma cstr_split: "s = cstr s \<or> s = cstr s @ nul # drop (length (cstr s) + 1) s"
  by (induction s) auto

lemma str_less_cstr: "cstr l \<noteq> cstr r \<Longrightarrow> str_less l r \<longleftrightarrow> str_less (cstr l) (cstr r)"
proof (induction l arbitrary: r)
  case Nil
  then show ?case by (cases r) (auto simp: str_less_def split: if_splits)
next
  case (Cons x l)
  show ?case
  proof (cases r)
    case Nil
    then show ?thesis using Cons.prems by (auto simp: str_less_def split: if_splits)
  next
    case r: (Cons y r')
    then show ?thesis using Cons.prems Cons.IH [of r'] by (auto simp: str_less_def split: if_splits)
  qed
qed

lemma str_less_append [simp]: "str_less (s @ l) (s @ r) \<longleftrightarrow> str_less l r"
  by (auto simp: str_less_def lexord_same_pref_iff)

lemma str_less_prefix [simp]: "str_less l (l @ r) \<longleftrightarrow> r \<noteq> []" "\<not> str_less (l @ r) l"
  using str_less_append [of l "[]" r] str_less_append [of l r "[]"] by (auto simp: str_less_def neq_Nil_conv)

lemma str_less_cons [simp]: "str_less (c # l) (c # r) \<longleftrightarrow> str_less l r"
  by (simp add: str_less_def)

lemma strcmp_lex:
  assumes "c_locale strcoll"
  shows "\<exists>c. l_strcmp strcoll l r = Inr c \<and> (c < 0 \<longleftrightarrow> str_less l r) \<and> (c = 0 \<longleftrightarrow> l = r)"
proof (induction "length l" arbitrary: l r rule: less_induct)
  case less
  let ?c = "cstr l"
  have coll: "strcoll ?c (cstr r) < 0 \<longleftrightarrow> str_less ?c (cstr r)" "strcoll ?c (cstr r) = 0 \<longleftrightarrow> ?c = cstr r"
    using assms NUL_cstr [of l] NUL_cstr [of r] by (simp_all add: c_locale_def)
  show ?case
  proof (cases "?c = cstr r")
    case False
    then have "l_strcmp strcoll l r = Inr (strcoll ?c (cstr r))" using coll by (subst l_strcmp.simps) simp
    moreover have "l \<noteq> r" using False by auto
    ultimately show ?thesis using coll str_less_cstr [OF False] False by auto
  next
    case True
    then have zero: "strcoll ?c (cstr r) = 0" using coll by simp
    consider (end_r) "r = ?c" | (end_l) "l = ?c" "r \<noteq> ?c"
      | (both) "l = ?c @ nul # drop (length ?c + 1) l" "r = ?c @ nul # drop (length ?c + 1) r"
      using cstr_split [of l] cstr_split [of r] True by metis
    then show ?thesis
    proof cases
      case end_r
      then have "l_strcmp strcoll l r = Inr (if length ?c = length l then 0 else 1)"
        using zero by (subst l_strcmp.simps) (simp add: Let_def)
      moreover have "length ?c = length l \<longleftrightarrow> l = r" using cstr_split [of l] end_r by (metis append_Nil2 append_eq_conv_conj length_append less_add_same_cancel1 length_greater_0_conv list.distinct(1) less_irrefl)
      moreover have "\<not> str_less l r" using cstr_split [of l] end_r by (metis str_less_prefix append_Nil2)
      ultimately show ?thesis by auto
    next
      case end_l
      have "length ?c \<noteq> length r" using end_l cstr_split [of r] True by (metis append_eq_conv_conj length_append less_add_same_cancel1 length_greater_0_conv list.distinct(1) less_irrefl)
      then have "l_strcmp strcoll l r = Inr (- 1)" using zero end_l(1) by (subst l_strcmp.simps) (simp add: Let_def)
      moreover have "str_less l r" using cstr_split [of r] end_l True by (metis str_less_prefix(1) list.distinct(1))
      ultimately show ?thesis using end_l by auto
    next
      case both
      let ?l = "drop (length ?c + 1) l" and ?r = "drop (length ?c + 1) r"
      have len: "length ?c < length l" "length ?c < length r"
        using both by (metis length_append less_add_same_cancel1 length_greater_0_conv list.distinct(1))+
      then have "l_strcmp strcoll l r = l_strcmp strcoll ?l ?r" using zero by (subst l_strcmp.simps) (simp add: Let_def)
      moreover have "length ?l < length l" using len by simp
      then obtain c where "l_strcmp strcoll ?l ?r = Inr c" "c < 0 \<longleftrightarrow> str_less ?l ?r" "c = 0 \<longleftrightarrow> ?l = ?r"
        using less.hyps [of ?l ?r] by blast
      moreover have "str_less l r \<longleftrightarrow> str_less ?l ?r"
        by (subst both(1), subst both(2)) (simp only: str_less_append str_less_cons)
      moreover have "l = r \<longleftrightarrow> ?l = ?r" using both by metis
      ultimately show ?thesis by simp
    qed
  qed
qed

section \<open>Concatenation\<close>

lemma gather_all:
  "map (tostring point) vs = map Some ss \<Longrightarrow> len + int (length (concat ss)) < MAX_SIZET \<Longrightarrow>
    gather point len vs = Inr (ss, [])"
proof (induction point len vs arbitrary: ss rule: gather.induct)
  case (2 point len v vs)
  then obtain s ss' where "ss = s # ss'" by (cases ss) auto
  with 2 show ?case by simp
qed simp

lemma tostring_string [simp]: "tostring point (TGC (GString s)) = Some s" by simp

lemma concat_loop_all:
  assumes "map (tostring (vm_point H)) vs = map Some ss" and "int (length (concat ss)) < MAX_SIZET"
    and "2 \<le> length vs \<or> (\<exists>s. vs = [TGC (GString s)])"
  shows "concat_loop H G vs = Inr (TGC (GString (concat (rev ss))), G)"
  using assms
proof (induction "length vs" arbitrary: vs ss rule: less_induct)
  case less
  show ?case
  proof (cases "2 \<le> length vs")
    case True
    then obtain v1 v2 rest where vs: "vs = v1 # v2 # rest" by (cases vs rule: list.exhaust; cases "List.tl vs") auto
    then obtain s1 s2 ss' where ss: "ss = s1 # s2 # ss'" "tostring (vm_point H) v1 = Some s1"
        "tostring (vm_point H) v2 = Some s2" "map (tostring (vm_point H)) rest = map Some ss'"
      using less.prems(1) by (auto simp: Cons_eq_map_conv)
    show ?thesis
    proof (cases "s1 = []")
      case empty: True
      then have "concat_loop H G vs = concat_loop H G (TGC (GString s2) # rest)"
        using vs ss by (subst concat_loop.simps) simp
      also have "\<dots> = Inr (TGC (GString (concat (rev (s2 # ss')))), G)"
        using less.prems vs ss empty by (intro less.hyps) (auto simp: Suc_le_eq)
      finally show ?thesis by (simp add: ss(1) empty)
    next
      case False
      have "gather (vm_point H) (int (length s1)) (v2 # rest) = Inr (s2 # ss', [])"
        using less.prems(2) ss by (intro gather_all) (auto simp: ss(1))
      then have "concat_loop H G vs = concat_loop H G [TGC (GString (concat (rev ss)))]"
        using vs ss False by (subst concat_loop.simps) simp
      then show ?thesis by (subst (asm) (2) concat_loop.simps) simp
    qed
  next
    case False
    then show ?thesis using less.prems by (subst concat_loop.simps) (auto split: list.splits)
  qed
qed

section \<open>The cache of absent tag methods\<close>

abbreviation tm_key :: "TMS \<Rightarrow> TValue" where "tm_key e \<equiv> TGC (GString (tmname e))"

definition cache_ok :: "Table \<Rightarrow> bool" where
  "cache_ok t \<longleftrightarrow> (\<forall>e. bit (flags t) (tm_num e) \<longrightarrow> tm_num e \<le> 4 \<longrightarrow> tget t (tm_key e) = TNil)"

lemma cache_ok_cleared: "flags t = 0 \<Longrightarrow> cache_ok t"
  by (simp add: cache_ok_def)

lemma tm_num_inj: "tm_num e = tm_num e' \<Longrightarrow> e = e'"
  by (cases e; cases e') simp_all

lemma tm_key_intact [simp]: "intact (tm_key e)" "valid_key (tm_key e)"
  by (simp_all add: intact_def valid_key_def)

lemma getstr_tget:
  assumes "table_inv t"
  shows "\<exists>s. luaH_getstr t str = Inr s \<and> slot_val t s = tget t (TGC (GString str))"
proof -
  have ok: "table_ok t" using assms by (simp add: table_inv_def)
  obtain s where s: "luaH_getstr t str = Inr s" "at_slot t (TGC (GString str)) s" using luaH_getstr_slot [OF ok] by blast
  then show ?thesis using tget_slot [OF ok _ s(2)] by (auto simp: intact_def)
qed

lemma flags_table_inv [simp]: "table_inv (t\<lparr>flags := f\<rparr>) = table_inv t"
  by (simp add: table_inv_def)

lemma fasttm_cases:
  assumes "table_inv (g_tables G p)"
  shows "\<exists>f. fasttm G (Some p) e =
    (if bit (flags (g_tables G p)) (tm_num e) then Inr (None, G)
     else Inr (if tget (g_tables G p) (tm_key e) = TNil then None else Some (tget (g_tables G p) (tm_key e)),
               put_table G p (g_tables G p\<lparr>flags := f\<rparr>)))
    \<and> f = (if tget (g_tables G p) (tm_key e) = TNil then flags (g_tables G p) OR push_bit (tm_num e) 1 else flags (g_tables G p))"
  using getstr_tget [OF assms, of "tmname e"]
  by (auto simp: fasttm_def luaT_gettm_def Let_def bit_iff_and_push_bit_not_eq_0)

lemma getfreepos_flags: "flags (snd (getfreepos t)) = flags t"
  by (induction t rule: getfreepos.induct) (subst getfreepos.simps, auto simp: Let_def)

lemma put_key_flags: "flags (snd (put_key t n k)) = flags t"
  by (simp add: put_key_def Let_def)

lemma newkey_flags:
  assumes "newkey g t k = Inr (s, t')" and "flags t = 0" and "\<And>t s t'. g t k = Inr (s, t') \<Longrightarrow> flags t' = 0"
  shows "flags t' = 0"
proof (cases "getfreepos t")
  case (Pair n t1)
  have t1: "flags t1 = 0" using getfreepos_flags [of t] Pair assms(2) by simp
  have put: "flags t' = 0" if "put_key t2 n k = (s, t')" "flags t2 = 0" for t2 n
    using put_key_flags [of t2 n k] that by simp
  show ?thesis
    using assms t1 put unfolding newkey_def Let_def Pair
    by (auto simp: bind_result_eq_Inr split: if_splits option.splits)
qed

lemma luaH_set_flags: "luaH_set (grow f) t k = Inr (s, t') \<Longrightarrow> flags t' = 0"
proof (induction f arbitrary: t s t')
  case 0
  then show ?case
    by (auto simp: luaH_set_def Let_def bind_result_eq_Inr split: if_splits TValue.splits elim: newkey_flags)
next
  case (Suc f)
  have grow: "flags t' = 0" if "grow (Suc f) t k = Inr (s, t')" for t s t'
    using that Suc.IH by (auto simp: bind_result_eq_Inr)
  have new: "flags t' = 0" if "newkey (grow (Suc f)) (t\<lparr>flags := 0\<rparr>) k = Inr (s, t')"
    by (rule newkey_flags [OF that]) (use grow in auto)
  then show ?case using Suc.prems
    by (auto simp: luaH_set_def Let_def bind_result_eq_Inr simp del: grow.simps split: if_splits TValue.splits)
qed

lemma set_slot_flags [simp]: "flags (set_slot t s v) = flags t"
  by (cases s) (simp_all add: set_slot_def)

section \<open>Properties\<close>

text \<open>
  Claim \<open>C36\<close>: The order of strings is the lexicographic order of their bytes, zeros included:
  comparing them piece by piece with \<open>strcoll\<close>, each piece up to a zero, ends and gives a
  negative result exactly for a smaller string and zero exactly for the same string.
\<close>

theorem strcmp_lexicographic:
  assumes "c_locale strcoll"
  shows "\<exists>c. l_strcmp strcoll l r = Inr c \<and> (c < 0 \<longleftrightarrow> str_less l r) \<and> (c = 0 \<longleftrightarrow> l = r)"
  by (rule strcmp_lex [OF assms])

definition byte_coll :: "c_string \<Rightarrow> c_string \<Rightarrow> int" where
  "byte_coll a b = (if a = b then 0 else if str_less a b then - 1 else 1)"

lemma str_less_irrefl [simp]: "\<not> str_less a a"
  using str_less_prefix(1) [of a "[]"] by simp

lemma c_locale_byte_coll: "c_locale byte_coll"
  by (simp add: c_locale_def byte_coll_def)

lemma strcmp_lexicographic_witness:
  "\<exists>c. l_strcmp byte_coll (''a'' @ [nul]) (''a'' @ [nul] @ ''b'') = Inr c \<and> c < 0"
proof -
  have "str_less (''a'' @ [nul]) ((''a'' @ [nul]) @ ''b'')" by (simp only: str_less_prefix) simp
  with strcmp_lexicographic [OF c_locale_byte_coll, of "''a'' @ [nul]" "''a'' @ [nul] @ ''b''"]
  show ?thesis by auto
qed

text \<open>
  Claim \<open>C30\<close>: Concatenating two or more strings and numbers gives the text of all of them, in
  their order, whatever the grouping into passes; no function is called.
\<close>

theorem concat_appends:
  assumes "map (tostring (vm_point H)) vs = map Some ss" and "2 \<le> length vs" and "int (length (concat ss)) < MAX_SIZET"
  shows "luaV_concat H G vs = Inr (TGC (GString (concat ss)), G)"
proof -
  have "int (length (concat (rev ss))) < MAX_SIZET" using assms(3) by (simp add: length_concat rev_map [symmetric])
  then show ?thesis
    using concat_loop_all [of H "rev vs" "rev ss" G] assms(1,2) by (simp add: luaV_concat_def rev_map [symmetric])
qed

text \<open>A state without tables, and an interpreter that refuses every call, for the examples.\<close>

definition no_globals :: "unit global" where
  "no_globals = \<lparr>g_tables = (\<lambda>_. \<lparr>flags = 0, lsizenode = 0, metatable = Some 0, t_array = [], t_node = [dummynode],
     is_dummy = True, lastfree = 0\<rparr>), g_umeta = (\<lambda>_. None), g_mt = (\<lambda>_. None), g_rest = ()\<rparr>"

definition no_calls :: "unit vm" where
  "no_calls = \<lparr>vm_call = (\<lambda>_ _ _. Inl ErrErr), vm_name = (\<lambda>_ _. None), vm_point = CHR ''.'', vm_strcoll = byte_coll,
     vm_pow = (\<lambda>_ _. 0)\<rparr>"

lemma concat_appends_witness:
  "luaV_concat no_calls no_globals [TGC (GString ''ab''), TGC (GString []), TGC (GString ''c'')]
   = Inr (TGC (GString ''abc''), no_globals)"
  using concat_appends [of no_calls "[TGC (GString ''ab''), TGC (GString []), TGC (GString ''c'')]" "[''ab'', [], ''c'']" no_globals]
  by (simp add: MAX_SIZET_def)

text \<open>
  Claim \<open>C31\<close>: As long as the cache of a metatable is right, a lookup of a tag method through it
  gives what the metatable holds, changes nothing but the cache, and leaves it right; and every
  raw assignment to the table leaves it right.
\<close>

theorem tag_cache_correct:
  assumes "table_inv (g_tables G p)" and "cache_ok (g_tables G p)" and "tm_num e \<le> 4"
  shows "(\<exists>f. let tm = tget (g_tables G p) (tm_key e); t' = g_tables G p\<lparr>flags := f\<rparr> in
      fasttm G (Some p) e = Inr (if tm = TNil then None else Some tm, put_table G p t') \<and> cache_ok t' \<and> tget t' = tget (g_tables G p))
    \<and> (\<forall>k v t'. table_put (Suc n) (g_tables G p) k v = Inr t' \<longrightarrow> cache_ok t')"
proof
  let ?t = "g_tables G p"
  obtain f where f: "fasttm G (Some p) e =
    (if bit (flags ?t) (tm_num e) then Inr (None, G)
     else Inr (if tget ?t (tm_key e) = TNil then None else Some (tget ?t (tm_key e)), put_table G p (?t\<lparr>flags := f\<rparr>)))"
    "f = (if tget ?t (tm_key e) = TNil then flags ?t OR push_bit (tm_num e) 1 else flags ?t)"
    using fasttm_cases [OF assms(1)] by blast
  show "\<exists>f. let tm = tget ?t (tm_key e); t' = ?t\<lparr>flags := f\<rparr> in
      fasttm G (Some p) e = Inr (if tm = TNil then None else Some tm, put_table G p t') \<and> cache_ok t' \<and> tget t' = tget ?t"
  proof (cases "bit (flags ?t) (tm_num e)")
    case True
    have "put_table G p (?t\<lparr>flags := flags ?t\<rparr>) = G" by (simp add: put_table_def)
    then show ?thesis using True f(1) assms(2,3)
      by (intro exI [of _ "flags ?t"]) (auto simp: Let_def cache_ok_def)
  next
    case False
    have "cache_ok (?t\<lparr>flags := f\<rparr>)"
      unfolding cache_ok_def
    proof (intro allI impI)
      fix e' assume "bit (flags (?t\<lparr>flags := f\<rparr>)) (tm_num e')" and small: "tm_num e' \<le> 4"
      then have "bit (flags ?t) (tm_num e') \<or> (tget ?t (tm_key e) = TNil \<and> tm_num e' = tm_num e)"
        by (auto simp: f(2) bit_simps split: if_splits)
      then show "tget (?t\<lparr>flags := f\<rparr>) (tm_key e') = TNil"
        using assms(2) small by (auto simp: cache_ok_def dest!: tm_num_inj)
    qed
    then show ?thesis using False f(1) by (intro exI [of _ f]) (simp add: Let_def)
  qed
  show "\<forall>k v t'. table_put (Suc n) ?t k v = Inr t' \<longrightarrow> cache_ok t'"
    by (auto simp: table_put_def bind_result_eq_Inr intro!: cache_ok_cleared dest: luaH_set_flags)
qed

lemma no_globals_inv: "table_inv (g_tables no_globals p)" "pair_count (g_tables no_globals p) = 0"
  "intact k \<Longrightarrow> tget (g_tables no_globals p) k = TNil"
proof -
  let ?h = "g_tables no_globals p"
  have b: "blank ?h" "sizearray ?h = 0" by (simp_all add: blank_def no_globals_def sizearray_def)
  then show inv: "table_inv ?h" by (simp add: table_inv_def blank_ok)
  have ps: "pairs ?h = []" by (simp add: pairs_def node_pairs_def no_globals_def dummynode_def)
  then show "pair_count ?h = 0" by (simp add: pair_count_def)
  show "intact k \<Longrightarrow> tget ?h k = TNil"
    using pairs_complete [of ?h k] inv ps b(2) by (auto simp: table_inv_def INT_MAX_def)
qed

lemma tag_cache_correct_witness:
  "\<exists>f. fasttm no_globals (Some 0) TM_INDEX = Inr (None, put_table no_globals 0 (g_tables no_globals 0\<lparr>flags := f\<rparr>))"
proof -
  have "cache_ok (g_tables no_globals 0)" by (rule cache_ok_cleared) (simp add: no_globals_def)
  from tag_cache_correct [OF no_globals_inv(1) this, of TM_INDEX 0] no_globals_inv(3) [of "tm_key TM_INDEX" 0]
  show ?thesis by (simp add: Let_def) blast
qed

text \<open>
  Claim \<open>C39\<close>: Where a table is its own metatable, setting its field \<open>__newindex\<close> leaves the cache
  of absent tag methods wrong: the field is there, but an assignment to another table with this
  metatable does not see it.
\<close>

theorem own_metatable_breaks_cache:
  assumes "table_inv (g_tables G p)" and "pair_count (g_tables G p) < 2 ^ 26" and "metatable (g_tables G p) = Some p"
    and "tget (g_tables G p) (tm_key TM_NEWINDEX) = TNil"
  shows "\<exists>G'. luaV_settable H G (TGC (GTable p)) (tm_key TM_NEWINDEX) v = Inr G'
    \<and> tget (g_tables G' p) (tm_key TM_NEWINDEX) = v \<and> fasttm G' (Some p) TM_NEWINDEX = Inr (None, G')"
proof -
  let ?t = "g_tables G p" and ?k = "tm_key TM_NEWINDEX"
  have "int (length (pairs ?t)) < 2 ^ 26" using assms(2) by (simp add: pair_count_def)
  from luaH_set_settles [OF assms(1) tm_key_intact(2) this, of 1 TM_NEWINDEX]
  obtain s h where s: "luaH_set (grow 2) ?t ?k = Inr (s, h)" "slot_for ?t ?k s h" "\<And>v. updated ?t ?k v (set_slot h s v)"
    by (auto simp: numeral_2_eq_2)
  let ?G = "put_table G p h"
  have h: "g_tables ?G p = h" "table_inv h" "slot_val h s = TNil" "tget h ?k = TNil" "metatable h = Some p"
    using s(2) s(3) [of TNil] assms(3,4) by (auto simp: put_table_def slot_for_def updated_def)
  obtain f where f: "fasttm ?G (Some p) TM_NEWINDEX = Inr (None, put_table G p (h\<lparr>flags := f\<rparr>))" "bit f (tm_num TM_NEWINDEX)"
  proof -
    obtain f where "fasttm ?G (Some p) TM_NEWINDEX =
      (if bit (flags h) (tm_num TM_NEWINDEX) then Inr (None, ?G)
       else Inr (None, put_table ?G p (h\<lparr>flags := f\<rparr>)))" "f = flags h OR push_bit (tm_num TM_NEWINDEX) 1"
      using fasttm_cases [of ?G p TM_NEWINDEX, unfolded h(1), OF h(2)] by (simp only: h(4) refl if_True) blast
    then show thesis
      using that [of "flags h"] that [of f] by (auto simp: put_table_def bit_simps split: if_splits)
  qed
  let ?h' = "set_slot (h\<lparr>flags := f\<rparr>) s v"
  have run: "luaV_settable H G (TGC (GTable p)) ?k v = Inr (put_table G p ?h')"
    using s(1) h f(1) by (simp add: luaV_settable_def MAXTAGLOOP_def numeral_eq_Suc Let_def put_table_def)
  have "?h' = (set_slot h s v)\<lparr>flags := f\<rparr>" by (cases s) (simp_all add: set_slot_def)
  then have "tget ?h' ?k = v" "flags ?h' = f" using s(3) [of v] by (simp_all add: updated_def)
  moreover have "fasttm (put_table G p ?h') (Some p) TM_NEWINDEX = Inr (None, put_table G p ?h')"
    using f(2) by (simp add: fasttm_def put_table_def bit_iff_and_push_bit_not_eq_0 Let_def)
  ultimately show ?thesis using run by (auto simp: put_table_def)
qed

lemma own_metatable_breaks_cache_witness:
  "\<exists>G'. luaV_settable no_calls no_globals (TGC (GTable 0)) (tm_key TM_NEWINDEX) (TGC (GFunction 1)) = Inr G'
    \<and> tget (g_tables G' 0) (tm_key TM_NEWINDEX) = TGC (GFunction 1) \<and> fasttm G' (Some 0) TM_NEWINDEX = Inr (None, G')"
  by (rule own_metatable_breaks_cache) (simp_all add: no_globals_inv, simp add: no_globals_def)

text \<open>
  Claim \<open>C40\<close>: Two messages name the wrong thing. A number on the left of a value that cannot be
  concatenated is reported in its place, although a number can be concatenated; and comparing a
  string with a coroutine is reported as comparing two strings.
\<close>

theorem wrong_operand_named:
  assumes "vm_name H G (TNumber n) = None" and "g_mt G LUA_TNUMBER = None" and "metatable (g_tables G p) = None"
  shows "luaV_concat H G [TNumber n, TGC (GTable p)] = Inl (ErrRun ''attempt to concatenate a number value'')
    \<and> luaV_lessthan H G (TGC (GString s)) (TGC (GThread q)) = Inl (ErrRun ''attempt to compare two string values'')"
proof
  have "luaT_gettmbyobj G (TNumber n) TM_CONCAT = Inr TNil" "luaT_gettmbyobj G (TGC (GTable p)) TM_CONCAT = Inr TNil"
    using assms(2,3) by (simp_all add: luaT_gettmbyobj_def)
  then have "call_binTM H G (TNumber n) (TGC (GTable p)) TM_CONCAT = Inr None" by (simp add: call_binTM_def)
  moreover have "type_name (TNumber n) = ''number''" by (simp add: type_name_def luaT_typenames_def tag_defs)
  ultimately show "luaV_concat H G [TNumber n, TGC (GTable p)] = Inl (ErrRun ''attempt to concatenate a number value'')"
    using assms(1) by (simp add: luaV_concat_def concat_loop.simps luaG_concaterror_def luaG_typeerror_def)
  have "type_name (TGC (GString s)) = ''string''" "type_name (TGC (GThread q)) = ''thread''"
    by (simp_all add: type_name_def luaT_typenames_def tag_defs)
  then show "luaV_lessthan H G (TGC (GString s)) (TGC (GThread q)) = Inl (ErrRun ''attempt to compare two string values'')"
    by (simp add: luaV_lessthan_def luaG_ordererror_def tag_defs)
qed

lemma wrong_operand_named_witness:
  "luaV_concat no_calls (put_table no_globals 5 ((g_tables no_globals 5)\<lparr>metatable := None\<rparr>)) [TNumber 0, TGC (GTable 5)]
   = Inl (ErrRun ''attempt to concatenate a number value'')"
proof -
  let ?G = "put_table no_globals 5 ((g_tables no_globals 5)\<lparr>metatable := None\<rparr>)"
  have "vm_name no_calls ?G (TNumber 0) = None" "g_mt ?G LUA_TNUMBER = None" "metatable (g_tables ?G 5) = None"
    by (simp_all add: no_calls_def no_globals_def put_table_def)
  from wrong_operand_named [OF this] show ?thesis by blast
qed

end
