(* ===== verification/LuaTablib.thy ===== *)
theory LuaTablib
  imports LuaVM
begin

text \<open>
  \<open>ltablib.c\<close>, the table library, with the functions of \<open>lapi.c\<close> it is written with. The first
  argument is a table of the global state; a function given as an argument may change that
  state, the table included, so every access looks the table up again. \<open>luaL_setn\<close> is empty in
  the configuration of \<open>luaconf.h\<close>, and \<open>luaL_getn\<close> is \<open>lua_objlen\<close>.
\<close>

section \<open>Access to a table (\<open>lapi.c\<close>)\<close>

definition lua_rawgeti :: "'w global \<Rightarrow> ptr \<Rightarrow> int \<Rightarrow> TValue result" where
  "lua_rawgeti G p n = bind_result (luaH_getnum (g_tables G p) n) (\<lambda>s. Inr (slot_val (g_tables G p) s))"

definition lua_rawseti :: "'w global \<Rightarrow> ptr \<Rightarrow> int \<Rightarrow> TValue \<Rightarrow> 'w global result" where
  "lua_rawseti G p n v =
     bind_result (luaH_setnum (grow 2) (g_tables G p) n) (\<lambda>(s, t). Inr (put_table G p (set_slot t s v)))"

definition lua_next :: "'w global \<Rightarrow> ptr \<Rightarrow> TValue \<Rightarrow> (TValue \<times> TValue) option result" where
  "lua_next G p key = luaH_next (g_tables G p) key"

definition lua_lessthan :: "'w vm \<Rightarrow> 'w global \<Rightarrow> TValue option \<Rightarrow> TValue option \<Rightarrow> (bool \<times> 'w global) result" where
  "lua_lessthan H G o1 o2 =
     (case (o1, o2) of (Some a, Some b) \<Rightarrow> luaV_lessthan H G a b | _ \<Rightarrow> Inr (False, G))"

text \<open>The argument \<open>n\<close>, checked to be a table, and its length.\<close>

definition check_table :: "call \<Rightarrow> nat \<Rightarrow> ptr result" where
  "check_table L n =
     bind_result (luaL_checktype L n LUA_TTABLE) (\<lambda>_.
       case index2adr L n of Some (TGC (GTable p)) \<Rightarrow> Inr p | _ \<Rightarrow> Inl OutOfBounds)"

definition aux_getn :: "call \<Rightarrow> 'w global \<Rightarrow> nat \<Rightarrow> (ptr \<times> int) result" where
  "aux_getn L G n =
     bind_result (check_table L n) (\<lambda>p.
     bind_result (luaH_getn (g_tables G p)) (\<lambda>k. Inr (p, k)))"

type_synonym 'w returns = "(TValue list \<times> 'w global) result"

section \<open>Traversals\<close>

function foreachi_loop :: "'w vm \<Rightarrow> 'w global \<Rightarrow> ptr \<Rightarrow> TValue \<Rightarrow> int \<Rightarrow> int \<Rightarrow> 'w returns" where
  "foreachi_loop H G p f i n =
     (if i \<le> n then
        bind_result (lua_rawgeti G p i) (\<lambda>v.
        bind_result (vm_call H G f [push_integer i, v]) (\<lambda>(r, G).
          if \<not> ttisnil r then Inr ([r], G) else foreachi_loop H G p f (i + 1) n))
      else Inr ([], G))"
  by pat_completeness auto
termination by (relation "measure (\<lambda>(H, G, p, f, i, n). nat (n + 1 - i))") auto

declare foreachi_loop.simps [simp del]

definition foreachi :: "'w vm \<Rightarrow> call \<Rightarrow> 'w global \<Rightarrow> 'w returns" where
  "foreachi H L G =
     bind_result (aux_getn L G 1) (\<lambda>(p, n).
     bind_result (luaL_checktype L 2 LUA_TFUNCTION) (\<lambda>_.
       foreachi_loop H G p (c_args L ! 1) 1 n))"

text \<open>The function called may add keys to the table: the traversal may not end, and has fuel.\<close>

primrec foreach_loop :: "nat \<Rightarrow> 'w vm \<Rightarrow> 'w global \<Rightarrow> ptr \<Rightarrow> TValue \<Rightarrow> TValue \<Rightarrow> 'w returns" where
  "foreach_loop 0 H G p f key = Inl NoFuel"
| "foreach_loop (Suc n) H G p f key =
     bind_result (lua_next G p key) (\<lambda>nxt.
       case nxt of
         None \<Rightarrow> Inr ([], G)
       | Some (key, v) \<Rightarrow>
           bind_result (vm_call H G f [key, v]) (\<lambda>(r, G).
             if \<not> ttisnil r then Inr ([r], G) else foreach_loop n H G p f key))"

definition foreach :: "nat \<Rightarrow> 'w vm \<Rightarrow> call \<Rightarrow> 'w global \<Rightarrow> 'w returns" where
  "foreach fuel H L G =
     bind_result (check_table L 1) (\<lambda>p.
     bind_result (luaL_checktype L 2 LUA_TFUNCTION) (\<lambda>_.
       foreach_loop fuel H G p (c_args L ! 1) TNil))"

primrec maxn_loop :: "nat \<Rightarrow> Table \<Rightarrow> TValue \<Rightarrow> lua_Number \<Rightarrow> lua_Number result" where
  "maxn_loop 0 t key m = Inl NoFuel"
| "maxn_loop (Suc n) t key m =
     bind_result (luaH_next t key) (\<lambda>nxt.
       case nxt of
         None \<Rightarrow> Inr m
       | Some (key, _) \<Rightarrow>
           maxn_loop n t key (case key of TNumber v \<Rightarrow> if luai_numlt m v then v else m | _ \<Rightarrow> m))"

text \<open>Nothing changes the table, so a round for each of its slots and one more are enough.\<close>

definition maxn :: "call \<Rightarrow> 'w global \<Rightarrow> 'w returns" where
  "maxn L G =
     bind_result (check_table L 1) (\<lambda>p. let t = g_tables G p in
     bind_result (maxn_loop (length (t_array t) + length (t_node t) + 1) t TNil 0) (\<lambda>m.
       Inr ([TNumber m], G)))"

section \<open>Lengths\<close>

definition getn :: "call \<Rightarrow> 'w global \<Rightarrow> 'w returns" where
  "getn L G = bind_result (aux_getn L G 1) (\<lambda>(_, n). Inr ([push_integer n], G))"

definition setn :: "call \<Rightarrow> 'w global \<Rightarrow> 'w returns" where
  "setn L G =
     bind_result (luaL_checktype L 1 LUA_TTABLE) (\<lambda>_. Inl (ErrRun (LUA_QL ''setn'' @ '' is obsolete'')))"

section \<open>Insertion and removal\<close>

text \<open>The loops that move the elements up and down.\<close>

function move_up :: "'w global \<Rightarrow> ptr \<Rightarrow> int \<Rightarrow> int \<Rightarrow> 'w global result" where
  "move_up G p i pos =
     (if i > pos then
        bind_result (lua_rawgeti G p (i - 1)) (\<lambda>v.
        bind_result (lua_rawseti G p i v) (\<lambda>G. move_up G p (i - 1) pos))
      else Inr G)"
  by pat_completeness auto
termination by (relation "measure (\<lambda>(G, p, i, pos). nat (i - pos))") auto

declare move_up.simps [simp del]

definition tinsert :: "call \<Rightarrow> 'w global \<Rightarrow> 'w returns" where
  "tinsert L G =
     bind_result (aux_getn L G 1) (\<lambda>(p, n). let e = n + 1 in
     bind_result
       (if lua_gettop L = 2 then Inr (e, G)
        else if lua_gettop L = 3 then
          bind_result (luaL_checkint L 2) (\<lambda>pos.
          let e = (if pos > e then pos else e) in
          bind_result (move_up G p e pos) (\<lambda>G. Inr (pos, G)))
        else Inl (ErrRun (''wrong number of arguments to '' @ LUA_QL ''insert'')))
       (\<lambda>(pos, G).
     bind_result (lua_rawseti G p pos (List.last (c_args L))) (\<lambda>G. Inr ([], G))))"

function move_down :: "'w global \<Rightarrow> ptr \<Rightarrow> int \<Rightarrow> int \<Rightarrow> 'w global result" where
  "move_down G p pos e =
     (if pos < e then
        bind_result (lua_rawgeti G p (pos + 1)) (\<lambda>v.
        bind_result (lua_rawseti G p pos v) (\<lambda>G. move_down G p (pos + 1) e))
      else Inr G)"
  by pat_completeness auto
termination by (relation "measure (\<lambda>(G, p, pos, e). nat (e - pos))") auto

declare move_down.simps [simp del]

definition tremove :: "call \<Rightarrow> 'w global \<Rightarrow> 'w returns" where
  "tremove L G =
     bind_result (aux_getn L G 1) (\<lambda>(p, e).
     bind_result (luaL_optint L 2 e) (\<lambda>pos.
       if e = 0 then Inr ([], G)
       else bind_result (lua_rawgeti G p pos) (\<lambda>v.
            bind_result (move_down G p pos e) (\<lambda>G.
            bind_result (lua_rawseti G p e TNil) (\<lambda>G. Inr ([v], G))))))"

section \<open>Concatenation\<close>

function tconcat_loop :: "call \<Rightarrow> 'w global \<Rightarrow> ptr \<Rightarrow> c_string \<Rightarrow> int \<Rightarrow> int \<Rightarrow> c_string \<Rightarrow> c_string result" where
  "tconcat_loop L G p sep i n b =
     (if i \<le> n then
        bind_result (lua_rawgeti G p i) (\<lambda>v.
          case tostring (c_point L) v of
            None \<Rightarrow> luaL_argerror L 1 ''table contains non-strings''
          | Some s \<Rightarrow> tconcat_loop L G p sep (i + 1) n (b @ s @ (if i \<noteq> n then sep else [])))
      else Inr b)"
  by pat_completeness auto
termination by (relation "measure (\<lambda>(L, G, p, sep, i, n, b). nat (n + 1 - i))") auto

declare tconcat_loop.simps [simp del]

definition tconcat :: "call \<Rightarrow> 'w global \<Rightarrow> 'w returns" where
  "tconcat L G =
     bind_result (luaL_optlstring L 2 []) (\<lambda>sep.
     bind_result (check_table L 1) (\<lambda>p.
     bind_result (luaL_optint L 3 1) (\<lambda>i.
     bind_result (if lua_isnoneornil L 4 then luaH_getn (g_tables G p) else luaL_checkint L 4) (\<lambda>n.
     bind_result (tconcat_loop L G p sep i n []) (\<lambda>b. Inr ([push_string b], G))))))"

section \<open>Sorting\<close>

text \<open>
  The quicksort reads and writes the elements of the array and compares two values; it is written
  over these three operations on a state.
\<close>

record 's array_ops =
  a_get :: "'s \<Rightarrow> int \<Rightarrow> TValue result"
  a_set :: "'s \<Rightarrow> int \<Rightarrow> TValue \<Rightarrow> 's result"
  a_less :: "'s \<Rightarrow> TValue \<Rightarrow> TValue \<Rightarrow> (bool \<times> 's) result"

definition sort_comp :: "'w vm \<Rightarrow> TValue \<Rightarrow> 'w global \<Rightarrow> TValue \<Rightarrow> TValue \<Rightarrow> (bool \<times> 'w global) result" where
  "sort_comp H f G a b =
     (if \<not> ttisnil f then bind_result (vm_call H G f [a, b]) (\<lambda>(r, G). Inr (\<not> l_isfalse r, G))
      else lua_lessthan H G (Some a) (Some b))"

definition table_ops :: "'w vm \<Rightarrow> ptr \<Rightarrow> TValue \<Rightarrow> 'w global array_ops" where
  "table_ops H p f = \<lparr>a_get = (\<lambda>G. lua_rawgeti G p), a_set = (\<lambda>G. lua_rawseti G p), a_less = sort_comp H f\<rparr>"

text \<open>\<open>set2(i, j)\<close> with \<open>v\<close> on the top of the stack and \<open>w\<close> below it.\<close>

definition set2 :: "'s array_ops \<Rightarrow> 's \<Rightarrow> int \<Rightarrow> int \<Rightarrow> TValue \<Rightarrow> TValue \<Rightarrow> 's result" where
  "set2 A S i j v w = bind_result (a_set A S i v) (\<lambda>S. a_set A S j w)"

definition invalid_order :: "'a result" where
  "invalid_order = Inl (ErrRun ''invalid order function for sorting'')"

text \<open>The inner loops; their results are the index, the element there and the state.\<close>

function scan_up :: "'s array_ops \<Rightarrow> 's \<Rightarrow> TValue \<Rightarrow> int \<Rightarrow> int \<Rightarrow> (int \<times> TValue \<times> 's) result" where
  "scan_up A S P i u =
     (let i = i + 1 in
      bind_result (a_get A S i) (\<lambda>ai.
      bind_result (a_less A S ai P) (\<lambda>(b, S).
        if b then (if i > u then invalid_order else scan_up A S P i u)
        else Inr (i, ai, S))))"
  by pat_completeness auto
termination by (relation "measure (\<lambda>(A, S, P, i, u). nat (u + 1 - i))") auto

function scan_down :: "'s array_ops \<Rightarrow> 's \<Rightarrow> TValue \<Rightarrow> int \<Rightarrow> int \<Rightarrow> (int \<times> TValue \<times> 's) result" where
  "scan_down A S P j l =
     (let j = j - 1 in
      bind_result (a_get A S j) (\<lambda>aj.
      bind_result (a_less A S P aj) (\<lambda>(b, S).
        if b then (if j < l then invalid_order else scan_down A S P j l)
        else Inr (j, aj, S))))"
  by pat_completeness auto
termination by (relation "measure (\<lambda>(A, S, P, j, l). nat (j + 1 - l))") auto

declare scan_up.simps [simp del] scan_down.simps [simp del]

lemma scan_up_gt: "scan_up A S P i u = Inr (i', r) \<Longrightarrow> i < i'"
proof (induction A S P i u rule: scan_up.induct)
  case (1 A S P i u)
  obtain ai b S' where ai: "a_get A S (i + 1) = Inr ai" and b: "a_less A S ai P = Inr (b, S')"
    and r: "(if b then (if i + 1 > u then invalid_order else scan_up A S' P (i + 1) u) else Inr (i + 1, ai, S')) = Inr (i', r)"
    using 1(2) by (subst (asm) scan_up.simps) (auto simp: Let_def bind_result_eq_Inr)
  show ?case
  proof (cases "b \<and> \<not> i + 1 > u")
    case True
    then have "i + 1 < i'" using 1(1) [OF refl ai b refl] r by simp
    then show ?thesis by simp
  qed (use r in \<open>auto simp: invalid_order_def split: if_splits\<close>)
qed

lemma scan_down_less: "scan_down A S P j l = Inr (j', r) \<Longrightarrow> j' < j"
proof (induction A S P j l rule: scan_down.induct)
  case (1 A S P j l)
  obtain aj b S' where aj: "a_get A S (j - 1) = Inr aj" and b: "a_less A S P aj = Inr (b, S')"
    and r: "(if b then (if j - 1 < l then invalid_order else scan_down A S' P (j - 1) l) else Inr (j - 1, aj, S')) = Inr (j', r)"
    using 1(2) by (subst (asm) scan_down.simps) (auto simp: Let_def bind_result_eq_Inr)
  show ?case
  proof (cases "b \<and> \<not> j - 1 < l")
    case True
    then have "j' < j - 1" using 1(1) [OF refl aj b refl] r by simp
    then show ?thesis by simp
  qed (use r in \<open>auto simp: invalid_order_def split: if_splits\<close>)
qed

function partition_loop :: "'s array_ops \<Rightarrow> 's \<Rightarrow> TValue \<Rightarrow> int \<Rightarrow> int \<Rightarrow> int \<Rightarrow> int \<Rightarrow> (int \<times> 's) result" where
  "partition_loop A S P l u i j =
     bind_result (scan_up A S P i u) (\<lambda>(i, ai, S).
     bind_result (scan_down A S P j l) (\<lambda>(j, aj, S).
       if j < i then Inr (i, S)
       else bind_result (set2 A S i j aj ai) (\<lambda>S. partition_loop A S P l u i j)))"
  by pat_completeness auto
termination
  by (relation "measure (\<lambda>(A, S, P, l, u, i, j). nat (j - i))")
    (auto dest!: scan_up_gt scan_down_less)

declare partition_loop.simps [simp del]

text \<open>\<open>a[l]\<close>, \<open>a[(l+u)/2]\<close> and \<open>a[u]\<close> in order; only the first and the last of two elements.\<close>

definition sort_ends :: "'s array_ops \<Rightarrow> 's \<Rightarrow> int \<Rightarrow> int \<Rightarrow> 's result" where
  "sort_ends A S l u =
     bind_result (a_get A S l) (\<lambda>al.
     bind_result (a_get A S u) (\<lambda>au.
     bind_result (a_less A S au al) (\<lambda>(b, S). if b then set2 A S l u au al else Inr S)))"

definition sort_middle :: "'s array_ops \<Rightarrow> 's \<Rightarrow> int \<Rightarrow> int \<Rightarrow> int \<Rightarrow> 's result" where
  "sort_middle A S l i u =
     bind_result (a_get A S i) (\<lambda>ai.
     bind_result (a_get A S l) (\<lambda>al.
     bind_result (a_less A S ai al) (\<lambda>(b, S).
       if b then set2 A S i l al ai
       else bind_result (a_get A S u) (\<lambda>au.
            bind_result (a_less A S au ai) (\<lambda>(b, S). if b then set2 A S i u au ai else Inr S)))))"

text \<open>The pivot goes to \<open>u-1\<close>, the rest is partitioned, and the pivot to its place, the result.\<close>

definition sort_pivot :: "'s array_ops \<Rightarrow> 's \<Rightarrow> int \<Rightarrow> int \<Rightarrow> int \<Rightarrow> (int \<times> 's) result" where
  "sort_pivot A S l i u =
     bind_result (a_get A S i) (\<lambda>P.
     bind_result (a_get A S (u - 1)) (\<lambda>v.
     bind_result (set2 A S i (u - 1) v P) (\<lambda>S.
     bind_result (partition_loop A S P l u l (u - 1)) (\<lambda>(i, S).
     bind_result (a_get A S (u - 1)) (\<lambda>v.
     bind_result (a_get A S i) (\<lambda>w.
     bind_result (set2 A S (u - 1) i w v) (\<lambda>S. Inr (i, S))))))))"

text \<open>With an inconsistent order the outer loop may not end; it has fuel.\<close>

primrec auxsort :: "nat \<Rightarrow> 's array_ops \<Rightarrow> 's \<Rightarrow> int \<Rightarrow> int \<Rightarrow> 's result" where
  "auxsort 0 A S l u = Inl NoFuel"
| "auxsort (Suc n) A S l u =
     (if l < u then
        bind_result (sort_ends A S l u) (\<lambda>S.
          if u - l = 1 then Inr S
          else let i = (l + u) div 2 in
               bind_result (sort_middle A S l i u) (\<lambda>S.
                 if u - l = 2 then Inr S
                 else bind_result (sort_pivot A S l i u) (\<lambda>(i, S).
                        if i - l < u - i then
                          bind_result (auxsort n A S l (i - 1)) (\<lambda>S. auxsort n A S (i + 1) u)
                        else bind_result (auxsort n A S (i + 1) u) (\<lambda>S. auxsort n A S l (i - 1)))))
      else Inr S)"

definition sort :: "nat \<Rightarrow> 'w vm \<Rightarrow> call \<Rightarrow> 'w global \<Rightarrow> 'w returns" where
  "sort fuel H L G =
     bind_result (aux_getn L G 1) (\<lambda>(p, n).
     bind_result (luaL_checkstack L 40 []) (\<lambda>_.
     bind_result (if \<not> lua_isnoneornil L 2 then luaL_checktype L 2 LUA_TFUNCTION else Inr ()) (\<lambda>_.
       let f = (case index2adr L 2 of Some f \<Rightarrow> f | None \<Rightarrow> TNil)
       in bind_result (auxsort fuel (table_ops H p f) G 1 n) (\<lambda>G. Inr ([], G)))))"

end
