(* ===== verification/LuaTablibSpec.thy ===== *)
theory LuaTablibSpec
  imports LuaTablib LuaTableSpec
begin

text \<open>
  The quicksort of the table library, proved once for every array that obeys the laws of reading,
  writing and comparing, and used for the tables of the model; and what insertion, removal and
  concatenation do.
\<close>

section \<open>Exchanging elements\<close>

definition exchange :: "(int \<Rightarrow> TValue) \<Rightarrow> int \<Rightarrow> int \<Rightarrow> int \<Rightarrow> TValue" where
  "exchange g i j = g(i := g j, j := g i)"

lemma exchange_simps [simp]:
  "exchange g i j i = g j" "exchange g i j j = g i" "k \<noteq> i \<Longrightarrow> k \<noteq> j \<Longrightarrow> exchange g i j k = g k"
  by (simp_all add: exchange_def)

text \<open>\<open>g'\<close> has in the places from \<open>l\<close> to \<open>u\<close> what \<open>g\<close> has there, in another order, and agrees elsewhere.\<close>

definition rearranged :: "int \<Rightarrow> int \<Rightarrow> (int \<Rightarrow> TValue) \<Rightarrow> (int \<Rightarrow> TValue) \<Rightarrow> bool" where
  "rearranged l u g g' \<longleftrightarrow>
     image_mset g' (mset_set {l..u}) = image_mset g (mset_set {l..u}) \<and> (\<forall>k. k < l \<or> u < k \<longrightarrow> g' k = g k)"

lemma rearranged_refl [simp]: "rearranged l u g g"
  by (simp add: rearranged_def)

lemma rearranged_trans: "rearranged l u g g' \<Longrightarrow> rearranged l u g' g'' \<Longrightarrow> rearranged l u g g''"
  by (simp add: rearranged_def)

lemma rearranged_image:
  assumes "rearranged l u g g'"
  shows "g' ` {l..u} = g ` {l..u}"
proof -
  have "set_mset (image_mset g' (mset_set {l..u})) = set_mset (image_mset g (mset_set {l..u}))"
    using assms by (simp add: rearranged_def)
  then show ?thesis by simp
qed

lemma rearranged_all:
  assumes "rearranged l u g g'"
  shows "(\<forall>k \<in> {l..u}. Q (g' k)) \<longleftrightarrow> (\<forall>k \<in> {l..u}. Q (g k))"
proof -
  have "(\<forall>x \<in> g' ` {l..u}. Q x) \<longleftrightarrow> (\<forall>x \<in> g ` {l..u}. Q x)" by (simp only: rearranged_image [OF assms])
  then show ?thesis by (simp only: ball_simps)
qed

lemma rearranged_exchange:
  assumes "i \<in> {l..u}" and "j \<in> {l..u}"
  shows "rearranged l u g (exchange g i j)"
proof (cases "i = j")
  case False
  let ?R = "{l..u} - {i} - {j}"
  have split: "mset_set {l..u} = add_mset i (add_mset j (mset_set ?R))"
    using assms False by (simp add: mset_set.remove [of "{l..u}" i] mset_set.remove [of "{l..u} - {i}" j])
  have "image_mset (exchange g i j) (mset_set ?R) = image_mset g (mset_set ?R)"
    by (rule image_mset_cong) auto
  then have "image_mset (exchange g i j) (mset_set {l..u}) = image_mset g (mset_set {l..u})"
    unfolding split by (simp add: add_mset_commute)
  then show ?thesis using assms by (auto simp: rearranged_def exchange_def)
qed (simp add: exchange_def)

lemma rearranged_widen:
  assumes "rearranged l' u' g g'" and "l \<le> l'" and "u' \<le> u"
  shows "rearranged l u g g'"
proof (cases "l' \<le> u'")
  case True
  have "mset_set ({l'..u'} \<union> {u'<..u}) = mset_set {l'..u'} + mset_set {u'<..u}"
    by (rule mset_set_Union) auto
  moreover have "mset_set ({l..<l'} \<union> ({l'..u'} \<union> {u'<..u})) = mset_set {l..<l'} + mset_set ({l'..u'} \<union> {u'<..u})"
    by (rule mset_set_Union) (use True in auto)
  moreover have "{l..u} = {l..<l'} \<union> ({l'..u'} \<union> {u'<..u})" using assms(2,3) True by auto
  moreover have "image_mset g' (mset_set {l..<l'}) = image_mset g (mset_set {l..<l'})"
    "image_mset g' (mset_set {u'<..u}) = image_mset g (mset_set {u'<..u})"
    using assms(1) by (auto simp: rearranged_def intro!: image_mset_cong)
  ultimately show ?thesis using assms by (auto simp: rearranged_def)
next
  case False
  then have "g' = g" using assms(1) by (auto simp: rearranged_def fun_eq_iff)
  then show ?thesis by simp
qed

definition ascending :: "(TValue \<Rightarrow> TValue \<Rightarrow> bool) \<Rightarrow> int \<Rightarrow> int \<Rightarrow> (int \<Rightarrow> TValue) \<Rightarrow> bool" where
  "ascending lt l u g \<longleftrightarrow> (\<forall>i j. l \<le> i \<longrightarrow> i < j \<longrightarrow> j \<le> u \<longrightarrow> \<not> lt (g j) (g i))"

section \<open>Arrays that can be sorted\<close>

text \<open>
  The interface of the quicksort: a state with the elements \<open>view\<close> between \<open>lo\<close> and \<open>hi\<close>, and a
  strict weak order \<open>lt\<close> of the values it may hold, \<open>ok\<close>.
\<close>

locale sortable =
  fixes A :: "'s array_ops" and inv :: "'s \<Rightarrow> bool" and view :: "'s \<Rightarrow> int \<Rightarrow> TValue"
    and lo hi :: int and ok :: "TValue \<Rightarrow> bool" and lt :: "TValue \<Rightarrow> TValue \<Rightarrow> bool"
  assumes get_law: "inv S \<Longrightarrow> lo \<le> i \<Longrightarrow> i \<le> hi \<Longrightarrow> a_get A S i = Inr (view S i)"
    and set_law: "inv S \<Longrightarrow> lo \<le> i \<Longrightarrow> i \<le> hi \<Longrightarrow> ok (view S i) \<Longrightarrow> ok v \<Longrightarrow>
      \<exists>S'. a_set A S i v = Inr S' \<and> inv S' \<and> view S' = (view S)(i := v)"
    and less_law: "inv S \<Longrightarrow> ok a \<Longrightarrow> ok b \<Longrightarrow> \<exists>S'. a_less A S a b = Inr (lt a b, S') \<and> inv S' \<and> view S' = view S"
    and lt_irrefl: "ok a \<Longrightarrow> \<not> lt a a"
    and lt_trans: "ok a \<Longrightarrow> ok b \<Longrightarrow> ok c \<Longrightarrow> lt a b \<Longrightarrow> lt b c \<Longrightarrow> lt a c"
    and le_trans: "ok a \<Longrightarrow> ok b \<Longrightarrow> ok c \<Longrightarrow> \<not> lt b a \<Longrightarrow> \<not> lt c b \<Longrightarrow> \<not> lt c a"
begin

lemma lt_asym: "ok a \<Longrightarrow> ok b \<Longrightarrow> lt a b \<Longrightarrow> \<not> lt b a"
  using lt_trans lt_irrefl by blast

definition shows_array :: "'s \<Rightarrow> (int \<Rightarrow> TValue) \<Rightarrow> int \<Rightarrow> int \<Rightarrow> bool" where
  "shows_array S g l u \<longleftrightarrow> inv S \<and> view S = g \<and> lo \<le> l \<and> u \<le> hi \<and> (\<forall>k \<in> {l..u}. ok (g k))"

lemma get: "shows_array S g l u \<Longrightarrow> l \<le> i \<Longrightarrow> i \<le> u \<Longrightarrow> a_get A S i = Inr (g i)"
  by (simp add: shows_array_def get_law)

lemma oks: "shows_array S g l u \<Longrightarrow> l \<le> i \<Longrightarrow> i \<le> u \<Longrightarrow> ok (g i)"
  by (simp add: shows_array_def)

lemma shows_rearranged: "shows_array S g l u \<Longrightarrow> rearranged l u g g' \<Longrightarrow> inv S' \<Longrightarrow> view S' = g' \<Longrightarrow> shows_array S' g' l u"
  by (simp add: shows_array_def rearranged_all)

lemma compare:
  assumes "shows_array S g l u" and "ok a" and "ok b"
  shows "\<exists>S'. a_less A S a b = Inr (lt a b, S') \<and> shows_array S' g l u"
  using less_law [OF _ assms(2,3)] assms(1) by (fastforce simp: shows_array_def)

lemma swap:
  assumes "shows_array S g l u" and "i \<in> {l..u}" and "j \<in> {l..u}"
  shows "\<exists>S'. set2 A S i j (g j) (g i) = Inr S' \<and> shows_array S' (exchange g i j) l u"
proof -
  note g = assms(1) [unfolded shows_array_def]
  obtain S1 where 1: "a_set A S i (g j) = Inr S1" "inv S1" "view S1 = g(i := g j)"
    using set_law [of S i "g j"] g assms(2,3) by auto
  obtain S2 where 2: "a_set A S1 j (g i) = Inr S2" "inv S2" "view S2 = (view S1)(j := g i)"
    using set_law [of S1 j "g i"] g 1 assms(2,3) by auto
  have "view S2 = exchange g i j" using 1(3) 2(3) by (simp add: exchange_def)
  then show ?thesis
    using 1 2 shows_rearranged [OF assms(1) rearranged_exchange [OF assms(2,3)]] by (simp add: set2_def)
qed

lemma swap': "shows_array S g l u \<Longrightarrow> i \<in> {l..u} \<Longrightarrow> j \<in> {l..u} \<Longrightarrow> v = g j \<Longrightarrow> w = g i \<Longrightarrow>
    \<exists>S'. set2 A S i j v w = Inr S' \<and> shows_array S' (exchange g i j) l u"
  using swap by simp

lemma ends:
  assumes "shows_array S g l u" and "l < u"
  shows "\<exists>S' g'. sort_ends A S l u = Inr S' \<and> shows_array S' g' l u \<and> rearranged l u g g' \<and> \<not> lt (g' u) (g' l)"
proof -
  have k: "ok (g l)" "ok (g u)" using oks [OF assms(1)] assms(2) by auto
  obtain S1 where 1: "a_less A S (g u) (g l) = Inr (lt (g u) (g l), S1)" "shows_array S1 g l u"
    using compare [OF assms(1) k(2,1)] by blast
  have run: "sort_ends A S l u = (if lt (g u) (g l) then set2 A S1 l u (g u) (g l) else Inr S1)"
    using get [OF assms(1)] assms(2) 1(1) by (simp add: sort_ends_def)
  show ?thesis
  proof (cases "lt (g u) (g l)")
    case True
    obtain S2 where "set2 A S1 l u (g u) (g l) = Inr S2" "shows_array S2 (exchange g l u) l u"
      using swap [OF 1(2), of l u] assms(2) by auto
    moreover have "rearranged l u g (exchange g l u)" using assms(2) by (intro rearranged_exchange) auto
    moreover have "\<not> lt (exchange g l u u) (exchange g l u l)" using lt_asym [OF k(2,1) True] by simp
    ultimately show ?thesis using run True by auto
  next
    case False
    then show ?thesis using run 1(2) by auto
  qed
qed

lemma middle:
  assumes "shows_array S g l u" and "l < i" and "i < u" and "\<not> lt (g u) (g l)"
  shows "\<exists>S' g'. sort_middle A S l i u = Inr S' \<and> shows_array S' g' l u \<and> rearranged l u g g'
    \<and> \<not> lt (g' i) (g' l) \<and> \<not> lt (g' u) (g' i)"
proof -
  have k: "ok (g l)" "ok (g i)" "ok (g u)" using oks [OF assms(1)] assms(2,3) by auto
  have gets: "a_get A S l = Inr (g l)" "a_get A S i = Inr (g i)" using get [OF assms(1)] assms(2,3) by auto
  obtain S1 where 1: "a_less A S (g i) (g l) = Inr (lt (g i) (g l), S1)" "shows_array S1 g l u"
    using compare [OF assms(1) k(2,1)] by blast
  show ?thesis
  proof (cases "lt (g i) (g l)")
    case True
    obtain S2 where s: "set2 A S1 i l (g l) (g i) = Inr S2" "shows_array S2 (exchange g i l) l u"
      using swap [OF 1(2), of i l] assms(2,3) by auto
    have "sort_middle A S l i u = Inr S2" using gets 1(1) True s(1) by (simp add: sort_middle_def)
    moreover have "rearranged l u g (exchange g i l)" using assms(2,3) by (intro rearranged_exchange) auto
    moreover have "exchange g i l u = g u" using assms(2,3) by simp
    ultimately show ?thesis using s(2) lt_asym [OF k(2,1) True] assms(4) by auto
  next
    case False
    have gu: "a_get A S1 u = Inr (g u)" using get [OF 1(2)] assms(2,3) by auto
    obtain S2 where 2: "a_less A S1 (g u) (g i) = Inr (lt (g u) (g i), S2)" "shows_array S2 g l u"
      using compare [OF 1(2) k(3,2)] by blast
    show ?thesis
    proof (cases "lt (g u) (g i)")
      case True
      obtain S3 where s: "set2 A S2 i u (g u) (g i) = Inr S3" "shows_array S3 (exchange g i u) l u"
        using swap [OF 2(2), of i u] assms(2,3) by auto
      have "sort_middle A S l i u = Inr S3" using gets gu 1(1) 2(1) False True s(1) by (simp add: sort_middle_def)
      moreover have "rearranged l u g (exchange g i u)" using assms(2,3) by (intro rearranged_exchange) auto
      moreover have "exchange g i u l = g l" using assms(2,3) by simp
      ultimately show ?thesis using s(2) lt_asym [OF k(3,2) True] assms(4) by auto
    next
      case no: False
      then have "sort_middle A S l i u = Inr S2" using gets gu 1(1) 2(1) False by (simp add: sort_middle_def)
      then show ?thesis using 2(2) False no by auto
    qed
  qed
qed

lemma scan_up_stops:
  assumes "shows_array S g l u" and "ok P" and "l \<le> i" and "i < m" and "m \<le> u" and "\<not> lt (g m) P"
  shows "\<exists>i' S'. scan_up A S P i u = Inr (i', g i', S') \<and> shows_array S' g l u \<and> i < i' \<and> i' \<le> m
    \<and> \<not> lt (g i') P \<and> (\<forall>k. i < k \<and> k < i' \<longrightarrow> lt (g k) P)"
  using assms
proof (induction "nat (m - i)" arbitrary: S i rule: less_induct)
  case less
  have b: "l \<le> i + 1" "i + 1 \<le> u" using less.prems by auto
  obtain S1 where 1: "a_less A S (g (i + 1)) P = Inr (lt (g (i + 1)) P, S1)" "shows_array S1 g l u"
    using compare [OF less.prems(1) oks [OF less.prems(1) b] less.prems(2)] by blast
  have run: "scan_up A S P i u = (if lt (g (i + 1)) P then scan_up A S1 P (i + 1) u else Inr (i + 1, g (i + 1), S1))"
    using get [OF less.prems(1) b] 1(1) b by (subst scan_up.simps) (simp add: Let_def)
  show ?case
  proof (cases "lt (g (i + 1)) P")
    case True
    then have "i + 1 < m" using less.prems by (cases "i + 1 = m") auto
    then obtain i' S' where r: "scan_up A S1 P (i + 1) u = Inr (i', g i', S')" "shows_array S' g l u" "i + 1 < i'" "i' \<le> m"
        "\<not> lt (g i') P" "\<forall>k. i + 1 < k \<and> k < i' \<longrightarrow> lt (g k) P"
      using less.hyps [of "i + 1" S1] less.prems 1(2) by auto
    moreover have "lt (g k) P" if "i < k" "k < i'" for k using that r(6) True by (cases "k = i + 1") auto
    ultimately show ?thesis using run True by auto
  next
    case False
    then show ?thesis using run 1(2) less.prems by auto
  qed
qed

lemma scan_down_stops:
  assumes "shows_array S g l u" and "ok P" and "l \<le> m" and "m < j" and "j \<le> u" and "\<not> lt P (g m)"
  shows "\<exists>j' S'. scan_down A S P j l = Inr (j', g j', S') \<and> shows_array S' g l u \<and> j' < j \<and> m \<le> j'
    \<and> \<not> lt P (g j') \<and> (\<forall>k. j' < k \<and> k < j \<longrightarrow> lt P (g k))"
  using assms
proof (induction "nat (j - m)" arbitrary: S j rule: less_induct)
  case less
  have b: "l \<le> j - 1" "j - 1 \<le> u" using less.prems by auto
  obtain S1 where 1: "a_less A S P (g (j - 1)) = Inr (lt P (g (j - 1)), S1)" "shows_array S1 g l u"
    using compare [OF less.prems(1,2) oks [OF less.prems(1) b]] by blast
  have run: "scan_down A S P j l = (if lt P (g (j - 1)) then scan_down A S1 P (j - 1) l else Inr (j - 1, g (j - 1), S1))"
    using get [OF less.prems(1) b] 1(1) b by (subst scan_down.simps) (simp add: Let_def)
  show ?case
  proof (cases "lt P (g (j - 1))")
    case True
    then have "m < j - 1" using less.prems by (cases "j - 1 = m") auto
    then obtain j' S' where r: "scan_down A S1 P (j - 1) l = Inr (j', g j', S')" "shows_array S' g l u" "j' < j - 1" "m \<le> j'"
        "\<not> lt P (g j')" "\<forall>k. j' < k \<and> k < j - 1 \<longrightarrow> lt P (g k)"
      using less.hyps [of "j - 1" S1] less.prems 1(2) by auto
    moreover have "lt P (g k)" if "j' < k" "k < j" for k using that r(6) True by (cases "k = j - 1") auto
    ultimately show ?thesis using run True by auto
  next
    case False
    then show ?thesis using run 1(2) less.prems by auto
  qed
qed

lemma partition:
  assumes "shows_array S g l u" and "ok P" and "l \<le> i" and "i < j" and "j \<le> u"
    and "\<forall>k. l \<le> k \<and> k \<le> i \<longrightarrow> \<not> lt P (g k)" and "\<forall>k. j \<le> k \<and> k \<le> u \<longrightarrow> \<not> lt (g k) P"
  shows "\<exists>i' S' g'. partition_loop A S P l u i j = Inr (i', S') \<and> shows_array S' g' l u \<and> rearranged (i + 1) (j - 1) g g'
    \<and> i < i' \<and> i' \<le> j \<and> (\<forall>k. l \<le> k \<and> k < i' \<longrightarrow> \<not> lt P (g' k)) \<and> (\<forall>k. i' \<le> k \<and> k \<le> u \<longrightarrow> \<not> lt (g' k) P)"
  using assms
proof (induction "nat (j - i)" arbitrary: S g i j rule: less_induct)
  case less
  have okg: "ok (g k)" if "l \<le> k" "k \<le> u" for k using oks [OF less.prems(1) that] .
  obtain i1 S1 where 1: "scan_up A S P i u = Inr (i1, g i1, S1)" "shows_array S1 g l u" "i < i1" "i1 \<le> j"
      "\<not> lt (g i1) P" "\<forall>k. i < k \<and> k < i1 \<longrightarrow> lt (g k) P"
    using scan_up_stops [OF less.prems(1-4)] less.prems(5) less.prems(7) by auto
  obtain j1 S2 where 2: "scan_down A S1 P j l = Inr (j1, g j1, S2)" "shows_array S2 g l u" "j1 < j" "i \<le> j1"
      "\<not> lt P (g j1)" "\<forall>k. j1 < k \<and> k < j \<longrightarrow> lt P (g k)"
    using scan_down_stops [OF 1(2) less.prems(2), of i j] less.prems(3-5) less.prems(6) by auto
  have low: "\<not> lt P (g k)" if "l \<le> k" "k < i1" for k
  proof (cases "k \<le> i")
    case False
    then show ?thesis using 1(3,4,6) that lt_asym [OF okg less.prems(2)] less.prems(3,5) by auto
  qed (use that less.prems(6) in blast)
  have high: "\<not> lt (g k) P" if "j1 < k" "k \<le> u" for k
  proof (cases "j \<le> k")
    case False
    then show ?thesis using 2(3,4,6) that lt_asym [OF less.prems(2) okg] less.prems(3,5) by auto
  qed (use that less.prems(7) in blast)
  have run: "partition_loop A S P l u i j =
      (if j1 < i1 then Inr (i1, S2) else bind_result (set2 A S2 i1 j1 (g j1) (g i1)) (\<lambda>S. partition_loop A S P l u i1 j1))"
    using 1(1) 2(1) by (subst partition_loop.simps) simp
  show ?case
  proof (cases "j1 < i1")
    case True
    have "\<not> lt (g k) P" if "i1 \<le> k" "k \<le> u" for k using that True high by auto
    then show ?thesis using True run 1(3,4) 2(2) low by auto
  next
    case False
    have in': "i1 \<in> {l..u}" "j1 \<in> {l..u}" using False 1(3,4) 2(3,4) less.prems(3,5) by auto
    obtain S3 where 3: "set2 A S2 i1 j1 (g j1) (g i1) = Inr S3" "shows_array S3 (exchange g i1 j1) l u"
      using swap [OF 2(2) in'] by blast
    let ?g = "exchange g i1 j1"
    have low': "\<not> lt P (?g k)" if "l \<le> k" "k \<le> i1" for k
    proof (cases "k = i1")
      case True
      then show ?thesis using 2(5) by simp
    next
      case no: False
      then show ?thesis using that low [of k] False by (cases "k = j1") auto
    qed
    have high': "\<not> lt (?g k) P" if "j1 \<le> k" "k \<le> u" for k
    proof (cases "k = j1")
      case True
      then show ?thesis using 1(5) by simp
    next
      case no: False
      then show ?thesis using that high [of k] False by (cases "k = i1") auto
    qed
    have change: "rearranged (i + 1) (j - 1) g ?g" using False 1(3) 2(3) by (intro rearranged_exchange) auto
    show ?thesis
    proof (cases "i1 = j1")
      case same: True
      obtain i2 S4 where 4: "scan_up A S3 P i1 u = Inr (i2, ?g i2, S4)" "shows_array S4 ?g l u" "i1 < i2" "i2 \<le> j"
          "\<not> lt (?g i2) P" "\<forall>k. i1 < k \<and> k < i2 \<longrightarrow> lt (?g k) P"
        using scan_up_stops [OF 3(2) less.prems(2), of i1 j] same 2(3) less.prems(3,5) high' [of j] in' by auto
      obtain j2 S5 where 5: "scan_down A S4 P j1 l = Inr (j2, ?g j2, S5)" "shows_array S5 ?g l u" "j2 < j1"
        using scan_down_stops [OF 4(2) less.prems(2), of i j1] same 1(3) less.prems(3) less.prems(6) in' by (auto simp: exchange_def)
      then have "partition_loop A S3 P l u i1 j1 = Inr (i2, S5)"
        using 4(1,3) same by (subst partition_loop.simps) simp
      moreover have "\<not> lt P (?g k)" if "l \<le> k" "k < i2" for k
      proof (cases "k \<le> i1")
        case False
        then have "lt (?g k) P" using 4(6) that by auto
        moreover have "ok (?g k)" using oks [OF 3(2)] that 4(4) less.prems(5) by auto
        ultimately show ?thesis using lt_asym less.prems(2) by blast
      qed (use low' that in blast)
      moreover have "\<not> lt (?g k) P" if "i2 \<le> k" "k \<le> u" for k using high' [of k] same 4(3) that by auto
      ultimately show ?thesis using run 3(1) False 5(2) change 4(3,4) 1(3) by auto
    next
      case apart: False
      obtain i' S' g' where r: "partition_loop A S3 P l u i1 j1 = Inr (i', S')" "shows_array S' g' l u"
          "rearranged (i1 + 1) (j1 - 1) ?g g'" "i1 < i'" "i' \<le> j1"
          "\<forall>k. l \<le> k \<and> k < i' \<longrightarrow> \<not> lt P (g' k)" "\<forall>k. i' \<le> k \<and> k \<le> u \<longrightarrow> \<not> lt (g' k) P"
        using less.hyps [of j1 i1 S3 ?g] 3(2) less.prems(2,3) in' False apart 1(3) 2(3) low' high' by auto
      have "rearranged (i + 1) (j - 1) ?g g'" using rearranged_widen [OF r(3)] 1(3) 2(3) by auto
      then have "rearranged (i + 1) (j - 1) g g'" by (rule rearranged_trans [OF change])
      moreover have "partition_loop A S P l u i j = Inr (i', S')" using run False 3(1) r(1) by simp
      moreover have "i < i'" "i' \<le> j" using r(4,5) 1(3) 2(3) by auto
      ultimately show ?thesis using r(2,6,7) by blast
    qed
  qed
qed

lemma rearranged_ends: "rearranged l u g g' \<Longrightarrow> k < l \<or> u < k \<Longrightarrow> g' k = g k"
  by (auto simp: rearranged_def)

lemma pivot:
  assumes "shows_array S g l u" and "l < i" and "i < u - 1" and "\<not> lt (g i) (g l)" and "\<not> lt (g u) (g i)"
  shows "\<exists>k S' g'. sort_pivot A S l i u = Inr (k, S') \<and> shows_array S' g' l u \<and> rearranged l u g g' \<and> l < k \<and> k < u
    \<and> (\<forall>m. l \<le> m \<and> m < k \<longrightarrow> \<not> lt (g' k) (g' m)) \<and> (\<forall>m. k < m \<and> m \<le> u \<longrightarrow> \<not> lt (g' m) (g' k))"
proof -
  let ?P = "g i"
  have P: "ok ?P" using oks [OF assms(1)] assms(2,3) by auto
  have gets: "a_get A S i = Inr ?P" "a_get A S (u - 1) = Inr (g (u - 1))" using get [OF assms(1)] assms(2,3) by auto
  have in0: "i \<in> {l..u}" "u - 1 \<in> {l..u}" using assms(2,3) by auto
  let ?g1 = "exchange g i (u - 1)"
  obtain S1 where 1: "set2 A S i (u - 1) (g (u - 1)) ?P = Inr S1" "shows_array S1 ?g1 l u"
    using swap [OF assms(1) in0] by blast
  have start: "?g1 (u - 1) = ?P" "?g1 l = g l" "?g1 u = g u" using assms(2,3) by auto
  obtain k S2 g2 where 2: "partition_loop A S1 ?P l u l (u - 1) = Inr (k, S2)" "shows_array S2 g2 l u"
      "rearranged (l + 1) (u - 1 - 1) ?g1 g2" "l < k" "k \<le> u - 1"
      "\<forall>m. l \<le> m \<and> m < k \<longrightarrow> \<not> lt ?P (g2 m)" "\<forall>m. k \<le> m \<and> m \<le> u \<longrightarrow> \<not> lt (g2 m) ?P"
  proof -
    have low: "\<not> lt ?P (?g1 m)" if "l \<le> m" "m \<le> l" for m using that assms(4) start(2) by simp
    have high: "\<not> lt (?g1 m) ?P" if "u - 1 \<le> m" "m \<le> u" for m
    proof (cases "m = u")
      case False
      then have "m = u - 1" using that by simp
      then show ?thesis using start(1) lt_irrefl [OF P] by simp
    qed (use start(3) assms(5) in simp)
    have "\<forall>m. l \<le> m \<and> m \<le> l \<longrightarrow> \<not> lt ?P (?g1 m)" "\<forall>m. u - 1 \<le> m \<and> m \<le> u \<longrightarrow> \<not> lt (?g1 m) ?P"
      using low high by blast+
    from partition [OF 1(2) P order_refl _ _ this] assms(2,3) show thesis using that by fastforce
  qed
  have g2: "g2 (u - 1) = ?P" using rearranged_ends [OF 2(3), of "u - 1"] start(1) by simp
  have in2: "u - 1 \<in> {l..u}" "k \<in> {l..u}" using assms(2,3) 2(4,5) by auto
  let ?g3 = "exchange g2 (u - 1) k"
  obtain S3 where 3: "set2 A S2 (u - 1) k (g2 k) (g2 (u - 1)) = Inr S3" "shows_array S3 ?g3 l u"
    using swap [OF 2(2) in2] by blast
  have "a_get A S2 (u - 1) = Inr (g2 (u - 1))" "a_get A S2 k = Inr (g2 k)" using get [OF 2(2)] in2 by auto
  then have "sort_pivot A S l i u = Inr (k, S3)" using gets 1(1) 2(1) 3(1) by (simp add: sort_pivot_def)
  moreover have "rearranged l u g ?g3"
  proof -
    have "rearranged l u g ?g1" using in0 by (rule rearranged_exchange)
    moreover have "rearranged l u ?g1 g2" using rearranged_widen [OF 2(3)] by auto
    moreover have "rearranged l u g2 ?g3" using in2 by (rule rearranged_exchange)
    ultimately show ?thesis using rearranged_trans by blast
  qed
  moreover have "?g3 k = ?P" using g2 by (cases "k = u - 1") (simp_all add: exchange_def)
  moreover have "\<not> lt ?P (?g3 m)" if "l \<le> m" "m < k" for m using that 2(5,6) by simp
  moreover have "\<not> lt (?g3 m) ?P" if "k < m" "m \<le> u" for m
  proof (cases "m = u - 1")
    case True
    then show ?thesis using 2(5,7) that by simp
  next
    case False
    then show ?thesis using 2(7) that by simp
  qed
  ultimately show ?thesis using 3(2) 2(4,5) by (intro exI [of _ k] exI [of _ S3] exI [of _ ?g3]) auto
qed

lemma shows_part: "shows_array S g l u \<Longrightarrow> l \<le> l' \<Longrightarrow> u' \<le> u \<Longrightarrow> shows_array S g l' u'"
  by (auto simp: shows_array_def)

lemma sorts_part:
  assumes "shows_array S g l u" and "l \<le> l'" and "u' \<le> u"
    and "\<exists>S' g'. r = Inr S' \<and> shows_array S' g' l' u' \<and> rearranged l' u' g g' \<and> ascending lt l' u' g'"
  shows "\<exists>S' g'. r = Inr S' \<and> shows_array S' g' l u \<and> rearranged l' u' g g' \<and> rearranged l u g g' \<and> ascending lt l' u' g'"
proof -
  obtain S' g' where r: "r = Inr S'" "shows_array S' g' l' u'" "rearranged l' u' g g'" "ascending lt l' u' g'"
    using assms(4) by blast
  have "rearranged l u g g'" by (rule rearranged_widen [OF r(3) assms(2,3)])
  then show ?thesis using r shows_rearranged [OF assms(1)] by (auto simp: shows_array_def)
qed

lemma ascending_join:
  assumes "ascending lt l (k - 1) g" and "ascending lt (k + 1) u g" and "shows_array S g l u" and "l < k" "k < u"
    and "\<And>m. l \<le> m \<Longrightarrow> m < k \<Longrightarrow> \<not> lt (g k) (g m)" and "\<And>m. k < m \<Longrightarrow> m \<le> u \<Longrightarrow> \<not> lt (g m) (g k)"
  shows "ascending lt l u g"
  unfolding ascending_def
proof (intro allI impI)
  fix i j assume ij: "l \<le> i" "i < j" "j \<le> u"
  consider "j < k" | "j = k" | "k < i" | "i = k" | "i < k" "k < j" using ij by linarith
  then show "\<not> lt (g j) (g i)"
  proof cases
    case 5
    have "ok (g i)" "ok (g k)" "ok (g j)" using oks [OF assms(3)] ij 5 by auto
    then show ?thesis using le_trans [of "g i" "g k" "g j"] assms(6,7) ij 5 by blast
  qed (use ij assms in \<open>auto simp: ascending_def\<close>)
qed

definition split_at :: "int \<Rightarrow> int \<Rightarrow> int \<Rightarrow> (int \<Rightarrow> TValue) \<Rightarrow> bool" where
  "split_at l k u g \<longleftrightarrow> (\<forall>m \<in> {l..k - 1}. \<not> lt (g k) (g m)) \<and> (\<forall>m \<in> {k + 1..u}. \<not> lt (g m) (g k))"

lemma split_at_parts:
  assumes "split_at l k u g" and "rearranged l (k - 1) g g' \<or> rearranged (k + 1) u g g'"
  shows "split_at l k u g'"
proof -
  have k: "g' k = g k" using assms(2) by (auto simp: rearranged_def)
  from assms(2) show ?thesis
  proof
    assume r: "rearranged l (k - 1) g g'"
    have "\<forall>m \<in> {k + 1..u}. g' m = g m" using r by (auto simp: rearranged_def)
    then show ?thesis using assms(1) rearranged_all [OF r, of "\<lambda>x. \<not> lt (g k) x"] by (simp add: split_at_def k)
  next
    assume r: "rearranged (k + 1) u g g'"
    have "\<forall>m \<in> {l..k - 1}. g' m = g m" using r by (auto simp: rearranged_def)
    then show ?thesis using assms(1) rearranged_all [OF r, of "\<lambda>x. \<not> lt x (g k)"] by (simp add: split_at_def k)
  qed
qed

lemma ascending_cong: "(\<And>i. l \<le> i \<Longrightarrow> i \<le> u \<Longrightarrow> g' i = g i) \<Longrightarrow> ascending lt l u g' = ascending lt l u g"
  by (auto simp: ascending_def)

lemma auxsort_sorts:
  assumes "shows_array S g l u" and "u - l < int n" and "0 < n"
  shows "\<exists>S' g'. auxsort n A S l u = Inr S' \<and> shows_array S' g' l u \<and> rearranged l u g g' \<and> ascending lt l u g'"
  using assms
proof (induction n arbitrary: S g l u)
  case (Suc n)
  show ?case
  proof (cases "l < u")
    case False
    then have "ascending lt l u g" by (auto simp: ascending_def)
    then show ?thesis using False Suc.prems(1) by auto
  next
    case True
    then have n: "0 < n" using Suc.prems(2) by linarith
    obtain S1 g1 where 1: "sort_ends A S l u = Inr S1" "shows_array S1 g1 l u" "rearranged l u g g1" "\<not> lt (g1 u) (g1 l)"
      using ends [OF Suc.prems(1) True] by blast
    show ?thesis
    proof (cases "u - l = 1")
      case two: True
      have "ascending lt l u g1"
        unfolding ascending_def
      proof (intro allI impI)
        fix i j assume "l \<le> i" "i < j" "j \<le> u"
        then have "i = l" "j = u" using two by auto
        then show "\<not> lt (g1 j) (g1 i)" using 1(4) by simp
      qed
      then show ?thesis using True two 1 by auto
    next
      case more: False
      let ?i = "(l + u) div 2"
      have i: "l < ?i" "?i < u" using True more by auto
      obtain S2 g2 where 2: "sort_middle A S1 l ?i u = Inr S2" "shows_array S2 g2 l u" "rearranged l u g1 g2"
          "\<not> lt (g2 ?i) (g2 l)" "\<not> lt (g2 u) (g2 ?i)"
        using middle [OF 1(2) i 1(4)] by blast
      have r2: "rearranged l u g g2" using rearranged_trans [OF 1(3) 2(3)] .
      show ?thesis
      proof (cases "u - l = 2")
        case three: True
        then have mid: "?i = l + 1" "u = l + 2" by auto
        have "\<not> lt (g2 u) (g2 l)"
          using le_trans [of "g2 l" "g2 ?i" "g2 u"] oks [OF 2(2)] 2(4,5) i by auto
        then have "ascending lt l u g2"
          unfolding ascending_def
        proof (intro allI impI)
          fix i j assume ij: "l \<le> i" "i < j" "j \<le> u"
          then consider "i = l" "j = l + 1" | "i = l + 1" "j = l + 2" | "i = l" "j = l + 2" using mid by linarith
          then show "\<not> lt (g2 j) (g2 i)" using 2(4,5) \<open>\<not> lt (g2 u) (g2 l)\<close> mid by cases auto
        qed
        then show ?thesis using True three 1(1) 2(1,2) r2 by (simp add: Let_def) blast
      next
        case False
        then have i2: "?i < u - 1" using True more by auto
        obtain k S3 g3 where 3: "sort_pivot A S2 l ?i u = Inr (k, S3)" "shows_array S3 g3 l u" "rearranged l u g2 g3" "l < k" "k < u"
            "\<forall>m. l \<le> m \<and> m < k \<longrightarrow> \<not> lt (g3 k) (g3 m)" "\<forall>m. k < m \<and> m \<le> u \<longrightarrow> \<not> lt (g3 m) (g3 k)"
          using pivot [OF 2(2) i(1) i2 2(4,5)] by blast
        have sp: "split_at l k u g3" using 3(6,7) by (auto simp: split_at_def)
        have left: "\<exists>S' g'. auxsort n A S l (k - 1) = Inr S' \<and> shows_array S' g' l u \<and> rearranged l (k - 1) g g'
            \<and> rearranged l u g g' \<and> ascending lt l (k - 1) g'" if s: "shows_array S g l u" for S g
        proof (rule sorts_part [OF s order_refl])
          show "k - 1 \<le> u" using 3(5) by simp
          show "\<exists>S' g'. auxsort n A S l (k - 1) = Inr S' \<and> shows_array S' g' l (k - 1) \<and> rearranged l (k - 1) g g' \<and> ascending lt l (k - 1) g'"
            by (rule Suc.IH [OF shows_part [OF s order_refl]]) (use 3(5) Suc.prems(2) n in auto)
        qed
        have right: "\<exists>S' g'. auxsort n A S (k + 1) u = Inr S' \<and> shows_array S' g' l u \<and> rearranged (k + 1) u g g'
            \<and> rearranged l u g g' \<and> ascending lt (k + 1) u g'" if s: "shows_array S g l u" for S g
        proof (rule sorts_part [OF s _ order_refl])
          show "l \<le> k + 1" using 3(4) by simp
          show "\<exists>S' g'. auxsort n A S (k + 1) u = Inr S' \<and> shows_array S' g' (k + 1) u \<and> rearranged (k + 1) u g g' \<and> ascending lt (k + 1) u g'"
            by (rule Suc.IH [OF shows_part [OF s _ order_refl]]) (use 3(4) Suc.prems(2) n in auto)
        qed
        have run: "auxsort (Suc n) A S l u =
            (if k - l < u - k then bind_result (auxsort n A S3 l (k - 1)) (\<lambda>S. auxsort n A S (k + 1) u)
             else bind_result (auxsort n A S3 (k + 1) u) (\<lambda>S. auxsort n A S l (k - 1)))"
          using True more False 1(1) 2(1) 3(1) by (simp add: Let_def)
        have r3: "rearranged l u g g3" using rearranged_trans [OF r2 3(3)] .
        have join: "ascending lt l u g'" if "ascending lt l (k - 1) g'" "ascending lt (k + 1) u g'" "shows_array S' g' l u" "split_at l k u g'" for S' g'
          using ascending_join [OF that(1-3) 3(4,5)] that(4) by (auto simp: split_at_def)
        show ?thesis
        proof (cases "k - l < u - k")
          case small: True
          obtain S4 g4 where 4: "auxsort n A S3 l (k - 1) = Inr S4" "shows_array S4 g4 l u" "rearranged l (k - 1) g3 g4"
              "rearranged l u g3 g4" "ascending lt l (k - 1) g4" using left [OF 3(2)] by blast
          obtain S5 g5 where 5: "auxsort n A S4 (k + 1) u = Inr S5" "shows_array S5 g5 l u" "rearranged (k + 1) u g4 g5"
              "rearranged l u g4 g5" "ascending lt (k + 1) u g5" using right [OF 4(2)] by blast
          have "split_at l k u g5" using split_at_parts sp 4(3) 5(3) by blast
          moreover have "ascending lt l (k - 1) g5"
            using 4(5) ascending_cong [of l "k - 1" g5 g4] rearranged_ends [OF 5(3)] by auto
          ultimately have "ascending lt l u g5" using join 5(2,5) by blast
          then show ?thesis
            using run small 4(1) 5(1,2) rearranged_trans [OF r3 rearranged_trans [OF 4(4) 5(4)]] by auto
        next
          case large: False
          obtain S4 g4 where 4: "auxsort n A S3 (k + 1) u = Inr S4" "shows_array S4 g4 l u" "rearranged (k + 1) u g3 g4"
              "rearranged l u g3 g4" "ascending lt (k + 1) u g4" using right [OF 3(2)] by blast
          obtain S5 g5 where 5: "auxsort n A S4 l (k - 1) = Inr S5" "shows_array S5 g5 l u" "rearranged l (k - 1) g4 g5"
              "rearranged l u g4 g5" "ascending lt l (k - 1) g5" using left [OF 4(2)] by blast
          have "split_at l k u g5" using split_at_parts sp 4(3) 5(3) by blast
          moreover have "ascending lt (k + 1) u g5"
            using 4(5) ascending_cong [of "k + 1" u g5 g4] rearranged_ends [OF 5(3)] by auto
          ultimately have "ascending lt l u g5" using join 5(2,5) by blast
          then show ?thesis
            using run large 4(1) 5(1,2) rearranged_trans [OF r3 rearranged_trans [OF 4(4) 5(4)]] by auto
        qed
      qed
    qed
  qed
qed simp

end

section \<open>Tables as arrays\<close>

definition in_int :: "int \<Rightarrow> bool" where "in_int i \<longleftrightarrow> INT_MIN \<le> i \<and> i \<le> INT_MAX"

text \<open>The elements of the table at \<open>p\<close>, and the states that differ from \<open>G0\<close> only in these.\<close>

definition elements :: "ptr \<Rightarrow> 'w global \<Rightarrow> int \<Rightarrow> TValue" where
  "elements p G i = (if in_int i then tget (g_tables G p) (int_key i) else TNil)"

definition only_elements :: "ptr \<Rightarrow> 'w global \<Rightarrow> 'w global \<Rightarrow> bool" where
  "only_elements p G0 G \<longleftrightarrow> table_inv (g_tables G p) \<and> put_table G p (g_tables G0 p) = G0
     \<and> (\<forall>k. intact k \<longrightarrow> (\<forall>i. in_int i \<longrightarrow> \<not> luaO_rawequalObj (int_key i) k) \<longrightarrow>
          tget (g_tables G p) k = tget (g_tables G0 p) k)"

lemma int_key_valid: "in_int i \<Longrightarrow> valid_key (int_key i)"
proof -
  assume "in_int i"
  then have "\<bar>i\<bar> < 2 ^ 53" by (auto simp: in_int_def INT_MIN_def INT_MAX_def)
  then show "valid_key (int_key i)" using cast_num_finite [of i] by (simp add: valid_key_def)
qed

lemma int_key_eq:
  assumes "in_int i" and "in_int j"
  shows "luaO_rawequalObj (int_key i) (int_key j) \<longleftrightarrow> i = j"
proof
  assume "luaO_rawequalObj (int_key i) (int_key j)"
  then have "arrayindex (int_key i) = arrayindex (int_key j)" by (rule arrayindex_rawequal)
  then show "i = j" using assms by (simp add: arrayindex_cast_num in_int_def)
qed (use int_key_valid [OF assms(1)] in \<open>simp add: valid_key_def\<close>)

lemma rawgeti_element:
  assumes "table_inv (g_tables G p)" and "in_int i"
  shows "lua_rawgeti G p i = Inr (elements p G i)"
proof -
  have ok: "table_ok (g_tables G p)" using assms(1) by (simp add: table_inv_def)
  obtain s where s: "luaH_getnum (g_tables G p) i = Inr s" "at_slot (g_tables G p) (int_key i) s"
    using luaH_getnum_slot [OF ok] assms(2) by (auto simp: in_int_def)
  then show ?thesis
    using tget_slot [OF ok valid_key_intact [OF int_key_valid] s(2)] assms(2) by (simp add: lua_rawgeti_def elements_def)
qed

lemma rawseti_updates:
  assumes inv: "table_inv (g_tables G p)" and i: "in_int i"
    and room: "elements p G i \<noteq> TNil \<or> pair_count (g_tables G p) < 2 ^ 26"
  shows "\<exists>t. lua_rawseti G p i v = Inr (put_table G p t) \<and> updated (g_tables G p) (int_key i) v t"
proof -
  let ?t = "g_tables G p"
  have ok: "table_ok ?t" using inv by (simp add: table_inv_def)
  note key = int_key_valid [OF i]
  obtain s where s: "luaH_getnum ?t i = Inr s" "at_slot ?t (int_key i) s"
    using luaH_getnum_slot [OF ok] i by (auto simp: in_int_def)
  have val: "slot_val ?t s = elements p G i"
    using tget_slot [OF ok valid_key_intact [OF key] s(2)] i by (simp add: elements_def)
  have run: "luaH_setnum (grow 2) ?t i = (if s \<noteq> NilObject then Inr (s, ?t) else newkey (grow 2) ?t (int_key i))"
    using s(1) by (simp add: luaH_setnum_def)
  have "\<exists>s' t'. luaH_setnum (grow 2) ?t i = Inr (s', t') \<and> updated ?t (int_key i) v (set_slot t' s' v)"
  proof (cases "s = NilObject")
    case True
    then have "int (length (pairs ?t)) < 2 ^ 26" using room val by (simp add: slot_val_def pair_count_def)
    from set_after_lookup [OF inv key this s(2), of 1] show ?thesis
      unfolding run by (auto simp: numeral_2_eq_2)
  next
    case False
    then show ?thesis
      using set_slot_ok [OF ok s(2) False] inv unfolding run by (simp add: updated_def table_inv_def)
  qed
  then show ?thesis by (auto simp: lua_rawseti_def)
qed

lemma elements_updated:
  assumes "updated (g_tables G p) (int_key i) v t" and "in_int i"
  shows "elements p (put_table G p t) = (elements p G)(i := v)"
proof
  fix j show "elements p (put_table G p t) j = ((elements p G)(i := v)) j"
    using assms int_key_eq [OF assms(2), of j] valid_key_intact [OF int_key_valid, of j]
    by (auto simp: elements_def put_table_def updated_def)
qed

lemma only_elements_updated:
  assumes "only_elements p G0 G" and "updated (g_tables G p) (int_key i) v t" and "in_int i"
  shows "only_elements p G0 (put_table G p t)"
  using assms by (auto simp: only_elements_def updated_def put_table_def)

lemma only_elements_refl: "table_inv (g_tables G p) \<Longrightarrow> only_elements p G G"
  by (simp add: only_elements_def put_table_def)

text \<open>A strict weak order of values that are not nil, which the comparison of the sort decides.\<close>

definition sort_order :: "(TValue \<Rightarrow> bool) \<Rightarrow> (TValue \<Rightarrow> TValue \<Rightarrow> bool) \<Rightarrow> bool" where
  "sort_order ok lt \<longleftrightarrow> \<not> ok TNil \<and> (\<forall>a. ok a \<longrightarrow> \<not> lt a a)
     \<and> (\<forall>a b c. ok a \<longrightarrow> ok b \<longrightarrow> ok c \<longrightarrow> (lt a b \<longrightarrow> lt b c \<longrightarrow> lt a c) \<and> (\<not> lt b a \<longrightarrow> \<not> lt c b \<longrightarrow> \<not> lt c a))"

definition decides_order :: "'w vm \<Rightarrow> TValue \<Rightarrow> (TValue \<Rightarrow> bool) \<Rightarrow> (TValue \<Rightarrow> TValue \<Rightarrow> bool) \<Rightarrow> bool" where
  "decides_order H f ok lt \<longleftrightarrow> (\<forall>G a b. ok a \<longrightarrow> ok b \<longrightarrow> sort_comp H f G a b = Inr (lt a b, G))"

lemma table_sortable:
  assumes "sort_order ok lt" and "decides_order H f ok lt"
  shows "sortable (table_ops H p f) (only_elements p G0) (elements p) INT_MIN INT_MAX ok lt"
proof
  fix G :: "'a global" and i v assume G: "only_elements p G0 G" and i: "INT_MIN \<le> i" "i \<le> INT_MAX"
  have inv: "table_inv (g_tables G p)" "in_int i" using G i by (simp_all add: only_elements_def in_int_def)
  then show "a_get (table_ops H p f) G i = Inr (elements p G i)" by (simp add: table_ops_def rawgeti_element)
  assume "ok (elements p G i)"
  moreover have "\<not> ok TNil" using assms(1) unfolding sort_order_def by blast
  ultimately have "elements p G i \<noteq> TNil" by metis
  then obtain t where t: "lua_rawseti G p i v = Inr (put_table G p t)" "updated (g_tables G p) (int_key i) v t"
    using rawseti_updates [OF inv] by blast
  then show "\<exists>S'. a_set (table_ops H p f) G i v = Inr S' \<and> only_elements p G0 S' \<and> elements p S' = (elements p G)(i := v)"
    using elements_updated [OF t(2) inv(2)] only_elements_updated [OF G t(2) inv(2)]
    by (intro exI [of _ "put_table G p t"]) (simp add: table_ops_def)
next
  fix G :: "'a global" and a b assume "only_elements p G0 G" "ok a" "ok b"
  then show "\<exists>S'. a_less (table_ops H p f) G a b = Inr (lt a b, S') \<and> only_elements p G0 S' \<and> elements p S' = elements p G"
    using assms(2) by (simp add: table_ops_def decides_order_def)
next
  fix a b c
  show "ok a \<Longrightarrow> \<not> lt a a" "ok a \<Longrightarrow> ok b \<Longrightarrow> ok c \<Longrightarrow> lt a b \<Longrightarrow> lt b c \<Longrightarrow> lt a c"
    "ok a \<Longrightarrow> ok b \<Longrightarrow> ok c \<Longrightarrow> \<not> lt b a \<Longrightarrow> \<not> lt c b \<Longrightarrow> \<not> lt c a"
    using assms(1) unfolding sort_order_def by blast+
qed

text \<open>Numbers, without NaN, in the order of \<open>luai_numlt\<close>.\<close>

definition is_number :: "TValue \<Rightarrow> bool" where "is_number v \<longleftrightarrow> (\<exists>n. v = TNumber n \<and> \<not> is_nan n)"

definition number_less :: "TValue \<Rightarrow> TValue \<Rightarrow> bool" where
  "number_less a b \<longleftrightarrow> (case (a, b) of (TNumber x, TNumber y) \<Rightarrow> luai_numlt x y | _ \<Rightarrow> False)"

lemma number_order: "sort_order is_number number_less"
  unfolding sort_order_def by (auto simp: is_number_def number_less_def luai_numlt_def)

lemma number_decides: "decides_order H TNil is_number number_less"
  by (auto simp: decides_order_def sort_comp_def lua_lessthan_def luaV_lessthan_def is_number_def number_less_def)

interpretation numbers: sortable "table_ops H p TNil" "only_elements p G0" "elements p" INT_MIN INT_MAX is_number number_less
  for H :: "'w vm" and p G0
  by (rule table_sortable [OF number_order number_decides])

section \<open>Moving elements\<close>

text \<open>\<open>G\<close> with the elements \<open>g\<close>, and room for \<open>n\<close> more keys.\<close>

definition holds :: "ptr \<Rightarrow> 'w global \<Rightarrow> 'w global \<Rightarrow> (int \<Rightarrow> TValue) \<Rightarrow> nat \<Rightarrow> bool" where
  "holds p G0 G g n \<longleftrightarrow> only_elements p G0 G \<and> elements p G = g \<and> pair_count (g_tables G p) + n \<le> 2 ^ 26"

lemma holds_get: "holds p G0 G g n \<Longrightarrow> in_int i \<Longrightarrow> lua_rawgeti G p i = Inr (g i)"
  by (auto simp: holds_def only_elements_def rawgeti_element)

lemma holds_set:
  assumes "holds p G0 G g (Suc n)" and "in_int i"
  shows "\<exists>G'. lua_rawseti G p i v = Inr G' \<and> holds p G0 G' (g(i := v)) n"
proof -
  have inv: "table_inv (g_tables G p)" and few: "pair_count (g_tables G p) < 2 ^ 26"
    using assms(1) by (auto simp: holds_def only_elements_def)
  obtain t where t: "lua_rawseti G p i v = Inr (put_table G p t)" "updated (g_tables G p) (int_key i) v t"
    using rawseti_updates [OF inv assms(2)] few by blast
  have "pair_count t \<le> pair_count (g_tables G p) + 1" by (rule updated_pair_count [OF inv int_key_valid [OF assms(2)] t(2)])
  then have "holds p G0 (put_table G p t) (g(i := v)) n"
    using assms elements_updated [OF t(2) assms(2)] only_elements_updated [OF _ t(2) assms(2)]
    by (auto simp: holds_def put_table_def)
  then show ?thesis using t(1) by blast
qed

lemma holds_less: "holds p G0 G g m \<Longrightarrow> n \<le> m \<Longrightarrow> holds p G0 G g n"
  by (simp add: holds_def)

lemma move_up_shifts:
  assumes "holds p G0 G g (nat (e - pos) + n)" and "in_int pos" and "in_int e"
  shows "\<exists>G'. move_up G p e pos = Inr G' \<and> holds p G0 G' (\<lambda>i. if pos < i \<and> i \<le> e then g (i - 1) else g i) n"
  using assms
proof (induction "nat (e - pos)" arbitrary: G g e)
  case 0
  then have "(\<lambda>i. if pos < i \<and> i \<le> e then g (i - 1) else g i) = g" by (auto simp: fun_eq_iff)
  then show ?case using 0 by (subst move_up.simps) simp
next
  case (Suc k)
  have e: "pos < e" "in_int (e - 1)" using Suc.hyps(2) Suc.prems(2,3) by (auto simp: in_int_def)
  have room: "holds p G0 G g (Suc (k + n))" using Suc.prems(1) Suc.hyps(2) by (metis add_Suc)
  obtain G1 where 1: "lua_rawseti G p e (g (e - 1)) = Inr G1" "holds p G0 G1 (g(e := g (e - 1))) (k + n)"
    using holds_set [OF room Suc.prems(3)] by blast
  have k: "k = nat (e - 1 - pos)" using Suc.hyps(2) by simp
  obtain G2 where 2: "move_up G1 p (e - 1) pos = Inr G2"
      "holds p G0 G2 (\<lambda>i. if pos < i \<and> i \<le> e - 1 then (g(e := g (e - 1))) (i - 1) else (g(e := g (e - 1))) i) n"
    using Suc.hyps(1) [OF k, of G1 "g(e := g (e - 1))"] 1(2) Suc.prems(2) e(2) k by auto
  have "(\<lambda>i. if pos < i \<and> i \<le> e - 1 then (g(e := g (e - 1))) (i - 1) else (g(e := g (e - 1))) i)
      = (\<lambda>i. if pos < i \<and> i \<le> e then g (i - 1) else g i)" using e(1) by (auto simp: fun_eq_iff)
  moreover have "move_up G p e pos = move_up G1 p (e - 1) pos"
    using e holds_get [OF room e(2)] 1(1) by (subst move_up.simps) simp
  ultimately show ?case using 2 by auto
qed

lemma move_down_shifts:
  assumes "holds p G0 G g (nat (e - pos) + n)" and "in_int pos" and "in_int e"
  shows "\<exists>G'. move_down G p pos e = Inr G' \<and> holds p G0 G' (\<lambda>i. if pos \<le> i \<and> i < e then g (i + 1) else g i) n"
  using assms
proof (induction "nat (e - pos)" arbitrary: G g pos)
  case 0
  then have "(\<lambda>i. if pos \<le> i \<and> i < e then g (i + 1) else g i) = g" by (auto simp: fun_eq_iff)
  then show ?case using 0 by (subst move_down.simps) simp
next
  case (Suc k)
  have e: "pos < e" "in_int (pos + 1)" using Suc.hyps(2) Suc.prems(2,3) by (auto simp: in_int_def)
  have room: "holds p G0 G g (Suc (k + n))" using Suc.prems(1) Suc.hyps(2) by (metis add_Suc)
  obtain G1 where 1: "lua_rawseti G p pos (g (pos + 1)) = Inr G1" "holds p G0 G1 (g(pos := g (pos + 1))) (k + n)"
    using holds_set [OF room Suc.prems(2)] by blast
  have k: "k = nat (e - (pos + 1))" using Suc.hyps(2) by simp
  obtain G2 where 2: "move_down G1 p (pos + 1) e = Inr G2"
      "holds p G0 G2 (\<lambda>i. if pos + 1 \<le> i \<and> i < e then (g(pos := g (pos + 1))) (i + 1) else (g(pos := g (pos + 1))) i) n"
    using Suc.hyps(1) [OF k, of G1 "g(pos := g (pos + 1))"] 1(2) Suc.prems(3) e(2) k by auto
  have "(\<lambda>i. if pos + 1 \<le> i \<and> i < e then (g(pos := g (pos + 1))) (i + 1) else (g(pos := g (pos + 1))) i)
      = (\<lambda>i. if pos \<le> i \<and> i < e then g (i + 1) else g i)" using e(1) by (auto simp: fun_eq_iff)
  moreover have "move_down G p pos e = move_down G1 p (pos + 1) e"
    using e holds_get [OF room e(2)] 1(1) by (subst move_down.simps) simp
  ultimately show ?case using 2 by auto
qed

text \<open>The table at \<open>p\<close> is a sequence of length \<open>n\<close>: it has no other positive integer keys.\<close>

definition sequence :: "(int \<Rightarrow> TValue) \<Rightarrow> int \<Rightarrow> bool" where
  "sequence g n \<longleftrightarrow> 0 \<le> n \<and> n < INT_MAX \<and> (\<forall>i \<ge> 1. g i \<noteq> TNil \<longleftrightarrow> i \<le> n)"

lemma sequence_end: "sequence g n \<Longrightarrow> n < i \<Longrightarrow> g i = TNil"
  unfolding sequence_def by (metis int_one_le_iff_zero_less leD le_less_trans)

lemma sequence_length:
  assumes "holds p G0 G g m" and "sequence g n" and "index2adr L 1 = Some (TGC (GTable p))"
  shows "aux_getn L G 1 = Inr (p, n)"
proof -
  have inv: "table_inv (g_tables G p)" and g: "elements p G = g" using assms(1) by (auto simp: holds_def only_elements_def)
  obtain k where k: "luaH_getn (g_tables G p) = Inr k" "border (g_tables G p) k"
    using luaH_getn_finds_border inv by (auto simp: table_inv_def)
  have "k = n"
  proof (rule ccontr)
    assume "k \<noteq> n"
    have at: "tget (g_tables G p) (int_key i) = g i" if "in_int i" for i
      using g that by (auto simp: elements_def)
    have b: "0 \<le> k" "k < INT_MAX" "k = 0 \<or> tget (g_tables G p) (int_key k) \<noteq> TNil" "tget (g_tables G p) (int_key (k + 1)) = TNil"
      using k(2) by (auto simp: border_def)
    have "in_int k" "in_int (k + 1)" using b(1,2) by (auto simp: in_int_def INT_MIN_def)
    then have "k = 0 \<or> g k \<noteq> TNil" "g (k + 1) = TNil" using b(3,4) at by auto
    moreover have seq: "g i \<noteq> TNil \<longleftrightarrow> i \<le> n" if "1 \<le> i" for i using assms(2) that by (simp add: sequence_def)
    moreover have "0 \<le> n" using assms(2) by (simp add: sequence_def)
    ultimately have "k \<le> n" "\<not> k + 1 \<le> n" using b(1) seq [of k] seq [of "k + 1"] by (cases "k = 0"; simp)+
    then show False using \<open>k \<noteq> n\<close> by simp
  qed
  moreover have "check_table L 1 = Inr p"
    using assms(3) by (simp add: check_table_def luaL_checktype_def lua_type_def tag_defs)
  ultimately show ?thesis using k(1) by (simp add: aux_getn_def)
qed

definition inserted_at :: "int \<Rightarrow> TValue \<Rightarrow> int \<Rightarrow> (int \<Rightarrow> TValue) \<Rightarrow> int \<Rightarrow> TValue" where
  "inserted_at pos v n g i = (if i = pos then v else if pos < i \<and> i \<le> n + 1 then g (i - 1) else g i)"

lemma tinsert_inserts:
  assumes "holds p G0 G g (nat (n + 1 - pos) + (1 + m))" and "sequence g n" and "1 \<le> pos" "pos \<le> n + 1"
    and "index2adr L 1 = Some (TGC (GTable p))" and "lua_gettop L = 3" and "luaL_checkint L 2 = Inr pos"
  shows "\<exists>G'. tinsert L G = Inr ([], G') \<and> holds p G0 G' (inserted_at pos (List.last (c_args L)) n g) m"
proof -
  have n: "0 \<le> n" "n < INT_MAX" using assms(2) by (simp_all add: sequence_def)
  have ints: "in_int pos" "in_int (n + 1)" using assms(3,4) n by (auto simp: in_int_def INT_MIN_def)
  obtain G1 where 1: "move_up G p (n + 1) pos = Inr G1"
      "holds p G0 G1 (\<lambda>i. if pos < i \<and> i \<le> n + 1 then g (i - 1) else g i) (1 + m)"
    using move_up_shifts [OF assms(1) ints] by blast
  obtain G2 where 2: "lua_rawseti G1 p pos (List.last (c_args L)) = Inr G2"
      "holds p G0 G2 ((\<lambda>i. if pos < i \<and> i \<le> n + 1 then g (i - 1) else g i)(pos := List.last (c_args L))) m"
    using holds_set [of p G0 G1 _ m, OF _ ints(1)] 1(2) by fastforce
  have "((\<lambda>i. if pos < i \<and> i \<le> n + 1 then g (i - 1) else g i)(pos := List.last (c_args L)))
      = inserted_at pos (List.last (c_args L)) n g" by (auto simp: fun_eq_iff inserted_at_def)
  moreover have "tinsert L G = Inr ([], G2)"
    using sequence_length [OF assms(1,2,5)] assms(4,6,7) 1(1) 2(1) by (simp add: tinsert_def Let_def)
  ultimately show ?thesis using 2(2) by auto
qed

lemma inserted_sequence:
  assumes "sequence g n" and "1 \<le> pos" "pos \<le> n + 1" and "v \<noteq> TNil" and "n + 1 < INT_MAX"
  shows "sequence (inserted_at pos v n g) (n + 1)"
proof -
  have n: "0 \<le> n" and seq: "g i \<noteq> TNil \<longleftrightarrow> i \<le> n" if "1 \<le> i" for i using assms(1) that by (simp_all add: sequence_def)
  have "inserted_at pos v n g i \<noteq> TNil \<longleftrightarrow> i \<le> n + 1" if "1 \<le> i" for i
    using seq [of i] seq [of "i - 1"] that assms(2-4) by (auto simp: inserted_at_def)
  then show ?thesis using n [of 1] assms(5) by (simp add: sequence_def)
qed

text \<open>The elements that \<open>tremove\<close> leaves, wherever \<open>pos\<close> is.\<close>

definition removed_at :: "int \<Rightarrow> int \<Rightarrow> (int \<Rightarrow> TValue) \<Rightarrow> int \<Rightarrow> TValue" where
  "removed_at pos n g i = (if i = n then TNil else if pos \<le> i \<and> i < n then g (i + 1) else g i)"

lemma tremove_removes:
  assumes "holds p G0 G g (nat (n - pos) + (1 + m))" and "sequence g n" and "1 \<le> pos" "in_int pos" and "0 < n"
    and "index2adr L 1 = Some (TGC (GTable p))" and "luaL_optint L 2 n = Inr pos"
  shows "\<exists>G'. tremove L G = Inr ([g pos], G') \<and> holds p G0 G' (removed_at pos n g) m"
proof -
  have n: "in_int n" using assms(2) by (auto simp: sequence_def in_int_def INT_MIN_def)
  obtain G1 where 1: "move_down G p pos n = Inr G1"
      "holds p G0 G1 (\<lambda>i. if pos \<le> i \<and> i < n then g (i + 1) else g i) (1 + m)"
    using move_down_shifts [OF assms(1,4) n] by blast
  obtain G2 where 2: "lua_rawseti G1 p n TNil = Inr G2"
      "holds p G0 G2 ((\<lambda>i. if pos \<le> i \<and> i < n then g (i + 1) else g i)(n := TNil)) m"
    using holds_set [of p G0 G1 _ m, OF _ n] 1(2) by fastforce
  have "((\<lambda>i. if pos \<le> i \<and> i < n then g (i + 1) else g i)(n := TNil)) = removed_at pos n g"
    by (auto simp: fun_eq_iff removed_at_def)
  moreover have "tremove L G = Inr ([g pos], G2)"
    using sequence_length [OF assms(1,2,6)] assms(5,7) holds_get [OF assms(1,4)] 1(1) 2(1) by (simp add: tremove_def)
  ultimately show ?thesis using 2(2) by auto
qed

lemma removed_inserted:
  assumes "sequence g n" and "1 \<le> pos" "pos \<le> n + 1"
  shows "removed_at pos (n + 1) (inserted_at pos v n g) = g"
proof
  fix i
  have "g (n + 1) = TNil" by (rule sequence_end [OF assms(1)]) simp
  then show "removed_at pos (n + 1) (inserted_at pos v n g) i = g i"
    using assms(2,3) by (auto simp: removed_at_def inserted_at_def)
qed

section \<open>Properties\<close>

lemma sort_run:
  assumes order: "sort_order ok lt" "decides_order H f ok lt"
    and L: "aux_getn L G 1 = Inr (p, n)" "lua_gettop L + 40 \<le> LUAI_MAXCSTACK" "lua_isnoneornil L 2 \<or> lua_type L 2 = LUA_TFUNCTION"
      "f = (case index2adr L 2 of Some f \<Rightarrow> f | None \<Rightarrow> TNil)"
    and G: "table_inv (g_tables G p)" "n \<le> INT_MAX" "\<forall>i \<in> {1..n}. ok (elements p G i)" "n < int fuel" "0 < fuel"
  shows "\<exists>G'. sort fuel H L G = Inr ([], G') \<and> only_elements p G G' \<and> rearranged 1 n (elements p G) (elements p G')
    \<and> ascending lt 1 n (elements p G')"
proof -
  note S = table_sortable [OF order, of p G]
  have "sortable.shows_array (only_elements p G) (elements p) INT_MIN INT_MAX ok G (elements p G) 1 n"
    unfolding sortable.shows_array_def [OF S] using G(1-3) only_elements_refl [OF G(1)] by (simp add: INT_MIN_def)
  from sortable.auxsort_sorts [OF S this, of fuel] G(4,5)
  obtain G' where "auxsort fuel (table_ops H p f) G 1 n = Inr G'" "only_elements p G G'"
      "rearranged 1 n (elements p G) (elements p G')" "ascending lt 1 n (elements p G')"
    by (auto simp: sortable.shows_array_def [OF S])
  moreover have "luaL_checkstack L 40 [] = Inr ()" using L(2) by (simp add: luaL_checkstack_def)
  moreover have "(if \<not> lua_isnoneornil L 2 then luaL_checktype L 2 LUA_TFUNCTION else Inr ()) = Inr ()"
    using L(3) by (auto simp: luaL_checktype_def)
  ultimately show ?thesis using L(1,4) by (simp add: sort_def Let_def)
qed

text \<open>
  Claim \<open>C29\<close>: \<open>table.sort\<close> ends, for every strict weak order that its comparison decides, with the
  elements of the table rearranged in ascending order; nothing else in the table or in another
  table changes.
\<close>

theorem sort_sorts:
  assumes "sort_order ok lt" and "decides_order H f ok lt"
    and "aux_getn L G 1 = Inr (p, n)" and "lua_gettop L + 40 \<le> LUAI_MAXCSTACK"
    and "lua_isnoneornil L 2 \<or> lua_type L 2 = LUA_TFUNCTION" and "f = (case index2adr L 2 of Some f \<Rightarrow> f | None \<Rightarrow> TNil)"
    and "table_inv (g_tables G p)" and "n \<le> INT_MAX" and "\<forall>i \<in> {1..n}. ok (elements p G i)" and "n < int fuel" and "0 < fuel"
  shows "\<exists>G'. sort fuel H L G = Inr ([], G') \<and> only_elements p G G' \<and> rearranged 1 n (elements p G) (elements p G')
    \<and> ascending lt 1 n (elements p G')"
  by (rule sort_run [OF assms])

definition args :: "TValue list \<Rightarrow> call" where
  "args vs = \<lparr>c_args = vs, c_namewhat = ''global'', c_name = Some ''f'', c_point = CHR ''.''\<rparr>"

text \<open>Three numbers in the array of the table 7.\<close>

definition three :: "unit global" where
  "three = \<lparr>g_tables = (\<lambda>_. \<lparr>flags = 0, lsizenode = 0, metatable = None,
       t_array = [TNumber (cast_num 3), TNumber (cast_num 1), TNumber (cast_num 2)], t_node = [dummynode], is_dummy = True, lastfree = 0\<rparr>),
     g_umeta = (\<lambda>_. None), g_mt = (\<lambda>_. None), g_rest = ()\<rparr>"

definition plain_vm :: "unit vm" where
  "plain_vm = \<lparr>vm_call = (\<lambda>_ _ _. Inl ErrErr), vm_name = (\<lambda>_ _. None), vm_point = CHR ''.'', vm_strcoll = (\<lambda>_ _. 0), vm_pow = (\<lambda>_ _. 0)\<rparr>"

lemma three_inv: "table_inv (g_tables three 7)" "pair_count (g_tables three 7) = 3"
proof -
  let ?t = "g_tables three 7"
  have "blank ?t" "sizearray ?t = 3" by (simp_all add: blank_def three_def sizearray_def)
  then show "table_inv ?t" by (simp add: table_inv_def blank_ok)
  show "pair_count ?t = 3" by (simp add: pair_count_def pairs_def node_pairs_def three_def dummynode_def)
qed

lemma three_elements: "elements 7 three 1 = TNumber (cast_num 3)" "elements 7 three 2 = TNumber (cast_num 1)"
  "elements 7 three 3 = TNumber (cast_num 2)" "4 \<le> i \<Longrightarrow> elements 7 three i = TNil"
proof -
  let ?t = "g_tables three 7"
  have ok: "table_ok ?t" using three_inv(1) by (simp add: table_inv_def)
  have at: "elements 7 three i = t_array ?t ! nat (i - 1)" if "1 \<le> i" "i \<le> 3" for i
  proof -
    have "in_int i" "arrayindex (int_key i) = i"
      using that by (auto simp: in_int_def INT_MIN_def INT_MAX_def intro!: arrayindex_cast_num)
    then show ?thesis
      using tget_array [OF ok int_key_intact, of i] that by (simp add: elements_def array_key_def sizearray_def three_def)
  qed
  show "elements 7 three 1 = TNumber (cast_num 3)" "elements 7 three 2 = TNumber (cast_num 1)" "elements 7 three 3 = TNumber (cast_num 2)"
    using at [of 1] at [of 2] at [of 3] by (simp_all add: three_def)
  show "elements 7 three i = TNil" if "4 \<le> i"
  proof (cases "in_int i")
    case True
    then have "arrayindex (int_key i) = i" by (intro arrayindex_cast_num) (simp_all add: in_int_def)
    then have na: "\<not> array_key ?t (int_key i)" using that by (simp add: array_key_def sizearray_def three_def)
    have "live ?t = {}" by (auto simp: live_def tV_def dummynode_def three_def)
    then show ?thesis using tget_live [OF ok int_key_intact na] True by (auto simp: elements_def)
  qed (simp add: elements_def)
qed

lemma three_sequence: "sequence (elements 7 three) 3"
proof -
  have "elements 7 three i \<noteq> TNil \<longleftrightarrow> i \<le> 3" if "1 \<le> i" for i
  proof -
    have "i = 1 \<or> i = 2 \<or> i = 3 \<or> 4 \<le> i" using that by auto
    then show ?thesis by (elim disjE) (simp_all add: three_elements)
  qed
  then show ?thesis by (simp add: sequence_def INT_MAX_def)
qed

lemma three_getn: "aux_getn (args (TGC (GTable 7) # vs)) three 1 = Inr (7, 3)"
proof (rule sequence_length [OF _ three_sequence, of 7 three three 0])
  show "holds 7 three three (elements 7 three) 0" by (simp add: holds_def only_elements_refl three_inv)
qed (simp add: args_def index2adr_def)

lemma sort_sorts_witness:
  "\<exists>G'. sort 4 plain_vm (args [TGC (GTable 7)]) three = Inr ([], G') \<and> ascending number_less 1 3 (elements 7 G')"
proof -
  have "is_number (elements 7 three i)" if "i \<in> {1..3}" for i
  proof -
    have "\<not> is_nan (cast_num 1)" "\<not> is_nan (cast_num 2)" "\<not> is_nan (cast_num 3)" by code_simp+
    moreover have "i = 1 \<or> i = 2 \<or> i = 3" using that by auto
    ultimately show ?thesis by (elim disjE) (simp_all add: three_elements is_number_def)
  qed
  moreover have "lua_isnoneornil (args [TGC (GTable 7)]) 2" "index2adr (args [TGC (GTable 7)]) 2 = None"
    by (simp_all add: args_def lua_isnoneornil_def lua_type_def index2adr_def LUA_TNONE_def)
  moreover have "lua_gettop (args [TGC (GTable 7)]) + 40 \<le> LUAI_MAXCSTACK"
    by (simp add: lua_gettop_def args_def LUAI_MAXCSTACK_def)
  ultimately show ?thesis
    using sort_sorts [OF number_order number_decides three_getn, of _ 4 plain_vm] three_inv(1) by (fastforce simp: INT_MAX_def)
qed

text \<open>
  Claim \<open>C37\<close>: \<open>table.insert\<close> puts a value at a position of a sequence and moves the elements from
  there on up by one; \<open>table.remove\<close> at this position then returns the value and restores every
  element.
\<close>

theorem insert_remove:
  assumes "table_inv (g_tables G p)" and "sequence (elements p G) n" and "n + 1 < INT_MAX" and "1 \<le> pos" "pos \<le> n + 1"
    and "v \<noteq> TNil" and "pair_count (g_tables G p) + 2 * nat (n + 1 - pos) + 2 \<le> 2 ^ 26"
    and "luaL_checkint (args [TGC (GTable p), TNumber x, v]) 2 = Inr pos" and "luaL_optint (args [TGC (GTable p), TNumber x]) 2 (n + 1) = Inr pos"
  shows "\<exists>G1 G2. tinsert (args [TGC (GTable p), TNumber x, v]) G = Inr ([], G1) \<and> elements p G1 = inserted_at pos v n (elements p G)
    \<and> tremove (args [TGC (GTable p), TNumber x]) G1 = Inr ([v], G2) \<and> elements p G2 = elements p G \<and> only_elements p G G2"
proof -
  let ?g = "elements p G" and ?m = "nat (n + 1 - pos)"
  have start: "holds p G G ?g (?m + (1 + (?m + (1 + 0))))"
    using assms(1,7) only_elements_refl [OF assms(1)] by (simp add: holds_def)
  obtain G1 where 1: "tinsert (args [TGC (GTable p), TNumber x, v]) G = Inr ([], G1)"
      "holds p G G1 (inserted_at pos v n ?g) (?m + (1 + 0))"
    using tinsert_inserts [OF start assms(2,4,5), of "args [TGC (GTable p), TNumber x, v]"] assms(8)
    by (auto simp: args_def index2adr_def lua_gettop_def)
  have "in_int pos" using assms(3-5) by (auto simp: in_int_def INT_MIN_def)
  moreover have "0 < n + 1" using assms(2) by (simp add: sequence_def)
  ultimately obtain G2 where 2: "tremove (args [TGC (GTable p), TNumber x]) G1 = Inr ([inserted_at pos v n ?g pos], G2)"
      "holds p G G2 (removed_at pos (n + 1) (inserted_at pos v n ?g)) 0"
    using tremove_removes [OF 1(2) inserted_sequence [OF assms(2,4,5,6,3)] assms(4), of "args [TGC (GTable p), TNumber x]"] assms(9)
    by (auto simp: args_def index2adr_def)
  show ?thesis using 1 2 removed_inserted [OF assms(2,4,5)] by (auto simp: holds_def inserted_at_def)
qed

lemma insert_remove_witness:
  "\<exists>G1 G2. tinsert (args [TGC (GTable 7), TNumber (cast_num 2), TBoolean 1]) three = Inr ([], G1)
    \<and> tremove (args [TGC (GTable 7), TNumber (cast_num 2)]) G1 = Inr ([TBoolean 1], G2) \<and> elements 7 G2 = elements 7 three"
proof -
  have "luaL_checkint (args [TGC (GTable 7), TNumber (cast_num 2), TBoolean 1]) 2 = Inr 2"
    "luaL_optint (args [TGC (GTable 7), TNumber (cast_num 2)]) 2 4 = Inr 2" by code_simp+
  with insert_remove [OF three_inv(1) three_sequence, of 2 "TBoolean 1" "cast_num 2"] three_inv(2)
  show ?thesis by (fastforce simp: INT_MAX_def)
qed

text \<open>
  \<open>table.remove\<close> with a position past the end of a sequence removes its last element:
  what it returns is the nil at the position given, but the last element is gone.
\<close>

lemma remove_past_end:
  assumes "table_inv (g_tables G p)" and "sequence (elements p G) n" and "0 < n" and "n < pos" "pos \<le> INT_MAX"
    and "pair_count (g_tables G p) < 2 ^ 26" and "luaL_optint (args [TGC (GTable p), TNumber x]) 2 n = Inr pos"
  shows "\<exists>G'. tremove (args [TGC (GTable p), TNumber x]) G = Inr ([TNil], G') \<and> elements p G' = (elements p G)(n := TNil)"
proof -
  have "holds p G G (elements p G) (nat (n - pos) + (1 + 0))"
    using assms(1,4,6) only_elements_refl [OF assms(1)] by (simp add: holds_def)
  moreover have "in_int pos" "1 \<le> pos" using assms(3-5) by (auto simp: in_int_def INT_MIN_def)
  ultimately obtain G' where "tremove (args [TGC (GTable p), TNumber x]) G = Inr ([elements p G pos], G')"
      "elements p G' = removed_at pos n (elements p G)"
    using tremove_removes [OF _ assms(2) _ _ assms(3), of p G G pos 0 "args [TGC (GTable p), TNumber x]"] assms(7)
    by (auto simp: args_def index2adr_def holds_def)
  moreover have "elements p G pos = TNil" by (rule sequence_end [OF assms(2,4)])
  moreover have "removed_at pos n (elements p G) = (elements p G)(n := TNil)"
    using assms(4) by (auto simp: fun_eq_iff removed_at_def)
  ultimately show ?thesis by simp
qed

end
