(* ===== verification/LuaParser.thy ===== *)
theory LuaParser
  imports LuaCode
begin

text \<open>
  \<open>lparser.c\<close>, the recursive descent parser, which calls the lexer and the code generator. The
  state is the function being compiled, the functions around it (\<open>fs->prev\<close>) and the counter of
  nested calls. Every function of the grammar is a definition over the parsers of the two
  non-terminals the recursion goes through, \<open>subexpr\<close> and \<open>chunk\<close>; both count the nesting, so
  that a bound on the depth ties the knot. A loop may run as often as there are tokens left.
\<close>

section \<open>State (\<open>lparser.h\<close>)\<close>

definition LUAI_MAXVARS :: int where "LUAI_MAXVARS = 200"
definition LUAI_MAXUPVALUES :: int where "LUAI_MAXUPVALUES = 60"
definition LUAI_MAXCCALLS :: int where "LUAI_MAXCCALLS = 200"
definition SHRT_MAX :: int where "SHRT_MAX = 32767"

record upvaldesc =
  u_k :: expkind
  u_info :: int

record BlockCnt =
  bl_breaklist :: int
  bl_nactvar :: int
  bl_upval :: bool
  bl_isbreakable :: bool

text \<open>
  The part of a \<open>FuncState\<close> and of its \<open>Proto\<close> that only the parser uses; \<open>pf_fs\<close> is the part of
  the code generator, \<open>pf_h\<close> the table \<open>fs->h\<close> and \<open>pf_bl\<close> the chain of blocks, the innermost
  first.
\<close>

record PFunc =
  pf_fs :: FuncState
  pf_h :: Table
  pf_source :: c_string
  pf_linedefined :: int
  pf_lastlinedefined :: int
  pf_numparams :: lu_byte
  pf_is_vararg :: lu_byte
  pf_locvars :: "LocVar list"
  pf_nlocvars :: int
  pf_p :: "Proto option list"
  pf_np :: int
  pf_upvalues :: "c_string option list"
  pf_nups :: int
  pf_updesc :: "upvaldesc list"
  pf_actvar :: "int list"
  pf_bl :: "BlockCnt list"

text \<open>
  There is one lexer, \<open>ps_ls\<close>. Its functions and those of the code generator see it with the table
  of the function being compiled, and the code generator sees it as \<open>fs->ls\<close>. \<open>ps_addr\<close> gives the
  address of the table of constants at each level of nested functions.
\<close>

record PState =
  ps_ls :: LexState
  ps_func :: PFunc
  ps_prev :: "PFunc list"
  ps_nCcalls :: int
  ps_addr :: "nat \<Rightarrow> ptr"

type_synonym 'a parse = "PState \<Rightarrow> ('a \<times> PState) result"

definition preturn :: "'a \<Rightarrow> 'a parse" where "preturn x = (\<lambda>ps. Inr (x, ps))"

definition pbind :: "'a parse \<Rightarrow> ('a \<Rightarrow> 'b parse) \<Rightarrow> 'b parse" where
  "pbind m f = (\<lambda>ps. bind_result (m ps) (\<lambda>(x, ps). f x ps))"

definition pthen :: "'a parse \<Rightarrow> 'b parse \<Rightarrow> 'b parse" where "pthen m m' = pbind m (\<lambda>_. m')"

definition pwhen :: "bool \<Rightarrow> unit parse \<Rightarrow> unit parse" where
  "pwhen b m = (if b then m else preturn ())"

definition lexer :: "PState \<Rightarrow> LexState" where "lexer ps = (ps_ls ps)\<lparr>fs_h := pf_h (ps_func ps)\<rparr>"

definition fstate :: "PState \<Rightarrow> FuncState" where
  "fstate ps = (pf_fs (ps_func ps))\<lparr>fs_ls := lexer ps\<rparr>"

text \<open>
  Reading the state, calling the lexer, and calling the code generator, which changes the code and
  the table of constants but reads the lexer only.
\<close>

definition reads :: "(PState \<Rightarrow> 'a) \<Rightarrow> 'a parse" where "reads f = (\<lambda>ps. Inr (f ps, ps))"
definition in_fs :: "(FuncState \<Rightarrow> 'a) \<Rightarrow> 'a parse" where "in_fs f = reads (\<lambda>ps. f (fstate ps))"
definition in_func :: "(PFunc \<Rightarrow> 'a) \<Rightarrow> 'a parse" where "in_func f = reads (\<lambda>ps. f (ps_func ps))"
definition in_ls :: "(LexState \<Rightarrow> 'a) \<Rightarrow> 'a parse" where "in_ls f = reads (\<lambda>ps. f (ps_ls ps))"
definition curtoken :: "int parse" where "curtoken = in_ls (\<lambda>ls. token (lex_t ls))"

definition with_func :: "(LexState \<Rightarrow> PFunc \<Rightarrow> ('a \<times> PFunc) result) \<Rightarrow> 'a parse" where
  "with_func f = (\<lambda>ps. bind_result (f (lexer ps) (ps_func ps)) (\<lambda>(x, pf). Inr (x, ps\<lparr>ps_func := pf\<rparr>)))"

definition upd_func :: "(PFunc \<Rightarrow> PFunc) \<Rightarrow> unit parse" where
  "upd_func f = with_func (\<lambda>_ pf. Inr ((), f pf))"

definition upd_fs :: "(FuncState \<Rightarrow> FuncState) \<Rightarrow> unit parse" where
  "upd_fs f = upd_func (\<lambda>pf. pf\<lparr>pf_fs := f (pf_fs pf)\<rparr>)"

definition lexes :: "(LexState \<Rightarrow> ('a \<times> LexState) result) \<Rightarrow> 'a parse" where
  "lexes f = (\<lambda>ps. bind_result (f (lexer ps)) (\<lambda>(x, ls).
     Inr (x, ps\<lparr>ps_ls := ls, ps_func := (ps_func ps)\<lparr>pf_h := fs_h ls\<rparr>\<rparr>)))"

definition codes :: "(FuncState \<Rightarrow> ('a \<times> FuncState) result) \<Rightarrow> 'a parse" where
  "codes f = (\<lambda>ps. bind_result (f (fstate ps)) (\<lambda>(x, fs).
     Inr (x, ps\<lparr>ps_func := (ps_func ps)\<lparr>pf_fs := fs, pf_h := fs_h (fs_ls fs)\<rparr>\<rparr>)))"

definition codes0 :: "(FuncState \<Rightarrow> FuncState result) \<Rightarrow> unit parse" where
  "codes0 f = codes (\<lambda>fs. bind_result (f fs) (\<lambda>fs. Inr ((), fs)))"

definition codes2 :: "(FuncState \<Rightarrow> ('a \<times> 'b \<times> FuncState) result) \<Rightarrow> ('a \<times> 'b) parse" where
  "codes2 f = codes (\<lambda>fs. bind_result (f fs) (\<lambda>(x, y, fs). Inr ((x, y), fs)))"

definition p_next :: "unit parse" where
  "p_next = lexes (\<lambda>ls. bind_result (luaX_next ls) (\<lambda>ls. Inr ((), ls)))"

definition p_lookahead :: "unit parse" where
  "p_lookahead = lexes (\<lambda>ls. bind_result (luaX_lookahead ls) (\<lambda>ls. Inr ((), ls)))"

definition syntax_error :: "c_string \<Rightarrow> 'a parse" where
  "syntax_error msg = (\<lambda>ps. luaX_syntaxerror (lexer ps) msg)"

text \<open>
  What bounds the loops: the characters left and the tokens that have been read already. The body of
  a loop gives the next values of its variables, or the result at the end. A loop that has had all
  its rounds is cut off with the error \<open>e\<close>.
\<close>

definition tokens_left :: "PState \<Rightarrow> nat" where
  "tokens_left ps =
     lex_left (ps_ls ps) + (if token (lookahead (ps_ls ps)) \<noteq> TK_EOS then 1 else 0)
     + (if token (lex_t (ps_ls ps)) \<noteq> TK_EOS then 1 else 0)"

primrec repeat_loop :: "lua_error \<Rightarrow> nat \<Rightarrow> ('s \<Rightarrow> ('s + 'a) parse) \<Rightarrow> 's \<Rightarrow> 'a parse" where
  "repeat_loop e 0 body s = (\<lambda>_. Inl e)"
| "repeat_loop e (Suc n) body s =
     pbind (body s) (\<lambda>r. case r of Inl s \<Rightarrow> repeat_loop e n body s | Inr x \<Rightarrow> preturn x)"

text \<open>
  The parsers of the recursion: \<open>r_subexpr\<close> gives the first operator it does not treat, and the
  expression. \<open>r_rounds\<close> is what the loops get, \<open>r_cut\<close> the error for those it is not enough for.
\<close>

record parsers =
  r_subexpr :: "int \<Rightarrow> (BinOpr \<times> expdesc) parse"
  r_chunk :: "unit parse"
  r_rounds :: "PState \<Rightarrow> nat"
  r_cut :: lua_error

definition ploop :: "parsers \<Rightarrow> ('s \<Rightarrow> ('s + 'a) parse) \<Rightarrow> 's \<Rightarrow> 'a parse" where
  "ploop R body s = (\<lambda>ps. repeat_loop (r_cut R) (r_rounds R ps) body s ps)"

section \<open>Tokens\<close>

text \<open>The reserved words (\<open>llex.h\<close>).\<close>

definition TK_AND :: int where "TK_AND = 257"
definition TK_BREAK :: int where "TK_BREAK = 258"
definition TK_DO :: int where "TK_DO = 259"
definition TK_ELSE :: int where "TK_ELSE = 260"
definition TK_ELSEIF :: int where "TK_ELSEIF = 261"
definition TK_END :: int where "TK_END = 262"
definition TK_FALSE :: int where "TK_FALSE = 263"
definition TK_FOR :: int where "TK_FOR = 264"
definition TK_FUNCTION :: int where "TK_FUNCTION = 265"
definition TK_IF :: int where "TK_IF = 266"
definition TK_IN :: int where "TK_IN = 267"
definition TK_LOCAL :: int where "TK_LOCAL = 268"
definition TK_NIL :: int where "TK_NIL = 269"
definition TK_NOT :: int where "TK_NOT = 270"
definition TK_OR :: int where "TK_OR = 271"
definition TK_REPEAT :: int where "TK_REPEAT = 272"
definition TK_RETURN :: int where "TK_RETURN = 273"
definition TK_THEN :: int where "TK_THEN = 274"
definition TK_TRUE :: int where "TK_TRUE = 275"
definition TK_UNTIL :: int where "TK_UNTIL = 276"

definition error_expected :: "int \<Rightarrow> 'a parse" where
  "error_expected tok = syntax_error (LUA_QL (luaX_token2str tok) @ '' expected'')"

definition errorlimit :: "LexState \<Rightarrow> PFunc \<Rightarrow> int \<Rightarrow> c_string \<Rightarrow> 'a result" where
  "errorlimit ls f limit what =
     luaX_lexerror ls
       ((if pf_linedefined f = 0 then ''main function''
         else ''function at line '' @ show_int (pf_linedefined f))
        @ '' has more than '' @ show_int limit @ '' '' @ what) 0"

definition luaY_checklimit :: "LexState \<Rightarrow> PFunc \<Rightarrow> int \<Rightarrow> int \<Rightarrow> c_string \<Rightarrow> unit result" where
  "luaY_checklimit ls f v l m = (if v > l then errorlimit ls f l m else Inr ())"

definition testnext :: "int \<Rightarrow> bool parse" where
  "testnext c = pbind curtoken (\<lambda>t. if t = c then pthen p_next (preturn True) else preturn False)"

definition check_token :: "int \<Rightarrow> unit parse" where
  "check_token c = pbind curtoken (\<lambda>t. if t \<noteq> c then error_expected c else preturn ())"

definition checknext :: "int \<Rightarrow> unit parse" where
  "checknext c = pthen (check_token c) p_next"

definition check_condition :: "bool \<Rightarrow> c_string \<Rightarrow> unit parse" where
  "check_condition c msg = (if \<not> c then syntax_error msg else preturn ())"

definition check_match :: "int \<Rightarrow> int \<Rightarrow> int \<Rightarrow> unit parse" where
  "check_match what who at_line =
     pbind (testnext what) (\<lambda>ok.
       if ok then preturn ()
       else pbind (in_ls linenumber) (\<lambda>line.
              if at_line = line then error_expected what
              else syntax_error (LUA_QL (luaX_token2str what) @ '' expected (to close ''
                     @ LUA_QL (luaX_token2str who) @ '' at line '' @ show_int at_line @ '')'')))"

text \<open>The string of the current token; \<open>seminfo\<close> holds one for names and strings.\<close>

definition token_string :: "c_string parse" where
  "token_string = (\<lambda>ps. case seminfo (lex_t (ps_ls ps)) of SString s \<Rightarrow> Inr (s, ps) | _ \<Rightarrow> Inl OutOfBounds)"

definition token_number :: "lua_Number parse" where
  "token_number = (\<lambda>ps. case seminfo (lex_t (ps_ls ps)) of SNumber r \<Rightarrow> Inr (r, ps) | _ \<Rightarrow> Inl OutOfBounds)"

definition str_checkname :: "c_string parse" where
  "str_checkname =
     pthen (check_token TK_NAME) (pbind token_string (\<lambda>ts. pthen p_next (preturn ts)))"

definition anchor_token :: "unit parse" where
  "anchor_token =
     pbind curtoken (\<lambda>t.
       pwhen (t = TK_NAME \<or> t = TK_STRING)
         (pbind token_string (\<lambda>ts. pthen (lexes (\<lambda>ls. luaX_newstring ls ts)) (preturn ()))))"

text \<open>The members that \<open>init_exp\<close> does not set hold anything; the code does not read them.\<close>

definition init_exp :: "expkind \<Rightarrow> int \<Rightarrow> expdesc" where
  "init_exp k i = \<lparr>e_k = k, e_info = i, e_aux = 0, e_nval = 0, e_t = NO_JUMP, e_f = NO_JUMP\<rparr>"

definition hasmultret :: "expkind \<Rightarrow> bool" where "hasmultret k \<longleftrightarrow> k = VCALL \<or> k = VVARARG"

definition codestring :: "c_string \<Rightarrow> expdesc parse" where
  "codestring s = pbind (codes (\<lambda>fs. luaK_stringK fs s)) (\<lambda>i. preturn (init_exp VK i))"

definition checkname :: "expdesc parse" where "checkname = pbind str_checkname codestring"

section \<open>Local variables and upvalues\<close>

text \<open>The macro \<open>getlocvar\<close>: reading and writing the variable active at level \<open>i\<close>.\<close>

definition locvar_index :: "PFunc \<Rightarrow> int \<Rightarrow> nat result" where
  "locvar_index f i =
     (if 0 \<le> i \<and> i < int (length (pf_actvar f)) then
        let k = pf_actvar f ! nat i
        in if 0 \<le> k \<and> k < int (length (pf_locvars f)) then Inr (nat k) else Inl OutOfBounds
      else Inl OutOfBounds)"

definition getlocvar :: "PFunc \<Rightarrow> int \<Rightarrow> LocVar result" where
  "getlocvar f i = bind_result (locvar_index f i) (\<lambda>k. Inr (pf_locvars f ! k))"

definition setlocvar :: "(LocVar \<Rightarrow> LocVar) \<Rightarrow> PFunc \<Rightarrow> int \<Rightarrow> PFunc result" where
  "setlocvar u f i =
     bind_result (locvar_index f i) (\<lambda>k. Inr (f\<lparr>pf_locvars := (pf_locvars f)[k := u (pf_locvars f ! k)]\<rparr>))"

definition registerlocalvar :: "c_string \<Rightarrow> PFunc \<Rightarrow> (int \<times> PFunc) result" where
  "registerlocalvar vname f =
     bind_result (luaM_growvector \<lparr>varname = None, startpc = 0, endpc = 0\<rparr> (pf_locvars f) (pf_nlocvars f)
                    SHRT_MAX ''too many local variables'') (\<lambda>v. let n = pf_nlocvars f in
       if 0 \<le> n \<and> n < int (length v) then
         Inr (n, f\<lparr>pf_locvars := v[nat n := (v ! nat n)\<lparr>varname := Some vname\<rparr>], pf_nlocvars := n + 1\<rparr>)
       else Inl OutOfBounds)"

definition new_localvar :: "c_string \<Rightarrow> int \<Rightarrow> unit parse" where
  "new_localvar name n = with_func (\<lambda>ls f.
     let i = fs_nactvar (pf_fs f) + n
     in bind_result (luaY_checklimit ls f (i + 1) LUAI_MAXVARS ''local variables'') (\<lambda>_.
        bind_result (registerlocalvar name f) (\<lambda>(r, f).
          if 0 \<le> i \<and> i < int (length (pf_actvar f)) then
            Inr ((), f\<lparr>pf_actvar := (pf_actvar f)[nat i := r mod 2 ^ 16]\<rparr>)
          else Inl OutOfBounds)))"

definition new_localvarliteral :: "c_string \<Rightarrow> int \<Rightarrow> unit parse" where
  "new_localvarliteral v n = pbind (lexes (\<lambda>ls. luaX_newstring ls v)) (\<lambda>name. new_localvar name n)"

text \<open>The loops over the \<open>nvars\<close> variables that become active, and over those that end.\<close>

primrec start_vars :: "nat \<Rightarrow> PFunc \<Rightarrow> PFunc result" where
  "start_vars 0 f = Inr f"
| "start_vars (Suc n) f =
     bind_result (setlocvar (\<lambda>v. v\<lparr>startpc := fs_pc (pf_fs f)\<rparr>) f (fs_nactvar (pf_fs f) - int (Suc n))) (start_vars n)"

definition adjustlocalvars :: "int \<Rightarrow> unit parse" where
  "adjustlocalvars nvars = with_func (\<lambda>_ f.
     let fs = pf_fs f
     in bind_result (start_vars (nat nvars) (f\<lparr>pf_fs := fs\<lparr>fs_nactvar := (fs_nactvar fs + nvars) mod 256\<rparr>\<rparr>))
          (\<lambda>f. Inr ((), f)))"

primrec end_vars :: "nat \<Rightarrow> PFunc \<Rightarrow> PFunc result" where
  "end_vars 0 f = Inr f"
| "end_vars (Suc n) f =
     (let fs = pf_fs f; f = f\<lparr>pf_fs := fs\<lparr>fs_nactvar := fs_nactvar fs - 1\<rparr>\<rparr>
      in bind_result (setlocvar (\<lambda>v. v\<lparr>endpc := fs_pc fs\<rparr>) f (fs_nactvar fs - 1)) (end_vars n))"

definition removevars :: "int \<Rightarrow> unit parse" where
  "removevars tolevel = with_func (\<lambda>_ f.
     bind_result (end_vars (nat (fs_nactvar (pf_fs f) - tolevel)) f) (\<lambda>f. Inr ((), f)))"

text \<open>The search for an upvalue among those the function has.\<close>

definition same_upvalue :: "expdesc \<Rightarrow> upvaldesc \<Rightarrow> bool" where
  "same_upvalue v u \<longleftrightarrow> u_k u = e_k v \<and> u_info u = e_info v"

definition indexupvalue :: "LexState \<Rightarrow> PFunc \<Rightarrow> c_string \<Rightarrow> expdesc \<Rightarrow> (int \<times> PFunc) result" where
  "indexupvalue ls f name v =
     (case List.find (\<lambda>i. same_upvalue v (pf_updesc f ! i)) [0..<nat (pf_nups f)] of
        Some i \<Rightarrow> Inr (int i, f)
      | None \<Rightarrow>
          let n = pf_nups f
          in bind_result (luaY_checklimit ls f (n + 1) LUAI_MAXUPVALUES ''upvalues'') (\<lambda>_.
             bind_result (luaM_growvector None (pf_upvalues f) n MAX_INT []) (\<lambda>ups.
               if 0 \<le> n \<and> n < int (length ups) \<and> n < int (length (pf_updesc f)) then
                 Inr (n, f\<lparr>pf_upvalues := ups[nat n := Some name],
                           pf_updesc := (pf_updesc f)[nat n := \<lparr>u_k = e_k v, u_info = e_info v mod 256\<rparr>],
                           pf_nups := n + 1\<rparr>)
               else Inl OutOfBounds)))"

text \<open>The levels from \<open>n - 1\<close> down to 0; \<open>None\<close> is the result -1.\<close>

primrec searchvar_from :: "nat \<Rightarrow> PFunc \<Rightarrow> c_string \<Rightarrow> int option result" where
  "searchvar_from 0 f n = Inr None"
| "searchvar_from (Suc i) f n =
     bind_result (getlocvar f (int i)) (\<lambda>v.
       if varname v = Some n then Inr (Some (int i)) else searchvar_from i f n)"

definition searchvar :: "PFunc \<Rightarrow> c_string \<Rightarrow> int option result" where
  "searchvar f n = searchvar_from (nat (fs_nactvar (pf_fs f))) f n"

fun mark_block :: "BlockCnt list \<Rightarrow> int \<Rightarrow> BlockCnt list" where
  "mark_block [] level = []"
| "mark_block (bl # bls) level =
     (if bl_nactvar bl > level then bl # mark_block bls level else bl\<lparr>bl_upval := True\<rparr> # bls)"

definition markupval :: "PFunc \<Rightarrow> int \<Rightarrow> PFunc" where
  "markupval f level = f\<lparr>pf_bl := mark_block (pf_bl f) level\<rparr>"

text \<open>The functions from the current one outwards.\<close>

fun singlevaraux :: "LexState \<Rightarrow> PFunc list \<Rightarrow> c_string \<Rightarrow> bool \<Rightarrow> (expkind \<times> expdesc \<times> PFunc list) result" where
  "singlevaraux ls [] n base = Inr (VGLOBAL, init_exp VGLOBAL NO_REG, [])"
| "singlevaraux ls (f # fs) n base =
     bind_result (searchvar f n) (\<lambda>v. case v of
       Some v \<Rightarrow> Inr (VLOCAL, init_exp VLOCAL v, (if \<not> base then markupval f v else f) # fs)
     | None \<Rightarrow>
         bind_result (singlevaraux ls fs n False) (\<lambda>(k, var, fs).
           if k = VGLOBAL then Inr (VGLOBAL, var, f # fs)
           else bind_result (indexupvalue ls f n var) (\<lambda>(i, f).
                  Inr (VUPVAL, var\<lparr>e_info := i, e_k := VUPVAL\<rparr>, f # fs))))"

definition singlevar :: "expdesc parse" where
  "singlevar =
     pbind str_checkname (\<lambda>vname.
     pbind (\<lambda>ps. bind_result (singlevaraux (lexer ps) (ps_func ps # ps_prev ps) vname True)
                   (\<lambda>(k, var, fs). Inr ((k, var), ps\<lparr>ps_func := hd fs, ps_prev := tl fs\<rparr>))) (\<lambda>(k, var).
       if k = VGLOBAL then pbind (codes (\<lambda>fs. luaK_stringK fs vname)) (\<lambda>i. preturn (var\<lparr>e_info := i\<rparr>))
       else preturn var))"

text \<open>The code does not use the expression afterwards.\<close>

definition adjust_assign :: "int \<Rightarrow> int \<Rightarrow> expdesc \<Rightarrow> unit parse" where
  "adjust_assign nvars nexps e =
     (let extra = nvars - nexps
      in if hasmultret (e_k e) then
           let extra = (if extra + 1 < 0 then 0 else extra + 1)
           in pthen (codes0 (\<lambda>fs. luaK_setreturns fs e extra))
                (pwhen (extra > 1) (codes0 (\<lambda>fs. luaK_reserveregs fs (extra - 1))))
         else
           pthen (pwhen (e_k e \<noteq> VVOID) (pthen (codes (\<lambda>fs. luaK_exp2nextreg fs e)) (preturn ())))
             (pwhen (extra > 0)
                (pbind (in_fs fs_freereg) (\<lambda>reg.
                 pthen (codes0 (\<lambda>fs. luaK_reserveregs fs extra))
                   (codes0 (\<lambda>fs. luaK_nil fs reg extra))))))"

section \<open>Levels, blocks and functions\<close>

definition enterlevel :: "unit parse" where
  "enterlevel = (\<lambda>ps.
     let ps = ps\<lparr>ps_nCcalls := ps_nCcalls ps + 1\<rparr>
     in if ps_nCcalls ps > LUAI_MAXCCALLS then luaX_lexerror (lexer ps) ''chunk has too many syntax levels'' 0
        else Inr ((), ps))"

definition leavelevel :: "unit parse" where
  "leavelevel = (\<lambda>ps. Inr ((), ps\<lparr>ps_nCcalls := ps_nCcalls ps - 1\<rparr>))"

text \<open>What happens between the two.\<close>

definition nested :: "'a parse \<Rightarrow> 'a parse" where
  "nested m = pthen enterlevel (pbind m (\<lambda>r. pthen leavelevel (preturn r)))"

definition enterblock :: "bool \<Rightarrow> unit parse" where
  "enterblock breakable = upd_func (\<lambda>f. f\<lparr>pf_bl :=
     \<lparr>bl_breaklist = NO_JUMP, bl_nactvar = fs_nactvar (pf_fs f), bl_upval = False,
      bl_isbreakable = breakable\<rparr> # pf_bl f\<rparr>)"

definition current_block :: "BlockCnt parse" where
  "current_block = (\<lambda>ps. case pf_bl (ps_func ps) of [] \<Rightarrow> Inl OutOfBounds | bl # _ \<Rightarrow> Inr (bl, ps))"

definition leaveblock :: "unit parse" where
  "leaveblock =
     pbind current_block (\<lambda>bl.
     pthen (upd_func (\<lambda>f. f\<lparr>pf_bl := tl (pf_bl f)\<rparr>))
    (pthen (removevars (bl_nactvar bl))
    (pthen (pwhen (bl_upval bl) (codes0 (\<lambda>fs. drop_pc (luaK_codeABC fs OP_CLOSE (bl_nactvar bl) 0 0))))
    (pthen (upd_fs (\<lambda>fs. fs\<lparr>fs_freereg := fs_nactvar fs\<rparr>))
           (codes0 (\<lambda>fs. luaK_patchtohere fs (bl_breaklist bl)))))))"

text \<open>The instructions after a closure that say where its upvalues are.\<close>

primrec code_upvalues :: "nat \<Rightarrow> upvaldesc list \<Rightarrow> FuncState \<Rightarrow> FuncState result" where
  "code_upvalues 0 us fs = Inr fs"
| "code_upvalues (Suc n) us fs =
     (case us of
        [] \<Rightarrow> Inl OutOfBounds
      | u # us \<Rightarrow>
          bind_result (luaK_codeABC fs (if u_k u = VLOCAL then OP_MOVE else OP_GETUPVAL) 0 (u_info u) 0)
            (\<lambda>(_, fs). code_upvalues n us fs))"

definition pushclosure :: "PFunc \<Rightarrow> Proto \<Rightarrow> expdesc parse" where
  "pushclosure func p =
     pbind (with_func (\<lambda>_ f.
       bind_result (luaM_growvector None (pf_p f) (pf_np f) MAXARG_Bx ''constant table overflow'') (\<lambda>ps.
         let n = pf_np f
         in if 0 \<le> n \<and> n < int (length ps) then
              Inr (n, f\<lparr>pf_p := ps[nat n := Some p], pf_np := n + 1\<rparr>)
            else Inl OutOfBounds))) (\<lambda>n.
     pbind (codes (\<lambda>fs. luaK_codeABx fs OP_CLOSURE 0 n)) (\<lambda>pc.
     pthen (codes0 (code_upvalues (nat (pf_nups func)) (pf_updesc func)))
       (preturn (init_exp VRELOCABLE pc))))"

definition new_func :: "LexState \<Rightarrow> ptr \<Rightarrow> PFunc result" where
  "new_func ls addr =
     bind_result (luaH_new 0 0) (\<lambda>h.
       Inr \<lparr>pf_fs = \<lparr>fs_code = [], fs_lineinfo = [], fs_k = [], fs_maxstacksize = 2, fs_haddr = addr, fs_ls = ls,
                     fs_pc = 0, fs_lasttarget = - 1, fs_jpc = NO_JUMP, fs_freereg = 0, fs_nk = 0, fs_nactvar = 0\<rparr>,
            pf_h = h, pf_source = lex_source ls, pf_linedefined = 0, pf_lastlinedefined = 0, pf_numparams = 0,
            pf_is_vararg = 0, pf_locvars = [], pf_nlocvars = 0, pf_p = [], pf_np = 0, pf_upvalues = [], pf_nups = 0,
            pf_updesc = replicate (nat LUAI_MAXUPVALUES) \<lparr>u_k = VVOID, u_info = 0\<rparr>,
            pf_actvar = replicate (nat LUAI_MAXVARS) 0, pf_bl = []\<rparr>)"

definition open_func :: "unit parse" where
  "open_func = (\<lambda>ps.
     bind_result (new_func (ps_ls ps) (ps_addr ps (length (ps_prev ps) + 1))) (\<lambda>f.
       Inr ((), ps\<lparr>ps_func := f, ps_prev := ps_func ps # ps_prev ps\<rparr>)))"

text \<open>\<open>close_func\<close> cuts the arrays to their final sizes; every nested function is there by then.\<close>

definition closed_proto :: "PFunc \<Rightarrow> Proto" where
  "closed_proto f =
     (let fs = pf_fs f
      in Proto (take (nat (fs_nk fs)) (fs_k fs)) (take (nat (fs_pc fs)) (fs_code fs))
           (map the (take (nat (pf_np f)) (pf_p f))) (take (nat (fs_pc fs)) (fs_lineinfo fs))
           (take (nat (pf_nlocvars f)) (pf_locvars f)) (take (nat (pf_nups f)) (pf_upvalues f)) (Some (pf_source f))
           (pf_linedefined f) (pf_lastlinedefined f) (word_of_int (pf_nups f)) (pf_numparams f) (pf_is_vararg f)
           (word_of_int (fs_maxstacksize fs)))"

text \<open>
  The result is the closed function and its prototype. After the main function there is no
  function left that could anchor the last token, which is then the end of the stream.
\<close>

definition close_func :: "(PFunc \<times> Proto) parse" where
  "close_func =
     pthen (removevars 0)
    (pthen (codes0 (\<lambda>fs. luaK_ret fs 0 0))
    (pbind (reads (\<lambda>ps. (ps_func ps, ps_prev ps))) (\<lambda>(f, prevs). case prevs of
       [] \<Rightarrow> pbind curtoken (\<lambda>t. if t = TK_NAME \<or> t = TK_STRING then (\<lambda>_. Inl OutOfBounds)
                                 else preturn (f, closed_proto f))
     | g # gs \<Rightarrow>
         pthen (\<lambda>ps. Inr ((), ps\<lparr>ps_func := g, ps_prev := gs\<rparr>))
        (pthen anchor_token (preturn (f, closed_proto f))))))"

section \<open>The grammar: expressions\<close>

definition expr :: "parsers \<Rightarrow> expdesc parse" where
  "expr R = pbind (r_subexpr R 0) (\<lambda>(_, v). preturn v)"

definition tk :: "char \<Rightarrow> int" where "tk c = uchar c"

text \<open>Calls of the code generator on an expression.\<close>

definition exp2nextreg :: "expdesc \<Rightarrow> expdesc parse" where
  "exp2nextreg e = codes (\<lambda>fs. luaK_exp2nextreg fs e)"

definition exp2anyreg :: "expdesc \<Rightarrow> (int \<times> expdesc) parse" where
  "exp2anyreg e = codes2 (\<lambda>fs. luaK_exp2anyreg fs e)"

definition indexed :: "expdesc \<Rightarrow> expdesc \<Rightarrow> expdesc parse" where
  "indexed t k = pbind (codes2 (\<lambda>fs. luaK_indexed fs t k)) (\<lambda>(t, _). preturn t)"

definition field :: "expdesc \<Rightarrow> expdesc parse" where
  "field v =
     pbind (exp2anyreg v) (\<lambda>(_, v).
     pthen p_next (pbind checkname (\<lambda>key. indexed v key)))"

definition yindex :: "parsers \<Rightarrow> expdesc parse" where
  "yindex R =
     pthen p_next
    (pbind (expr R) (\<lambda>v.
     pbind (codes (\<lambda>fs. luaK_exp2val fs v)) (\<lambda>v.
     pthen (checknext (tk CHR '']'')) (preturn v))))"

record ConsControl =
  cc_v :: expdesc
  cc_t :: expdesc
  cc_nh :: int
  cc_na :: int
  cc_tostore :: int

definition recfield :: "parsers \<Rightarrow> ConsControl \<Rightarrow> ConsControl parse" where
  "recfield R cc =
     pbind (in_fs fs_freereg) (\<lambda>reg.
     pbind curtoken (\<lambda>t.
     pbind (if t = TK_NAME then
              pthen (with_func (\<lambda>ls f. bind_result (luaY_checklimit ls f (cc_nh cc) MAX_INT ''items in a constructor'')
                                  (\<lambda>_. Inr ((), f))))
                checkname
            else yindex R) (\<lambda>key.
     pthen (checknext (tk CHR ''=''))
    (pbind (codes2 (\<lambda>fs. luaK_exp2RK fs key)) (\<lambda>(rkkey, _).
     pbind (expr R) (\<lambda>val.
     pbind (codes2 (\<lambda>fs. luaK_exp2RK fs val)) (\<lambda>(rkval, _).
     pthen (codes0 (\<lambda>fs. drop_pc (luaK_codeABC fs OP_SETTABLE (e_info (cc_t cc)) rkkey rkval)))
    (pthen (upd_fs (\<lambda>fs. fs\<lparr>fs_freereg := reg\<rparr>))
           (preturn (cc\<lparr>cc_nh := cc_nh cc + 1\<rparr>))))))))))"

definition closelistfield :: "ConsControl \<Rightarrow> ConsControl parse" where
  "closelistfield cc =
     (if e_k (cc_v cc) = VVOID then preturn cc
      else pbind (exp2nextreg (cc_v cc)) (\<lambda>v.
           let cc = cc\<lparr>cc_v := v\<lparr>e_k := VVOID\<rparr>\<rparr>
           in if cc_tostore cc = LFIELDS_PER_FLUSH then
                pthen (codes0 (\<lambda>fs. luaK_setlist fs (e_info (cc_t cc)) (cc_na cc) (cc_tostore cc)))
                      (preturn (cc\<lparr>cc_tostore := 0\<rparr>))
              else preturn cc))"

definition lastlistfield :: "ConsControl \<Rightarrow> ConsControl parse" where
  "lastlistfield cc =
     (if cc_tostore cc = 0 then preturn cc
      else if hasmultret (e_k (cc_v cc)) then
        pthen (codes0 (\<lambda>fs. luaK_setreturns fs (cc_v cc) LUA_MULTRET))
       (pthen (codes0 (\<lambda>fs. luaK_setlist fs (e_info (cc_t cc)) (cc_na cc) LUA_MULTRET))
              (preturn (cc\<lparr>cc_na := cc_na cc - 1\<rparr>)))
      else
        pbind (if e_k (cc_v cc) \<noteq> VVOID then exp2nextreg (cc_v cc) else preturn (cc_v cc)) (\<lambda>v.
        pthen (codes0 (\<lambda>fs. luaK_setlist fs (e_info (cc_t cc)) (cc_na cc) (cc_tostore cc)))
              (preturn (cc\<lparr>cc_v := v\<rparr>))))"

definition listfield :: "parsers \<Rightarrow> ConsControl \<Rightarrow> ConsControl parse" where
  "listfield R cc =
     pbind (expr R) (\<lambda>v.
     pthen (with_func (\<lambda>ls f. bind_result (luaY_checklimit ls f (cc_na cc) MAX_INT ''items in a constructor'')
                         (\<lambda>_. Inr ((), f))))
           (preturn (cc\<lparr>cc_v := v, cc_na := cc_na cc + 1, cc_tostore := cc_tostore cc + 1\<rparr>)))"

text \<open>One round of the loop over the items; \<open>Inr\<close> ends it.\<close>

definition constructor_item :: "parsers \<Rightarrow> ConsControl \<Rightarrow> (ConsControl + ConsControl) parse" where
  "constructor_item R cc =
     pbind curtoken (\<lambda>t.
       if t = tk CHR ''}'' then preturn (Inr cc)
       else
         pbind (closelistfield cc) (\<lambda>cc.
         pbind curtoken (\<lambda>t.
         pbind (if t = TK_NAME then
                  pthen p_lookahead
                 (pbind (in_ls (\<lambda>ls. token (lookahead ls))) (\<lambda>t.
                    if t \<noteq> tk CHR ''='' then listfield R cc else recfield R cc))
                else if t = tk CHR ''['' then recfield R cc
                else listfield R cc) (\<lambda>cc.
         pbind (testnext (tk CHR '','')) (\<lambda>b.
         pbind (if b then preturn True else testnext (tk CHR '';'')) (\<lambda>b.
           preturn (if b then Inl cc else Inr cc)))))))"

definition constructor :: "parsers \<Rightarrow> expdesc parse" where
  "constructor R =
     pbind (in_ls linenumber) (\<lambda>line.
     pbind (codes (\<lambda>fs. luaK_codeABC fs OP_NEWTABLE 0 0 0)) (\<lambda>pc.
     pbind (exp2nextreg (init_exp VRELOCABLE pc)) (\<lambda>t.
     pthen (checknext (tk CHR ''{''))
    (pbind (ploop R (constructor_item R)
              \<lparr>cc_v = init_exp VVOID 0, cc_t = t, cc_nh = 0, cc_na = 0, cc_tostore = 0\<rparr>) (\<lambda>cc.
     pthen (check_match (tk CHR ''}'') (tk CHR ''{'') line)
    (pbind (lastlistfield cc) (\<lambda>cc.
     pthen (codes0 (\<lambda>fs.
              bind_result (code_get fs pc) (\<lambda>i.
              bind_result (code_put fs pc (SETARG_B i (luaO_int2fb (cc_na cc)))) (\<lambda>fs.
              bind_result (code_get fs pc) (\<lambda>i.
                code_put fs pc (SETARG_C i (luaO_int2fb (cc_nh cc))))))))
           (preturn t))))))))"

definition parlist_item :: "int \<Rightarrow> (int + int) parse" where
  "parlist_item nparams =
     pbind curtoken (\<lambda>t.
     pthen (if t = TK_NAME then pbind str_checkname (\<lambda>name. new_localvar name nparams)
            else if t = TK_DOTS then
              pthen p_next
             (pthen (new_localvarliteral ''arg'' nparams)
             (pthen (upd_func (\<lambda>f. f\<lparr>pf_is_vararg := word_of_int (VARARG_HASARG OR VARARG_NEEDSARG)\<rparr>))
                    (upd_func (\<lambda>f. f\<lparr>pf_is_vararg := pf_is_vararg f OR word_of_int VARARG_ISVARARG\<rparr>))))
            else syntax_error (''<name> or '' @ LUA_QL ''...'' @ '' expected''))
    (pbind (in_func pf_is_vararg) (\<lambda>va.
     pbind (if va = 0 then testnext (tk CHR '','') else preturn False) (\<lambda>b.
       preturn (if b then Inl (nparams + 1) else Inr (nparams + 1))))))"

definition parlist :: "parsers \<Rightarrow> unit parse" where
  "parlist R =
     pthen (upd_func (\<lambda>f. f\<lparr>pf_is_vararg := 0\<rparr>))
    (pbind curtoken (\<lambda>t.
     pbind (if t \<noteq> tk CHR '')'' then ploop R parlist_item 0 else preturn 0) (\<lambda>nparams.
     pthen (adjustlocalvars nparams)
    (pthen (upd_func (\<lambda>f. f\<lparr>pf_numparams :=
              word_of_int (fs_nactvar (pf_fs f)) - (pf_is_vararg f AND word_of_int VARARG_HASARG)\<rparr>))
           (codes0 (\<lambda>fs. luaK_reserveregs fs (fs_nactvar fs)))))))"

definition body :: "parsers \<Rightarrow> bool \<Rightarrow> int \<Rightarrow> expdesc parse" where
  "body R needself line =
     pthen open_func
    (pthen (upd_func (\<lambda>f. f\<lparr>pf_linedefined := line\<rparr>))
    (pthen (checknext (tk CHR ''(''))
    (pthen (pwhen needself (pthen (new_localvarliteral ''self'' 0) (adjustlocalvars 1)))
    (pthen (parlist R)
    (pthen (checknext (tk CHR '')''))
    (pthen (r_chunk R)
    (pbind (in_ls linenumber) (\<lambda>lastln.
     pthen (upd_func (\<lambda>f. f\<lparr>pf_lastlinedefined := lastln\<rparr>))
    (pthen (check_match TK_END TK_FUNCTION line)
    (pbind close_func (\<lambda>(f, p). pushclosure f p)))))))))))"

definition explist1 :: "parsers \<Rightarrow> (int \<times> expdesc) parse" where
  "explist1 R =
     pbind (expr R) (\<lambda>v.
       ploop R (\<lambda>(n, v).
         pbind (testnext (tk CHR '','')) (\<lambda>b.
           if b then pbind (exp2nextreg v) (\<lambda>_. pbind (expr R) (\<lambda>v. preturn (Inl (n + 1, v))))
           else preturn (Inr (n, v)))) (1, v))"

definition funcargs :: "parsers \<Rightarrow> expdesc \<Rightarrow> expdesc parse" where
  "funcargs R f =
     pbind (in_ls linenumber) (\<lambda>line.
     pbind curtoken (\<lambda>t.
     pbind
       (if t = tk CHR ''('' then
          pbind (in_ls lastline) (\<lambda>lastln.
          pthen (pwhen (line \<noteq> lastln) (syntax_error ''ambiguous syntax (function call x new statement)''))
         (pthen p_next
         (pbind curtoken (\<lambda>t.
          pbind (if t = tk CHR '')'' then preturn (init_exp VVOID 0)
                 else pbind (explist1 R) (\<lambda>(_, e).
                      pthen (codes0 (\<lambda>fs. luaK_setreturns fs e LUA_MULTRET)) (preturn e))) (\<lambda>e.
          pthen (check_match (tk CHR '')'') (tk CHR ''('') line) (preturn e))))))
        else if t = tk CHR ''{'' then constructor R
        else if t = TK_STRING then
          pbind token_string (\<lambda>s. pbind (codestring s) (\<lambda>e. pthen p_next (preturn e)))
        else syntax_error ''function arguments expected'') (\<lambda>e.
     pbind
       (if hasmultret (e_k e) then preturn LUA_MULTRET
        else pthen (pwhen (e_k e \<noteq> VVOID) (pbind (exp2nextreg e) (\<lambda>_. preturn ())))
               (in_fs (\<lambda>fs. fs_freereg fs - (e_info f + 1)))) (\<lambda>nparams.
     pbind (codes (\<lambda>fs. luaK_codeABC fs OP_CALL (e_info f) (nparams + 1) 2)) (\<lambda>pc.
     pthen (codes0 (\<lambda>fs. luaK_fixline fs line))
    (pthen (upd_fs (\<lambda>fs. fs\<lparr>fs_freereg := e_info f + 1\<rparr>))
           (preturn (init_exp VCALL pc))))))))"

definition prefixexp :: "parsers \<Rightarrow> expdesc parse" where
  "prefixexp R =
     pbind curtoken (\<lambda>t.
       if t = tk CHR ''('' then
         pbind (in_ls linenumber) (\<lambda>line.
         pthen p_next
        (pbind (expr R) (\<lambda>v.
         pthen (check_match (tk CHR '')'') (tk CHR ''('') line)
               (codes (\<lambda>fs. luaK_dischargevars fs v)))))
       else if t = TK_NAME then singlevar
       else syntax_error ''unexpected symbol'')"

definition primary_suffix :: "parsers \<Rightarrow> expdesc \<Rightarrow> (expdesc + expdesc) parse" where
  "primary_suffix R v =
     pbind curtoken (\<lambda>t.
       if t = tk CHR ''.'' then pbind (field v) (\<lambda>v. preturn (Inl v))
       else if t = tk CHR ''['' then
         pbind (exp2anyreg v) (\<lambda>(_, v).
         pbind (yindex R) (\<lambda>key.
         pbind (indexed v key) (\<lambda>v. preturn (Inl v))))
       else if t = tk CHR '':'' then
         pthen p_next
        (pbind checkname (\<lambda>key.
         pbind (codes2 (\<lambda>fs. luaK_self fs v key)) (\<lambda>(v, _).
         pbind (funcargs R v) (\<lambda>v. preturn (Inl v)))))
       else if t = tk CHR ''('' \<or> t = TK_STRING \<or> t = tk CHR ''{'' then
         pbind (exp2nextreg v) (\<lambda>v.
         pbind (funcargs R v) (\<lambda>v. preturn (Inl v)))
       else preturn (Inr v))"

definition primaryexp :: "parsers \<Rightarrow> expdesc parse" where
  "primaryexp R = pbind (prefixexp R) (\<lambda>v. ploop R (primary_suffix R) v)"

definition simpleexp :: "parsers \<Rightarrow> expdesc parse" where
  "simpleexp R =
     pbind curtoken (\<lambda>t.
       if t = TK_NUMBER then
         pbind token_number (\<lambda>r. pthen p_next (preturn ((init_exp VKNUM 0)\<lparr>e_nval := r\<rparr>)))
       else if t = TK_STRING then
         pbind token_string (\<lambda>s. pbind (codestring s) (\<lambda>v. pthen p_next (preturn v)))
       else if t = TK_NIL then pthen p_next (preturn (init_exp VNIL 0))
       else if t = TK_TRUE then pthen p_next (preturn (init_exp VTRUE 0))
       else if t = TK_FALSE then pthen p_next (preturn (init_exp VFALSE 0))
       else if t = TK_DOTS then
         pbind (in_func pf_is_vararg) (\<lambda>va.
         pthen (check_condition (va \<noteq> 0) (''cannot use '' @ LUA_QL ''...'' @ '' outside a vararg function''))
        (pthen (upd_func (\<lambda>f. f\<lparr>pf_is_vararg := pf_is_vararg f AND NOT (word_of_int VARARG_NEEDSARG)\<rparr>))
        (pbind (codes (\<lambda>fs. luaK_codeABC fs OP_VARARG 0 1 0)) (\<lambda>pc.
         pthen p_next (preturn (init_exp VVARARG pc))))))
       else if t = tk CHR ''{'' then constructor R
       else if t = TK_FUNCTION then
         pthen p_next (pbind (in_ls linenumber) (\<lambda>line. body R False line))
       else primaryexp R)"

definition getunopr :: "int \<Rightarrow> UnOpr" where
  "getunopr t =
     (if t = TK_NOT then OPR_NOT else if t = tk CHR ''-'' then OPR_MINUS
      else if t = tk CHR ''#'' then OPR_LEN else OPR_NOUNOPR)"

definition getbinopr :: "int \<Rightarrow> BinOpr" where
  "getbinopr t =
     (if t = tk CHR ''+'' then OPR_ADD
      else if t = tk CHR ''-'' then OPR_SUB
      else if t = tk CHR ''*'' then OPR_MUL
      else if t = tk CHR ''/'' then OPR_DIV
      else if t = tk CHR ''%'' then OPR_MOD
      else if t = tk CHR ''^'' then OPR_POW
      else if t = TK_CONCAT then OPR_CONCAT
      else if t = TK_NE then OPR_NE
      else if t = TK_EQ then OPR_EQ
      else if t = tk CHR ''<'' then OPR_LT
      else if t = TK_LE then OPR_LE
      else if t = tk CHR ''>'' then OPR_GT
      else if t = TK_GE then OPR_GE
      else if t = TK_AND then OPR_AND
      else if t = TK_OR then OPR_OR
      else OPR_NOBINOPR)"

text \<open>The table \<open>priority\<close>: the left and the right priority of each operator.\<close>

fun priority :: "BinOpr \<Rightarrow> int \<times> int" where
  "priority OPR_ADD = (6, 6)"
| "priority OPR_SUB = (6, 6)"
| "priority OPR_MUL = (7, 7)"
| "priority OPR_DIV = (7, 7)"
| "priority OPR_MOD = (7, 7)"
| "priority OPR_POW = (10, 9)"
| "priority OPR_CONCAT = (5, 4)"
| "priority OPR_NE = (3, 3)"
| "priority OPR_EQ = (3, 3)"
| "priority OPR_LT = (3, 3)"
| "priority OPR_LE = (3, 3)"
| "priority OPR_GT = (3, 3)"
| "priority OPR_GE = (3, 3)"
| "priority OPR_AND = (2, 2)"
| "priority OPR_OR = (1, 1)"
| "priority OPR_NOBINOPR = (0, 0)"

definition UNARY_PRIORITY :: int where "UNARY_PRIORITY = 8"

text \<open>One operator with its right operand.\<close>

definition subexpr_step ::
    "power \<Rightarrow> parsers \<Rightarrow> int \<Rightarrow> BinOpr \<times> expdesc \<Rightarrow> ((BinOpr \<times> expdesc) + (BinOpr \<times> expdesc)) parse" where
  "subexpr_step pow R limit = (\<lambda>(opr, v).
     if opr \<noteq> OPR_NOBINOPR \<and> fst (priority opr) > limit then
       pthen p_next
      (pbind (codes (\<lambda>fs. luaK_infix fs opr v)) (\<lambda>v.
       pbind (r_subexpr R (snd (priority opr))) (\<lambda>(nextop, v2).
       pbind (codes2 (\<lambda>fs. luaK_posfix pow fs opr v v2)) (\<lambda>(v, _).
         preturn (Inl (nextop, v))))))
     else preturn (Inr (opr, v)))"

definition subexpr_body :: "power \<Rightarrow> parsers \<Rightarrow> int \<Rightarrow> (BinOpr \<times> expdesc) parse" where
  "subexpr_body pow R limit =
     pbind curtoken (\<lambda>t.
     pbind
       (let uop = getunopr t
        in if uop \<noteq> OPR_NOUNOPR then
             pthen p_next
            (pbind (r_subexpr R UNARY_PRIORITY) (\<lambda>(_, v). codes (\<lambda>fs. luaK_prefix pow fs uop v)))
           else simpleexp R) (\<lambda>v.
     pbind curtoken (\<lambda>t. ploop R (subexpr_step pow R limit) (getbinopr t, v))))"

definition subexpr :: "power \<Rightarrow> parsers \<Rightarrow> int \<Rightarrow> (BinOpr \<times> expdesc) parse" where
  "subexpr pow R limit = nested (subexpr_body pow R limit)"

section \<open>The grammar: statements\<close>

definition block_follow :: "int \<Rightarrow> bool" where
  "block_follow t \<longleftrightarrow> t = TK_ELSE \<or> t = TK_ELSEIF \<or> t = TK_END \<or> t = TK_UNTIL \<or> t = TK_EOS"

definition block :: "parsers \<Rightarrow> unit parse" where
  "block R = pthen (enterblock False) (pthen (r_chunk R) leaveblock)"

text \<open>
  The left-hand sides of an assignment are the list \<open>lhs\<close>, the last one first. In
  \<open>check_conflict\<close> every one that uses the local variable gets the copy of it.
\<close>

definition use_copy :: "int \<Rightarrow> int \<Rightarrow> expdesc \<Rightarrow> expdesc" where
  "use_copy var extra e =
     (if e_k e = VINDEXED then
        let e = (if e_info e = var then e\<lparr>e_info := extra\<rparr> else e)
        in if e_aux e = var then e\<lparr>e_aux := extra\<rparr> else e
      else e)"

definition conflicts :: "int \<Rightarrow> expdesc \<Rightarrow> bool" where
  "conflicts var e \<longleftrightarrow> e_k e = VINDEXED \<and> (e_info e = var \<or> e_aux e = var)"

definition check_conflict :: "expdesc list \<Rightarrow> expdesc \<Rightarrow> expdesc list parse" where
  "check_conflict lhs v =
     pbind (in_fs fs_freereg) (\<lambda>extra.
     pthen (pwhen (\<exists>e \<in> set lhs. conflicts (e_info v) e)
              (pthen (codes0 (\<lambda>fs. drop_pc (luaK_codeABC fs OP_MOVE (fs_freereg fs) (e_info v) 0)))
                     (codes0 (\<lambda>fs. luaK_reserveregs fs 1))))
           (preturn (map (use_copy (e_info v) extra) lhs)))"

definition storevar :: "expdesc \<Rightarrow> expdesc \<Rightarrow> unit parse" where
  "storevar var e = pbind (codes (\<lambda>fs. luaK_storevar fs var e)) (\<lambda>_. preturn ())"

definition default_assign :: "expdesc \<Rightarrow> unit parse" where
  "default_assign v = pbind (in_fs fs_freereg) (\<lambda>free. storevar v (init_exp VNONRELOC (free - 1)))"

definition is_variable :: "expkind \<Rightarrow> bool" where
  "is_variable k \<longleftrightarrow> k = VLOCAL \<or> k = VUPVAL \<or> k = VGLOBAL \<or> k = VINDEXED"

text \<open>
  \<open>assignment\<close> calls itself for each further variable and stores into that variable on the way
  back; the check for conflicts happens before, and changes the expressions of all earlier ones.
  The result are the expressions as they are after the call.
\<close>

primrec assignment :: "nat \<Rightarrow> parsers \<Rightarrow> expdesc list \<Rightarrow> int \<Rightarrow> expdesc list parse" where
  "assignment 0 R lhs nvars = (\<lambda>_. Inl (r_cut R))"
| "assignment (Suc n) R lhs nvars =
     pthen (check_condition (is_variable (e_k (hd lhs))) ''syntax error'')
    (pbind (testnext (tk CHR '','')) (\<lambda>b.
       if b then
         pbind (primaryexp R) (\<lambda>nv.
         pbind (if e_k nv = VLOCAL then check_conflict lhs nv else preturn lhs) (\<lambda>lhs.
         pbind (assignment n R (nv # lhs) (nvars + 1)) (\<lambda>lhs.
         pthen (default_assign (hd (tl lhs))) (preturn (tl lhs)))))
       else
         pthen (checknext (tk CHR ''=''))
        (pbind (explist1 R) (\<lambda>(nexps, e).
           if nexps \<noteq> nvars then
             pthen (adjust_assign nvars nexps e)
            (pthen (pwhen (nexps > nvars) (upd_fs (\<lambda>fs. fs\<lparr>fs_freereg := fs_freereg fs - (nexps - nvars)\<rparr>)))
            (pthen (default_assign (hd lhs)) (preturn lhs)))
           else
             pbind (codes (\<lambda>fs. luaK_setoneret fs e)) (\<lambda>e.
             pthen (storevar (hd lhs) e) (preturn lhs))))))"

definition cond :: "parsers \<Rightarrow> int parse" where
  "cond R =
     pbind (expr R) (\<lambda>v.
     pbind (codes (\<lambda>fs. luaK_goiftrue fs (if e_k v = VNIL then v\<lparr>e_k := VFALSE\<rparr> else v))) (\<lambda>v.
       preturn (e_f v)))"

text \<open>The blocks inside the closest breakable one, which is the first of the rest.\<close>

definition break_target :: "BlockCnt list \<Rightarrow> BlockCnt list \<times> BlockCnt list" where
  "break_target bls = (takeWhile (\<lambda>b. \<not> bl_isbreakable b) bls, dropWhile (\<lambda>b. \<not> bl_isbreakable b) bls)"

definition breakstat :: "unit parse" where
  "breakstat =
     pbind (in_func (\<lambda>f. break_target (pf_bl f))) (\<lambda>(inner, rest). case rest of
       [] \<Rightarrow> syntax_error ''no loop to break''
     | bl # outer \<Rightarrow>
         pthen (pwhen (\<exists>b \<in> set inner. bl_upval b)
                  (codes0 (\<lambda>fs. drop_pc (luaK_codeABC fs OP_CLOSE (bl_nactvar bl) 0 0))))
        (pbind (codes luaK_jump) (\<lambda>j.
         pbind (codes (\<lambda>fs. luaK_concat fs (bl_breaklist bl) j)) (\<lambda>l.
           upd_func (\<lambda>f. f\<lparr>pf_bl := inner @ bl\<lparr>bl_breaklist := l\<rparr> # outer\<rparr>)))))"

definition getlabel :: "int parse" where "getlabel = codes (\<lambda>fs. Inr (luaK_getlabel fs))"

definition whilestat :: "parsers \<Rightarrow> int \<Rightarrow> unit parse" where
  "whilestat R line =
     pthen p_next
    (pbind getlabel (\<lambda>whileinit.
     pbind (cond R) (\<lambda>condexit.
     pthen (enterblock True)
    (pthen (checknext TK_DO)
    (pthen (block R)
    (pbind (codes luaK_jump) (\<lambda>j.
     pthen (codes0 (\<lambda>fs. luaK_patchlist fs j whileinit))
    (pthen (check_match TK_END TK_WHILE line)
    (pthen leaveblock
           (codes0 (\<lambda>fs. luaK_patchtohere fs condexit)))))))))))"

definition repeatstat :: "parsers \<Rightarrow> int \<Rightarrow> unit parse" where
  "repeatstat R line =
     pbind getlabel (\<lambda>repeat_init.
     pthen (enterblock True)
    (pthen (enterblock False)
    (pthen p_next
    (pthen (r_chunk R)
    (pthen (check_match TK_UNTIL TK_REPEAT line)
    (pbind (cond R) (\<lambda>condexit.
     pbind current_block (\<lambda>bl2.
     pthen
       (if \<not> bl_upval bl2 then
          pthen leaveblock (codes0 (\<lambda>fs. luaK_patchlist fs condexit repeat_init))
        else
          pthen breakstat
         (pthen (codes0 (\<lambda>fs. luaK_patchtohere fs condexit))
         (pthen leaveblock
         (pbind (codes luaK_jump) (\<lambda>j. codes0 (\<lambda>fs. luaK_patchlist fs j repeat_init))))))
       leaveblock))))))))"

definition exp1 :: "parsers \<Rightarrow> expkind parse" where
  "exp1 R = pbind (expr R) (\<lambda>e. pbind (exp2nextreg e) (\<lambda>_. preturn (e_k e)))"

definition forbody :: "parsers \<Rightarrow> int \<Rightarrow> int \<Rightarrow> int \<Rightarrow> bool \<Rightarrow> unit parse" where
  "forbody R base line nvars isnum =
     pthen (adjustlocalvars 3)
    (pthen (checknext TK_DO)
    (pbind (codes (\<lambda>fs. if isnum then luaK_codeAsBx fs OP_FORPREP base NO_JUMP else luaK_jump fs)) (\<lambda>prep.
     pthen (enterblock False)
    (pthen (adjustlocalvars nvars)
    (pthen (codes0 (\<lambda>fs. luaK_reserveregs fs nvars))
    (pthen (block R)
    (pthen leaveblock
    (pthen (codes0 (\<lambda>fs. luaK_patchtohere fs prep))
    (pbind (codes (\<lambda>fs. if isnum then luaK_codeAsBx fs OP_FORLOOP base NO_JUMP
                         else luaK_codeABC fs OP_TFORLOOP base 0 nvars)) (\<lambda>endfor.
     pthen (codes0 (\<lambda>fs. luaK_fixline fs line))
    (pbind (if isnum then preturn endfor else codes luaK_jump) (\<lambda>l.
     codes0 (\<lambda>fs. luaK_patchlist fs l (prep + 1))))))))))))))"

definition fornum :: "parsers \<Rightarrow> c_string \<Rightarrow> int \<Rightarrow> unit parse" where
  "fornum R vname line =
     pbind (in_fs fs_freereg) (\<lambda>base.
     pthen (new_localvarliteral ''(for index)'' 0)
    (pthen (new_localvarliteral ''(for limit)'' 1)
    (pthen (new_localvarliteral ''(for step)'' 2)
    (pthen (new_localvar vname 3)
    (pthen (checknext (tk CHR ''=''))
    (pthen (exp1 R)
    (pthen (checknext (tk CHR '',''))
    (pthen (exp1 R)
    (pbind (testnext (tk CHR '','')) (\<lambda>b.
     pthen
       (if b then pthen (exp1 R) (preturn ())
        else pbind (codes (\<lambda>fs. luaK_numberK fs 1)) (\<lambda>k.
             pthen (codes0 (\<lambda>fs. drop_pc (luaK_codeABx fs OP_LOADK (fs_freereg fs) k)))
                   (codes0 (\<lambda>fs. luaK_reserveregs fs 1))))
       (forbody R base line 1 True)))))))))))"

definition forlist :: "parsers \<Rightarrow> c_string \<Rightarrow> unit parse" where
  "forlist R indexname =
     pbind (in_fs fs_freereg) (\<lambda>base.
     pthen (new_localvarliteral ''(for generator)'' 0)
    (pthen (new_localvarliteral ''(for state)'' 1)
    (pthen (new_localvarliteral ''(for control)'' 2)
    (pthen (new_localvar indexname 3)
    (pbind (ploop R (\<lambda>nvars.
              pbind (testnext (tk CHR '','')) (\<lambda>b.
                if b then pbind str_checkname (\<lambda>n. pthen (new_localvar n nvars) (preturn (Inl (nvars + 1))))
                else preturn (Inr nvars))) 4) (\<lambda>nvars.
     pthen (checknext TK_IN)
    (pbind (in_ls linenumber) (\<lambda>line.
     pbind (explist1 R) (\<lambda>(nexps, e).
     pthen (adjust_assign 3 nexps e)
    (pthen (codes0 (\<lambda>fs. luaK_checkstack fs 3))
           (forbody R base line (nvars - 3) False)))))))))))"

definition forstat :: "parsers \<Rightarrow> int \<Rightarrow> unit parse" where
  "forstat R line =
     pthen (enterblock True)
    (pthen p_next
    (pbind str_checkname (\<lambda>vname.
     pbind curtoken (\<lambda>t.
     pthen
       (if t = tk CHR ''='' then fornum R vname line
        else if t = tk CHR '','' \<or> t = TK_IN then forlist R vname
        else syntax_error (LUA_QL ''='' @ '' or '' @ LUA_QL ''in'' @ '' expected''))
    (pthen (check_match TK_END TK_FOR line) leaveblock)))))"

definition test_then_block :: "parsers \<Rightarrow> int parse" where
  "test_then_block R =
     pthen p_next
    (pbind (cond R) (\<lambda>condexit.
     pthen (checknext TK_THEN) (pthen (block R) (preturn condexit))))"

text \<open>After a block: its jump to the end, and the place its condition jumps to.\<close>

definition escape_jump :: "int \<Rightarrow> int parse" where
  "escape_jump escapelist =
     pbind (codes luaK_jump) (\<lambda>j. codes (\<lambda>fs. luaK_concat fs escapelist j))"

definition ifstat :: "parsers \<Rightarrow> int \<Rightarrow> unit parse" where
  "ifstat R line =
     pbind (test_then_block R) (\<lambda>flist.
     pbind (ploop R (\<lambda>(escapelist, flist).
              pbind curtoken (\<lambda>t.
                if t = TK_ELSEIF then
                  pbind (escape_jump escapelist) (\<lambda>escapelist.
                  pthen (codes0 (\<lambda>fs. luaK_patchtohere fs flist))
                 (pbind (test_then_block R) (\<lambda>flist. preturn (Inl (escapelist, flist)))))
                else preturn (Inr (escapelist, flist)))) (NO_JUMP, flist)) (\<lambda>(escapelist, flist).
     pbind curtoken (\<lambda>t.
     pbind
       (if t = TK_ELSE then
          pbind (escape_jump escapelist) (\<lambda>escapelist.
          pthen (codes0 (\<lambda>fs. luaK_patchtohere fs flist))
         (pthen p_next
         (pthen (block R) (preturn escapelist))))
        else codes (\<lambda>fs. luaK_concat fs escapelist flist)) (\<lambda>escapelist.
     pthen (codes0 (\<lambda>fs. luaK_patchtohere fs escapelist))
           (check_match TK_END TK_IF line)))))"

definition localfunc :: "parsers \<Rightarrow> unit parse" where
  "localfunc R =
     pbind str_checkname (\<lambda>name.
     pthen (new_localvar name 0)
    (pbind (in_fs fs_freereg) (\<lambda>free.
     pthen (codes0 (\<lambda>fs. luaK_reserveregs fs 1))
    (pthen (adjustlocalvars 1)
    (pbind (in_ls linenumber) (\<lambda>line.
     pbind (body R False line) (\<lambda>b.
     pthen (storevar (init_exp VLOCAL free) b)
           (with_func (\<lambda>_ f.
              bind_result (setlocvar (\<lambda>v. v\<lparr>startpc := fs_pc (pf_fs f)\<rparr>) f (fs_nactvar (pf_fs f) - 1))
                (\<lambda>f. Inr ((), f)))))))))))"

definition localstat :: "parsers \<Rightarrow> unit parse" where
  "localstat R =
     pbind (ploop R (\<lambda>nvars.
              pbind str_checkname (\<lambda>name.
              pthen (new_localvar name nvars)
             (pbind (testnext (tk CHR '','')) (\<lambda>b.
                preturn (if b then Inl (nvars + 1) else Inr (nvars + 1)))))) 0) (\<lambda>nvars.
     pbind (testnext (tk CHR ''='')) (\<lambda>b.
     pbind (if b then explist1 R else preturn (0, init_exp VVOID 0)) (\<lambda>(nexps, e).
     pthen (adjust_assign nvars nexps e)
           (adjustlocalvars nvars))))"

definition funcname :: "parsers \<Rightarrow> (bool \<times> expdesc) parse" where
  "funcname R =
     pbind singlevar (\<lambda>v.
     pbind (ploop R (\<lambda>v.
              pbind curtoken (\<lambda>t.
                if t = tk CHR ''.'' then pbind (field v) (\<lambda>v. preturn (Inl v)) else preturn (Inr v))) v) (\<lambda>v.
     pbind curtoken (\<lambda>t.
       if t = tk CHR '':'' then pbind (field v) (\<lambda>v. preturn (True, v)) else preturn (False, v))))"

definition funcstat :: "parsers \<Rightarrow> int \<Rightarrow> unit parse" where
  "funcstat R line =
     pthen p_next
    (pbind (funcname R) (\<lambda>(needself, v).
     pbind (body R needself line) (\<lambda>b.
     pthen (storevar v b)
           (codes0 (\<lambda>fs. luaK_fixline fs line)))))"

definition exprstat :: "parsers \<Rightarrow> unit parse" where
  "exprstat R =
     pbind (primaryexp R) (\<lambda>v.
       if e_k v = VCALL then
         codes0 (\<lambda>fs. bind_result (getcode fs v) (\<lambda>i. setcode fs v (SETARG_C i 1)))
       else (\<lambda>ps. pbind (assignment (r_rounds R ps) R [v] 1) (\<lambda>_. preturn ()) ps))"

definition retstat :: "parsers \<Rightarrow> unit parse" where
  "retstat R =
     pthen p_next
    (pbind curtoken (\<lambda>t.
     pbind
       (if block_follow t \<or> t = tk CHR '';'' then preturn (0, 0)
        else
          pbind (explist1 R) (\<lambda>(nret, e).
            if hasmultret (e_k e) then
              pthen (codes0 (\<lambda>fs. luaK_setreturns fs e LUA_MULTRET))
             (pthen (pwhen (e_k e = VCALL \<and> nret = 1)
                       (codes0 (\<lambda>fs. bind_result (getcode fs e) (\<lambda>i.
                          setcode fs e (SET_OPCODE i (op_num OP_TAILCALL))))))
             (pbind (in_fs fs_nactvar) (\<lambda>n. preturn (n, LUA_MULTRET))))
            else if nret = 1 then pbind (exp2anyreg e) (\<lambda>(r, _). preturn (r, nret))
            else pbind (exp2nextreg e) (\<lambda>_. pbind (in_fs fs_nactvar) (\<lambda>n. preturn (n, nret)))))
       (\<lambda>(first, nret). codes0 (\<lambda>fs. luaK_ret fs first nret))))"

text \<open>The result tells whether it must be the last statement.\<close>

definition statement :: "parsers \<Rightarrow> bool parse" where
  "statement R =
     pbind (in_ls linenumber) (\<lambda>line.
     pbind curtoken (\<lambda>t.
       if t = TK_IF then pthen (ifstat R line) (preturn False)
       else if t = TK_WHILE then pthen (whilestat R line) (preturn False)
       else if t = TK_DO then
         pthen p_next (pthen (block R) (pthen (check_match TK_END TK_DO line) (preturn False)))
       else if t = TK_FOR then pthen (forstat R line) (preturn False)
       else if t = TK_REPEAT then pthen (repeatstat R line) (preturn False)
       else if t = TK_FUNCTION then pthen (funcstat R line) (preturn False)
       else if t = TK_LOCAL then
         pthen p_next
        (pbind (testnext TK_FUNCTION) (\<lambda>b.
         pthen (if b then localfunc R else localstat R) (preturn False)))
       else if t = TK_RETURN then pthen (retstat R) (preturn True)
       else if t = TK_BREAK then pthen p_next (pthen breakstat (preturn True))
       else pthen (exprstat R) (preturn False)))"

definition chunk_step :: "parsers \<Rightarrow> bool \<Rightarrow> (bool + unit) parse" where
  "chunk_step R islast =
     pbind curtoken (\<lambda>t.
       if \<not> islast \<and> \<not> block_follow t then
         pbind (statement R) (\<lambda>islast.
         pthen (testnext (tk CHR '';''))
        (pthen (upd_fs (\<lambda>fs. fs\<lparr>fs_freereg := fs_nactvar fs\<rparr>))
               (preturn (Inl islast))))
       else preturn (Inr ()))"

definition chunk :: "parsers \<Rightarrow> unit parse" where
  "chunk R = nested (ploop R (chunk_step R) False)"

section \<open>The parser\<close>

text \<open>The parsers of a number of levels; \<open>pow\<close> is that of the C library.\<close>

primrec parsers_at :: "power \<Rightarrow> (PState \<Rightarrow> nat) \<Rightarrow> lua_error \<Rightarrow> nat \<Rightarrow> parsers" where
  "parsers_at pow F e 0 = \<lparr>r_subexpr = (\<lambda>_ _. Inl e), r_chunk = (\<lambda>_. Inl e), r_rounds = F, r_cut = e\<rparr>"
| "parsers_at pow F e (Suc d) =
     (let R = parsers_at pow F e d in \<lparr>r_subexpr = subexpr pow R, r_chunk = chunk R, r_rounds = F, r_cut = e\<rparr>)"

text \<open>
  \<open>ls\<close> is the lexer before it is initialised, \<open>nc\<close> the number of nested calls of the state. One
  more level than \<open>enterlevel\<close> allows is never entered, and a loop runs at most once for each token
  and once more to end.
\<close>

definition parse_with ::
    "power \<Rightarrow> (nat \<Rightarrow> ptr) \<Rightarrow> (PState \<Rightarrow> nat) \<Rightarrow> lua_error \<Rightarrow> nat \<Rightarrow> LexState \<Rightarrow> int \<Rightarrow> ZIO \<Rightarrow> c_string \<Rightarrow> Proto result" where
  "parse_with pow addr F e d ls nc z name =
     bind_result (luaX_setinput z name ls) (\<lambda>ls.
     bind_result (new_func ls (addr 0)) (\<lambda>f.
     bind_result
       (pthen (upd_func (\<lambda>f. f\<lparr>pf_is_vararg := word_of_int VARARG_ISVARARG\<rparr>))
       (pthen p_next
       (pthen (r_chunk (parsers_at pow F e d))
       (pthen (check_token TK_EOS) close_func)))
         \<lparr>ps_ls = ls, ps_func = f, ps_prev = [], ps_nCcalls = nc, ps_addr = addr\<rparr>)
       (\<lambda>((_, p), _). Inr p)))"

definition loop_rounds :: "PState \<Rightarrow> nat" where "loop_rounds ps = tokens_left ps + 1"

definition luaY_parser :: "power \<Rightarrow> (nat \<Rightarrow> ptr) \<Rightarrow> LexState \<Rightarrow> int \<Rightarrow> ZIO \<Rightarrow> c_string \<Rightarrow> Proto result" where
  "luaY_parser pow addr ls nc z name =
     parse_with pow addr loop_rounds NoFuel (nat (LUAI_MAXCCALLS - nc) + 1) ls nc z name"

end
