(* ===== verification/LuaScopeSpec.thy ===== *)
theory LuaScopeSpec
  imports LuaParser LuaLexSpec
begin

text \<open>
  The variable a name stands for. \<open>singlevaraux\<close> builds chains of upvalues through the functions
  around; here every chain is followed to the register it ends at, and that register belongs to the
  declaration that the scoping rules of the language choose.
\<close>

section \<open>Scopes\<close>

text \<open>The name declared at a level, and the last declaration of a name among the active ones.\<close>

definition declared :: "PFunc \<Rightarrow> nat \<Rightarrow> c_string option" where
  "declared f i = (case getlocvar f (int i) of Inl _ \<Rightarrow> None | Inr v \<Rightarrow> varname v)"

definition nactive :: "PFunc \<Rightarrow> nat" where "nactive f = nat (fs_nactvar (pf_fs f))"

definition innermost :: "PFunc \<Rightarrow> c_string \<Rightarrow> nat option" where
  "innermost f n =
     (if \<exists>i < nactive f. declared f i = Some n then Some (Max {i. i < nactive f \<and> declared f i = Some n}) else None)"

text \<open>
  The declaration of a name: how many functions out, and the level there. Each function is followed
  by the one around it.
\<close>

fun binding :: "PFunc list \<Rightarrow> c_string \<Rightarrow> (nat \<times> nat) option" where
  "binding [] n = None"
| "binding (f # fs) n =
     (case innermost f n of Some i \<Rightarrow> Some (0, i) | None \<Rightarrow> map_option (apfst Suc) (binding fs n))"

text \<open>Where an expression of a kind finds its value: the same, through the descriptions of upvalues.\<close>

fun place :: "PFunc list \<Rightarrow> expkind \<Rightarrow> int \<Rightarrow> (nat \<times> nat) option" where
  "place [] k i = None"
| "place (f # fs) k i =
     (if k = VLOCAL then if 0 \<le> i then Some (0, nat i) else None
      else if k = VUPVAL \<and> 0 \<le> i \<and> i < pf_nups f then
        let u = pf_updesc f ! nat i in map_option (apfst Suc) (place fs (u_k u) (u_info u))
      else None)"

text \<open>Levels and indexes of upvalues fit in a byte, and every upvalue is somewhere.\<close>

fun scopes_ok :: "PFunc list \<Rightarrow> bool" where
  "scopes_ok [] \<longleftrightarrow> True"
| "scopes_ok (f # fs) \<longleftrightarrow> fs_nactvar (pf_fs f) \<le> 256 \<and> 0 \<le> pf_nups f \<and> pf_nups f \<le> LUAI_MAXUPVALUES \<and> scopes_ok fs
     \<and> (\<forall>i. 0 \<le> i \<and> i < pf_nups f \<longrightarrow> place (f # fs) VUPVAL i \<noteq> None)"

text \<open>The innermost block around a level, which is told that its variable is used from inside.\<close>

definition block_of :: "PFunc \<Rightarrow> nat \<Rightarrow> BlockCnt option" where
  "block_of f i = List.find (\<lambda>b. bl_nactvar b \<le> int i) (pf_bl f)"

subsection \<open>The search in one function\<close>

lemma searchvar_from_spec:
  "searchvar_from k f n = Inr r \<Longrightarrow>
    (case r of None \<Rightarrow> \<forall>i < k. declared f i \<noteq> Some n
     | Some v \<Rightarrow> 0 \<le> v \<and> nat v < k \<and> declared f (nat v) = Some n \<and> (\<forall>i < k. declared f i = Some n \<longrightarrow> i \<le> nat v))"
proof (induction k)
  case (Suc k)
  then obtain v where v: "getlocvar f (int k) = Inr v"
      "(if varname v = Some n then Inr (Some (int k)) else searchvar_from k f n) = Inr r"
    by (auto simp: result_simps)
  show ?case
  proof (cases "varname v = Some n")
    case True
    then show ?thesis using v by (auto simp: declared_def)
  next
    case False
    then have "declared f k \<noteq> Some n" using v by (simp add: declared_def)
    then show ?thesis using Suc.IH v False by (auto simp: less_Suc_eq split: option.splits)
  qed
qed simp

lemma searchvar_innermost:
  assumes "searchvar f n = Inr r"
  shows "map_option nat r = innermost f n" and "\<And>v. r = Some v \<Longrightarrow> 0 \<le> v \<and> nat v < nactive f"
proof -
  note spec = searchvar_from_spec [OF assms [unfolded searchvar_def], folded nactive_def]
  show "map_option nat r = innermost f n"
  proof (cases r)
    case (Some v)
    then have "Max {i. i < nactive f \<and> declared f i = Some n} = nat v" using spec by (intro Max_eqI) auto
    then show ?thesis using spec Some by (auto simp: innermost_def)
  qed (use spec in \<open>simp add: innermost_def\<close>)
  show "0 \<le> v \<and> nat v < nactive f" if "r = Some v" for v using spec that by simp
qed

subsection \<open>Upvalues\<close>

lemma find_Some: "List.find P xs = Some x \<Longrightarrow> P x \<and> x \<in> set xs"
  by (auto simp: find_Some_iff)

text \<open>What a new upvalue leaves as it is.\<close>

definition same_scope :: "PFunc \<Rightarrow> PFunc \<Rightarrow> bool" where
  "same_scope f f' \<longleftrightarrow> pf_fs f' = pf_fs f \<and> pf_actvar f' = pf_actvar f \<and> pf_locvars f' = pf_locvars f
     \<and> pf_nups f \<le> pf_nups f' \<and> (\<forall>i. 0 \<le> i \<and> i < pf_nups f \<longrightarrow> pf_updesc f' ! nat i = pf_updesc f ! nat i)"

lemma same_scope_simps:
  assumes "same_scope f f'"
  shows "declared f' = declared f" "nactive f' = nactive f" "innermost f' = innermost f"
proof -
  show d: "declared f' = declared f" and a: "nactive f' = nactive f"
    using assms by (auto simp: same_scope_def declared_def nactive_def getlocvar_def locvar_index_def intro!: ext)
  show "innermost f' = innermost f" by (simp add: fun_eq_iff innermost_def d a)
qed

lemma indexupvalue_spec:
  assumes "indexupvalue ls f n v = Inr (i, f')" and "0 \<le> pf_nups f" and "0 \<le> e_info v" and "e_info v < 256"
    and "pf_nups f \<le> LUAI_MAXUPVALUES"
  shows "same_scope f f' \<and> pf_bl f' = pf_bl f \<and> 0 \<le> i \<and> i < pf_nups f' \<and> pf_nups f' \<le> LUAI_MAXUPVALUES
    \<and> pf_updesc f' ! nat i = \<lparr>u_k = e_k v, u_info = e_info v\<rparr>
    \<and> (\<forall>j. pf_nups f \<le> j \<and> j < pf_nups f' \<longrightarrow> j = i)"
proof (cases "List.find (\<lambda>i. same_upvalue v (pf_updesc f ! i)) [0..<nat (pf_nups f)]")
  case (Some j)
  then have "same_upvalue v (pf_updesc f ! j)" "int j < pf_nups f" by (auto dest!: find_Some)
  then show ?thesis
    using assms Some by (auto simp: indexupvalue_def same_scope_def same_upvalue_def)
next
  case None
  then show ?thesis
    using assms
    by (auto simp: indexupvalue_def same_scope_def luaY_checklimit_def errorlimit_def luaX_lexerror_def Let_def result_simps
        nth_list_update split: if_splits)
qed

lemma mark_block_marks:
  assumes "block_of f i = Some b"
  shows "\<exists>b'. block_of (markupval f (int i)) i = Some b' \<and> bl_upval b'"
proof -
  have "List.find (\<lambda>b. bl_nactvar b \<le> int i) bls = Some b \<Longrightarrow>
      \<exists>b'. List.find (\<lambda>b. bl_nactvar b \<le> int i) (mark_block bls (int i)) = Some b' \<and> bl_upval b'" for bls
    by (induction bls) (auto split: if_splits)
  then show ?thesis using assms by (simp add: block_of_def markupval_def)
qed

lemma markupval_scope: "same_scope f (markupval f i)"
  by (simp add: same_scope_def markupval_def)

section \<open>Resolving a name\<close>

text \<open>Functions around one another before and after: earlier places stay.\<close>

definition scopes_grow :: "PFunc list \<Rightarrow> PFunc list \<Rightarrow> bool" where
  "scopes_grow fs fs' \<longleftrightarrow> list_all2 same_scope fs fs'"

lemma same_scope_refl [simp]: "same_scope f f" by (simp add: same_scope_def)

lemma scopes_grow_refl [simp]: "scopes_grow fs fs" by (simp add: scopes_grow_def list_all2_refl)

lemma grow_binding: "scopes_grow fs fs' \<Longrightarrow> binding fs' n = binding fs n"
  unfolding scopes_grow_def by (induction rule: list_all2_induct) (auto simp: same_scope_simps split: option.split)

lemma grow_place: "scopes_grow fs fs' \<Longrightarrow> place fs k i = Some p \<Longrightarrow> place fs' k i = Some p"
  unfolding scopes_grow_def
proof (induction arbitrary: k i p rule: list_all2_induct)
  case (Cons f fs f' fs')
  show ?case
  proof (cases "k = VLOCAL")
    case False
    then have 1: "k = VUPVAL" "0 \<le> i" "i < pf_nups f" using Cons.prems by (auto split: if_splits)
    with Cons.hyps(1) have 2: "pf_updesc f' ! nat i = pf_updesc f ! nat i" "i < pf_nups f'" by (auto simp: same_scope_def)
    show ?thesis using Cons.prems Cons.IH 1 2 by (auto simp: Let_def)
  qed (use Cons.prems in simp)
qed simp

text \<open>The result of \<open>singlevaraux\<close>.\<close>

definition resolved :: "PFunc list \<Rightarrow> c_string \<Rightarrow> expkind \<Rightarrow> expdesc \<Rightarrow> PFunc list \<Rightarrow> bool" where
  "resolved fs n k v fs' \<longleftrightarrow> scopes_ok fs' \<and> scopes_grow fs fs' \<and> e_k v = k
     \<and> (k = VGLOBAL \<longrightarrow> binding fs n = None)
     \<and> (k \<noteq> VGLOBAL \<longrightarrow> (k = VLOCAL \<or> k = VUPVAL) \<and> binding fs n \<noteq> None \<and> place fs' k (e_info v) = binding fs n
          \<and> 0 \<le> e_info v \<and> e_info v < 256)"

lemma scopes_ok_grow_tail: "scopes_ok (f # fs) \<Longrightarrow> scopes_grow fs fs' \<Longrightarrow> scopes_ok fs' \<Longrightarrow> scopes_ok (f # fs')"
proof -
  assume 1: "scopes_ok (f # fs)" "scopes_grow fs fs'" "scopes_ok fs'"
  have "place (f # fs') VUPVAL i \<noteq> None" if "0 \<le> i" "i < pf_nups f" for i
  proof -
    from 1(1) that obtain p where "place (f # fs) VUPVAL i = Some p" by auto
    then show ?thesis using grow_place [of "f # fs" "f # fs'"] 1(2) by (simp add: scopes_grow_def del: place.simps)
  qed
  then show ?thesis using 1 by (simp del: place.simps)
qed

lemma singlevaraux_resolved:
  "scopes_ok fs \<Longrightarrow> singlevaraux ls fs n b = Inr (k, v, fs') \<Longrightarrow> resolved fs n k v fs'"
proof (induction ls fs n b arbitrary: k v fs' rule: singlevaraux.induct)
  case (1 ls n b)
  then show ?case by (auto simp: resolved_def init_exp_def)
next
  case (2 ls f fs n b)
  from 2(3) obtain r where r: "searchvar f n = Inr r" by (auto simp: result_simps)
  note found = searchvar_innermost [OF r]
  show ?case
  proof (cases r)
    case (Some i)
    have "same_scope f (if \<not> b then markupval f i else f)" by (simp add: markupval_scope)
    moreover from this have "scopes_ok ((if \<not> b then markupval f i else f) # fs)"
      using 2(2) by (auto simp: markupval_def)
    moreover have "innermost f n = Some (nat i)" using found(1) Some by simp
    ultimately show ?thesis
      using 2(2,3) r Some found(2)
      by (auto simp: resolved_def init_exp_def scopes_grow_def list_all2_refl nactive_def result_simps)
  next
    case None
    then obtain k1 v1 fs1 where 3: "singlevaraux ls fs n False = Inr (k1, v1, fs1)"
      using 2(3) r by (auto simp: result_simps)
    have ok: "scopes_ok fs" using 2(2) by simp
    note IH = 2(1) [OF r None ok 3]
    have inn: "innermost f n = None" using found(1) None by simp
    show ?thesis
    proof (cases "k1 = VGLOBAL")
      case True
      then have "k = VGLOBAL" "v = v1" "fs' = f # fs1" using 2(3) r None 3 by (auto simp: result_simps)
      then show ?thesis
        using IH True inn scopes_ok_grow_tail [OF 2(2)] by (auto simp: resolved_def scopes_grow_def)
    next
      case False
      then obtain i f' where 4: "indexupvalue ls f n v1 = Inr (i, f')" "k = VUPVAL"
          "v = v1\<lparr>e_info := i, e_k := VUPVAL\<rparr>" "fs' = f' # fs1"
        using 2(3) r None 3 by (auto simp: result_simps)
      from indexupvalue_spec [OF 4(1)] 2(2) IH False
      have 5: "same_scope f f'" "0 \<le> i" "i < pf_nups f'" "pf_nups f' \<le> LUAI_MAXUPVALUES"
          "pf_updesc f' ! nat i = \<lparr>u_k = k1, u_info = e_info v1\<rparr>" "\<forall>j. pf_nups f \<le> j \<and> j < pf_nups f' \<longrightarrow> j = i"
        by (auto simp: resolved_def)
      have grow: "scopes_grow (f # fs) (f' # fs1)" using 5(1) IH by (simp add: resolved_def scopes_grow_def)
      have at: "place (f' # fs1) VUPVAL i = map_option (apfst Suc) (binding fs n)" "binding fs n \<noteq> None"
        using 5 IH False by (auto simp: resolved_def)
      have "place (f' # fs1) VUPVAL j \<noteq> None" if j: "0 \<le> j" "j < pf_nups f'" for j
      proof (cases "j < pf_nups f")
        case True
        with 2(2) j obtain p where "place (f # fs) VUPVAL j = Some p" by auto
        then show ?thesis using grow_place [OF grow] by (simp del: place.simps)
      next
        case False
        then have "j = i" using 5(6) j by simp
        then show ?thesis using at by simp
      qed
      then have "scopes_ok (f' # fs1)"
        using IH 5(1,4) 2(2) by (auto simp: resolved_def same_scope_def simp del: place.simps)
      then show ?thesis
        using at 4 grow inn 5(2,3,4) by (auto simp: resolved_def LUAI_MAXUPVALUES_def simp del: place.simps)
    qed
  qed
qed


text \<open>A variable that is used from inside another function: its block closes the upvalue.\<close>

lemma singlevaraux_marks:
  "singlevaraux ls fs n b = Inr (k, v, fs') \<Longrightarrow> binding fs n = Some (d, i) \<Longrightarrow> 0 < d \<or> \<not> b \<Longrightarrow>
    block_of (fs ! d) i = Some bl \<Longrightarrow> \<exists>bl'. block_of (fs' ! d) i = Some bl' \<and> bl_upval bl'"
proof (induction ls fs n b arbitrary: k v fs' d rule: singlevaraux.induct)
  case (2 ls f fs n b)
  from 2(2) obtain r where r: "searchvar f n = Inr r" by (auto simp: result_simps)
  note found = searchvar_innermost [OF r]
  show ?case
  proof (cases r)
    case (Some j)
    then have "d = 0" "i = nat j" "0 \<le> j" using found(1) [symmetric] found(2) 2(3) by auto
    then show ?thesis
      using 2(2,4,5) r Some mark_block_marks [of f i bl] by (auto simp: result_simps)
  next
    case None
    then have inn: "innermost f n = None" using found(1) by simp
    then obtain d' where d: "d = Suc d'" "binding fs n = Some (d', i)" using 2(3) by (auto simp: apfst_def)
    obtain k1 v1 fs1 where 3: "singlevaraux ls fs n False = Inr (k1, v1, fs1)"
      using 2(2) r None by (auto simp: result_simps)
    from 2(1) [OF r None 3 d(2)] 2(5) d(1)
    have "\<exists>bl'. block_of (fs1 ! d') i = Some bl' \<and> bl_upval bl'" by simp
    then show ?thesis using 2(2) r None 3 d(1) by (auto simp: result_simps split: if_splits)
  qed
qed simp

section \<open>Property\<close>

text \<open>
  Claim \<open>C6\<close>: A name is resolved as the scoping rules say. It is global exactly if no function around
  has an active variable of that name; otherwise the expression found, a register or a chain of
  upvalues through any number of functions, leads to the register of the innermost declaration of the
  nearest function that has one, all upvalues that existed lead where they did, every name still has
  the same declaration, and if the variable belongs to another function its block will close it.
\<close>

theorem name_resolution:
  assumes "scopes_ok fs" and "singlevaraux ls fs n True = Inr (k, v, fs')"
  shows "(k = VGLOBAL \<longleftrightarrow> binding fs n = None)
    \<and> (k \<noteq> VGLOBAL \<longrightarrow> e_k v = k \<and> place fs' k (e_info v) = binding fs n)
    \<and> (\<forall>j i p. place (drop j fs) VUPVAL i = Some p \<longrightarrow> place (drop j fs') VUPVAL i = Some p)
    \<and> (\<forall>m. binding fs' m = binding fs m) \<and> scopes_ok fs'
    \<and> (\<forall>d i bl. binding fs n = Some (d, i) \<longrightarrow> 0 < d \<longrightarrow> block_of (fs ! d) i = Some bl \<longrightarrow>
         (\<exists>bl'. block_of (fs' ! d) i = Some bl' \<and> bl_upval bl'))"
proof -
  note res = singlevaraux_resolved [OF assms, unfolded resolved_def]
  have "scopes_grow (drop j fs) (drop j fs')" for j using res by (simp add: scopes_grow_def list_all2_dropI)
  then show ?thesis using res grow_place grow_binding singlevaraux_marks [OF assms(2)] by blast
qed

text \<open>A function with local variables and one block around them.\<close>

definition function_with :: "c_string list \<Rightarrow> PFunc" where
  "function_with names =
     \<lparr>pf_fs = \<lparr>fs_code = [], fs_lineinfo = [], fs_k = [], fs_maxstacksize = 2, fs_haddr = 0, fs_ls = lex_at [],
                fs_pc = 0, fs_lasttarget = - 1, fs_jpc = NO_JUMP, fs_freereg = int (length names), fs_nk = 0,
                fs_nactvar = int (length names)\<rparr>,
      pf_h = \<lparr>flags = 0, lsizenode = 0, metatable = None, t_array = [], t_node = [dummynode], is_dummy = True, lastfree = 0\<rparr>,
      pf_source = [], pf_linedefined = 0, pf_lastlinedefined = 0, pf_numparams = 0, pf_is_vararg = 0,
      pf_locvars = map (\<lambda>n. \<lparr>varname = Some n, startpc = 0, endpc = 0\<rparr>) names, pf_nlocvars = int (length names),
      pf_p = [], pf_np = 0, pf_upvalues = [], pf_nups = 0,
      pf_updesc = replicate (nat LUAI_MAXUPVALUES) \<lparr>u_k = VVOID, u_info = 0\<rparr>,
      pf_actvar = map int [0..<length names],
      pf_bl = [\<lparr>bl_breaklist = NO_JUMP, bl_nactvar = 0, bl_upval = False, bl_isbreakable = False\<rparr>]\<rparr>"


lemma name_resolution_witness:
  "case singlevaraux (lex_at []) [function_with [], function_with [''y''], function_with [''x'', ''x'']] ''x'' True of
     Inl _ \<Rightarrow> False
   | Inr (k, v, fs') \<Rightarrow> k = VUPVAL \<and> place fs' k (e_info v) = Some (2, 1) \<and> scopes_ok fs'
       \<and> (\<exists>bl. block_of (fs' ! 2) 1 = Some bl \<and> bl_upval bl)"
proof -
  let ?fs = "[function_with [], function_with [''y''], function_with [''x'', ''x'']]"
  have ok: "scopes_ok ?fs" by (simp add: function_with_def LUAI_MAXUPVALUES_def)
  have "case singlevaraux (lex_at []) ?fs ''x'' True of Inl _ \<Rightarrow> False
    | Inr (k, v, fs') \<Rightarrow> k = VUPVAL \<and> place fs' k (e_info v) = Some (2, 1)"
    by code_simp
  then obtain k v fs' where 1: "singlevaraux (lex_at []) ?fs ''x'' True = Inr (k, v, fs')"
      "k = VUPVAL" "place fs' k (e_info v) = Some (2, 1)"
    by (auto split: sum.splits)
  have 2: "block_of (?fs ! 2) 1 \<noteq> None" by (simp add: block_of_def function_with_def)
  from name_resolution [OF ok 1(1)] 1(2,3)
  have 3: "binding ?fs ''x'' = Some (2, 1)" "scopes_ok fs'"
      "\<forall>d i bl. binding ?fs ''x'' = Some (d, i) \<longrightarrow> 0 < d \<longrightarrow> block_of (?fs ! d) i = Some bl \<longrightarrow>
         (\<exists>bl'. block_of (fs' ! d) i = Some bl' \<and> bl_upval bl')"
    by auto
  have "\<exists>bl'. block_of (fs' ! 2) 1 = Some bl' \<and> bl_upval bl'"
    using 3(3) [rule_format, OF 3(1)] 2 by auto
  with 1 3(2) show ?thesis by simp
qed

end
