(* ===== verification/LuaParserProgress.thy ===== *)
theory LuaParserProgress
  imports LuaParser LuaLexSpec
begin

text \<open>
  The parsers that keep the number of nested calls and never go back in the input, and those that
  consume a token. With them every loop and the recursion of the parser end by themselves.
\<close>

section \<open>The lexer keeps its tokens\<close>

text \<open>Only \<open>luaX_next\<close> and \<open>luaX_lookahead\<close> set the current token and the one looked ahead.\<close>

definition toks :: "LexState \<Rightarrow> Token \<times> Token" where "toks ls = (lex_t ls, lookahead ls)"

lemma toks_upd [simp]:
  "toks (ls\<lparr>lex_buff := b\<rparr>) = toks ls" "toks (ls\<lparr>linenumber := n\<rparr>) = toks ls" "toks (ls\<lparr>decpoint := c\<rparr>) = toks ls"
  "toks (ls\<lparr>lastline := n\<rparr>) = toks ls" "toks (ls\<lparr>fs_h := h\<rparr>) = toks ls"
  by (simp_all add: toks_def)

named_theorems toks_keep \<open>the functions of the lexer that change no token\<close>

lemma next_char_toks [toks_keep]: "next_char ls = Inr ls' \<Longrightarrow> toks ls' = toks ls"
  by (auto simp: next_char_def result_simps toks_def)

lemma save_toks [toks_keep]: "save c ls = Inr ls' \<Longrightarrow> toks ls' = toks ls"
  by (auto simp: save_def result_simps toks_def split: if_splits)

lemma save_and_next_toks [toks_keep]: "save_and_next ls = Inr ls' \<Longrightarrow> toks ls' = toks ls"
  by (auto simp: save_and_next_def result_simps dest!: toks_keep)

lemma inclinenumber_toks [toks_keep]: "inclinenumber ls = Inr ls' \<Longrightarrow> toks ls' = toks ls"
  by (auto simp: inclinenumber_def result_simps Let_def dest!: toks_keep split: if_splits)

lemma check_next_toks [toks_keep]: "check_next ls s = Inr (b, ls') \<Longrightarrow> toks ls' = toks ls"
  by (auto simp: check_next_def result_simps dest!: toks_keep split: if_splits)

lemma newstring_toks [toks_keep]: "luaX_newstring ls s = Inr (t, ls') \<Longrightarrow> toks ls' = toks ls"
  by (auto simp: luaX_newstring_def result_simps)

lemma buff_string_toks [toks_keep]: "buff_string n ls = Inr (t, ls') \<Longrightarrow> toks ls' = toks ls"
  by (auto simp: buff_string_def result_simps dest!: toks_keep split: if_splits)

text \<open>For the loops, by induction: a result that keeps the tokens of \<open>ls\<close>.\<close>

definition keeps :: "('a \<Rightarrow> LexState) \<Rightarrow> LexState \<Rightarrow> 'a result \<Rightarrow> bool" where
  "keeps g ls r \<longleftrightarrow> (\<forall>x. r = Inr x \<longrightarrow> toks (g x) = toks ls)"

lemma keeps_bind: "(\<And>x. m = Inr x \<Longrightarrow> keeps g ls (f x)) \<Longrightarrow> keeps g ls (bind_result m f)"
  by (auto simp: keeps_def result_simps)

lemma keeps_if: "(b \<Longrightarrow> keeps g ls r) \<Longrightarrow> (\<not> b \<Longrightarrow> keeps g ls r') \<Longrightarrow> keeps g ls (if b then r else r')"
  by simp

lemma keeps_prod: "(\<And>a b. (a, b) = p \<Longrightarrow> keeps g ls (f a b)) \<Longrightarrow> keeps g ls (case p of (a, b) \<Rightarrow> f a b)"
  by (cases p) simp

lemma keeps_base [simp]:
  "keeps g ls (Inl e)" "keeps g ls (Inr x) \<longleftrightarrow> toks (g x) = toks ls" "keeps g ls (luaX_lexerror ls' msg t)"
  by (auto simp: keeps_def)

lemma keeps_trans: "keeps g x r \<Longrightarrow> toks x = toks ls \<Longrightarrow> keeps g ls r" by (simp add: keeps_def)
lemma keepsI: "(\<And>x. r = Inr x \<Longrightarrow> toks (g x) = toks ls) \<Longrightarrow> keeps g ls r" by (simp add: keeps_def)
lemma keepsD: "keeps g ls r \<Longrightarrow> r = Inr x \<Longrightarrow> toks (g x) = toks ls" by (simp add: keeps_def)

lemmas keeps_intros = keeps_if keeps_bind keeps_prod

lemma save_while_toks [toks_keep]: "save_while P ls = Inr ls' \<Longrightarrow> toks ls' = toks ls"
proof (rule keepsD [of "\<lambda>x. x", simplified])
  show "keeps (\<lambda>x. x) ls (save_while P ls)"
  proof (induction P ls rule: save_while.induct)
    case (1 P ls)
    show ?case
      by (subst save_while.simps, intro keeps_intros; (rule keeps_trans, (rule 1; assumption))?)
        (fastforce dest: toks_keep intro: keepsI split: if_splits)+
  qed
qed

lemma skip_line_toks [toks_keep]: "skip_line ls = Inr ls' \<Longrightarrow> toks ls' = toks ls"
proof (rule keepsD [of "\<lambda>x. x", simplified])
  show "keeps (\<lambda>x. x) ls (skip_line ls)"
  proof (induction ls rule: skip_line.induct)
    case (1 ls)
    show ?case
      by (subst skip_line.simps, intro keeps_intros; (rule keeps_trans, (rule 1; assumption))?)
        (fastforce dest: toks_keep intro: keepsI split: if_splits)+
  qed
qed

lemma skip_sep_toks [toks_keep]: "skip_sep ls = Inr (n, ls') \<Longrightarrow> toks ls' = toks ls"
  by (auto simp: skip_sep_def result_simps Let_def dest!: toks_keep)

lemma buffreplace_toks [simp]: "toks (buffreplace a b ls) = toks ls" by (simp add: buffreplace_def)

lemma read_numeral_toks [toks_keep]: "read_numeral ls = Inr (r, ls') \<Longrightarrow> toks ls' = toks ls"
  by (auto simp: read_numeral_def trydecpoint_def result_simps Let_def dest!: toks_keep split: option.splits if_splits)

lemma long_string_loop_toks [toks_keep]: "long_string_loop w sep ls = Inr ls' \<Longrightarrow> toks ls' = toks ls"
proof (rule keepsD [of "\<lambda>x. x", simplified])
  show "keeps (\<lambda>x. x) ls (long_string_loop w sep ls)"
  proof (induction w sep ls rule: long_string_loop.induct)
    case (1 w sep ls)
    show ?case
      by (subst long_string_loop.simps, intro keeps_intros; (rule keeps_trans, (rule 1; assumption))?)
        (fastforce dest: toks_keep intro: keepsI split: if_splits)+
  qed
qed

lemma read_long_string_toks [toks_keep]: "read_long_string w sep ls = Inr (s, ls') \<Longrightarrow> toks ls' = toks ls"
  by (auto simp: read_long_string_def result_simps dest!: toks_keep split: if_splits)

lemma decimal_escape_toks [toks_keep]: "decimal_escape k c ls = Inr (c', ls') \<Longrightarrow> toks ls' = toks ls"
proof (induction k arbitrary: c ls)
  case (Suc k)
  then obtain x where "next_char ls = Inr x" "toks ls' = toks x"
    by (auto simp: result_simps Let_def split: if_splits)
  then show ?case by (auto dest: toks_keep)
qed simp

lemma read_escape_toks [toks_keep]: "read_escape ls = Inr ls' \<Longrightarrow> toks ls' = toks ls"
  by (auto simp: read_escape_def result_simps dest!: toks_keep split: option.splits if_splits)

lemma read_string_loop_toks [toks_keep]: "read_string_loop d ls = Inr ls' \<Longrightarrow> toks ls' = toks ls"
proof (rule keepsD [of "\<lambda>x. x", simplified])
  show "keeps (\<lambda>x. x) ls (read_string_loop d ls)"
  proof (induction d ls rule: read_string_loop.induct)
    case (1 d ls)
    show ?case
      by (subst read_string_loop.simps, intro keeps_intros; (rule keeps_trans, (rule 1; assumption))?)
        (fastforce dest: toks_keep intro: keepsI split: if_splits)+
  qed
qed

lemma read_string_toks [toks_keep]: "read_string d ls = Inr (s, ls') \<Longrightarrow> toks ls' = toks ls"
  by (auto simp: read_string_def result_simps dest!: toks_keep)

lemma token_at_toks [toks_keep]: "token_at ls sem = Inr (t, s, ls') \<Longrightarrow> toks ls' = toks ls"
  by (auto simp: token_at_def compound_def dots_token_def numeral_token_def name_token_def result_simps Let_def
      dest!: toks_keep split: if_splits)

lemma skip_comment_toks [toks_keep]: "skip_comment ls = Inr ls' \<Longrightarrow> toks ls' = toks ls"
  by (auto simp: skip_comment_def result_simps Let_def dest!: toks_keep split: if_splits)

lemma llex_loop_toks [toks_keep]: "llex_loop ls sem = Inr (t, s, ls') \<Longrightarrow> toks ls' = toks ls"
proof (drule keepsD [rotated])
  show "keeps (\<lambda>(_, _, ls). ls) ls (llex_loop ls sem)"
  proof (induction ls sem rule: llex_loop.induct)
    case (1 ls sem)
    show ?case
      by (subst llex_loop.simps, intro keeps_intros; (rule keeps_trans, (rule 1; assumption))?)
        (fastforce dest: toks_keep intro: keepsI split: if_splits)+
  qed
qed simp

lemma llex_toks: "llex ls sem = Inr (t, s, ls') \<Longrightarrow> toks ls' = toks ls"
  by (auto simp: llex_def dest: toks_keep)

section \<open>Progress\<close>

text \<open>
  \<open>steps Q P m\<close>: started at a token of \<open>Q\<close>, the parser \<open>m\<close> keeps the number of nested calls, what is
  left to read does not grow, and it gets less where the result is in \<open>P\<close>.
\<close>

definition tok :: "PState \<Rightarrow> int" where "tok ps = token (lex_t (ps_ls ps))"

definition steps :: "(int \<Rightarrow> bool) \<Rightarrow> ('a \<Rightarrow> bool) \<Rightarrow> 'a parse \<Rightarrow> bool" where
  "steps Q P m \<longleftrightarrow> (\<forall>ps x ps'. m ps = Inr (x, ps') \<longrightarrow> Q (tok ps) \<longrightarrow>
     ps_nCcalls ps' = ps_nCcalls ps \<and> tokens_left ps' \<le> tokens_left ps \<and> (P x \<longrightarrow> tokens_left ps' < tokens_left ps))"

text \<open>\<open>still m\<close>: the lexer stays where it is.\<close>

definition still :: "'a parse \<Rightarrow> bool" where
  "still m \<longleftrightarrow> (\<forall>ps x ps'. m ps = Inr (x, ps') \<longrightarrow>
     ps_nCcalls ps' = ps_nCcalls ps \<and> tok ps' = tok ps \<and> tokens_left ps' = tokens_left ps)"

abbreviation anytok :: "int \<Rightarrow> bool" where "anytok \<equiv> \<lambda>_. True"

text \<open>\<open>frame\<close> and \<open>consumes\<close> are the two cases the definitions need.\<close>

abbreviation frame :: "'a parse \<Rightarrow> bool" where "frame m \<equiv> steps anytok (\<lambda>_. False) m"
abbreviation consumes :: "'a parse \<Rightarrow> bool" where "consumes m \<equiv> steps anytok (\<lambda>_. True) m"

lemma stepsI:
  "(\<And>ps x ps'. m ps = Inr (x, ps') \<Longrightarrow> Q (tok ps) \<Longrightarrow>
     ps_nCcalls ps' = ps_nCcalls ps \<and> tokens_left ps' \<le> tokens_left ps \<and> (P x \<longrightarrow> tokens_left ps' < tokens_left ps))
   \<Longrightarrow> steps Q P m"
  by (auto simp: steps_def)

lemma stepsD:
  "steps Q P m \<Longrightarrow> m ps = Inr (x, ps') \<Longrightarrow> Q (tok ps) \<Longrightarrow>
     ps_nCcalls ps' = ps_nCcalls ps \<and> tokens_left ps' \<le> tokens_left ps \<and> (P x \<longrightarrow> tokens_left ps' < tokens_left ps)"
  by (auto simp: steps_def)

lemma stillD:
  "still m \<Longrightarrow> m ps = Inr (x, ps') \<Longrightarrow>
     ps_nCcalls ps' = ps_nCcalls ps \<and> tok ps' = tok ps \<and> tokens_left ps' = tokens_left ps"
  by (auto simp: still_def)

lemma steps_weaken: "steps Q P m \<Longrightarrow> (\<And>t. Q' t \<Longrightarrow> Q t) \<Longrightarrow> (\<And>x. P' x \<Longrightarrow> P x) \<Longrightarrow> steps Q' P' m"
  by (fastforce simp: steps_def)

lemma consumes_frame: "consumes m \<Longrightarrow> frame m" by (rule steps_weaken) auto
lemma consumes_steps: "consumes m \<Longrightarrow> steps Q P m" by (rule steps_weaken) auto
lemma frame_steps: "frame m \<Longrightarrow> steps Q (\<lambda>_. False) m" by (rule steps_weaken) auto

lemma still_steps: "still m \<Longrightarrow> (\<And>x. \<not> P x) \<Longrightarrow> steps Q P m"
  by (auto simp: steps_def still_def)

text \<open>The rules of sequencing: the first parser consumes, or stands still, or the second consumes.\<close>

lemma pbindE:
  assumes "pbind m f ps = Inr (y, ps')"
  obtains x ps1 where "m ps = Inr (x, ps1)" "f x ps1 = Inr (y, ps')"
  using assms by (auto simp: pbind_def result_simps)

lemma steps_bind_first:
  assumes "steps Q (\<lambda>_. True) m" and "\<And>x. frame (f x)"
  shows "steps Q P (pbind m f)"
  by (rule stepsI, elim pbindE) (use assms in \<open>fastforce dest: stepsD\<close>)

lemma steps_bind_still:
  assumes "still m" and "\<And>x. steps Q P (f x)"
  shows "steps Q P (pbind m f)"
  by (rule stepsI, elim pbindE) (use assms in \<open>fastforce dest: stepsD stillD\<close>)

lemma steps_bind_second:
  assumes "frame m" and "\<And>x. steps anytok P (f x)"
  shows "steps Q P (pbind m f)"
  by (rule stepsI, elim pbindE) (use assms in \<open>fastforce dest: stepsD\<close>)

text \<open>The result of the first parser tells whether it consumed.\<close>

lemma steps_bind_result:
  assumes "steps anytok C m" and "\<And>x. steps anytok (\<lambda>y. P y \<and> \<not> C x) (f x)"
  shows "steps Q P (pbind m f)"
proof (rule stepsI, elim pbindE)
  fix ps y ps' x ps1
  assume 1: "m ps = Inr (x, ps1)" "f x ps1 = Inr (y, ps')"
  show "ps_nCcalls ps' = ps_nCcalls ps \<and> tokens_left ps' \<le> tokens_left ps \<and> (P y \<longrightarrow> tokens_left ps' < tokens_left ps)"
    using stepsD [OF assms(1) 1(1)] stepsD [OF assms(2) 1(2)] by (cases "C x") auto
qed

lemma still_bind: "still m \<Longrightarrow> (\<And>x. still (f x)) \<Longrightarrow> still (pbind m f)"
  by (fastforce simp: still_def pbind_def result_simps)

lemma still_then: "still m \<Longrightarrow> still m' \<Longrightarrow> still (pthen m m')"
  by (simp add: pthen_def still_bind)

lemma steps_curtoken:
  assumes "\<And>t. Q t \<Longrightarrow> steps (\<lambda>t'. t' = t) P (f t)"
  shows "steps Q P (pbind curtoken f)"
  using assms
  by (fastforce simp: pbind_def curtoken_def in_ls_def reads_def tok_def result_simps intro!: stepsI dest!: stepsD)

text \<open>What stands still.\<close>

lemma still_return [intro!, simp]: "still (preturn x)" by (simp add: still_def preturn_def)
lemma still_reads [intro!, simp]: "still (reads f)" by (simp add: still_def reads_def)
lemma still_in_fs [intro!, simp]: "still (in_fs f)" by (simp add: in_fs_def)
lemma still_in_func [intro!, simp]: "still (in_func f)" by (simp add: in_func_def)
lemma still_in_ls [intro!, simp]: "still (in_ls f)" by (simp add: in_ls_def)
lemma still_curtoken [intro!, simp]: "still curtoken" by (simp add: curtoken_def)

lemma still_with_func [intro!, simp]: "still (with_func f)"
  by (auto simp: still_def with_func_def result_simps tok_def tokens_left_def)

lemma still_upd [intro!, simp]: "still (upd_func f)" "still (upd_fs g)"
  by (simp_all add: upd_func_def upd_fs_def)

lemma still_codes [intro!, simp]: "still (codes f)" "still (codes0 g)" "still (codes2 h)"
  by (auto simp: still_def codes_def codes0_def codes2_def result_simps tok_def tokens_left_def)

lemma still_newstring [intro!, simp]: "still (lexes (\<lambda>ls. luaX_newstring ls s))"
proof -
  have "tok ps' = tok ps \<and> tokens_left ps' = tokens_left ps"
    if "ps_ls ps' = (ps_ls ps)\<lparr>fs_h := h\<rparr>" for ps ps' :: PState and h
    using that by (simp add: tok_def tokens_left_def lex_left_def)
  then show ?thesis by (fastforce simp: still_def lexes_def luaX_newstring_def result_simps lexer_def)
qed

lemma still_error [intro!, simp]: "still (syntax_error msg)" "still (error_expected t)" "still (\<lambda>_. Inl e)"
  by (auto simp: still_def syntax_error_def error_expected_def luaX_syntaxerror_def luaX_lexerror_def result_simps Let_def
      split: if_splits)

lemma still_when [intro!]: "(b \<Longrightarrow> still m) \<Longrightarrow> still (pwhen b m)"
  by (simp add: pwhen_def)

text \<open>The lexer.\<close>

lemma llex_left:
  "llex ls sem = Inr (t, s, ls') \<Longrightarrow> lex_left ls' + (if t \<noteq> TK_EOS then 1 else 0) \<le> lex_left ls"
  using llex_loop_left_le [of "ls\<lparr>lex_buff := []\<rparr>" sem t s ls'] by (auto simp: llex_def)

text \<open>The lexer keeps the token it looked ahead; \<open>llex\<close> itself changes no token.\<close>

lemma next_steps: "steps (\<lambda>t. t \<noteq> TK_EOS) (\<lambda>_. True) p_next" and next_frame: "frame p_next"
proof -
  have "ps_nCcalls ps' = ps_nCcalls ps \<and> tokens_left ps' \<le> tokens_left ps
      \<and> (tok ps \<noteq> TK_EOS \<longrightarrow> tokens_left ps' < tokens_left ps)"
    if p: "p_next ps = Inr (x, ps')" for ps x ps'
  proof (cases "token (lookahead (ps_ls ps)) = TK_EOS")
    case True
    then obtain t s ls where 1: "llex ((lexer ps)\<lparr>lastline := linenumber (lexer ps)\<rparr>) (seminfo (lex_t (lexer ps))) = Inr (t, s, ls)"
        "ps_ls ps' = ls\<lparr>lex_t := \<lparr>token = t, seminfo = s\<rparr>\<rparr>" "ps_nCcalls ps' = ps_nCcalls ps"
      using p by (auto simp: p_next_def lexes_def luaX_next_def result_simps Let_def lexer_def)
    show ?thesis
      using llex_left [OF 1(1)] llex_toks [OF 1(1)] 1(2,3) True
      by (auto simp: tokens_left_def tok_def lexer_def lex_left_def toks_def split: if_splits)
  next
    case False
    then show ?thesis
      using p by (auto simp: p_next_def lexes_def luaX_next_def result_simps Let_def lexer_def tokens_left_def tok_def
          lex_left_def)
  qed
  then show "steps (\<lambda>t. t \<noteq> TK_EOS) (\<lambda>_. True) p_next" "frame p_next" by (auto simp: steps_def)
qed

lemma lookahead_frame: "steps anytok (\<lambda>_. False) p_lookahead"
proof (rule stepsI)
  fix ps x ps'
  assume "p_lookahead ps = Inr (x, ps')"
  then obtain t s ls where 1: "llex (lexer ps) (seminfo (lookahead (lexer ps))) = Inr (t, s, ls)"
      "ps_ls ps' = ls\<lparr>lookahead := \<lparr>token = t, seminfo = s\<rparr>\<rparr>" "ps_nCcalls ps' = ps_nCcalls ps"
    by (auto simp: p_lookahead_def lexes_def luaX_lookahead_def result_simps)
  then show "ps_nCcalls ps' = ps_nCcalls ps \<and> tokens_left ps' \<le> tokens_left ps \<and> (False \<longrightarrow> tokens_left ps' < tokens_left ps)"
    using llex_left [OF 1(1)] llex_toks [OF 1(1)]
    by (auto simp: tokens_left_def lexer_def lex_left_def toks_def split: if_splits)
qed

subsection \<open>The rules for each construct\<close>

named_theorems progress \<open>the progress of the parsers\<close>

lemma steps_then:
  "steps Q (\<lambda>_. True) m \<Longrightarrow> frame m' \<Longrightarrow> steps Q P (pthen m m')"
  "still m \<Longrightarrow> steps Q P m' \<Longrightarrow> steps Q P (pthen m m')"
  "frame m \<Longrightarrow> steps anytok P m' \<Longrightarrow> steps Q P (pthen m m')"
  unfolding pthen_def by (blast intro: steps_bind_first steps_bind_still steps_bind_second)+

lemma frame_bind: "frame m \<Longrightarrow> (\<And>x. frame (f x)) \<Longrightarrow> frame (pbind m f)"
  by (rule steps_bind_second)

lemma frame_then: "frame m \<Longrightarrow> frame m' \<Longrightarrow> frame (pthen m m')"
  by (rule steps_then)

lemma frame_still: "still m \<Longrightarrow> frame m" by (rule still_steps) simp_all

lemma steps_if: "(b \<Longrightarrow> steps Q P m) \<Longrightarrow> (\<not> b \<Longrightarrow> steps Q P m') \<Longrightarrow> steps Q P (if b then m else m')"
  by simp

lemma steps_prod: "(\<And>a b. steps Q P (f a b)) \<Longrightarrow> steps Q P (case p of (a, b) \<Rightarrow> f a b)"
  by (cases p) simp

lemma frame_when: "(b \<Longrightarrow> frame m) \<Longrightarrow> frame (pwhen b m)"
  by (simp add: pwhen_def frame_still)

text \<open>A frame by the rules of sequencing alone.\<close>

lemmas frame_intros = frame_bind frame_then frame_when steps_if steps_prod
lemmas frame_basic = frame_still [OF still_return] frame_still [OF still_reads] frame_still [OF still_in_fs]
  frame_still [OF still_in_func] frame_still [OF still_in_ls] frame_still [OF still_curtoken]
  frame_still [OF still_with_func] still_upd [THEN frame_still] still_codes [THEN frame_still]
  frame_still [OF still_newstring] still_error [THEN frame_still] next_frame lookahead_frame

lemma testnext_frame: "frame (testnext c)"
  unfolding testnext_def by (intro frame_intros frame_basic)

lemma steps_return: "\<not> P x \<Longrightarrow> steps Q P (preturn x)"
  by (auto simp: steps_def preturn_def)

lemma testnext_steps: "c \<noteq> TK_EOS \<Longrightarrow> steps Q (\<lambda>b. b) (testnext c)"
  unfolding testnext_def
  by (intro steps_curtoken steps_if steps_then(1) steps_weaken [OF next_steps] frame_basic steps_return) auto

lemma check_token_frame: "frame (check_token c)"
  unfolding check_token_def by (intro frame_intros frame_basic)

lemma checknext_frame: "frame (checknext c)"
  unfolding checknext_def by (intro frame_intros frame_basic check_token_frame)

lemma consumes_error [simp]: "steps Q P (syntax_error msg)" "steps Q P (error_expected t)" "steps Q P (\<lambda>_. Inl e)"
  by (auto simp: steps_def syntax_error_def error_expected_def)

lemma checknext_consumes: "c \<noteq> TK_EOS \<Longrightarrow> steps Q P (checknext c)"
proof (rule consumes_steps, rule stepsI)
  fix ps x ps'
  assume c: "c \<noteq> TK_EOS" and p: "checknext c ps = Inr (x, ps')"
  then have "tok ps = c" "p_next ps = Inr (x, ps')"
    by (auto simp: checknext_def check_token_def pthen_def pbind_def curtoken_def in_ls_def reads_def preturn_def
        result_simps tok_def error_expected_def syntax_error_def split: if_splits)
  with stepsD [OF next_steps, of ps x ps'] c
  show "ps_nCcalls ps' = ps_nCcalls ps \<and> tokens_left ps' \<le> tokens_left ps \<and> (True \<longrightarrow> tokens_left ps' < tokens_left ps)"
    by simp
qed

lemma token_value_still [intro!, simp]: "still token_string" "still token_number"
  by (auto simp: still_def token_string_def token_number_def split: SemInfo.splits)

lemma str_checkname_consumes: "steps Q P str_checkname"
proof (rule consumes_steps, rule stepsI)
  fix ps x ps'
  assume "str_checkname ps = Inr (x, ps')"
  then have "tok ps = TK_NAME" and p: "p_next ps = Inr ((), ps')"
    by (auto simp: str_checkname_def check_token_def pthen_def pbind_def curtoken_def in_ls_def reads_def preturn_def
        result_simps tok_def error_expected_def syntax_error_def token_string_def split: if_splits SemInfo.splits)
  then show "ps_nCcalls ps' = ps_nCcalls ps \<and> tokens_left ps' \<le> tokens_left ps \<and> (True \<longrightarrow> tokens_left ps' < tokens_left ps)"
    using stepsD [OF next_steps p] by (simp add: TK_NAME_def TK_EOS_def)
qed

lemma check_match_frame: "frame (check_match w h l)"
  unfolding check_match_def by (intro frame_intros frame_basic testnext_frame)

lemma anchor_token_still [intro!, simp]: "still anchor_token"
  unfolding anchor_token_def by (intro still_bind still_then still_when) auto

lemma codestring_still [intro!, simp]: "still (codestring s)"
  unfolding codestring_def by (intro still_bind) auto

lemma checkname_consumes: "steps Q P checkname"
  unfolding checkname_def by (intro steps_bind_first str_checkname_consumes frame_still) auto

lemma new_localvar_still [intro!, simp]: "still (new_localvar v n)" "still (new_localvarliteral s n)"
proof -
  show *: "still (new_localvar v n)" for v by (simp add: new_localvar_def)
  show "still (new_localvarliteral s n)" unfolding new_localvarliteral_def by (intro still_bind * still_newstring)
qed

lemma vars_still [intro!, simp]: "still (adjustlocalvars n)" "still (removevars n)"
  unfolding adjustlocalvars_def removevars_def by simp_all

lemma adjust_assign_still [intro!, simp]: "still (adjust_assign m n e)"
  unfolding adjust_assign_def Let_def by (auto intro!: still_then still_when still_bind)

lemma block_still [intro!, simp]: "still (enterblock b)" "still current_block" "still leaveblock"
proof -
  show "still (enterblock b)" by (simp add: enterblock_def)
  show "still current_block" by (auto simp: still_def current_block_def split: list.splits)
  then show "still leaveblock" unfolding leaveblock_def by (auto intro!: still_bind still_then still_when)
qed

lemma open_func_still [intro!, simp]: "still open_func"
  by (auto simp: still_def open_func_def result_simps tok_def tokens_left_def)

lemma close_func_still [intro!, simp]: "still close_func"
proof -
  have "still (\<lambda>ps. Inr ((), ps\<lparr>ps_func := g, ps_prev := gs\<rparr>))" for g gs
    by (simp add: still_def tok_def tokens_left_def)
  then show ?thesis
    unfolding close_func_def by (auto intro!: still_then still_bind split: list.split)
qed

lemma pushclosure_still [intro!, simp]: "still (pushclosure f p)"
  unfolding pushclosure_def by (auto intro!: still_then still_bind)

lemma singlevar_consumes: "steps Q P singlevar"
proof -
  have "still (\<lambda>ps. bind_result (singlevaraux (lexer ps) (ps_func ps # ps_prev ps) v True)
          (\<lambda>(k, var, fs). Inr ((k, var), ps\<lparr>ps_func := hd fs, ps_prev := tl fs\<rparr>)))" for v
    by (auto simp: still_def result_simps tok_def tokens_left_def)
  then show ?thesis
    unfolding singlevar_def
    by (intro steps_bind_first str_checkname_consumes frame_intros frame_basic frame_still) auto
qed

subsection \<open>Progress of the grammar\<close>

text \<open>What the recursion keeps: both parsers make progress, and an expression consumes a token.\<close>

definition progressing :: "parsers \<Rightarrow> bool" where
  "progressing R \<longleftrightarrow> (\<forall>l. consumes (r_subexpr R l)) \<and> frame (r_chunk R)"

lemma tk_not_EOS [simp]: "tk c \<noteq> TK_EOS" "TK_EOS \<noteq> tk c"
  using uchar_bounds [of c] by (auto simp: tk_def TK_EOS_def)

lemmas token_codes = TK_AND_def TK_BREAK_def TK_DO_def TK_ELSE_def TK_ELSEIF_def TK_END_def TK_FALSE_def TK_FOR_def
  TK_FUNCTION_def TK_IF_def TK_IN_def TK_LOCAL_def TK_NIL_def TK_NOT_def TK_OR_def TK_REPEAT_def TK_RETURN_def
  TK_THEN_def TK_TRUE_def TK_UNTIL_def TK_WHILE_def TK_CONCAT_def TK_DOTS_def TK_EQ_def TK_GE_def TK_LE_def TK_NE_def
  TK_NUMBER_def TK_NAME_def TK_STRING_def

lemma reserved_not_EOS [simp]:
  "TK_DO \<noteq> TK_EOS" "TK_THEN \<noteq> TK_EOS" "TK_IN \<noteq> TK_EOS" "TK_END \<noteq> TK_EOS" "TK_UNTIL \<noteq> TK_EOS" "TK_FUNCTION \<noteq> TK_EOS"
  "TK_IF \<noteq> TK_EOS" "TK_WHILE \<noteq> TK_EOS" "TK_FOR \<noteq> TK_EOS" "TK_REPEAT \<noteq> TK_EOS" "TK_LOCAL \<noteq> TK_EOS" "TK_RETURN \<noteq> TK_EOS"
  "TK_BREAK \<noteq> TK_EOS" "TK_ELSE \<noteq> TK_EOS" "TK_ELSEIF \<noteq> TK_EOS" "TK_NAME \<noteq> TK_EOS" "TK_STRING \<noteq> TK_EOS" "TK_NUMBER \<noteq> TK_EOS"
  "TK_NIL \<noteq> TK_EOS" "TK_TRUE \<noteq> TK_EOS" "TK_FALSE \<noteq> TK_EOS" "TK_DOTS \<noteq> TK_EOS" "TK_NOT \<noteq> TK_EOS"
  by (simp_all add: token_codes TK_EOS_def)

text \<open>A loop whose body consumes before each further round.\<close>

definition continues :: "'s + 'a \<Rightarrow> bool" where "continues r \<longleftrightarrow> (case r of Inl _ \<Rightarrow> True | Inr _ \<Rightarrow> False)"

lemma continues_simps [simp]: "continues (Inl s)" "\<not> continues (Inr x)" by (simp_all add: continues_def)

lemma frame_sum: "(\<And>s. frame (f s)) \<Longrightarrow> (\<And>x. frame (g x)) \<Longrightarrow> frame (case r of Inl s \<Rightarrow> f s | Inr x \<Rightarrow> g x)"
  by (cases r) simp_all

lemma repeat_loop_frame: "(\<And>s. frame (bd s)) \<Longrightarrow> frame (repeat_loop e n bd s)"
proof (induction n arbitrary: s)
  case (Suc n)
  show ?case unfolding repeat_loop.simps by (intro frame_bind frame_sum frame_basic Suc)
qed simp

lemma ploop_frame: "(\<And>s. frame (bd s)) \<Longrightarrow> frame (ploop R bd s)"
proof (rule stepsI)
  fix ps x ps'
  assume "\<And>s. frame (bd s)" and "ploop R bd s ps = Inr (x, ps')"
  then show "ps_nCcalls ps' = ps_nCcalls ps \<and> tokens_left ps' \<le> tokens_left ps \<and> (False \<longrightarrow> tokens_left ps' < tokens_left ps)"
    using stepsD [OF repeat_loop_frame, of bd "r_cut R" "r_rounds R ps" s ps x ps'] by (auto simp: ploop_def)
qed

lemmas frame_ops = codestring_still [THEN frame_still] new_localvar_still [THEN frame_still] vars_still [THEN frame_still]
  adjust_assign_still [THEN frame_still] block_still [THEN frame_still] open_func_still [THEN frame_still]
  close_func_still [THEN frame_still] pushclosure_still [THEN frame_still] token_value_still [THEN frame_still]
  testnext_frame check_token_frame checknext_frame check_match_frame ploop_frame
  str_checkname_consumes checkname_consumes singlevar_consumes

lemmas frames = frame_intros frame_basic frame_ops

lemma subexpr_of: "progressing R \<Longrightarrow> steps Q P (r_subexpr R l)"
  by (simp add: progressing_def consumes_steps)

lemma chunk_of: "progressing R \<Longrightarrow> frame (r_chunk R)"
  by (simp add: progressing_def)

lemma expr_consumes: "progressing R \<Longrightarrow> steps Q P (expr R)"
  unfolding expr_def by (intro steps_bind_first subexpr_of frames)

lemma exp_ops_still [intro!, simp]: "still (exp2nextreg e)" "still (exp2anyreg e)" "still (indexed t k)" "still getlabel"
  unfolding exp2nextreg_def exp2anyreg_def indexed_def getlabel_def by (auto intro!: still_bind split: prod.split)

lemmas exp_frames = exp_ops_still [THEN frame_still]

lemma field_frame: "frame (field v)"
  unfolding field_def by (intro frames exp_frames)

lemma field_steps: "steps (\<lambda>t. t = tk c) P (field v)"
  unfolding field_def
  by (intro steps_bind_still exp_ops_still steps_prod steps_then(1) steps_weaken [OF next_steps] frames exp_frames) simp_all

lemma yindex_frame: "progressing R \<Longrightarrow> frame (yindex R)"
  unfolding yindex_def by (intro frames expr_consumes)

lemma recfield_frame: "progressing R \<Longrightarrow> frame (recfield R cc)"
  unfolding recfield_def by (intro frames expr_consumes yindex_frame)

lemma closelistfield_frame: "frame (closelistfield cc)" "frame (lastlistfield cc)"
  unfolding closelistfield_def lastlistfield_def Let_def by (intro frames exp_frames)+

lemma listfield_frame: "progressing R \<Longrightarrow> frame (listfield R cc)"
  unfolding listfield_def by (intro frames expr_consumes)

lemma pbind_return [simp]: "pbind (preturn x) f = f x"
  by (simp add: pbind_def preturn_def fun_eq_iff)

lemma testnext_then:
  assumes "steps anytok P (f False)" and "frame (f True)" and "c \<noteq> TK_EOS"
  shows "steps Q P (pbind (testnext c) f)"
proof (rule steps_bind_result [OF testnext_steps [OF assms(3)]])
  fix b show "steps anytok (\<lambda>y. P y \<and> \<not> b) (f b)" using assms(1,2) by (cases b) simp_all
qed

lemma constructor_item_steps:
  assumes "progressing R"
  shows "steps Q continues (constructor_item R cc)"
proof -
  have "steps Q continues (pbind (testnext (tk CHR '','')) (\<lambda>b.
         pbind (if b then preturn True else testnext (tk CHR '';'')) (\<lambda>b. preturn (if b then Inl cc else Inr cc))))" for Q cc
    by (rule testnext_then; simp; intro testnext_then frames; simp add: steps_return frame_basic)
  note rest = this
  show ?thesis
    unfolding constructor_item_def
    by (rule steps_curtoken, rule steps_if, rule steps_return, simp, rule steps_bind_second, rule closelistfield_frame,
        rule steps_curtoken, rule steps_bind_second) (intro frames recfield_frame listfield_frame assms rest)+
qed

lemma continues_frame: "(\<And>s. steps anytok continues (bd s)) \<Longrightarrow> frame (ploop R bd s)"
  by (intro ploop_frame) (rule steps_weaken, assumption, simp_all)

lemma constructor_consumes: "progressing R \<Longrightarrow> steps Q P (constructor R)"
  unfolding constructor_def
  by (intro steps_bind_still steps_then(1) checknext_consumes frames exp_frames continues_frame constructor_item_steps
      closelistfield_frame still_in_ls still_codes exp_ops_still) simp_all

lemma parlist_item_steps: "steps Q continues (parlist_item n)"
proof -
  have "steps Q continues (pbind (if va = 0 then testnext (tk CHR '','') else preturn False)
          (\<lambda>b. preturn (if b then Inl m else Inr m)))" for va :: lu_byte and m :: int and Q
    by (cases "va = 0"; simp add: steps_return; rule testnext_then; simp add: steps_return frame_basic)
  note rest = this
  show ?thesis
    unfolding parlist_item_def
    by (rule steps_curtoken, rule steps_then(3), intro frames, rule steps_bind_second, intro frames, rule rest)
qed

lemma parlist_frame: "frame (parlist R)"
  unfolding parlist_def by (intro frames continues_frame parlist_item_steps)

lemma body_frame: "progressing R \<Longrightarrow> frame (body R needself line)"
  unfolding body_def by (intro frames parlist_frame chunk_of)

lemma explist1_item_steps:
  "progressing R \<Longrightarrow> steps Q continues ((\<lambda>(n, v).
     pbind (testnext (tk CHR '','')) (\<lambda>b.
       if b then pbind (exp2nextreg v) (\<lambda>_. pbind (expr R) (\<lambda>v. preturn (Inl (n + 1, v))))
       else preturn (Inr (n, v)))) s)"
  by (cases s, simp, intro testnext_then) (auto intro!: frames exp_frames expr_consumes steps_return)

lemma explist1_consumes: "progressing R \<Longrightarrow> steps Q P (explist1 R)"
  unfolding explist1_def by (intro steps_bind_first expr_consumes continues_frame explist1_item_steps)

text \<open>Consuming the current token, which is known not to be the last one.\<close>

lemma next_consumes: "t \<noteq> TK_EOS \<Longrightarrow> frame m \<Longrightarrow> steps (\<lambda>t'. t' = t) P (pthen p_next m)"
  by (intro steps_then(1) steps_weaken [OF next_steps]) simp_all

lemma next_consumes': "t \<noteq> TK_EOS \<Longrightarrow> steps (\<lambda>t'. t' = t) P p_next"
  by (intro steps_weaken [OF next_steps]) simp_all

lemma funcargs_consumes:
  assumes "progressing R"
  shows "steps Q P (funcargs R f)"
  unfolding funcargs_def
proof (rule steps_bind_still [OF still_in_ls], rule steps_curtoken, rule steps_bind_first)
  fix line t
  have paren: "frame (pbind curtoken (\<lambda>t.
      pbind (if t = tk CHR '')'' then preturn (init_exp VVOID 0)
             else pbind (explist1 R) (\<lambda>(_, e). pthen (codes0 (\<lambda>fs. luaK_setreturns fs e LUA_MULTRET)) (preturn e))) (\<lambda>e.
      pthen (check_match (tk CHR '')'') (tk CHR ''('') line) (preturn e))))"
    by (intro frames explist1_consumes assms)
  show "steps (\<lambda>t'. t' = t) (\<lambda>_. True)
     (if t = tk CHR ''('' then
          pbind (in_ls lastline) (\<lambda>lastln.
          pthen (pwhen (line \<noteq> lastln) (syntax_error ''ambiguous syntax (function call x new statement)''))
         (pthen p_next
         (pbind curtoken (\<lambda>t.
          pbind (if t = tk CHR '')'' then preturn (init_exp VVOID 0)
                 else pbind (explist1 R) (\<lambda>(_, e).
                      pthen (codes0 (\<lambda>fs. luaK_setreturns fs e LUA_MULTRET)) (preturn e))) (\<lambda>e.
          pthen (check_match (tk CHR '')'') (tk CHR ''('') line) (preturn e))))))
        else if t = tk CHR ''{'' then constructor R
        else if t = TK_STRING then
          pbind token_string (\<lambda>s. pbind (codestring s) (\<lambda>e. pthen p_next (preturn e)))
        else syntax_error ''function arguments expected'')"
    by (rule steps_if, rule steps_bind_still [OF still_in_ls], rule steps_then(2), intro still_when still_error,
        rule next_consumes, simp, rule paren, rule steps_if, rule constructor_consumes [OF assms], rule steps_if,
        rule steps_bind_still [OF token_value_still(1)], rule steps_bind_still [OF codestring_still],
        rule next_consumes, simp, intro frames, rule consumes_error)
qed (intro frames exp_frames)

lemma prefixexp_consumes:
  assumes "progressing R"
  shows "steps Q P (prefixexp R)"
  unfolding prefixexp_def
  by (rule steps_curtoken, rule steps_if, rule steps_bind_still [OF still_in_ls], rule next_consumes, simp,
      intro frames expr_consumes assms, rule steps_if, rule singlevar_consumes, rule consumes_error)

lemma primary_suffix_steps:
  assumes "progressing R"
  shows "steps Q continues (primary_suffix R v)"
  unfolding primary_suffix_def
proof (rule steps_curtoken, intro steps_if)
  fix t
  let ?from = "steps (\<lambda>t'. t' = t) continues :: (expdesc + expdesc) parse \<Rightarrow> bool"
  show "?from (pbind (field v) (\<lambda>v. preturn (Inl v)))" if "t = tk CHR ''.''"
    unfolding that by (rule steps_bind_first, rule field_steps) (intro frames)
  show "?from (pbind (exp2anyreg v) (\<lambda>(_, v). pbind (yindex R) (\<lambda>key. pbind (indexed v key) (\<lambda>v. preturn (Inl v)))))"
    if "t = tk CHR ''[''"
    unfolding yindex_def that
    by (rule steps_bind_still [OF exp_ops_still(2)], rule steps_prod, rule steps_bind_first, rule next_consumes)
      (simp, (intro frames exp_frames expr_consumes assms)+)
  show "?from (pthen p_next (pbind checkname (\<lambda>key. pbind (codes2 (\<lambda>fs. luaK_self fs v key)) (\<lambda>(v, _).
         pbind (funcargs R v) (\<lambda>v. preturn (Inl v))))))" if "t = tk CHR '':''"
    by (rule next_consumes, simp add: that) (intro frames exp_frames funcargs_consumes assms)
  show "?from (pbind (exp2nextreg v) (\<lambda>v. pbind (funcargs R v) (\<lambda>v. preturn (Inl v))))"
    by (rule steps_bind_still [OF exp_ops_still(1)], rule steps_bind_first, rule funcargs_consumes [OF assms]) (intro frames)
qed (simp_all add: steps_return)

lemma primaryexp_consumes: "progressing R \<Longrightarrow> steps Q P (primaryexp R)"
  unfolding primaryexp_def
  by (rule steps_bind_first, rule prefixexp_consumes, assumption) (intro continues_frame primary_suffix_steps)

lemma simpleexp_consumes:
  assumes "progressing R"
  shows "steps Q P (simpleexp R)"
  unfolding simpleexp_def
  by (rule steps_curtoken, intro steps_if steps_bind_still steps_then(2) token_value_still codestring_still still_in_func
      still_upd still_codes next_consumes constructor_consumes primaryexp_consumes assms frames body_frame)
    (simp_all add: check_condition_def)

lemma getunopr_EOS [simp]: "getunopr TK_EOS = OPR_NOUNOPR"
  by (simp add: getunopr_def TK_NOT_def TK_EOS_def tk_def uchar_def)

lemma subexpr_step_steps: "progressing R \<Longrightarrow> steps Q continues (subexpr_step pow R l s)"
  unfolding subexpr_step_def
  by (rule steps_prod, rule steps_if, rule steps_then(3), rule next_frame, rule steps_bind_second, intro frames,
      rule steps_bind_first, rule subexpr_of, assumption) (intro frames, simp add: steps_return)

text \<open>Between \<open>enterlevel\<close> and \<open>leavelevel\<close> the number of nested calls is one more.\<close>

lemma nested_run:
  "nested m ps = bind_result (if ps_nCcalls ps + 1 > LUAI_MAXCCALLS
     then luaX_lexerror (lexer ps) ''chunk has too many syntax levels'' 0
     else m (ps\<lparr>ps_nCcalls := ps_nCcalls ps + 1\<rparr>)) (\<lambda>(x, ps). Inr (x, ps\<lparr>ps_nCcalls := ps_nCcalls ps - 1\<rparr>))"
  by (auto simp: nested_def pthen_def pbind_def enterlevel_def leavelevel_def preturn_def lexer_def luaX_lexerror_def
      bind_result_def Let_def split: sum.splits)

lemma nested_steps:
  assumes "steps Q P m"
  shows "steps Q P (nested m)"
proof (rule stepsI)
  fix ps x ps'
  assume q: "Q (tok ps)" and "nested m ps = Inr (x, ps')"
  then obtain ps1 where 1: "m (ps\<lparr>ps_nCcalls := ps_nCcalls ps + 1\<rparr>) = Inr (x, ps1)"
      "ps' = ps1\<lparr>ps_nCcalls := ps_nCcalls ps1 - 1\<rparr>"
    by (auto simp: nested_run result_simps split: if_splits)
  from stepsD [OF assms 1(1)] q 1(2)
  show "ps_nCcalls ps' = ps_nCcalls ps \<and> tokens_left ps' \<le> tokens_left ps \<and> (P x \<longrightarrow> tokens_left ps' < tokens_left ps)"
    by (simp add: tok_def tokens_left_def)
qed

lemma subexpr_body_consumes:
  assumes "progressing R"
  shows "steps Q P (subexpr_body pow R l)"
  unfolding subexpr_body_def Let_def
proof (rule steps_curtoken, rule steps_bind_first)
  fix t
  show "steps (\<lambda>t'. t' = t) (\<lambda>_. True)
     (if getunopr t \<noteq> OPR_NOUNOPR
      then pthen p_next (pbind (r_subexpr R UNARY_PRIORITY) (\<lambda>(_, v). codes (\<lambda>fs. luaK_prefix pow fs (getunopr t) v)))
      else simpleexp R)"
    by (rule steps_if, rule steps_then(3), rule next_frame, rule steps_bind_first, rule subexpr_of [OF assms])
      (intro frames simpleexp_consumes assms)+
qed (intro frames continues_frame subexpr_step_steps assms)

lemma subexpr_consumes: "progressing R \<Longrightarrow> steps Q P (subexpr pow R l)"
  unfolding subexpr_def by (intro nested_steps subexpr_body_consumes)

text \<open>Statements.\<close>

lemma stat_frames:
  "frame breakstat" "frame (storevar v e)" "frame (default_assign v)" "frame (escape_jump l)" "frame (check_conflict lhs v)"
proof -
  show 1: "frame (storevar v e)" for v e unfolding storevar_def by (intro frames)
  show "frame (default_assign v)" unfolding default_assign_def by (intro frames 1)
  show "frame (escape_jump l)" unfolding escape_jump_def by (intro frames)
  show "frame (check_conflict lhs v)" unfolding check_conflict_def by (intro frames)
  have "frame (case rest of [] \<Rightarrow> syntax_error ''no loop to break''
     | bl # outer \<Rightarrow> pthen (pwhen (\<exists>b \<in> set inner. bl_upval b)
                  (codes0 (\<lambda>fs. drop_pc (luaK_codeABC fs OP_CLOSE (bl_nactvar bl) 0 0))))
        (pbind (codes luaK_jump) (\<lambda>j. pbind (codes (\<lambda>fs. luaK_concat fs (bl_breaklist bl) j)) (\<lambda>l.
           upd_func (\<lambda>f. f\<lparr>pf_bl := inner @ bl\<lparr>bl_breaklist := l\<rparr> # outer\<rparr>)))))" for inner rest
    by (cases rest) (simp, simp only: list.case, intro frames)
  then show "frame breakstat" unfolding breakstat_def by (intro frames)
qed

lemma block_frame: "progressing R \<Longrightarrow> frame (block R)"
  unfolding block_def by (intro frames chunk_of)

lemma assignment_frame: "progressing R \<Longrightarrow> frame (assignment n R lhs nvars)"
proof (induction n arbitrary: lhs nvars)
  case (Suc n)
  have "frame (check_condition b m)" for b m by (simp add: check_condition_def frame_basic)
  then show ?case
    unfolding assignment.simps by (intro frames stat_frames primaryexp_consumes explist1_consumes Suc)
qed simp

lemma cond_frame: "progressing R \<Longrightarrow> frame (cond R)"
  unfolding cond_def by (intro frames expr_consumes)

lemma exp1_frame: "progressing R \<Longrightarrow> frame (exp1 R)"
  unfolding exp1_def by (intro frames exp_frames expr_consumes)

lemma forbody_frame: "progressing R \<Longrightarrow> frame (forbody R base line nvars isnum)"
  unfolding forbody_def by (intro frames block_frame)

lemma fornum_frame: "progressing R \<Longrightarrow> frame (fornum R v line)"
  unfolding fornum_def by (intro frames forbody_frame exp1_frame)

lemma names_item_steps:
  "steps Q continues (pbind (testnext (tk CHR '','')) (\<lambda>b.
     if b then pbind str_checkname (\<lambda>n. pthen (new_localvar n nvars) (preturn (Inl (nvars + 1)))) else preturn (Inr nvars)))"
  by (rule testnext_then) (simp_all add: steps_return, intro frames)

lemma forlist_frame: "progressing R \<Longrightarrow> frame (forlist R v)"
  unfolding forlist_def by (intro frames forbody_frame explist1_consumes continues_frame names_item_steps)

lemma test_then_block_steps:
  assumes "progressing R" and "t \<noteq> TK_EOS"
  shows "steps (\<lambda>t'. t' = t) P (test_then_block R)"
  unfolding test_then_block_def by (rule next_consumes [OF assms(2)]) (intro frames cond_frame block_frame assms)

lemma test_then_block_frame: "progressing R \<Longrightarrow> frame (test_then_block R)"
  unfolding test_then_block_def by (intro frames cond_frame block_frame)

lemma elseif_steps:
  "progressing R \<Longrightarrow> steps Q continues ((\<lambda>(escapelist, flist).
     pbind curtoken (\<lambda>t.
       if t = TK_ELSEIF then
         pbind (escape_jump escapelist) (\<lambda>escapelist.
         pthen (codes0 (\<lambda>fs. luaK_patchtohere fs flist))
        (pbind (test_then_block R) (\<lambda>flist. preturn (Inl (escapelist, flist)))))
       else preturn (Inr (escapelist, flist)))) s)"
  unfolding escape_jump_def
  by (cases s, simp, rule steps_curtoken, rule steps_if, rule steps_bind_still, intro still_bind still_codes,
      rule steps_then(2), rule still_codes, rule steps_bind_first, rule test_then_block_steps, assumption, simp)
    (intro frames, simp add: steps_return)

lemma ifstat_steps:
  assumes "progressing R" and "t \<noteq> TK_EOS"
  shows "steps (\<lambda>t'. t' = t) P (ifstat R line)"
  unfolding ifstat_def
  by (rule steps_bind_first, rule test_then_block_steps [OF assms])
    (intro frames continues_frame elseif_steps stat_frames block_frame assms)

lemma localstat_item_steps:
  "steps Q continues (pbind str_checkname (\<lambda>name.
     pthen (new_localvar name nvars)
    (pbind (testnext (tk CHR '','')) (\<lambda>b. preturn (if b then Inl (nvars + 1) else Inr (nvars + 1))))))"
  by (rule steps_bind_first, rule str_checkname_consumes) (intro frames)

lemma localstat_frame: "progressing R \<Longrightarrow> frame (localstat R)"
  unfolding localstat_def by (intro frames continues_frame localstat_item_steps explist1_consumes)

lemma localfunc_frame: "progressing R \<Longrightarrow> frame (localfunc R)"
  unfolding localfunc_def by (intro frames body_frame stat_frames)

lemma funcname_item_steps:
  "steps Q continues (pbind curtoken (\<lambda>t.
     if t = tk CHR ''.'' then pbind (field v) (\<lambda>v. preturn (Inl v)) else preturn (Inr v)))"
  by (rule steps_curtoken, rule steps_if, simp, rule steps_bind_first, rule field_steps)
    (intro frames, simp add: steps_return)

lemma funcname_frame: "frame (funcname R)"
  unfolding funcname_def by (intro frames continues_frame funcname_item_steps field_frame)

lemma exprstat_consumes:
  assumes "progressing R"
  shows "steps Q P (exprstat R)"
proof -
  have "frame (\<lambda>ps. pbind (assignment (r_rounds R ps) R [v] 1) (\<lambda>_. preturn ()) ps)" for v
  proof (rule stepsI)
    fix ps x ps'
    assume "pbind (assignment (r_rounds R ps) R [v] 1) (\<lambda>_. preturn ()) ps = Inr (x, ps')"
    then show "ps_nCcalls ps' = ps_nCcalls ps \<and> tokens_left ps' \<le> tokens_left ps \<and> (False \<longrightarrow> tokens_left ps' < tokens_left ps)"
      by (rule stepsD [OF frame_bind [OF assignment_frame [OF assms] frame_basic(1)]]) simp
  qed
  then show ?thesis
    unfolding exprstat_def by (intro steps_bind_first primaryexp_consumes frames assms)
qed

lemma retstat_steps:
  assumes "progressing R" and "t \<noteq> TK_EOS"
  shows "steps (\<lambda>t'. t' = t) P (retstat R)"
  unfolding retstat_def
  by (rule next_consumes [OF assms(2)]) (intro frames exp_frames explist1_consumes assms)

lemma whilestat_steps:
  assumes "progressing R" and "t \<noteq> TK_EOS"
  shows "steps (\<lambda>t'. t' = t) P (whilestat R line)"
  unfolding whilestat_def
  by (rule next_consumes [OF assms(2)]) (intro frames exp_frames cond_frame block_frame assms)

lemma repeatstat_steps:
  assumes "progressing R" and "t \<noteq> TK_EOS"
  shows "steps (\<lambda>t'. t' = t) P (repeatstat R line)"
  unfolding repeatstat_def
  by (rule steps_bind_still [OF exp_ops_still(4)], rule steps_then(2), rule block_still, rule steps_then(2), rule block_still,
      rule next_consumes [OF assms(2)]) (intro frames exp_frames cond_frame stat_frames chunk_of assms)

lemma forstat_steps:
  assumes "progressing R" and "t \<noteq> TK_EOS"
  shows "steps (\<lambda>t'. t' = t) P (forstat R line)"
  unfolding forstat_def
  by (rule steps_then(2), rule block_still, rule next_consumes [OF assms(2)])
    (intro frames fornum_frame forlist_frame assms)

lemma funcstat_steps:
  assumes "progressing R" and "t \<noteq> TK_EOS"
  shows "steps (\<lambda>t'. t' = t) P (funcstat R line)"
  unfolding funcstat_def
  by (rule next_consumes [OF assms(2)]) (intro frames funcname_frame body_frame stat_frames assms)

lemma statement_consumes:
  assumes R: "progressing R"
  shows "steps Q P (statement R)"
proof -
  have stat: "steps (\<lambda>t'. t' = t) P (pthen m (preturn b))" if "steps (\<lambda>t'. t' = t) (\<lambda>_. True) m" for m :: "unit parse" and b t
    by (rule steps_then(1) [OF that]) (intro frames)
  show ?thesis
    unfolding statement_def
    by (rule steps_bind_still [OF still_in_ls], rule steps_curtoken, intro steps_if)
      (simp; intro stat ifstat_steps whilestat_steps forstat_steps repeatstat_steps funcstat_steps retstat_steps next_consumes
        frames block_frame localfunc_frame localstat_frame stat_frames exprstat_consumes R; simp)+
qed

lemma chunk_step_steps: "progressing R \<Longrightarrow> steps Q continues (chunk_step R b)"
  unfolding chunk_step_def
  by (rule steps_curtoken, rule steps_if, rule steps_bind_first, rule statement_consumes, assumption)
    (intro frames, simp add: steps_return)

lemma chunk_frame: "progressing R \<Longrightarrow> frame (chunk R)"
  unfolding chunk_def by (intro nested_steps continues_frame chunk_step_steps)

lemma parsers_at_progressing: "progressing (parsers_at pow F e d)"
proof (induction d)
  case 0
  show ?case by (simp add: progressing_def)
next
  case (Suc d)
  then show ?case by (simp add: progressing_def Let_def subexpr_consumes chunk_frame)
qed

section \<open>The bounds are never reached\<close>

text \<open>
  Two parsers that agree on the states with \<open>c\<close> nested calls and at most \<open>k\<close> tokens left.
\<close>

definition same :: "int \<Rightarrow> nat \<Rightarrow> 'a parse \<Rightarrow> 'a parse \<Rightarrow> bool" where
  "same c k m m' \<longleftrightarrow> (\<forall>ps. ps_nCcalls ps = c \<longrightarrow> tokens_left ps \<le> k \<longrightarrow> m ps = m' ps)"

lemma sameI: "(\<And>ps. ps_nCcalls ps = c \<Longrightarrow> tokens_left ps \<le> k \<Longrightarrow> m ps = m' ps) \<Longrightarrow> same c k m m'"
  by (simp add: same_def)

lemma sameD: "same c k m m' \<Longrightarrow> ps_nCcalls ps = c \<Longrightarrow> tokens_left ps \<le> k \<Longrightarrow> m ps = m' ps"
  by (simp add: same_def)

lemma same_refl: "same c k m m" by (simp add: same_def)
lemma same_less: "same c k m m' \<Longrightarrow> j \<le> k \<Longrightarrow> same c j m m'" by (auto simp: same_def)

lemma same_bind:
  assumes "frame m" and "same c k m m'" and "\<And>x. same c k (f x) (f' x)"
  shows "same c k (pbind m f) (pbind m' f')"
proof (rule sameI)
  fix ps
  assume c: "ps_nCcalls ps = c" and k: "tokens_left ps \<le> k"
  show "pbind m f ps = pbind m' f' ps"
  proof (cases "m ps")
    case (Inr r)
    then obtain x ps1 where r: "m ps = Inr (x, ps1)" by (cases r) simp
    have "f x ps1 = f' x ps1"
      by (rule sameD [OF assms(3)]) (use stepsD [OF assms(1) r] c k in auto)
    then show ?thesis using r sameD [OF assms(2) c k] by (simp add: pbind_def)
  qed (use sameD [OF assms(2) c k] in \<open>simp add: pbind_def\<close>)
qed

lemma same_then: "frame m \<Longrightarrow> same c k m m' \<Longrightarrow> same c k n n' \<Longrightarrow> same c k (pthen m n) (pthen m' n')"
  unfolding pthen_def by (rule same_bind)

lemma same_when: "(b \<Longrightarrow> same c k m m') \<Longrightarrow> same c k (pwhen b m) (pwhen b m')"
  by (simp add: pwhen_def same_refl)

lemma same_if: "(b \<Longrightarrow> same c k m m') \<Longrightarrow> (\<not> b \<Longrightarrow> same c k n n') \<Longrightarrow> same c k (if b then m else n) (if b then m' else n')"
  by simp

lemma same_prod: "(\<And>a b. same c k (f a b) (f' a b)) \<Longrightarrow> same c k (case p of (a, b) \<Rightarrow> f a b) (case p of (a, b) \<Rightarrow> f' a b)"
  by (cases p) simp

lemma same_testnext:
  assumes "t \<noteq> TK_EOS" and "same c k (f False) (f' False)" and "\<And>j. j < k \<Longrightarrow> same c j (f True) (f' True)"
  shows "same c k (pbind (testnext t) f) (pbind (testnext t) f')"
proof (rule sameI)
  fix ps
  assume c: "ps_nCcalls ps = c" and k: "tokens_left ps \<le> k"
  show "pbind (testnext t) f ps = pbind (testnext t) f' ps"
  proof (cases "testnext t ps")
    case (Inr r)
    then obtain b ps1 where r: "testnext t ps = Inr (b, ps1)" by (cases r) simp
    note 1 = stepsD [OF testnext_steps [OF assms(1), of anytok] r]
    have "f b ps1 = f' b ps1"
    proof (cases b)
      case True
      have "f True ps1 = f' True ps1"
        by (rule sameD [OF assms(3) [of "tokens_left ps1"]]) (use 1 True c k in auto)
      then show ?thesis using True by simp
    next
      case False
      have "f False ps1 = f' False ps1" by (rule sameD [OF assms(2)]) (use 1 c k in auto)
      then show ?thesis using False by simp
    qed
    then show ?thesis using r by (simp add: pbind_def)
  qed (simp add: pbind_def)
qed

text \<open>Parsers of the recursion that agree, with enough rounds for the loops.\<close>

definition alike :: "int \<Rightarrow> parsers \<Rightarrow> parsers \<Rightarrow> bool" where
  "alike c R R' \<longleftrightarrow> progressing R \<and> (\<forall>l k. same c k (r_subexpr R l) (r_subexpr R' l))
    \<and> (\<forall>k. same c k (r_chunk R) (r_chunk R'))
    \<and> (\<forall>ps. tokens_left ps < r_rounds R ps \<and> tokens_left ps < r_rounds R' ps)"

lemma alike_progressing: "alike c R R' \<Longrightarrow> progressing R" by (simp add: alike_def)
lemma alike_subexpr: "alike c R R' \<Longrightarrow> same c k (r_subexpr R l) (r_subexpr R' l)" by (simp add: alike_def)
lemma alike_chunk: "alike c R R' \<Longrightarrow> same c k (r_chunk R) (r_chunk R')" by (simp add: alike_def)

lemma same_repeat_loop:
  assumes "\<And>s. steps anytok continues (bd s)" and "\<And>s. same c k (bd s) (bd' s)"
  shows "ps_nCcalls ps = c \<Longrightarrow> tokens_left ps \<le> k \<Longrightarrow> tokens_left ps < n \<Longrightarrow> tokens_left ps < n' \<Longrightarrow>
    repeat_loop e n bd s ps = repeat_loop e' n' bd' s ps"
proof (induction n arbitrary: n' s ps)
  case (Suc n)
  from Suc.prems obtain m where n': "n' = Suc m" by (cases n') simp_all
  note eq = sameD [OF assms(2) Suc.prems(1,2)]
  show ?case
  proof (cases "bd s ps")
    case (Inr r)
    then obtain x ps1 where r: "bd s ps = Inr (x, ps1)" by (cases r) simp
    note 1 = stepsD [OF assms(1) r]
    have "repeat_loop e n bd s' ps1 = repeat_loop e' m bd' s' ps1" if "x = Inl s'" for s'
      by (rule Suc.IH) (use 1 that Suc.prems n' in auto)
    then show ?thesis using r eq [of s] n' by (cases x) (simp_all add: pbind_def)
  qed (use eq [of s] n' in \<open>simp add: pbind_def\<close>)
qed simp

lemma same_loop:
  assumes "alike c R R'" and "\<And>s. steps anytok continues (bd s)" and "\<And>s. same c k (bd s) (bd' s)"
  shows "same c k (ploop R bd s) (ploop R' bd' s)"
  by (rule sameI) (use assms(1) same_repeat_loop [OF assms(2,3)] in \<open>simp add: ploop_def alike_def\<close>)

lemmas same_intros = same_refl same_bind same_then same_when same_if same_prod

lemma same_expr: "alike c R R' \<Longrightarrow> same c k (expr R) (expr R')"
  unfolding expr_def
  by (intro same_intros alike_subexpr) (simp add: alike_progressing subexpr_of)

lemma same_yindex: "alike c R R' \<Longrightarrow> same c k (yindex R) (yindex R')"
  unfolding yindex_def
  by (intro same_intros same_expr frames exp_frames expr_consumes alike_progressing)

lemma same_recfield: "alike c R R' \<Longrightarrow> same c k (recfield R cc) (recfield R' cc)"
  unfolding recfield_def
  by (intro same_intros same_expr same_yindex frames expr_consumes yindex_frame alike_progressing)

lemma same_listfield: "alike c R R' \<Longrightarrow> same c k (listfield R cc) (listfield R' cc)"
  unfolding listfield_def
  by (intro same_intros same_expr frames expr_consumes alike_progressing)

lemma same_constructor: "alike c R R' \<Longrightarrow> same c k (constructor R) (constructor R')"
  unfolding constructor_def constructor_item_def
  by (intro same_intros same_loop [unfolded constructor_item_def] same_recfield same_listfield frames exp_frames
      constructor_item_steps [unfolded constructor_item_def] continues_frame
      closelistfield_frame recfield_frame listfield_frame alike_progressing)

lemma same_parlist: "alike c R R' \<Longrightarrow> same c k (parlist R) (parlist R')"
  unfolding parlist_def
  by (intro same_intros same_loop frames continues_frame parlist_item_steps)

lemma same_body: "alike c R R' \<Longrightarrow> same c k (body R needself line) (body R' needself line)"
  unfolding body_def
  by (intro same_intros alike_chunk same_parlist frames parlist_frame chunk_of alike_progressing)

lemma same_explist1: "alike c R R' \<Longrightarrow> same c k (explist1 R) (explist1 R')"
  unfolding explist1_def
  by (rule same_bind, rule expr_consumes, erule alike_progressing, erule same_expr, rule same_loop, assumption,
      rule explist1_item_steps, erule alike_progressing)
    (intro same_intros same_expr frames exp_frames expr_consumes alike_progressing)

lemma same_funcargs: "alike c R R' \<Longrightarrow> same c k (funcargs R f) (funcargs R' f)"
  unfolding funcargs_def
  by (intro same_intros same_explist1 same_constructor frames exp_frames explist1_consumes constructor_consumes
      alike_progressing)

lemma same_prefixexp: "alike c R R' \<Longrightarrow> same c k (prefixexp R) (prefixexp R')"
  unfolding prefixexp_def
  by (intro same_intros same_expr frames expr_consumes alike_progressing)

lemma same_primary_suffix: "alike c R R' \<Longrightarrow> same c k (primary_suffix R v) (primary_suffix R' v)"
  unfolding primary_suffix_def
  by (intro same_intros same_yindex same_funcargs frames exp_frames yindex_frame funcargs_consumes alike_progressing)

lemma same_primaryexp: "alike c R R' \<Longrightarrow> same c k (primaryexp R) (primaryexp R')"
  unfolding primaryexp_def
  by (intro same_bind same_prefixexp same_loop same_primary_suffix primary_suffix_steps prefixexp_consumes alike_progressing)

lemma same_simpleexp: "alike c R R' \<Longrightarrow> same c k (simpleexp R) (simpleexp R')"
  unfolding simpleexp_def
  by (intro same_intros same_constructor same_body same_primaryexp frames alike_progressing)
    (auto simp: check_condition_def intro!: same_intros frames)

lemma same_subexpr_body: "alike c R R' \<Longrightarrow> same c k (subexpr_body pow R l) (subexpr_body pow R' l)"
  unfolding subexpr_body_def subexpr_step_def Let_def
  by (intro same_intros alike_subexpr same_simpleexp same_loop subexpr_step_steps [unfolded subexpr_step_def] frames
      simpleexp_consumes subexpr_of alike_progressing)

text \<open>Inside a level the parsers need to agree on the states with one more call.\<close>

lemma same_nested:
  assumes "c < LUAI_MAXCCALLS \<Longrightarrow> same (c + 1) k m m'"
  shows "same c k (nested m) (nested m')"
proof (rule sameI)
  fix ps
  assume c: "ps_nCcalls ps = c" and k: "tokens_left ps \<le> k"
  show "nested m ps = nested m' ps"
  proof (cases "c < LUAI_MAXCCALLS")
    case True
    have "m (ps\<lparr>ps_nCcalls := c + 1\<rparr>) = m' (ps\<lparr>ps_nCcalls := c + 1\<rparr>)"
      by (rule sameD [OF assms [OF True]]) (use k in \<open>simp_all add: tokens_left_def\<close>)
    then show ?thesis using c by (simp add: nested_run)
  qed (use c in \<open>simp add: nested_run\<close>)
qed

lemma same_block: "alike c R R' \<Longrightarrow> same c k (block R) (block R')"
  unfolding block_def by (intro same_intros alike_chunk frames chunk_of alike_progressing)

lemma same_cond: "alike c R R' \<Longrightarrow> same c k (cond R) (cond R')"
  unfolding cond_def by (intro same_intros same_expr frames expr_consumes alike_progressing)

lemma same_exp1: "alike c R R' \<Longrightarrow> same c k (exp1 R) (exp1 R')"
  unfolding exp1_def by (intro same_intros same_expr frames exp_frames expr_consumes alike_progressing)

lemma same_assignment:
  "alike c R R' \<Longrightarrow> k < n \<Longrightarrow> k < n' \<Longrightarrow> same c k (assignment n R lhs nvars) (assignment n' R' lhs nvars)"
proof (induction n arbitrary: k n' lhs nvars)
  case (Suc n)
  then obtain m where n': "n' = Suc m" by (cases n') simp_all
  have check: "frame (check_condition b t)" for b t by (simp add: check_condition_def frame_basic)
  have IH: "same c j (assignment n R lhs nvars) (assignment m R' lhs nvars)" if "j < k" for j lhs nvars
    using Suc that n' by (intro Suc.IH) auto
  have rest: "same c j
      (pbind (primaryexp R) (\<lambda>nv. pbind (if e_k nv = VLOCAL then check_conflict lhs nv else preturn lhs) (\<lambda>lhs.
         pbind (assignment n R (nv # lhs) (nvars + 1)) (\<lambda>lhs. pthen (default_assign (hd (tl lhs))) (preturn (tl lhs))))))
      (pbind (primaryexp R') (\<lambda>nv. pbind (if e_k nv = VLOCAL then check_conflict lhs nv else preturn lhs) (\<lambda>lhs.
         pbind (assignment m R' (nv # lhs) (nvars + 1)) (\<lambda>lhs. pthen (default_assign (hd (tl lhs))) (preturn (tl lhs))))))"
    if "j < k" for j
    by (intro same_intros same_primaryexp IH Suc.prems that frames stat_frames primaryexp_consumes assignment_frame
        alike_progressing [OF Suc.prems(1)])
  show ?case
    unfolding n' assignment.simps
    by (rule same_then, rule check, rule same_refl, rule same_testnext, simp, unfold if_True if_False)
      (intro same_intros same_explist1 rest Suc.prems frames stat_frames explist1_consumes alike_progressing [OF Suc.prems(1)]
        | assumption)+
qed simp

lemma same_exprstat: "alike c R R' \<Longrightarrow> same c k (exprstat R) (exprstat R')"
proof -
  assume R: "alike c R R'"
  have "same c k (\<lambda>ps. pbind (assignment (r_rounds R ps) R [v] 1) (\<lambda>_. preturn ()) ps)
          (\<lambda>ps. pbind (assignment (r_rounds R' ps) R' [v] 1) (\<lambda>_. preturn ()) ps)" for v
  proof (rule sameI)
    fix ps :: PState
    assume c: "ps_nCcalls ps = c"
    have "assignment (r_rounds R ps) R [v] 1 ps = assignment (r_rounds R' ps) R' [v] 1 ps"
      by (rule sameD [OF same_assignment [OF R, where k = "tokens_left ps"] c]) (use R in \<open>auto simp: alike_def\<close>)
    then show "pbind (assignment (r_rounds R ps) R [v] 1) (\<lambda>_. preturn ()) ps
        = pbind (assignment (r_rounds R' ps) R' [v] 1) (\<lambda>_. preturn ()) ps" by (simp add: pbind_def)
  qed
  then show ?thesis
    unfolding exprstat_def
    by (intro same_bind same_if same_refl same_primaryexp primaryexp_consumes R alike_progressing [OF R])
qed

lemma same_forbody: "alike c R R' \<Longrightarrow> same c k (forbody R base line nvars isnum) (forbody R' base line nvars isnum)"
  unfolding forbody_def by (intro same_intros same_block frames block_frame alike_progressing)

lemma same_fornum: "alike c R R' \<Longrightarrow> same c k (fornum R v line) (fornum R' v line)"
  unfolding fornum_def by (intro same_intros same_forbody same_exp1 frames exp1_frame alike_progressing)

lemma same_forlist: "alike c R R' \<Longrightarrow> same c k (forlist R v) (forlist R' v)"
  unfolding forlist_def
  by (intro same_intros same_forbody same_explist1 same_loop names_item_steps frames explist1_consumes alike_progressing
      continues_frame)

lemma same_test_then_block: "alike c R R' \<Longrightarrow> same c k (test_then_block R) (test_then_block R')"
  unfolding test_then_block_def
  by (intro same_intros same_cond same_block frames cond_frame block_frame alike_progressing)

lemma same_ifstat:
  assumes R: "alike c R R'"
  shows "same c k (ifstat R line) (ifstat R' line)"
proof -
  note P = alike_progressing [OF R]
  show ?thesis
    unfolding ifstat_def
    by (rule same_bind, rule test_then_block_frame [OF P], rule same_test_then_block [OF R], rule same_bind,
        rule continues_frame, rule elseif_steps [OF P], rule same_loop [OF R], rule elseif_steps [OF P])
      (intro same_intros same_test_then_block same_block R frames stat_frames block_frame test_then_block_frame P)+
qed

lemma same_whilestat: "alike c R R' \<Longrightarrow> same c k (whilestat R line) (whilestat R' line)"
  unfolding whilestat_def
  by (intro same_intros same_cond same_block frames exp_frames cond_frame block_frame alike_progressing)

lemma same_repeatstat: "alike c R R' \<Longrightarrow> same c k (repeatstat R line) (repeatstat R' line)"
  unfolding repeatstat_def
  by (intro same_intros same_cond alike_chunk frames exp_frames cond_frame chunk_of alike_progressing)

lemma same_forstat: "alike c R R' \<Longrightarrow> same c k (forstat R line) (forstat R' line)"
  unfolding forstat_def
  by (intro same_intros same_fornum same_forlist frames fornum_frame forlist_frame alike_progressing)

lemma same_localstat: "alike c R R' \<Longrightarrow> same c k (localstat R) (localstat R')"
  unfolding localstat_def
  by (intro same_intros same_explist1 same_loop localstat_item_steps frames explist1_consumes alike_progressing
      continues_frame)

lemma same_localfunc: "alike c R R' \<Longrightarrow> same c k (localfunc R) (localfunc R')"
  unfolding localfunc_def by (intro same_intros same_body frames body_frame alike_progressing)

lemma same_funcname: "alike c R R' \<Longrightarrow> same c k (funcname R) (funcname R')"
  unfolding funcname_def
  by (intro same_intros same_loop funcname_item_steps frames continues_frame)

lemma same_funcstat: "alike c R R' \<Longrightarrow> same c k (funcstat R line) (funcstat R' line)"
  unfolding funcstat_def
  by (intro same_intros same_body same_funcname frames funcname_frame body_frame alike_progressing)

lemma same_retstat: "alike c R R' \<Longrightarrow> same c k (retstat R) (retstat R')"
  unfolding retstat_def
  by (intro same_intros same_explist1 frames exp_frames explist1_consumes alike_progressing)

lemma same_then_return: "same c k m m' \<Longrightarrow> same c k (pthen m (preturn x)) (pthen m' (preturn x))"
  by (simp add: same_def pthen_def pbind_def)

lemma same_statement:
  assumes R: "alike c R R'"
  shows "same c k (statement R) (statement R')"
  unfolding statement_def
  by (intro same_bind same_if same_then_return same_then same_refl frames same_ifstat same_whilestat same_block same_forstat
      same_repeatstat same_funcstat same_localfunc same_localstat same_retstat same_exprstat block_frame R
      alike_progressing [OF R])

lemma same_chunk_loop:
  assumes R: "alike c R R'"
  shows "same c k (ploop R (chunk_step R) False) (ploop R' (chunk_step R') False)"
proof -
  note P = alike_progressing [OF R]
  have "same c k (chunk_step R b) (chunk_step R' b)" for b
    unfolding chunk_step_def by (intro same_intros same_statement R frames statement_consumes P)
  then show ?thesis by (intro same_loop [OF R] chunk_step_steps P)
qed

lemma parsers_alike:
  assumes "\<And>ps. tokens_left ps < F ps" and "\<And>ps. tokens_left ps < F' ps"
  shows "nat (LUAI_MAXCCALLS - c) < d \<Longrightarrow> nat (LUAI_MAXCCALLS - c) < d' \<Longrightarrow>
    alike c (parsers_at pow F e d) (parsers_at pow F' e' d')"
proof (induction d arbitrary: c d')
  case (Suc d)
  then obtain m where d': "d' = Suc m" by (cases d') simp_all
  have R: "alike (c + 1) (parsers_at pow F e d) (parsers_at pow F' e' m)" if "c < LUAI_MAXCCALLS"
    using Suc.prems that d' by (intro Suc.IH) auto
  have "r_rounds (parsers_at pow F e d) = F" for F e d by (cases d) (simp_all add: Let_def)
  then show ?case
    unfolding alike_def d' using assms parsers_at_progressing [of pow F e "Suc d"]
    by (auto simp: Let_def subexpr_def chunk_def intro!: same_nested same_subexpr_body same_chunk_loop R)
qed simp

section \<open>Property\<close>



end
