(* ===== verification/LuaParserSpec.thy ===== *)
theory LuaParserSpec
  imports LuaParserProgress LuaCodeSpec
begin

text \<open>
  What the parser does. The trees of operators that the priorities allow, which are the ones
  \<open>subexpr\<close> builds; the variable a name stands for, through any number of functions; the kinds of
  expressions that the code generator gives.
\<close>

section \<open>Operators\<close>

text \<open>
  The operators of an expression as a tree, its operands left open, and the row of operators and
  operands that it covers.
\<close>

datatype optree = Operand | Unary UnOpr optree | Binary BinOpr optree optree

datatype opsym = SOperand | SUnary UnOpr | SBinary BinOpr

primrec row :: "optree \<Rightarrow> opsym list" where
  "row Operand = [SOperand]"
| "row (Unary opr t) = SUnary opr # row t"
| "row (Binary opr l r) = row l @ SBinary opr # row r"

abbreviation left_prio :: "BinOpr \<Rightarrow> int" where "left_prio opr \<equiv> fst (priority opr)"
abbreviation right_prio :: "BinOpr \<Rightarrow> int" where "right_prio opr \<equiv> snd (priority opr)"

text \<open>
  \<open>above p t\<close>: the operators on the left edge of \<open>t\<close> bind more tightly than \<open>p\<close>. \<open>closes p t\<close>: those
  on its right edge bind at least as tightly as \<open>p\<close>, so that an operator of left priority \<open>p\<close> after
  \<open>t\<close> takes all of \<open>t\<close>. In a well-formed tree each operator takes all of its left operand, and its
  right operand is what binds more tightly.
\<close>

primrec above :: "int \<Rightarrow> optree \<Rightarrow> bool" where
  "above p Operand = True"
| "above p (Unary opr t) = True"
| "above p (Binary opr l r) = (p < left_prio opr \<and> above p l)"

primrec closes :: "int \<Rightarrow> optree \<Rightarrow> bool" where
  "closes p Operand = True"
| "closes p (Unary opr t) = (p \<le> UNARY_PRIORITY \<and> closes p t)"
| "closes p (Binary opr l r) = (p \<le> right_prio opr \<and> closes p r)"

primrec well_formed :: "optree \<Rightarrow> bool" where
  "well_formed Operand = True"
| "well_formed (Unary opr t) = (well_formed t \<and> above UNARY_PRIORITY t)"
| "well_formed (Binary opr l r) =
     (well_formed l \<and> well_formed r \<and> opr \<noteq> OPR_NOBINOPR \<and> closes (left_prio opr) l \<and> above (right_prio opr) r)"

subsection \<open>A row has one well-formed tree\<close>

text \<open>
  Reading a row from left to right, with the tree read so far in \<open>reads_on\<close>: the result are the tree
  that ends at the first operator not above the limit, and the rest.
\<close>

inductive reads_tree :: "int \<Rightarrow> opsym list \<Rightarrow> optree \<Rightarrow> opsym list \<Rightarrow> bool"
  and reads_on :: "int \<Rightarrow> optree \<Rightarrow> opsym list \<Rightarrow> optree \<Rightarrow> opsym list \<Rightarrow> bool" where
  operand: "reads_on p Operand xs t ys \<Longrightarrow> reads_tree p (SOperand # xs) t ys"
| unary: "reads_tree UNARY_PRIORITY xs u ys \<Longrightarrow> reads_on p (Unary opr u) ys t zs \<Longrightarrow> reads_tree p (SUnary opr # xs) t zs"
| stop: "xs = [] \<or> (\<exists>opr ys. xs = SBinary opr # ys \<and> left_prio opr \<le> p) \<Longrightarrow> reads_on p t xs t xs"
| go_on: "p < left_prio opr \<Longrightarrow> reads_tree (right_prio opr) xs r ys \<Longrightarrow> reads_on p (Binary opr t r) ys t' zs \<Longrightarrow>
    reads_on p t (SBinary opr # xs) t' zs"

inductive_cases reads_tree_operand: "reads_tree p (SOperand # xs) t ys"
inductive_cases reads_tree_unary: "reads_tree p (SUnary opr # xs) t ys"
inductive_cases reads_on_Nil: "reads_on p t [] t' ys"
inductive_cases reads_on_binary: "reads_on p t (SBinary opr # xs) t' ys"

lemma reads_deterministic:
  "reads_tree p xs t ys \<Longrightarrow> (\<And>t' ys'. reads_tree p xs t' ys' \<Longrightarrow> t' = t \<and> ys' = ys)"
  "reads_on p u xs t ys \<Longrightarrow> (\<And>t' ys'. reads_on p u xs t' ys' \<Longrightarrow> t' = t \<and> ys' = ys)"
proof (induction rule: reads_tree_reads_on.inducts)
  case (operand p xs t ys)
  from operand(3) show ?case by (rule reads_tree_operand) (rule operand(2))
next
  case (unary xs u ys p opr t zs t' zs')
  from unary(5) show ?case
  proof (rule reads_tree_unary)
    fix u' ys'
    assume 1: "reads_tree UNARY_PRIORITY xs u' ys'" "reads_on p (Unary opr u') ys' t' zs'"
    from unary.IH(1) [OF 1(1)] 1(2) show "t' = t \<and> zs' = zs" by (auto dest: unary.IH(2))
  qed
next
  case (stop xs p t)
  from stop(1) show ?case
    using stop(2) by (auto elim: reads_on_Nil reads_on_binary)
next
  case (go_on p opr xs r ys t t' zs t'' zs')
  from go_on(6) show ?case
  proof (rule reads_on_binary)
    fix r' ys'
    assume 1: "reads_tree (right_prio opr) xs r' ys'" "reads_on p (Binary opr t r') ys' t'' zs'"
    from go_on.IH(1) [OF 1(1)] 1(2) show "t'' = t' \<and> zs' = zs" by (auto dest: go_on.IH(2))
  qed (use go_on.hyps(1) in simp)
qed

text \<open>A well-formed tree is the one its row is read as.\<close>

lemma well_formed_read:
  "well_formed t \<Longrightarrow> above p t \<Longrightarrow> xs = [] \<or> (\<exists>opr ys. xs = SBinary opr # ys \<and> closes (left_prio opr) t) \<Longrightarrow>
    reads_on p t xs t' ys \<Longrightarrow> reads_tree p (row t @ xs) t' ys"
proof (induction t arbitrary: p xs t' ys)
  case Operand
  then show ?case by (simp add: reads_tree_reads_on.operand)
next
  case (Unary opr t)
  have "reads_tree UNARY_PRIORITY (row t @ xs) t xs"
    using Unary.prems by (intro Unary.IH stop) auto
  then show ?case using Unary.prems(4) by (simp add: reads_tree_reads_on.unary)
next
  case (Binary opr l r)
  have "reads_tree (right_prio opr) (row r @ xs) r xs"
    using Binary.prems by (intro Binary.IH(2) stop) auto
  then have "reads_on p l (SBinary opr # row r @ xs) t' ys"
    using Binary.prems by (intro go_on) auto
  then show ?case using Binary.prems by (simp, intro Binary.IH(1)) auto
qed

lemma well_formed_unique:
  assumes "well_formed t" and "well_formed t'" and "row t = row t'"
  shows "t = t'"
proof -
  have above: "above 0 t" if "well_formed t" for t
  proof (use that in \<open>induction t\<close>)
    case (Binary opr l r)
    then show ?case by (cases opr) simp_all
  qed simp_all
  have read: "reads_tree 0 (row t) t []" if "well_formed t" for t
    using well_formed_read [OF that above [OF that], of "[]" t "[]"] by (simp add: stop)
  show ?thesis using reads_deterministic(1) [OF read [OF assms(2)], of t "[]"] read [OF assms(1)] assms(3) by simp
qed

subsection \<open>What \<open>subexpr\<close> builds\<close>

text \<open>
  \<open>built t ps v ps'\<close>: the parser goes from \<open>ps\<close> to \<open>ps'\<close> along the tree \<open>t\<close>. An operand is whatever
  \<open>simpleexp\<close> accepts, at any depth of nesting; the code of an operator is what \<open>lcode.c\<close> gives for
  its operands.
\<close>

inductive built :: "power \<Rightarrow> (PState \<Rightarrow> nat) \<Rightarrow> lua_error \<Rightarrow> optree \<Rightarrow> PState \<Rightarrow> expdesc \<Rightarrow> PState \<Rightarrow> bool" for pow F e where
  operand: "getunopr (tok ps) = OPR_NOUNOPR \<Longrightarrow>
    simpleexp (parsers_at pow F e d) (ps\<lparr>ps_nCcalls := n\<rparr>) = Inr (v, ps'\<lparr>ps_nCcalls := n\<rparr>) \<Longrightarrow>
    ps_nCcalls ps' = ps_nCcalls ps \<Longrightarrow> built pow F e Operand ps v ps'"
| unary: "getunopr (tok ps) = opr \<Longrightarrow> opr \<noteq> OPR_NOUNOPR \<Longrightarrow> p_next ps = Inr ((), ps1) \<Longrightarrow> built pow F e t ps1 v ps2 \<Longrightarrow>
    codes (\<lambda>fs. luaK_prefix pow fs opr v) ps2 = Inr (v', ps') \<Longrightarrow> built pow F e (Unary opr t) ps v' ps'"
| binary: "built pow F e l ps v ps1 \<Longrightarrow> getbinopr (tok ps1) = opr \<Longrightarrow> opr \<noteq> OPR_NOBINOPR \<Longrightarrow> p_next ps1 = Inr ((), ps2) \<Longrightarrow>
    codes (\<lambda>fs. luaK_infix fs opr v) ps2 = Inr (v1, ps3) \<Longrightarrow> built pow F e r ps3 v2 ps4 \<Longrightarrow>
    codes2 (\<lambda>fs. luaK_posfix pow fs opr v1 v2) ps4 = Inr ((v', v2'), ps') \<Longrightarrow>
    built pow F e (Binary opr l r) ps v' ps'"

text \<open>The number of nested calls plays no role.\<close>

lemma next_calls: "p_next (ps\<lparr>ps_nCcalls := n\<rparr>) = bind_result (p_next ps) (\<lambda>(x, ps). Inr (x, ps\<lparr>ps_nCcalls := n\<rparr>))"
  by (simp add: p_next_def lexes_def lexer_def bind_result_def split: sum.split)

lemma codes_calls: "codes f (ps\<lparr>ps_nCcalls := n\<rparr>) = bind_result (codes f ps) (\<lambda>(x, ps). Inr (x, ps\<lparr>ps_nCcalls := n\<rparr>))"
  by (simp add: codes_def fstate_def lexer_def bind_result_def split: sum.split)

lemma codes2_calls: "codes2 f (ps\<lparr>ps_nCcalls := n\<rparr>) = bind_result (codes2 f ps) (\<lambda>(x, ps). Inr (x, ps\<lparr>ps_nCcalls := n\<rparr>))"
  by (simp add: codes2_def codes_calls)

lemma tok_calls [simp]: "tok (ps\<lparr>ps_nCcalls := n\<rparr>) = tok ps" by (simp add: tok_def)

lemma built_calls: "built pow F e t ps v ps' \<Longrightarrow> built pow F e t (ps\<lparr>ps_nCcalls := n\<rparr>) v (ps'\<lparr>ps_nCcalls := n\<rparr>)"
proof (induction rule: built.induct)
  case (operand ps d k v ps')
  then show ?case by (intro built.operand [where d = d and n = k]) simp_all
next
  case (unary ps opr ps1 t v ps2 v' ps')
  then show ?case
    by (intro built.unary [where ?ps1.0 = "ps1\<lparr>ps_nCcalls := n\<rparr>" and ?ps2.0 = "ps2\<lparr>ps_nCcalls := n\<rparr>" and v = v])
      (simp_all add: next_calls codes_calls)
next
  case (binary l ps v ps1 opr ps2 v1 ps3 r v2 ps4 v' v2' ps')
  then show ?case
    by (intro built.binary [where ?ps1.0 = "ps1\<lparr>ps_nCcalls := n\<rparr>" and ?ps2.0 = "ps2\<lparr>ps_nCcalls := n\<rparr>"
          and ?ps3.0 = "ps3\<lparr>ps_nCcalls := n\<rparr>" and ?ps4.0 = "ps4\<lparr>ps_nCcalls := n\<rparr>" and v = v
          and ?v1.0 = v1 and ?v2.0 = v2 and v2' = v2'])
      (simp_all add: next_calls codes_calls codes2_calls)
qed

text \<open>The loop of \<open>subexpr\<close>, with the tree built so far.\<close>

definition prec_ok :: "power \<Rightarrow> (PState \<Rightarrow> nat) \<Rightarrow> lua_error \<Rightarrow> int \<Rightarrow> PState \<Rightarrow> optree \<Rightarrow> BinOpr \<times> expdesc \<Rightarrow> PState \<Rightarrow> bool" where
  "prec_ok pow F e limit ps0 t r ps \<longleftrightarrow> built pow F e t ps0 (snd r) ps \<and> well_formed t \<and> above limit t
     \<and> fst r = getbinopr (tok ps) \<and> closes (left_prio (fst r)) t"

definition prec_parser :: "power \<Rightarrow> (PState \<Rightarrow> nat) \<Rightarrow> lua_error \<Rightarrow> parsers \<Rightarrow> bool" where
  "prec_parser pow F e R \<longleftrightarrow> (\<forall>limit ps r ps'. 0 \<le> limit \<longrightarrow> r_subexpr R limit ps = Inr (r, ps') \<longrightarrow>
     (\<exists>t. prec_ok pow F e limit ps t r ps' \<and> left_prio (fst r) \<le> limit))"

lemma right_prio_nonneg: "0 \<le> right_prio opr" "0 \<le> left_prio opr" by (cases opr; simp)+

lemma still_tok: "still m \<Longrightarrow> m ps = Inr (x, ps') \<Longrightarrow> tok ps' = tok ps" by (simp add: stillD)

lemma subexpr_loop:
  assumes R: "prec_parser pow F e R" and "0 \<le> limit"
  shows "repeat_loop c n (subexpr_step pow R limit) s ps = Inr (r, ps') \<Longrightarrow> prec_ok pow F e limit ps0 t s ps \<Longrightarrow>
    \<exists>t. prec_ok pow F e limit ps0 t r ps' \<and> left_prio (fst r) \<le> limit"
proof (induction n arbitrary: s ps t)
  case (Suc n)
  obtain opr v where s: "s = (opr, v)" by (cases s)
  show ?case
  proof (cases "opr \<noteq> OPR_NOBINOPR \<and> left_prio opr > limit")
    case True
    then obtain ps1 v1 ps2 nextop v2 ps3 v' v2' ps4 where 1: "p_next ps = Inr ((), ps1)"
        "codes (\<lambda>fs. luaK_infix fs opr v) ps1 = Inr (v1, ps2)" "r_subexpr R (right_prio opr) ps2 = Inr ((nextop, v2), ps3)"
        "codes2 (\<lambda>fs. luaK_posfix pow fs opr v1 v2) ps3 = Inr ((v', v2'), ps4)"
        "repeat_loop c n (subexpr_step pow R limit) (nextop, v') ps4 = Inr (r, ps')"
      using Suc.prems(1) s by (auto simp: subexpr_step_def elim!: pbindE simp: pthen_def preturn_def)
    obtain t2 where 2: "prec_ok pow F e (right_prio opr) ps2 t2 (nextop, v2) ps3" "left_prio nextop \<le> right_prio opr"
      using R 1(3) right_prio_nonneg unfolding prec_parser_def by fastforce
    have "prec_ok pow F e limit ps0 (Binary opr t t2) (nextop, v') ps4"
      using Suc.prems(2) 2 True 1 s still_tok [OF still_codes(3) 1(4)]
      by (auto simp: prec_ok_def intro: built.binary)
    with Suc.IH [OF 1(5)] show ?thesis by blast
  next
    case False
    then have "r = s" "ps' = ps" "left_prio opr \<le> limit"
      using Suc.prems(1) s assms(2) by (auto simp: subexpr_step_def elim!: pbindE simp: preturn_def)
    then show ?thesis using Suc.prems(2) s by auto
  qed
qed simp

text \<open>All levels of the parser.\<close>

lemma pthenE:
  assumes "pthen m m' ps = Inr (y, ps')"
  obtains x ps1 where "m ps = Inr (x, ps1)" "m' ps1 = Inr (y, ps')"
  using assms by (auto simp: pthen_def elim: pbindE)

lemma curtoken_bind: "pbind curtoken f ps = f (tok ps) ps"
  by (simp add: pbind_def curtoken_def in_ls_def reads_def tok_def)

lemma subexpr_first:
  assumes R: "prec_parser pow F e R" and op: "getunopr (tok ps) \<noteq> OPR_NOUNOPR"
    and m: "pthen p_next (pbind (r_subexpr R UNARY_PRIORITY) (\<lambda>(_, v). codes (\<lambda>fs. luaK_prefix pow fs (getunopr (tok ps)) v))) ps
      = Inr (v, ps')"
  shows "\<exists>t. prec_ok pow F e limit ps t (getbinopr (tok ps'), v) ps'"
proof -
  from m obtain u ps1 nextop v1 ps2 where 1: "p_next ps = Inr (u, ps1)" "r_subexpr R UNARY_PRIORITY ps1 = Inr ((nextop, v1), ps2)"
      "codes (\<lambda>fs. luaK_prefix pow fs (getunopr (tok ps)) v1) ps2 = Inr (v, ps')"
    by (auto elim!: pthenE pbindE)
  obtain t where t: "prec_ok pow F e UNARY_PRIORITY ps1 t (nextop, v1) ps2" "left_prio nextop \<le> UNARY_PRIORITY"
    using R 1(2) unfolding prec_parser_def by (fastforce simp: UNARY_PRIORITY_def)
  have "tok ps' = tok ps2" by (rule still_tok [OF still_codes(1) 1(3)])
  then have "prec_ok pow F e limit ps (Unary (getunopr (tok ps)) t) (getbinopr (tok ps'), v) ps'"
    using t 1 op by (auto simp: prec_ok_def intro: built.unary)
  then show ?thesis by blast
qed

lemma subexpr_operand:
  assumes "getunopr (tok ps) = OPR_NOUNOPR" and m: "simpleexp (parsers_at pow F e d) ps = Inr (v, ps')"
  shows "prec_ok pow F e limit ps Operand (getbinopr (tok ps'), v) ps'"
proof -
  have "ps_nCcalls ps' = ps_nCcalls ps"
    using stepsD [OF simpleexp_consumes [OF parsers_at_progressing] m, of anytok] by simp
  then show ?thesis
    using assms by (auto simp: prec_ok_def intro!: built.operand [where d = d and n = "ps_nCcalls ps"])
qed

lemma parsers_at_prec: "prec_parser pow F e (parsers_at pow F e d)"
proof (induction d)
  case 0
  show ?case by (simp add: prec_parser_def)
next
  case (Suc d)
  let ?R = "parsers_at pow F e d"
  show ?case
    unfolding prec_parser_def
  proof (intro allI impI)
    fix limit ps r ps'
    assume limit: "0 \<le> limit" and "r_subexpr (parsers_at pow F e (Suc d)) limit ps = Inr (r, ps')"
    then obtain ps1 where 1: "subexpr_body pow ?R limit (ps\<lparr>ps_nCcalls := ps_nCcalls ps + 1\<rparr>) = Inr (r, ps1)"
        "ps' = ps1\<lparr>ps_nCcalls := ps_nCcalls ps1 - 1\<rparr>"
      by (auto simp: Let_def subexpr_def nested_run result_simps split: if_splits)
    let ?ps = "ps\<lparr>ps_nCcalls := ps_nCcalls ps + 1\<rparr>"
    obtain v ps2 where 2: "(if getunopr (tok ?ps) \<noteq> OPR_NOUNOPR
        then pthen p_next (pbind (r_subexpr ?R UNARY_PRIORITY) (\<lambda>(_, v). codes (\<lambda>fs. luaK_prefix pow fs (getunopr (tok ?ps)) v)))
        else simpleexp ?R) ?ps = Inr (v, ps2)"
        "repeat_loop (r_cut ?R) (r_rounds ?R ps2) (subexpr_step pow ?R limit) (getbinopr (tok ps2), v) ps2 = Inr (r, ps1)"
      using 1(1) unfolding subexpr_body_def curtoken_bind Let_def by (elim pbindE) (simp add: curtoken_bind ploop_def)
    have "\<exists>t. prec_ok pow F e limit ?ps t (getbinopr (tok ps2), v) ps2"
      using 2(1) subexpr_first [OF Suc, of ?ps v ps2 limit] subexpr_operand [of ?ps pow F e d v ps2 limit]
      by (cases "getunopr (tok ?ps) = OPR_NOUNOPR") (auto simp del: tok_calls)
    then obtain t where t: "prec_ok pow F e limit ?ps t r ps1" "left_prio (fst r) \<le> limit"
      using subexpr_loop [OF Suc limit 2(2)] by blast
    have "ps_nCcalls ps1 = ps_nCcalls ps + 1"
      using stepsD [OF subexpr_body_consumes [OF parsers_at_progressing] 1(1), of anytok] by simp
    then have "prec_ok pow F e limit ps t r ps'"
      using t(1) built_calls [of pow F e t ?ps "snd r" ps1 "ps_nCcalls ps"] 1(2) by (auto simp: prec_ok_def)
    then show "\<exists>t. prec_ok pow F e limit ps t r ps' \<and> left_prio (fst r) \<le> limit" using t(2) by blast
  qed
qed

text \<open>
  The state before an expression \<open>s\<close> in the main function.
\<close>

definition at_expression :: "c_string \<Rightarrow> PState result" where
  "at_expression s =
     bind_result (luaX_setinput \<lparr>zn = 0, zp = [], zdata = [s]\<rparr> ''=t'' (lex_at [])) (\<lambda>ls.
     bind_result (new_func ls 0) (\<lambda>f.
     bind_result (p_next \<lparr>ps_ls = ls, ps_func = f, ps_prev = [], ps_nCcalls = 0, ps_addr = (\<lambda>_. 0)\<rparr>)
       (\<lambda>(_, ps). Inr ps)))"

text \<open>
  Claim \<open>C7\<close>: The priorities of \<open>subexpr\<close> are an operator grammar. Whenever \<open>subexpr\<close> with a limit
  accepts an expression, its operators form a tree in which every operator has taken all of its left
  operand and its right operand binds more tightly; no operator on the left edge is below the limit;
  the code is the one that \<open>luaK_prefix\<close>, \<open>luaK_infix\<close> and \<open>luaK_posfix\<close> give along this tree; and the
  operator it returns is the current token, which the limit excludes. No other well-formed tree has
  the same operators and operands from left to right, so the parse is the only one.
\<close>

theorem subexpr_precedence:
  assumes "0 \<le> limit" and "subexpr pow (parsers_at pow F e d) limit ps = Inr ((opr, v), ps')"
  shows "\<exists>t. built pow F e t ps v ps' \<and> well_formed t \<and> above limit t
     \<and> opr = getbinopr (tok ps') \<and> left_prio opr \<le> limit
     \<and> (\<forall>t'. well_formed t' \<longrightarrow> row t' = row t \<longrightarrow> t' = t)"
proof -
  have "r_subexpr (parsers_at pow F e (Suc d)) limit ps = Inr ((opr, v), ps')"
    using assms(2) by (simp add: Let_def)
  then obtain t where "prec_ok pow F e limit ps t (opr, v) ps'" "left_prio opr \<le> limit"
    using parsers_at_prec [of pow F e "Suc d"] assms(1) unfolding prec_parser_def by fastforce
  then show ?thesis using well_formed_unique by (auto simp: prec_ok_def)
qed

lemma subexpr_precedence_witness:
  "case at_expression ''not nil and true'' of Inl _ \<Rightarrow> False
   | Inr ps \<Rightarrow> (\<exists>opr v ps'. subexpr (\<lambda>_ _. 0) (parsers_at (\<lambda>_ _. 0) loop_rounds NoFuel 3) 0 ps = Inr ((opr, v), ps')
       \<and> (\<exists>t. built (\<lambda>_ _. 0) loop_rounds NoFuel t ps v ps' \<and> well_formed t \<and> above 0 t
          \<and> opr = getbinopr (tok ps') \<and> left_prio opr \<le> 0
          \<and> (\<forall>t'. well_formed t' \<longrightarrow> row t' = row t \<longrightarrow> t' = t)))"
proof -
  have "case at_expression ''not nil and true'' of Inl _ \<Rightarrow> False
    | Inr ps \<Rightarrow> \<not> isl (subexpr (\<lambda>_ _. 0) (parsers_at (\<lambda>_ _. 0) loop_rounds NoFuel 3) 0 ps)"
    by code_simp
  then obtain ps where 1: "at_expression ''not nil and true'' = Inr ps"
      "\<not> isl (subexpr (\<lambda>_ _. 0) (parsers_at (\<lambda>_ _. 0) loop_rounds NoFuel 3) 0 ps)"
    by (auto split: sum.splits)
  then obtain opr v ps' where 2: "subexpr (\<lambda>_ _. 0) (parsers_at (\<lambda>_ _. 0) loop_rounds NoFuel 3) 0 ps = Inr ((opr, v), ps')"
    by (cases "subexpr (\<lambda>_ _. 0) (parsers_at (\<lambda>_ _. 0) loop_rounds NoFuel 3) 0 ps") auto
  from 1(1) 2 subexpr_precedence [OF _ 2] show ?thesis by auto
qed

end
