(* ===== verification/LuaExprSpec.thy ===== *)
theory LuaExprSpec
  imports LuaScopeSpec LuaParserSpec
begin

text \<open>
  The registers of expressions. Each kind of expression says which temporary registers it holds; the
  code generator and the parser keep to it: an expression that starts with the first free register
  at \<open>base\<close> holds exactly the registers from \<open>base\<close> on that are in use when it has been read.
\<close>

section \<open>The part of the state\<close>

text \<open>The local variables in registers, the first free register, and the size of the stack.\<close>

definition regs :: "FuncState \<Rightarrow> int \<times> int \<times> int" where
  "regs fs = (fs_nactvar fs, fs_freereg fs, fs_maxstacksize fs)"

lemma regs_upd [simp]:
  "regs (fs\<lparr>fs_code := c\<rparr>) = regs fs" "regs (fs\<lparr>fs_lineinfo := l\<rparr>) = regs fs" "regs (fs\<lparr>fs_k := k\<rparr>) = regs fs"
  "regs (fs\<lparr>fs_ls := ls\<rparr>) = regs fs" "regs (fs\<lparr>fs_pc := n\<rparr>) = regs fs" "regs (fs\<lparr>fs_lasttarget := n\<rparr>) = regs fs"
  "regs (fs\<lparr>fs_jpc := n\<rparr>) = regs fs" "regs (fs\<lparr>fs_nk := n\<rparr>) = regs fs"
  by (simp_all add: regs_def)

named_theorems regs_keep \<open>the functions that emit or change code only\<close>

lemma code_put_regs [regs_keep]: "code_put fs i v = Inr fs' \<Longrightarrow> regs fs' = regs fs"
  by (auto simp: code_put_def split: if_splits)

lemma line_put_regs [regs_keep]: "line_put fs i v = Inr fs' \<Longrightarrow> regs fs' = regs fs"
  by (auto simp: line_put_def split: if_splits)

lemma setcode_regs [regs_keep]: "setcode fs e i = Inr fs' \<Longrightarrow> regs fs' = regs fs"
  by (auto simp: setcode_def dest: regs_keep)

lemma fixjump_regs [regs_keep]: "fixjump fs pc d = Inr fs' \<Longrightarrow> regs fs' = regs fs"
  by (auto simp: fixjump_def result_simps Let_def luaX_syntaxerror_Inl split: if_splits dest: regs_keep)

lemma getlabel_regs [simp]: "luaK_getlabel fs = (l, fs') \<Longrightarrow> regs fs' = regs fs"
  by (auto simp: luaK_getlabel_def)

lemma patchtestreg_regs [regs_keep]: "patchtestreg fs j r = Inr (b, fs') \<Longrightarrow> regs fs' = regs fs"
  by (auto simp: patchtestreg_def result_simps split: if_splits dest: regs_keep)

lemma removevalues_loop_regs: "removevalues_loop n fs l = Inr fs' \<Longrightarrow> regs fs' = regs fs"
proof (induction n arbitrary: fs l)
  case (Suc n)
  show ?case
  proof (cases "l = NO_JUMP")
    case False
    with Suc.prems obtain b fs1 l1 where "patchtestreg fs l NO_REG = Inr (b, fs1)" "removevalues_loop n fs1 l1 = Inr fs'"
      by (subst (asm) removevalues_loop.simps) (auto simp: result_simps)
    then show ?thesis using Suc.IH by (metis regs_keep)
  qed (use Suc.prems in \<open>simp add: removevalues_loop.simps\<close>)
qed (simp add: removevalues_loop.simps split: if_splits)

lemma removevalues_regs [regs_keep]: "removevalues fs l = Inr fs' \<Longrightarrow> regs fs' = regs fs"
  by (simp add: removevalues_def removevalues_loop_regs)

lemma patchlist_loop_regs: "patchlist_loop n fs l v r d = Inr fs' \<Longrightarrow> regs fs' = regs fs"
proof (induction n arbitrary: fs l)
  case (Suc n)
  show ?case
  proof (cases "l = NO_JUMP")
    case False
    with Suc.prems obtain nxt b fs1 fs2 where 1: "patchtestreg fs l r = Inr (b, fs1)"
        "fixjump fs1 l (if b then v else d) = Inr fs2" "patchlist_loop n fs2 nxt v r d = Inr fs'"
      by (subst (asm) patchlist_loop.simps) (auto simp: result_simps)
    then show ?thesis using Suc.IH [OF 1(3)] by (metis regs_keep)
  qed (use Suc.prems in \<open>simp add: patchlist_loop.simps\<close>)
qed (simp add: patchlist_loop.simps split: if_splits)

lemma patchlistaux_regs [regs_keep]: "patchlistaux fs l v r d = Inr fs' \<Longrightarrow> regs fs' = regs fs"
  by (simp add: patchlistaux_def patchlist_loop_regs)

lemma dischargejpc_regs [regs_keep]: "dischargejpc fs = Inr fs' \<Longrightarrow> regs fs' = regs fs"
  by (auto simp: dischargejpc_def result_simps dest: regs_keep)

lemma concat_regs [regs_keep]: "luaK_concat fs l1 l2 = Inr (l, fs') \<Longrightarrow> regs fs' = regs fs"
  by (auto simp: luaK_concat_def result_simps split: if_splits dest: regs_keep)

lemma patchtohere_regs [regs_keep]: "luaK_patchtohere fs l = Inr fs' \<Longrightarrow> regs fs' = regs fs"
  by (auto simp: luaK_patchtohere_def luaK_getlabel_def result_simps dest!: regs_keep)

lemma patchlist_regs [regs_keep]: "luaK_patchlist fs l t = Inr fs' \<Longrightarrow> regs fs' = regs fs"
  by (auto simp: luaK_patchlist_def split: if_splits dest: regs_keep)

lemma fixline_regs [regs_keep]: "luaK_fixline fs l = Inr fs' \<Longrightarrow> regs fs' = regs fs"
  by (auto simp: luaK_fixline_def dest: regs_keep)

lemma code_regs [regs_keep]: "luaK_code fs i l = Inr (pc, fs') \<Longrightarrow> regs fs' = regs fs"
  by (auto simp: luaK_code_def result_simps Let_def dest!: regs_keep)

lemma codeABC_regs [regs_keep]:
  "luaK_codeABC fs op a b c = Inr (pc, fs') \<Longrightarrow> regs fs' = regs fs"
  "luaK_codeABx fs op a b = Inr (pc, fs') \<Longrightarrow> regs fs' = regs fs"
  "luaK_codeAsBx fs op a b = Inr (pc, fs') \<Longrightarrow> regs fs' = regs fs"
  by (auto simp: luaK_codeABC_def luaK_codeABx_def luaK_codeAsBx_def dest: regs_keep)

lemma nil_regs [regs_keep]: "luaK_nil fs r n = Inr fs' \<Longrightarrow> regs fs' = regs fs"
  by (auto simp: luaK_nil_def drop_pc_def result_simps Let_def split: if_splits dest: regs_keep)

lemma jump_regs [regs_keep]: "luaK_jump fs = Inr (j, fs') \<Longrightarrow> regs fs' = regs fs"
  by (auto simp: luaK_jump_def result_simps Let_def dest!: regs_keep)

lemma condjump_regs [regs_keep]: "condjump fs op a b c = Inr (j, fs') \<Longrightarrow> regs fs' = regs fs"
  by (auto simp: condjump_def result_simps dest!: regs_keep)

lemma addk_regs [regs_keep]: "addk fs k v = Inr (i, fs') \<Longrightarrow> regs fs' = regs fs"
proof -
  assume "addk fs k v = Inr (i, fs')"
  then obtain idx h where "luaH_set (grow 2) (fs_h (fs_ls fs)) k = Inr (idx, h)"
    by (auto simp: addk_def result_simps)
  with \<open>addk fs k v = Inr (i, fs')\<close> show ?thesis
    by (cases "slot_val h idx") (auto simp: addk_def result_simps Let_def split: if_splits)
qed

lemma constants_regs [regs_keep]:
  "luaK_stringK fs s = Inr (i, fs') \<Longrightarrow> regs fs' = regs fs" "luaK_numberK fs r = Inr (i, fs') \<Longrightarrow> regs fs' = regs fs"
  "boolK fs b = Inr (i, fs') \<Longrightarrow> regs fs' = regs fs" "nilK fs = Inr (i, fs') \<Longrightarrow> regs fs' = regs fs"
  by (auto simp: luaK_stringK_def luaK_numberK_def boolK_def nilK_def dest: regs_keep)

lemma invertjump_regs [regs_keep]: "invertjump fs e = Inr fs' \<Longrightarrow> regs fs' = regs fs"
  by (auto simp: invertjump_def result_simps dest: regs_keep)

lemma code_label_regs [regs_keep]: "code_label fs a b j = Inr (p, fs') \<Longrightarrow> regs fs' = regs fs"
  by (auto simp: code_label_def luaK_getlabel_def dest!: regs_keep)

lemma code_bools_regs [regs_keep]: "code_bools fs e r = Inr (p, q, fs') \<Longrightarrow> regs fs' = regs fs"
  by (auto simp: code_bools_def result_simps split: if_splits dest!: regs_keep)

lemma relocable_result:
  "relocable e r = Inr (e', fs') \<Longrightarrow> \<exists>pc. r = Inr (pc, fs') \<and> e' = e\<lparr>e_info := pc, e_k := VRELOCABLE\<rparr>"
  by (auto simp: relocable_def result_simps)

section \<open>Registers of an expression\<close>

text \<open>
  The place a value of kind \<open>VNONRELOC\<close> is in: a local variable, or the temporary \<open>base\<close>. There may
  be \<open>g\<close> more registers in use that belong to something else; then it may also be one of these.
\<close>

definition in_reg :: "int \<Rightarrow> int \<Rightarrow> int \<Rightarrow> int \<Rightarrow> int \<Rightarrow> bool" where
  "in_reg g na base r hi \<longleftrightarrow> (0 \<le> r \<and> r < na \<and> hi = base) \<or> (base \<le> r \<and> r \<le> base + g \<and> hi = base + 1)"

text \<open>
  \<open>owns g fs base e hi\<close>: the temporaries of \<open>e\<close> are those from \<open>base\<close> up to \<open>hi\<close>. An indexed
  variable may have its table and its key there; the result of a call is in the register the call
  instruction names.
\<close>

definition call_at :: "FuncState \<Rightarrow> int \<Rightarrow> int \<Rightarrow> bool" where
  "call_at fs p a \<longleftrightarrow> (\<exists>i. code_get fs p = Inr i \<and> p < fs_pc fs \<and> GET_OPCODE i = op_num OP_CALL \<and> GETARG_A i = a)"

definition owns :: "int \<Rightarrow> FuncState \<Rightarrow> int \<Rightarrow> expdesc \<Rightarrow> int \<Rightarrow> bool" where
  "owns g fs base e hi \<longleftrightarrow>
     (case e_k e of
        VLOCAL \<Rightarrow> 0 \<le> e_info e \<and> e_info e < fs_nactvar fs \<and> hi = base
      | VNONRELOC \<Rightarrow> in_reg g (fs_nactvar fs) base (e_info e) hi
      | VINDEXED \<Rightarrow> \<exists>mid. in_reg g (fs_nactvar fs) base (e_info e) mid
          \<and> (ISK (e_aux e) \<and> hi = mid \<or> in_reg g (fs_nactvar fs) mid (e_aux e) hi)
      | VCALL \<Rightarrow> \<exists>a. call_at fs (e_info e) a \<and> base \<le> a \<and> a \<le> base + g \<and> hi = base + 1
      | VVOID \<Rightarrow> False
      | _ \<Rightarrow> hi = base)"

text \<open>The registers of the function are in order, with a free one above those that hold variables.\<close>

definition regs_ok :: "FuncState \<Rightarrow> bool" where
  "regs_ok fs \<longleftrightarrow> 0 \<le> fs_nactvar fs \<and> fs_nactvar fs \<le> fs_freereg fs \<and> fs_freereg fs \<le> fs_maxstacksize fs
     \<and> fs_maxstacksize fs \<le> MAXSTACK"

definition typed :: "int \<Rightarrow> FuncState \<Rightarrow> int \<Rightarrow> expdesc \<Rightarrow> bool" where
  "typed g fs base e \<longleftrightarrow> regs_ok fs \<and> 0 \<le> g \<and> fs_nactvar fs \<le> base \<and> owns g fs base e (fs_freereg fs - g)"

lemma regs_eq: "regs fs' = regs fs \<longleftrightarrow> fs_nactvar fs' = fs_nactvar fs \<and> fs_freereg fs' = fs_freereg fs
    \<and> fs_maxstacksize fs' = fs_maxstacksize fs"
  by (auto simp: regs_def)

lemma regs_okI: "regs fs' = regs fs \<Longrightarrow> regs_ok fs \<Longrightarrow> regs_ok fs'"
  by (auto simp: regs_ok_def regs_def)

lemma BITRK_exp: "BITRK = 2 ^ 8" by (simp add: BITRK_def size_defs)

lemma ISK_bit: "ISK x \<longleftrightarrow> bit x 8"
  unfolding ISK_def BITRK_exp and_exp_eq_0_iff_not_bit by simp

lemma ISK_RKASK: "ISK (RKASK i)"
  unfolding ISK_bit RKASK_def BITRK_exp by (simp add: bit_or_iff bit_exp_iff del: power_numeral)

lemma not_ISK: "0 \<le> r \<Longrightarrow> r < MAXSTACK \<Longrightarrow> \<not> ISK r"
  by (simp add: ISK_bit bit_iff_odd MAXSTACK_def)

lemma reserve_regs:
  assumes "luaK_reserveregs fs n = Inr fs'" and "regs_ok fs" and "0 \<le> n"
  shows "fs_freereg fs' = fs_freereg fs + n" and "fs_nactvar fs' = fs_nactvar fs" and "fs_code fs' = fs_code fs"
    and "regs_ok fs'"
  using assms
  by (auto simp: luaK_reserveregs_def luaK_checkstack_def regs_ok_def MAXSTACK_def Let_def result_simps luaX_syntaxerror_Inl
      split: if_splits)

lemma in_reg_le: "in_reg g na base r hi \<Longrightarrow> base \<le> hi" by (auto simp: in_reg_def)

text \<open>Freeing counts down, whichever register it is.\<close>

lemma free_in_reg:
  assumes "in_reg g (fs_nactvar fs) base r hi" and "0 \<le> fs_nactvar fs" and "fs_nactvar fs \<le> base" and "hi + g \<le> MAXSTACK"
    and "0 \<le> g"
  shows "freereg fs r = fs\<lparr>fs_freereg := fs_freereg fs - (hi - base)\<rparr>"
proof -
  have "\<not> ISK r" using assms by (intro not_ISK) (auto simp: in_reg_def)
  then show ?thesis using assms by (auto simp: in_reg_def freereg_def)
qed

definition discharged :: "expdesc \<Rightarrow> bool" where
  "discharged e \<longleftrightarrow> e_k e \<notin> {VLOCAL, VUPVAL, VGLOBAL, VINDEXED, VCALL, VVARARG}"

lemma owns_keep:
  assumes "fs_nactvar fs' = fs_nactvar fs" and "e_k e \<noteq> VCALL \<or> fs_code fs' = fs_code fs \<and> fs_pc fs' = fs_pc fs"
  shows "owns g fs' base e hi = owns g fs base e hi"
  using assms by (cases "e_k e") (simp_all add: owns_def call_at_def code_get_def)

lemma owns_not_void: "owns g fs base e hi \<Longrightarrow> e_k e \<noteq> VVOID" by (auto simp: owns_def)

lemma typed_not_void: "typed g fs base e \<Longrightarrow> e_k e \<noteq> VVOID" by (auto simp: typed_def dest: owns_not_void)

lemma owns_le: "owns g fs base e hi \<Longrightarrow> base \<le> hi"
  by (cases "e_k e") (auto simp: owns_def dest!: in_reg_le)

lemma typed_above:
  assumes "typed g fs base e"
  shows "0 \<le> base" "base + g \<le> fs_freereg fs" "fs_freereg fs \<le> MAXSTACK" "fs_nactvar fs \<le> base" "regs_ok fs"
    "0 \<le> fs_nactvar fs" "0 \<le> g"
  using assms owns_le [of g fs base e "fs_freereg fs - g"] by (auto simp: typed_def regs_ok_def)

text \<open>Setting the first free register back.\<close>

lemma free_to: "regs_ok fs \<Longrightarrow> fs_nactvar fs \<le> b \<Longrightarrow> b \<le> fs_freereg fs \<Longrightarrow> regs_ok (fs\<lparr>fs_freereg := b\<rparr>)"
  by (simp add: regs_ok_def)

lemma free_indexed:
  assumes t: "typed g fs base e" and k: "e_k e = VINDEXED"
  shows "freereg (freereg fs (e_aux e)) (e_info e) = fs\<lparr>fs_freereg := base + g\<rparr>"
proof -
  obtain mid where m: "in_reg g (fs_nactvar fs) base (e_info e) mid"
      "ISK (e_aux e) \<and> fs_freereg fs - g = mid \<or> in_reg g (fs_nactvar fs) mid (e_aux e) (fs_freereg fs - g)"
    using t k by (auto simp: typed_def owns_def)
  note b = typed_above [OF t]
  have le: "base \<le> mid" by (rule in_reg_le [OF m(1)])
  have "freereg fs (e_aux e) = fs\<lparr>fs_freereg := mid + g\<rparr> \<and> mid + g \<le> fs_freereg fs"
    using m(2)
  proof
    assume "ISK (e_aux e) \<and> fs_freereg fs - g = mid"
    then show ?thesis by (auto simp: freereg_def)
  next
    assume r: "in_reg g (fs_nactvar fs) mid (e_aux e) (fs_freereg fs - g)"
    then show ?thesis using free_in_reg [OF r] in_reg_le [OF r] b le by simp
  qed
  then show ?thesis using free_in_reg [of g "fs\<lparr>fs_freereg := mid + g\<rparr>" base "e_info e" mid] m(1) b le by simp
qed

lemma typed_nonreloc:
  "e_k e = VNONRELOC \<Longrightarrow> typed g fs base e \<longleftrightarrow>
    regs_ok fs \<and> 0 \<le> g \<and> fs_nactvar fs \<le> base \<and> in_reg g (fs_nactvar fs) base (e_info e) (fs_freereg fs - g)"
  by (simp add: typed_def owns_def)

lemma typed_plain:
  "e_k e \<notin> {VVOID, VLOCAL, VINDEXED, VCALL, VNONRELOC} \<Longrightarrow>
    typed g fs base e \<longleftrightarrow> regs_ok fs \<and> 0 \<le> g \<and> fs_nactvar fs \<le> base \<and> fs_freereg fs = base + g"
  by (auto simp: typed_def owns_def split: expkind.split)

lemma typed_keep:
  assumes "typed g fs base e" and "regs fs' = regs fs" and "e_k e \<noteq> VCALL \<or> fs_code fs' = fs_code fs \<and> fs_pc fs' = fs_pc fs"
  shows "typed g fs' base e"
  using assms(1) owns_keep [OF _ assms(3)] assms(2) regs_okI by (auto simp: typed_def regs_eq)

lemma typed_call:
  "e_k e = VCALL \<Longrightarrow> typed g fs base e \<longleftrightarrow> regs_ok fs \<and> 0 \<le> g \<and> fs_nactvar fs \<le> base \<and> fs_freereg fs = base + g + 1
    \<and> (\<exists>a. call_at fs (e_info e) a \<and> base \<le> a \<and> a \<le> base + g)"
  by (auto simp: typed_def owns_def)

lemma dischargevars_typed:
  assumes t: "typed g fs base e" and d: "luaK_dischargevars fs e = Inr (e', fs')"
  shows "typed g fs' base e' \<and> discharged e' \<and> e_t e' = e_t e \<and> e_f e' = e_f e \<and> fs_nactvar fs' = fs_nactvar fs"
proof (cases "e_k e = VINDEXED")
  case True
  then obtain pc where "luaK_codeABC (fs\<lparr>fs_freereg := base + g\<rparr>) OP_GETTABLE 0 (e_info e) (e_aux e) = Inr (pc, fs')"
      "e' = e\<lparr>e_info := pc, e_k := VRELOCABLE\<rparr>"
    using d free_indexed [OF t] by (auto simp: luaK_dischargevars_def Let_def dest!: relocable_result)
  moreover have "regs_ok (fs\<lparr>fs_freereg := base + g\<rparr>)" using free_to [of fs "base + g"] typed_above [OF t] by simp
  ultimately show ?thesis
    using typed_above [OF t] regs_okI
    by (fastforce simp: typed_plain discharged_def regs_eq dest!: codeABC_regs(1))
next
  case False
  show ?thesis
  proof (cases "e_k e = VCALL \<or> e_k e = VLOCAL")
    case True
    then show ?thesis
      using t d by (auto simp: luaK_dischargevars_def luaK_setoneret_def typed_def owns_def in_reg_def discharged_def getcode_def call_at_def
          result_simps)
  next
    case 2: False
    have "e_k e = VUPVAL \<or> e_k e = VGLOBAL \<or> e_k e = VVARARG \<or> discharged e" using False 2
      by (cases "e_k e") (simp_all add: discharged_def)
    then show ?thesis
    proof (elim disjE)
      assume "discharged e"
      then have "e' = e" "fs' = fs" using d by (cases "e_k e"; simp add: luaK_dischargevars_def discharged_def)+
      then show ?thesis using t \<open>discharged e\<close> by simp
    qed (use t d in \<open>auto simp: luaK_dischargevars_def luaK_setoneret_def typed_plain discharged_def regs_ok_def regs_eq result_simps
          dest!: relocable_result regs_keep\<close>)
  qed
qed

lemma discharged_id: "discharged e \<Longrightarrow> luaK_dischargevars fs e = Inr (e, fs)"
  by (cases "e_k e") (simp_all add: luaK_dischargevars_def discharged_def)

lemma discharge2reg_regs:
  assumes "discharged e" and "discharge2reg fs e r = Inr (e', fs')"
  shows "regs fs' = regs fs \<and> (e_k e \<noteq> VVOID \<and> e_k e \<noteq> VJMP \<longrightarrow> e' = e\<lparr>e_info := r, e_k := VNONRELOC\<rparr>)"
  using assms
  by (cases "e_k e") (auto simp: discharge2reg_def discharged_id Let_def result_simps drop_pc_def discharged_def
      split: if_splits dest!: regs_keep)

lemma exp2reg_regs:
  assumes "discharged e" and "exp2reg fs e r = Inr (e', fs')"
  shows "regs fs' = regs fs \<and> e_k e' = VNONRELOC \<and> e_info e' = r \<and> \<not> hasjumps e'"
proof -
  from assms(2) obtain e1 fs1 e2 fs2 fs3 where 1: "discharge2reg fs e r = Inr (e1, fs1)"
      "(if e_k e1 = VJMP then bind_result (luaK_concat fs1 (e_t e1) (e_info e1)) (\<lambda>(t, fs). Inr (e1\<lparr>e_t := t\<rparr>, fs))
        else Inr (e1, fs1)) = Inr (e2, fs2)"
      "(if hasjumps e2 then
          bind_result (code_bools fs2 e2 r) (\<lambda>(p_f, p_t, fs). case luaK_getlabel fs of (final, fs) \<Rightarrow>
            bind_result (patchlistaux fs (e_f e2) final r p_f) (\<lambda>fs. patchlistaux fs (e_t e2) final r p_t))
        else Inr fs2) = Inr fs3" "e' = e2\<lparr>e_f := NO_JUMP, e_t := NO_JUMP, e_info := r, e_k := VNONRELOC\<rparr>" "fs' = fs3"
    by (auto simp: exp2reg_def result_simps split del: if_split)
  have "regs fs2 = regs fs1" using 1(2) by (auto simp: result_simps split: if_splits dest: regs_keep)
  moreover have "regs fs3 = regs fs2"
    using 1(3) by (auto simp: result_simps luaK_getlabel_def split: if_splits dest!: regs_keep)
  ultimately show ?thesis using discharge2reg_regs [OF assms(1) 1(1)] 1(4,5) by (simp add: hasjumps_def)
qed

text \<open>The value in its register, the first temporary.\<close>

definition in_next :: "int \<Rightarrow> FuncState \<Rightarrow> int \<Rightarrow> expdesc \<Rightarrow> bool" where
  "in_next g fs base e \<longleftrightarrow> regs_ok fs \<and> fs_nactvar fs \<le> base \<and> 0 \<le> g \<and> fs_freereg fs = base + g + 1 \<and> e_k e = VNONRELOC
     \<and> e_info e = base + g \<and> \<not> hasjumps e"

lemma in_next_typed: "in_next g fs base e \<Longrightarrow> typed g fs base e"
  by (simp add: in_next_def typed_nonreloc in_reg_def)

lemma freeexp_typed:
  assumes "typed g fs base e" and "discharged e"
  shows "freeexp fs e = fs\<lparr>fs_freereg := base + g\<rparr>"
proof (cases "e_k e = VNONRELOC")
  case True
  then show ?thesis using assms(1) free_in_reg [of g fs base "e_info e"] typed_above [OF assms(1)]
    by (simp add: freeexp_def typed_nonreloc)
next
  case False
  then have "fs_freereg fs = base + g" using assms typed_not_void [OF assms(1)] typed_plain [of e g fs base] by (auto simp: discharged_def)
  then show ?thesis using False by (auto simp: freeexp_def)
qed

lemma exp2nextreg_typed:
  assumes "typed g fs base e" and "luaK_exp2nextreg fs e = Inr (e', fs')"
  shows "in_next g fs' base e' \<and> fs_nactvar fs' = fs_nactvar fs"
proof -
  from assms(2) obtain e1 fs1 fs2 where 1: "luaK_dischargevars fs e = Inr (e1, fs1)"
      "luaK_reserveregs (freeexp fs1 e1) 1 = Inr fs2" "exp2reg fs2 e1 (fs_freereg fs2 - 1) = Inr (e', fs')"
    by (auto simp: luaK_exp2nextreg_def result_simps)
  note d = dischargevars_typed [OF assms(1) 1(1)]
  then have f: "freeexp fs1 e1 = fs1\<lparr>fs_freereg := base + g\<rparr>" "regs_ok (fs1\<lparr>fs_freereg := base + g\<rparr>)"
    using freeexp_typed [of g fs1 base e1] free_to [of fs1 "base + g"] typed_above [of g fs1 base e1] by simp_all
  note r = reserve_regs [OF 1(2) [unfolded f(1)] f(2)]
  show ?thesis
    using exp2reg_regs [OF _ 1(3)] d r typed_above [of g fs1 base e1] regs_okI [of fs' fs2]
    by (auto simp: in_next_def regs_eq)
qed

text \<open>A value in a register, a local variable or the first temporary.\<close>

definition in_any :: "int \<Rightarrow> FuncState \<Rightarrow> int \<Rightarrow> expdesc \<Rightarrow> bool" where
  "in_any g fs base e \<longleftrightarrow> typed g fs base e \<and> e_k e = VNONRELOC \<and> \<not> hasjumps e"

lemma in_next_any: "in_next g fs base e \<Longrightarrow> in_any g fs base e"
  by (simp add: in_any_def in_next_typed) (simp add: in_next_def)

lemma exp2anyreg_typed:
  assumes "typed g fs base e" and "luaK_exp2anyreg fs e = Inr (r, e', fs')"
  shows "in_any g fs' base e' \<and> r = e_info e' \<and> fs_nactvar fs' = fs_nactvar fs"
proof -
  from assms(2) obtain e1 fs1 where 1: "luaK_dischargevars fs e = Inr (e1, fs1)"
    by (auto simp: luaK_exp2anyreg_def result_simps)
  note d = dischargevars_typed [OF assms(1) 1]
  show ?thesis
  proof (cases "e_k e1 = VNONRELOC \<and> (\<not> hasjumps e1 \<or> e_info e1 \<ge> fs_nactvar fs1)")
    case True
    show ?thesis
    proof (cases "hasjumps e1")
      case False
      then show ?thesis using assms(2) 1 True d by (auto simp: luaK_exp2anyreg_def in_any_def)
    next
      case j: True
      then have "exp2reg fs1 e1 (e_info e1) = Inr (e', fs')" "r = e_info e'"
          using assms(2) 1 True by (auto simp: luaK_exp2anyreg_def Let_def result_simps)
      then show ?thesis
        using exp2reg_regs [of e1 fs1 "e_info e1" e' fs'] d True typed_nonreloc [of e1 g fs1 base] regs_okI [of fs' fs1]
        by (auto simp: in_any_def typed_nonreloc regs_eq)
    qed
  next
    case False
    then have "luaK_exp2nextreg fs1 e1 = Inr (e', fs')" "r = e_info e'"
      using assms(2) 1 by (auto simp: luaK_exp2anyreg_def Let_def result_simps split: if_splits)
    then show ?thesis using exp2nextreg_typed [of g fs1 base e1 e' fs'] d in_next_any by auto
  qed
qed

lemma exp2val_typed:
  assumes "typed g fs base e" and "luaK_exp2val fs e = Inr (e', fs')"
  shows "typed g fs' base e' \<and> discharged e' \<and> \<not> hasjumps e' \<and> fs_nactvar fs' = fs_nactvar fs"
proof (cases "hasjumps e")
  case True
  then obtain r where "luaK_exp2anyreg fs e = Inr (r, e', fs')"
    using assms(2) by (auto simp: luaK_exp2val_def result_simps)
  from exp2anyreg_typed [OF assms(1) this] show ?thesis by (simp add: in_any_def discharged_def)
next
  case False
  then show ?thesis
    using assms dischargevars_typed [OF assms(1), of e' fs'] by (auto simp: luaK_exp2val_def hasjumps_def)
qed

text \<open>An operand: a constant or a register.\<close>

definition operand :: "int \<Rightarrow> FuncState \<Rightarrow> int \<Rightarrow> int \<Rightarrow> expdesc \<Rightarrow> bool" where
  "operand g fs base r e \<longleftrightarrow> typed g fs base e \<and> \<not> hasjumps e \<and> (e_k e = VNONRELOC \<and> r = e_info e \<or> e_k e = VK \<and> ISK r)"

lemma exp2RK_typed:
  assumes "typed g fs base e" and "luaK_exp2RK fs e = Inr (r, e', fs')"
  shows "operand g fs' base r e' \<and> fs_nactvar fs' = fs_nactvar fs"
proof -
  from assms(2) obtain e1 fs1 where 1: "luaK_exp2val fs e = Inr (e1, fs1)"
    by (auto simp: luaK_exp2RK_def result_simps)
  note d = exp2val_typed [OF assms(1) 1]
  have "luaK_exp2anyreg fs1 e1 = Inr (r, e', fs') \<or>
      (e_k e1 \<in> {VKNUM, VTRUE, VFALSE, VNIL, VK} \<and> ISK r \<and> regs fs' = regs fs1 \<and> e_k e' = VK \<and> e_t e' = e_t e1 \<and> e_f e' = e_f e1)"
    using assms(2) 1
    by (auto simp: luaK_exp2RK_def Let_def result_simps ISK_RKASK split: if_splits dest: constants_regs)
  then show ?thesis
  proof
    assume "luaK_exp2anyreg fs1 e1 = Inr (r, e', fs')"
    from exp2anyreg_typed [OF _ this] d show ?thesis by (auto simp: operand_def in_any_def)
  next
    assume 2: "e_k e1 \<in> {VKNUM, VTRUE, VFALSE, VNIL, VK} \<and> ISK r \<and> regs fs' = regs fs1 \<and> e_k e' = VK \<and> e_t e' = e_t e1 \<and> e_f e' = e_f e1"
    then have "fs_freereg fs1 = base + g" using d typed_plain [of e1 g fs1 base] by auto
    then show ?thesis using 2 d regs_okI [of fs' fs1] typed_above [of g fs1 base e1]
      by (auto simp: operand_def typed_plain regs_eq hasjumps_def)
  qed
qed

subsection \<open>Calls already emitted\<close>

text \<open>The register of a call stays in its instruction.\<close>

definition calls_kept :: "FuncState \<Rightarrow> FuncState \<Rightarrow> bool" where
  "calls_kept fs fs' \<longleftrightarrow> fs_pc fs \<le> fs_pc fs' \<and> (\<forall>p a. call_at fs p a \<longrightarrow> call_at fs' p a)"

lemma calls_kept_refl: "fs_code fs' = fs_code fs \<Longrightarrow> fs_pc fs' = fs_pc fs \<Longrightarrow> calls_kept fs fs'"
  by (simp add: calls_kept_def call_at_def code_get_def)

lemma calls_kept_trans: "calls_kept fs fs' \<Longrightarrow> calls_kept fs' fs'' \<Longrightarrow> calls_kept fs fs''"
  by (simp add: calls_kept_def)

lemma code_put_calls:
  assumes "code_put fs p v = Inr fs'" and "p < fs_pc fs \<longrightarrow> GET_OPCODE (fs_code fs ! nat p) = op_num OP_CALL \<longrightarrow>
    GET_OPCODE v = op_num OP_CALL \<and> GETARG_A v = GETARG_A (fs_code fs ! nat p)"
  shows "calls_kept fs fs'"
  using assms by (auto simp: calls_kept_def call_at_def code_put_def code_get_def nth_list_update split: if_splits)

lemma patchtestreg_calls: "patchtestreg fs j r = Inr (b, fs') \<Longrightarrow> calls_kept fs fs'"
  by (auto simp: patchtestreg_def result_simps code_get_def intro!: calls_kept_refl split: if_splits
      elim!: code_put_calls)

lemma fixjump_calls: "fixjump fs pc d = Inr fs' \<Longrightarrow> calls_kept fs fs'"
  by (auto simp: fixjump_def result_simps Let_def luaX_syntaxerror_Inl code_get_def split: if_splits elim!: code_put_calls)

lemma patchlist_loop_calls: "patchlist_loop n fs l v r d = Inr fs' \<Longrightarrow> calls_kept fs fs'"
proof (induction n arbitrary: fs l)
  case (Suc n)
  show ?case
  proof (cases "l = NO_JUMP")
    case False
    with Suc.prems obtain nxt b fs1 fs2 where 1: "patchtestreg fs l r = Inr (b, fs1)"
        "fixjump fs1 l (if b then v else d) = Inr fs2" "patchlist_loop n fs2 nxt v r d = Inr fs'"
      by (subst (asm) patchlist_loop.simps) (auto simp: result_simps)
    from patchtestreg_calls [OF 1(1)] fixjump_calls [OF 1(2)] Suc.IH [OF 1(3)] show ?thesis
      by (blast intro: calls_kept_trans)
  qed (use Suc.prems calls_kept_refl in \<open>simp add: patchlist_loop.simps\<close>)
qed (use calls_kept_refl in \<open>simp add: patchlist_loop.simps split: if_splits\<close>)

lemma growvector_prefix: "luaM_growvector d v n limit e = Inr v' \<Longrightarrow> \<exists>xs. v' = v @ xs"
  by (auto simp: luaM_growvector_def result_simps split: if_splits)

lemma code_calls:
  assumes "luaK_code fs i l = Inr (pc, fs')"
  shows "calls_kept fs fs'" and "code_get fs' pc = Inr i" and "pc < fs_pc fs'"
proof -
  from assms obtain fs1 c fs2 ls fs3 where 1: "dischargejpc fs = Inr fs1" "pc = fs_pc fs1"
      "luaM_growvector 0 (fs_code fs1) (fs_pc fs1) MAX_INT ''code size overflow'' = Inr c"
      "code_put (fs1\<lparr>fs_code := c\<rparr>) pc i = Inr fs2" "line_put (fs2\<lparr>fs_lineinfo := ls\<rparr>) pc l = Inr fs3"
      "fs' = fs3\<lparr>fs_pc := pc + 1\<rparr>"
    by (auto simp: luaK_code_def Let_def result_simps)
  have "calls_kept fs fs1" using 1(1) patchlist_loop_calls
    by (fastforce simp: dischargejpc_def result_simps patchlistaux_def intro: calls_kept_trans calls_kept_refl)
  moreover obtain xs where "c = fs_code fs1 @ xs" using growvector_prefix [OF 1(3)] by blast
  then have "calls_kept fs1 (fs1\<lparr>fs_code := c\<rparr>)" by (auto simp: calls_kept_def call_at_def code_get_def nth_append)
  moreover have "calls_kept (fs1\<lparr>fs_code := c\<rparr>) fs2" by (rule code_put_calls [OF 1(4)]) (simp add: 1(2))
  moreover have e: "fs_code fs' = fs_code fs2" "fs_pc fs2 = pc" "fs_pc fs' = pc + 1"
    using 1(2,4,5,6) by (auto simp: line_put_def code_put_def split: if_splits)
  then have "calls_kept fs2 fs'" by (simp add: calls_kept_def call_at_def code_get_def)
  ultimately show "calls_kept fs fs'" by (blast intro: calls_kept_trans)
  have "fs_code fs2 = c[nat pc := i]" "0 \<le> pc" "pc < int (length c)"
    using 1(4) by (auto simp: code_put_def split: if_splits)
  then show "code_get fs' pc = Inr i" "pc < fs_pc fs'" by (simp_all add: code_get_def e)
qed

lemma addk_calls: "addk fs k v = Inr (i, fs') \<Longrightarrow> calls_kept fs fs'"
proof -
  assume 1: "addk fs k v = Inr (i, fs')"
  then obtain idx h where "luaH_set (grow 2) (fs_h (fs_ls fs)) k = Inr (idx, h)"
    by (auto simp: addk_def result_simps)
  with 1 show ?thesis
    by (cases "slot_val h idx") (auto simp: addk_def result_simps Let_def intro!: calls_kept_refl split: if_splits)
qed

text \<open>A constant that becomes an operand.\<close>

lemma exp2RK_constant_calls:
  assumes "e_k e \<in> {VK, VKNUM}" and "\<not> hasjumps e" and "luaK_exp2RK fs e = Inr (r, e', fs')"
  shows "calls_kept fs fs'"
proof -
  have d: "discharged e" using assms(1) by (auto simp: discharged_def)
  then have v: "luaK_exp2val fs e = Inr (e, fs)" using assms(2) by (simp add: luaK_exp2val_def discharged_id)
  have "luaK_exp2anyreg fs e = Inr (r, e', fs') \<or> (\<exists>k v i. addk fs k v = Inr (i, fs')) \<or> fs' = fs"
    using assms(1,3) v
    by (auto simp: luaK_exp2RK_def Let_def result_simps luaK_numberK_def split: if_splits)
  then show ?thesis
  proof (elim disjE exE)
    assume "luaK_exp2anyreg fs e = Inr (r, e', fs')"
    then have "luaK_exp2nextreg fs e = Inr (e', fs')"
      using assms(1) d by (auto simp: luaK_exp2anyreg_def discharged_id Let_def result_simps)
    then obtain fs1 e1 where 1: "luaK_reserveregs fs 1 = Inr fs1" "exp2reg fs1 e (fs_freereg fs1 - 1) = Inr (e1, fs')"
      using assms(1) d by (auto simp: luaK_exp2nextreg_def discharged_id freeexp_def result_simps)
    have "calls_kept fs fs1" using 1(1)
      by (auto simp: luaK_reserveregs_def luaK_checkstack_def Let_def result_simps luaX_syntaxerror_Inl intro!: calls_kept_refl
          split: if_splits)
    moreover have "calls_kept fs1 fs'"
      using 1(2) assms(1,2) d
      by (auto simp: exp2reg_def discharge2reg_def discharged_id Let_def result_simps hasjumps_def drop_pc_def luaK_codeABx_def
          luaK_numberK_def dest!: addk_calls code_calls(1)) (rule calls_kept_trans)
    ultimately show ?thesis by (rule calls_kept_trans)
  qed (auto intro: addk_calls calls_kept_refl)
qed

subsection \<open>Operators\<close>

lemma freeexp_owns:
  assumes "owns g fs base e hi" and "discharged e" and "0 \<le> fs_nactvar fs" and "fs_nactvar fs \<le> base" and "hi + g \<le> MAXSTACK"
    and "0 \<le> g"
  shows "freeexp fs e = fs\<lparr>fs_freereg := fs_freereg fs - (hi - base)\<rparr>"
proof (cases "e_k e = VNONRELOC")
  case True
  then show ?thesis using assms free_in_reg by (simp add: freeexp_def owns_def)
next
  case False
  then have "hi = base" using assms(1,2) by (auto simp: owns_def discharged_def split: expkind.splits)
  then show ?thesis using False by (simp add: freeexp_def)
qed

lemma owns_freereg [simp]: "owns g (fs\<lparr>fs_freereg := r\<rparr>) base e hi = owns g fs base e hi"
  by (rule owns_keep) simp_all

text \<open>Two operands freed, in either order.\<close>

lemma freeexp_two:
  assumes "owns g1 fs b1 e1 h1" "discharged e1" "fs_nactvar fs \<le> b1" "h1 + g1 \<le> MAXSTACK" "0 \<le> g1"
    and "owns g2 fs b2 e2 h2" "discharged e2" "fs_nactvar fs \<le> b2" "h2 + g2 \<le> MAXSTACK" "0 \<le> g2" "0 \<le> fs_nactvar fs"
  shows "freeexp (freeexp fs e1) e2 = fs\<lparr>fs_freereg := fs_freereg fs - (h1 - b1) - (h2 - b2)\<rparr>"
    and "freeexp (freeexp fs e2) e1 = fs\<lparr>fs_freereg := fs_freereg fs - (h1 - b1) - (h2 - b2)\<rparr>"
proof -
  have 1: "freeexp (fs\<lparr>fs_freereg := r\<rparr>) e1 = fs\<lparr>fs_freereg := r - (h1 - b1)\<rparr>" for r
    using freeexp_owns [of g1 "fs\<lparr>fs_freereg := r\<rparr>" b1 e1 h1] assms by simp
  have 2: "freeexp (fs\<lparr>fs_freereg := r\<rparr>) e2 = fs\<lparr>fs_freereg := r - (h2 - b2)\<rparr>" for r
    using freeexp_owns [of g2 "fs\<lparr>fs_freereg := r\<rparr>" b2 e2 h2] assms by simp
  have 3: "freeexp fs e1 = fs\<lparr>fs_freereg := fs_freereg fs - (h1 - b1)\<rparr>" "freeexp fs e2 = fs\<lparr>fs_freereg := fs_freereg fs - (h2 - b2)\<rparr>"
    using 1 [of "fs_freereg fs"] 2 [of "fs_freereg fs"] by simp_all
  show "freeexp (freeexp fs e1) e2 = fs\<lparr>fs_freereg := fs_freereg fs - (h1 - b1) - (h2 - b2)\<rparr>"
    unfolding 3 2 ..
  have "fs_freereg fs - (h2 - b2) - (h1 - b1) = fs_freereg fs - (h1 - b1) - (h2 - b2)" by simp
  then show "freeexp (freeexp fs e2) e1 = fs\<lparr>fs_freereg := fs_freereg fs - (h1 - b1) - (h2 - b2)\<rparr>"
    unfolding 3 1 by (simp only:)
qed

text \<open>The first operand, which the infix part has made a constant or a register.\<close>

definition first_operand :: "FuncState \<Rightarrow> int \<Rightarrow> expdesc \<Rightarrow> int \<Rightarrow> bool" where
  "first_operand fs base e mid \<longleftrightarrow> fs_nactvar fs \<le> base \<and> owns 0 fs base e mid \<and> \<not> hasjumps e \<and> e_k e \<in> {VK, VKNUM, VNONRELOC}"

lemma exp2RK_register:
  assumes "e_k e = VNONRELOC" and "\<not> hasjumps e"
  shows "luaK_exp2RK fs e = Inr (e_info e, e, fs)"
proof -
  have "discharged e" using assms(1) by (simp add: discharged_def)
  then show ?thesis using assms by (simp add: luaK_exp2RK_def luaK_exp2val_def luaK_exp2anyreg_def discharged_id)
qed

lemma operandD:
  assumes "operand g fs base r e"
  shows "discharged e" "owns g fs base e (fs_freereg fs - g)" "regs_ok fs" "0 \<le> g" "fs_nactvar fs \<le> base" "\<not> hasjumps e"
    "e_k e \<in> {VK, VKNUM, VNONRELOC}" "0 \<le> fs_nactvar fs" "fs_freereg fs \<le> MAXSTACK" "base + g \<le> fs_freereg fs"
proof -
  have t: "typed g fs base e" and k: "e_k e = VNONRELOC \<or> e_k e = VK" and "\<not> hasjumps e"
    using assms by (auto simp: operand_def)
  then show "discharged e" "\<not> hasjumps e" "e_k e \<in> {VK, VKNUM, VNONRELOC}" by (auto simp: discharged_def)
  show "owns g fs base e (fs_freereg fs - g)" using t by (simp add: typed_def)
  show "regs_ok fs" "0 \<le> g" "fs_nactvar fs \<le> base" "0 \<le> fs_nactvar fs" "fs_freereg fs \<le> MAXSTACK" "base + g \<le> fs_freereg fs"
    using typed_above [OF t] by simp_all
qed

lemma operand_first: "operand 0 fs base r e \<Longrightarrow> first_operand fs base e (fs_freereg fs)"
  using operandD [of 0 fs base r e] by (simp add: first_operand_def)

text \<open>The second operand comes first.\<close>

lemma second_then_first:
  assumes f: "first_operand fs base e1 mid" and t: "typed 0 fs mid e2"
    and r: "luaK_exp2RK fs e2 = Inr (o2, e2', fs1)" "luaK_exp2RK fs1 e1 = Inr (o1, e1', fs2)"
  shows "freeexp (freeexp fs2 e1') e2' = fs2\<lparr>fs_freereg := base\<rparr>" "freeexp (freeexp fs2 e2') e1' = fs2\<lparr>fs_freereg := base\<rparr>"
    "regs_ok (fs2\<lparr>fs_freereg := base\<rparr>)" "fs_nactvar fs2 = fs_nactvar fs"
proof -
  have 2: "operand 0 fs1 mid o2 e2'" "fs_nactvar fs1 = fs_nactvar fs" using exp2RK_typed [OF t r(1)] by simp_all
  note D = operandD [OF 2(1)]
  have base: "fs_nactvar fs \<le> base" "base \<le> mid" using f owns_le [of 0 fs base e1 mid] by (simp_all add: first_operand_def)
  obtain b h where 1: "owns 0 fs2 b e1' h" "discharged e1'" "fs_nactvar fs2 \<le> b" "h \<le> MAXSTACK"
      "fs_freereg fs2 - (h - b) - (fs_freereg fs1 - mid) = base" "fs_nactvar fs2 = fs_nactvar fs" "regs_ok fs2" "base \<le> fs_freereg fs2"
  proof (cases "e_k e1 = VNONRELOC")
    case True
    then have "e1' = e1" "fs2 = fs1" using f r(2) exp2RK_register [of e1 fs1] by (simp_all add: first_operand_def)
    moreover have "owns 0 fs1 base e1 mid" using f True 2(2) by (simp add: first_operand_def owns_def)
    ultimately show ?thesis using that [of base mid] D 2(2) base True by (simp add: discharged_def)
  next
    case False
    then have k: "e_k e1 \<in> {VK, VKNUM}" and mid: "mid = base" using f by (auto simp: first_operand_def owns_def)
    then have "typed 0 fs1 (fs_freereg fs1) e1" using D by (auto simp: typed_plain)
    from exp2RK_typed [OF this r(2)]
    have 3: "operand 0 fs2 (fs_freereg fs1) o1 e1'" "fs_nactvar fs2 = fs_nactvar fs1" by simp_all
    show ?thesis using that [of "fs_freereg fs1" "fs_freereg fs2"] operandD [OF 3(1)] 3(2) 2(2) D base mid by simp
  qed
  have "owns 0 fs2 mid e2' (fs_freereg fs1)" using D(2,7) 1(6) 2(2) owns_keep [of fs2 fs1 e2'] by auto
  note two = freeexp_two [OF 1(1,2,3) _ _ this D(1)]
  show "freeexp (freeexp fs2 e1') e2' = fs2\<lparr>fs_freereg := base\<rparr>" "freeexp (freeexp fs2 e2') e1' = fs2\<lparr>fs_freereg := base\<rparr>"
    using two 1 D 2(2) by simp_all
  show "regs_ok (fs2\<lparr>fs_freereg := base\<rparr>)" "fs_nactvar fs2 = fs_nactvar fs"
    using 1 base free_to [of fs2 base] by simp_all
qed

text \<open>An instruction without registers of its own.\<close>

lemma plain_typed:
  assumes "regs_ok (fs\<lparr>fs_freereg := base\<rparr>)" and "regs fs' = regs (fs\<lparr>fs_freereg := base\<rparr>)"
    and "e_k e \<notin> {VVOID, VLOCAL, VINDEXED, VCALL, VNONRELOC}"
  shows "typed 0 fs' base e \<and> fs_nactvar fs' = fs_nactvar fs"
  using assms by (auto simp: typed_plain regs_ok_def regs_eq)

lemma codearith_typed:
  assumes f: "first_operand fs base e1 mid" and t: "typed 0 fs mid e2" and o: "oper \<notin> {OP_UNM, OP_LEN}"
    and c: "codearith pow fs oper e1 e2 = Inr (e1', e2', fs')"
  shows "typed 0 fs' base e1' \<and> fs_nactvar fs' = fs_nactvar fs"
proof (cases "constfolding pow oper e1 e2")
  case (Some e)
  then have "e_k e = e_k e1" "isnumeral e1" "isnumeral e2"
    by (auto simp: constfolding_def Let_def split: if_splits option.splits)
  then show ?thesis using f t c Some by (auto simp: codearith_def typed_plain isnumeral_def first_operand_def owns_def)
next
  case None
  then obtain o2 e2'' fs1 o1 e1'' fs2 pc where 1: "luaK_exp2RK fs e2 = Inr (o2, e2'', fs1)" "luaK_exp2RK fs1 e1 = Inr (o1, e1'', fs2)"
      "luaK_codeABC (if o1 > o2 then freeexp (freeexp fs2 e1'') e2'' else freeexp (freeexp fs2 e2'') e1'') oper 0 o1 o2 = Inr (pc, fs')"
      "e1' = e1''\<lparr>e_info := pc, e_k := VRELOCABLE\<rparr>"
    using c o by (auto simp: codearith_def Let_def result_simps)
  note S = second_then_first [OF f t 1(1,2)]
  have "luaK_codeABC (fs2\<lparr>fs_freereg := base\<rparr>) oper 0 o1 o2 = Inr (pc, fs')" using 1(3) S(1,2) by (simp split: if_splits)
  from plain_typed [OF S(3) codeABC_regs(1) [OF this], of e1'] S(4) 1(4) show ?thesis by simp
qed

lemma codearith_unary_typed:
  assumes t: "typed 0 fs base e" and o: "oper \<in> {OP_UNM, OP_LEN}" and k: "e_k e2 = VKNUM"
    and c: "codearith pow fs oper e e2 = Inr (e', e2', fs')"
  shows "typed 0 fs' base e' \<and> fs_nactvar fs' = fs_nactvar fs"
proof (cases "constfolding pow oper e e2")
  case (Some e1)
  then have "e_k e1 = e_k e" "isnumeral e"
    by (auto simp: constfolding_def Let_def split: if_splits option.splits)
  then show ?thesis using t c Some by (auto simp: codearith_def typed_plain isnumeral_def)
next
  case None
  then obtain o1 e1 fs1 pc where 1: "luaK_exp2RK fs e = Inr (o1, e1, fs1)"
      "luaK_codeABC (freeexp fs1 e1) oper 0 o1 0 = Inr (pc, fs')" "e' = e1\<lparr>e_info := pc, e_k := VRELOCABLE\<rparr>"
    using c o k by (auto simp: codearith_def Let_def result_simps freeexp_def split: if_splits)
  have 2: "operand 0 fs1 base o1 e1" "fs_nactvar fs1 = fs_nactvar fs" using exp2RK_typed [OF t 1(1)] by simp_all
  note D = operandD [OF 2(1)]
  have "freeexp fs1 e1 = fs1\<lparr>fs_freereg := base\<rparr>" using freeexp_owns [OF D(2,1,8,5)] D by simp
  moreover have "regs_ok (fs1\<lparr>fs_freereg := base\<rparr>)" using D free_to by simp
  ultimately show ?thesis using codeABC_regs(1) [OF 1(2)] plain_typed [where fs = fs1 and base = base and fs' = fs' and e = e'] 1(3) 2(2) by simp
qed

lemma owns_gap:
  assumes "owns 0 fs base e hi" and "calls_kept fs fs'" and "fs_nactvar fs' = fs_nactvar fs" and "0 \<le> g"
  shows "owns g fs' base e hi"
proof -
  have r: "in_reg 0 na b r h \<Longrightarrow> in_reg g na b r h" for na b r h using assms(4) by (auto simp: in_reg_def)
  show ?thesis using assms r by (cases "e_k e") (fastforce simp: owns_def calls_kept_def)+
qed

lemma codecomp_typed:
  assumes f: "first_operand fs base e1 mid" and t: "typed 0 fs mid e2" and c: "codecomp fs oper cd e1 e2 = Inr (e1', e2', fs')"
  shows "typed 0 fs' base e1' \<and> fs_nactvar fs' = fs_nactvar fs"
proof -
  obtain o1 e1'' fs1 o2 e2'' fs2 oper' cd' a b pc where 1: "luaK_exp2RK fs e1 = Inr (o1, e1'', fs1)"
      "luaK_exp2RK fs1 e2 = Inr (o2, e2'', fs2)" "condjump (freeexp (freeexp fs2 e2'') e1'') oper' cd' a b = Inr (pc, fs')"
      "e1' = e1''\<lparr>e_info := pc, e_k := VJMP\<rparr>"
    using c by (auto simp: codecomp_def Let_def result_simps split: if_splits)
  have base: "fs_nactvar fs \<le> base" "base \<le> mid" using f owns_le [of 0 fs base e1 mid] by (simp_all add: first_operand_def)
  have S: "freeexp (freeexp fs2 e2'') e1'' = fs2\<lparr>fs_freereg := base\<rparr> \<and> regs_ok (fs2\<lparr>fs_freereg := base\<rparr>) \<and> fs_nactvar fs2 = fs_nactvar fs"
  proof (cases "e_k e1 = VNONRELOC")
    case True
    then have e: "e1'' = e1" "fs1 = fs" using f 1(1) exp2RK_register [of e1 fs] by (simp_all add: first_operand_def)
    have 2: "operand 0 fs2 mid o2 e2''" "fs_nactvar fs2 = fs_nactvar fs" using exp2RK_typed [OF t] 1(2) e by simp_all
    note D = operandD [OF 2(1)]
    have "owns 0 fs2 base e1 mid" using f True 2(2) by (simp add: first_operand_def owns_def)
    from freeexp_two(2) [OF this _ _ _ _ D(2,1)] D base 2(2) True e show ?thesis
      by (simp add: discharged_def free_to)
  next
    case False
    then have k: "e_k e1 \<in> {VK, VKNUM}" and mid: "mid = base" using f by (auto simp: first_operand_def owns_def)
    then have "typed 0 fs (fs_freereg fs) e1" using typed_above [OF t] by (auto simp: typed_plain)
    from exp2RK_typed [OF this 1(1)] have 3: "operand 0 fs1 (fs_freereg fs) o1 e1''" "fs_nactvar fs1 = fs_nactvar fs" by simp_all
    note D1 = operandD [OF 3(1)]
    define g where "g = fs_freereg fs1 - fs_freereg fs"
    have g: "0 \<le> g" using D1 by (simp add: g_def)
    have "calls_kept fs fs1" using exp2RK_constant_calls [OF k _ 1(1)] f by (simp add: first_operand_def)
    then have "typed g fs1 mid e2" using t owns_gap [of fs mid e2 "fs_freereg fs" fs1 g] D1 g base mid 3(2) by (simp add: typed_def g_def)
    from exp2RK_typed [OF this 1(2)] have 2: "operand g fs2 mid o2 e2''" "fs_nactvar fs2 = fs_nactvar fs" using 3(2) by simp_all
    note D2 = operandD [OF 2(1)]
    have o1: "owns 0 fs2 (fs_freereg fs) e1'' (fs_freereg fs1)"
      using D1(2,7) owns_keep [of fs2 fs1 e1''] 2(2) 3(2) by auto
    have "fs_nactvar fs \<le> fs_freereg fs" using typed_above [OF t] by simp
    with freeexp_two(2) [OF o1 D1(1) _ _ _ D2(2,1)] D1 D2 base mid 2(2) 3(2) g_def show ?thesis
      by (simp add: free_to)
  qed
  from plain_typed [where fs = fs2 and base = base and fs' = fs' and e = e1'] condjump_regs [OF 1(3)] S 1(4) show ?thesis by simp
qed

subsection \<open>Conditions\<close>

text \<open>No temporaries are left.\<close>

definition freed :: "FuncState \<Rightarrow> int \<Rightarrow> bool" where
  "freed fs base \<longleftrightarrow> regs_ok fs \<and> fs_nactvar fs \<le> base \<and> fs_freereg fs = base"

lemma freed_keep: "freed fs base \<Longrightarrow> regs fs' = regs fs \<Longrightarrow> freed fs' base"
  by (auto simp: freed_def regs_ok_def regs_eq)

lemma typed_freed: "e_k e \<notin> {VVOID, VLOCAL, VINDEXED, VCALL, VNONRELOC} \<Longrightarrow> typed 0 fs base e \<longleftrightarrow> freed fs base"
  by (auto simp: typed_plain freed_def)

lemma freeexp_freed: "typed 0 fs base e \<Longrightarrow> discharged e \<Longrightarrow> freed (freeexp fs e) base \<and> fs_nactvar (freeexp fs e) = fs_nactvar fs"
  using freeexp_typed [of 0 fs base e] typed_above [of 0 fs base e] by (simp add: freed_def free_to)

lemma discharge2anyreg_typed:
  assumes "typed 0 fs base e" and "discharged e" and "e_k e \<noteq> VJMP" and "discharge2anyreg fs e = Inr (e', fs')"
  shows "typed 0 fs' base e' \<and> e_k e' = VNONRELOC \<and> fs_nactvar fs' = fs_nactvar fs"
proof (cases "e_k e = VNONRELOC")
  case True
  then show ?thesis using assms by (simp add: discharge2anyreg_def)
next
  case False
  then obtain fs1 where 1: "luaK_reserveregs fs 1 = Inr fs1" "discharge2reg fs1 e (fs_freereg fs1 - 1) = Inr (e', fs')"
    using assms(4) by (auto simp: discharge2anyreg_def result_simps)
  have b: "fs_freereg fs = base" "regs_ok fs" "fs_nactvar fs \<le> base"
    using assms(1,2) False typed_not_void [OF assms(1)] by (auto simp: typed_plain discharged_def)
  note r = reserve_regs [OF 1(1) b(2)]
  have "regs fs' = regs fs1" "e_k e' = VNONRELOC" "e_info e' = fs_freereg fs1 - 1"
    using discharge2reg_regs [OF assms(2) 1(2)] assms(3) typed_not_void [OF assms(1)] by auto
  then show ?thesis using r b by (auto simp: typed_nonreloc in_reg_def regs_ok_def regs_eq)
qed

lemma jumponcond_freed:
  assumes "typed 0 fs base e" and "discharged e" and "e_k e \<noteq> VJMP" and "jumponcond fs e c = Inr (pc, e', fs')"
  shows "freed fs' base \<and> fs_nactvar fs' = fs_nactvar fs"
proof -
  from assms(4) obtain fs0 oper a b c where 1: "condjump fs0 oper a b c = Inr (pc, fs')" and
      0: "e_k e = VRELOCABLE \<and> fs0 = fs\<lparr>fs_pc := fs_pc fs - 1\<rparr> \<or> (\<exists>fs1. discharge2anyreg fs e = Inr (e', fs1) \<and> fs0 = freeexp fs1 e')"
    by (auto simp: jumponcond_def result_simps split: if_splits)
  have "freed fs0 base \<and> fs_nactvar fs0 = fs_nactvar fs"
    using 0
  proof (elim disjE exE conjE)
    assume "e_k e = VRELOCABLE" "fs0 = fs\<lparr>fs_pc := fs_pc fs - 1\<rparr>"
    then show ?thesis using assms(1) typed_freed [of e fs base] freed_keep by auto
  next
    fix fs1
    assume 2: "discharge2anyreg fs e = Inr (e', fs1)" "fs0 = freeexp fs1 e'"
    from discharge2anyreg_typed [OF assms(1-3) 2(1)] freeexp_freed [of fs1 base e'] 2(2) show ?thesis
      by (simp add: discharged_def)
  qed
  then show ?thesis using condjump_regs [OF 1] freed_keep by (auto simp: regs_eq)
qed

text \<open>The jump: an expression that needs no test, or one that \<open>jumponcond\<close> tests.\<close>

lemma decided_freed:
  assumes "typed 0 fs base e" and "discharged e"
    and "e_k e \<noteq> VNONRELOC \<and> regs fs' = regs fs \<or> e_k e \<noteq> VJMP \<and> jumponcond fs e c = Inr (pc, e', fs')"
  shows "freed fs' base \<and> fs_nactvar fs' = fs_nactvar fs"
  using assms(3)
proof
  assume 1: "e_k e \<noteq> VNONRELOC \<and> regs fs' = regs fs"
  then have "freed fs base" using assms(1,2) typed_not_void [OF assms(1)] by (auto simp: typed_freed discharged_def)
  then show ?thesis using 1 freed_keep by (auto simp: regs_eq)
qed (use jumponcond_freed [OF assms(1,2)] in blast)

lemma goiftrue_freed:
  assumes "typed 0 fs base e" and "luaK_goiftrue fs e = Inr (e', fs')"
  shows "freed fs' base \<and> fs_nactvar fs' = fs_nactvar fs"
proof -
  from assms(2) obtain e1 fs1 pc e2 fs2 l fs3 where 1: "luaK_dischargevars fs e = Inr (e1, fs1)"
      and m: "(let k = e_k e1 in if k = VK \<or> k = VKNUM \<or> k = VTRUE then Inr (NO_JUMP, e1, fs1)
           else if k = VFALSE then bind_result (luaK_jump fs1) (\<lambda>(pc, fs). Inr (pc, e1, fs))
           else if k = VJMP then bind_result (invertjump fs1 e1) (\<lambda>fs. Inr (e_info e1, e1, fs))
           else jumponcond fs1 e1 0) = Inr (pc, e2, fs2)"
      and 3: "luaK_concat fs2 (e_f e2) pc = Inr (l, fs3)" "luaK_patchtohere fs3 (e_t e2) = Inr fs'"
    by (auto simp: luaK_goiftrue_def result_simps split del: if_split)
  note d = dischargevars_typed [OF assms(1) 1]
  from m have "e_k e1 \<noteq> VNONRELOC \<and> regs fs2 = regs fs1 \<or> e_k e1 \<noteq> VJMP \<and> jumponcond fs1 e1 0 = Inr (pc, e2, fs2)"
    by (auto simp: Let_def result_simps split: if_splits dest: regs_keep)
  from decided_freed [where base = base, OF _ _ this] d concat_regs [OF 3(1)] patchtohere_regs [OF 3(2)] freed_keep [of fs2 base fs']
  show ?thesis by (simp add: regs_eq)
qed

lemma goiffalse_freed:
  assumes "typed 0 fs base e" and "luaK_goiffalse fs e = Inr (e', fs')"
  shows "freed fs' base \<and> fs_nactvar fs' = fs_nactvar fs"
proof -
  from assms(2) obtain e1 fs1 pc e2 fs2 l fs3 where 1: "luaK_dischargevars fs e = Inr (e1, fs1)"
      and m: "(let k = e_k e1 in if k = VNIL \<or> k = VFALSE then Inr (NO_JUMP, e1, fs1)
           else if k = VTRUE then bind_result (luaK_jump fs1) (\<lambda>(pc, fs). Inr (pc, e1, fs))
           else if k = VJMP then Inr (e_info e1, e1, fs1)
           else jumponcond fs1 e1 1) = Inr (pc, e2, fs2)"
      and 3: "luaK_concat fs2 (e_t e2) pc = Inr (l, fs3)" "luaK_patchtohere fs3 (e_f e2) = Inr fs'"
    by (auto simp: luaK_goiffalse_def result_simps split del: if_split)
  note d = dischargevars_typed [OF assms(1) 1]
  from m have "e_k e1 \<noteq> VNONRELOC \<and> regs fs2 = regs fs1 \<or> e_k e1 \<noteq> VJMP \<and> jumponcond fs1 e1 1 = Inr (pc, e2, fs2)"
    by (auto simp: Let_def result_simps split: if_splits dest: regs_keep)
  from decided_freed [where base = base, OF _ _ this] d concat_regs [OF 3(1)] patchtohere_regs [OF 3(2)] freed_keep [of fs2 base fs']
  show ?thesis by (simp add: regs_eq)
qed

lemma codenot_typed:
  assumes "typed 0 fs base e" and "codenot fs e = Inr (e', fs')"
  shows "typed 0 fs' base e' \<and> fs_nactvar fs' = fs_nactvar fs"
proof -
  from assms(2) obtain e1 fs1 e2 fs2 fs3 where 1: "luaK_dischargevars fs e = Inr (e1, fs1)"
      and m: "(let k = e_k e1 in if k = VNIL \<or> k = VFALSE then Inr (e1\<lparr>e_k := VTRUE\<rparr>, fs1)
           else if k = VK \<or> k = VKNUM \<or> k = VTRUE then Inr (e1\<lparr>e_k := VFALSE\<rparr>, fs1)
           else if k = VJMP then bind_result (invertjump fs1 e1) (\<lambda>fs. Inr (e1, fs))
           else if k = VRELOCABLE \<or> k = VNONRELOC then
             bind_result (discharge2anyreg fs1 e1) (\<lambda>(e, fs). relocable e (luaK_codeABC (freeexp fs e) OP_NOT 0 (e_info e) 0))
           else Inr (e1, fs1)) = Inr (e2, fs2)"
      and 3: "removevalues fs2 (e_t e2) = Inr fs3" "removevalues fs3 (e_f e2) = Inr fs'" "e' = e2\<lparr>e_f := e_t e2, e_t := e_f e2\<rparr>"
    by (auto simp: codenot_def result_simps split del: if_split)
  note d = dischargevars_typed [OF assms(1) 1]
  have k: "regs fs' = regs fs2" using removevalues_regs [OF 3(1)] removevalues_regs [OF 3(2)] by simp
  have "freed fs2 base \<and> fs_nactvar fs2 = fs_nactvar fs1 \<and> e_k e2 \<in> {VTRUE, VFALSE, VJMP, VRELOCABLE}"
  proof (cases "e_k e1 = VRELOCABLE \<or> e_k e1 = VNONRELOC")
    case True
    then obtain e3 fs4 pc where 4: "discharge2anyreg fs1 e1 = Inr (e3, fs4)"
        "luaK_codeABC (freeexp fs4 e3) OP_NOT 0 (e_info e3) 0 = Inr (pc, fs2)" "e_k e2 = VRELOCABLE"
      using m by (auto simp: result_simps dest!: relocable_result)
    from True discharge2anyreg_typed [OF _ _ _ 4(1)] d
    have 5: "typed 0 fs4 base e3" "e_k e3 = VNONRELOC" "fs_nactvar fs4 = fs_nactvar fs1" by auto
    then show ?thesis
      using freeexp_freed [of fs4 base e3] codeABC_regs(1) [OF 4(2)] freed_keep [of "freeexp fs4 e3" base fs2] 4(3)
      by (auto simp: discharged_def regs_eq)
  next
    case False
    then have "freed fs1 base" "e_k e1 \<noteq> VVOID" using d typed_not_void [of 0 fs1 base e1] by (auto simp: typed_freed discharged_def)
    moreover have "regs fs2 = regs fs1 \<and> e_k e2 \<in> {VTRUE, VFALSE, VJMP}"
      using m False d \<open>e_k e1 \<noteq> VVOID\<close>
      by (cases "e_k e1") (auto simp: result_simps discharged_def dest: regs_keep)
    ultimately show ?thesis using freed_keep [of fs1 base fs2] by (auto simp: regs_eq)
  qed
  then show ?thesis using k d 3(3) freed_keep [of fs2 base fs'] typed_freed [of e' fs' base] by (auto simp: regs_eq)
qed

subsection \<open>Operators of the grammar\<close>

lemma prefix_typed:
  assumes t: "typed 0 fs base e" and "luaK_prefix pow fs opr e = Inr (e', fs')"
  shows "typed 0 fs' base e' \<and> fs_nactvar fs' = fs_nactvar fs"
proof -
  have u: "typed 0 fs2 base e4 \<and> fs_nactvar fs2 = fs_nactvar fs1"
    if "typed 0 fs1 base e1" "bind_result (codearith pow fs1 oper e1 e2) (\<lambda>(e, _, fs). Inr (e, fs)) = Inr (e4, fs2)"
      "e_k e2 = VKNUM" "oper \<in> {OP_UNM, OP_LEN}" for oper fs1 fs2 e1 e2 e4
    using that(2) codearith_unary_typed [OF that(1,4,3)] by (auto simp: result_simps)
  have a: "typed 0 fs1 base e1 \<and> fs_nactvar fs1 = fs_nactvar fs" if "luaK_exp2anyreg fs e = Inr (r, e1, fs1)" for r e1 fs1
    using exp2anyreg_typed [OF t that] by (simp add: in_any_def)
  show ?thesis
  proof (cases opr)
    case OPR_MINUS
    then obtain e1 fs1 where "(if e_k e = VK then bind_result (luaK_exp2anyreg fs e) (\<lambda>(_, e, fs). Inr (e, fs)) else Inr (e, fs))
          = Inr (e1, fs1)" and 2: "bind_result (codearith pow fs1 OP_UNM e1
            \<lparr>e_k = VKNUM, e_info = 0, e_aux = 0, e_nval = 0, e_t = NO_JUMP, e_f = NO_JUMP\<rparr>) (\<lambda>(e, _, fs). Inr (e, fs)) = Inr (e', fs')"
      using assms(2) by (auto simp: luaK_prefix_def Let_def result_simps split del: if_split)
    then have "typed 0 fs1 base e1 \<and> fs_nactvar fs1 = fs_nactvar fs"
      using a t by (auto simp: result_simps split: if_splits)
    then show ?thesis using u [OF _ 2] by simp
  next
    case OPR_LEN
    then obtain r e1 fs1 where 1: "luaK_exp2anyreg fs e = Inr (r, e1, fs1)" and 2: "bind_result (codearith pow fs1 OP_LEN e1
            \<lparr>e_k = VKNUM, e_info = 0, e_aux = 0, e_nval = 0, e_t = NO_JUMP, e_f = NO_JUMP\<rparr>) (\<lambda>(e, _, fs). Inr (e, fs)) = Inr (e', fs')"
      using assms(2) by (auto simp: luaK_prefix_def Let_def result_simps)
    then show ?thesis using u [OF _ 2] a [OF 1] by simp
  next
    case OPR_NOT
    then show ?thesis using codenot_typed [OF t] assms(2) by (simp add: luaK_prefix_def Let_def)
  next
    case OPR_NOUNOPR
    then show ?thesis using t assms(2) by (simp add: luaK_prefix_def Let_def)
  qed
qed

text \<open>Between the two parts of a binary operator.\<close>

definition half_done :: "BinOpr \<Rightarrow> FuncState \<Rightarrow> int \<Rightarrow> expdesc \<Rightarrow> int \<Rightarrow> bool" where
  "half_done opr fs base e mid \<longleftrightarrow> 
     (if opr = OPR_AND \<or> opr = OPR_OR then mid = base else first_operand fs base e mid \<and> (opr = OPR_CONCAT \<longrightarrow> e_k e = VNONRELOC))"

lemma infix_half_done:
  assumes t: "typed 0 fs base e" and "opr \<noteq> OPR_NOBINOPR" and i: "luaK_infix fs opr e = Inr (e', fs')"
  shows "half_done opr fs' base e' (fs_freereg fs') \<and> fs_nactvar fs' = fs_nactvar fs \<and> regs_ok fs'"
proof (cases "opr = OPR_AND \<or> opr = OPR_OR")
  case True
  then show ?thesis
    using goiftrue_freed [OF t, of e' fs'] goiffalse_freed [OF t, of e' fs'] i
    by (auto simp: luaK_infix_def Let_def half_done_def freed_def)
next
  case False
  have rk: ?thesis if "luaK_exp2RK fs e = Inr (r, e', fs')" "opr \<noteq> OPR_CONCAT" for r
    using exp2RK_typed [OF t that(1)] operand_first [of fs' base r e'] operandD(3) False that(2) by (auto simp: half_done_def)
  show ?thesis
  proof (cases "opr = OPR_CONCAT")
    case True
    then have n: "in_next 0 fs' base e'" "fs_nactvar fs' = fs_nactvar fs"
      using exp2nextreg_typed [OF t] i by (simp_all add: luaK_infix_def Let_def)
    then show ?thesis using True in_next_typed [OF n(1)]
      by (auto simp: half_done_def first_operand_def in_next_def typed_def)
  next
    case c: False
    have "luaK_infix fs opr e = (if opr \<in> {OPR_ADD, OPR_SUB, OPR_MUL, OPR_DIV, OPR_MOD, OPR_POW} \<and> isnumeral e then Inr (e, fs)
       else bind_result (luaK_exp2RK fs e) (\<lambda>(_, v, fs). Inr (v, fs)))"
      using c False assms(2) by (cases opr) (simp_all add: luaK_infix_def Let_def)
    with i consider "isnumeral e" "e' = e" "fs' = fs" | r where "luaK_exp2RK fs e = Inr (r, e', fs')"
      by (auto simp: result_simps split: if_splits)
    then show ?thesis
    proof cases
      case 1
      then show ?thesis using t False c
        by (auto simp: half_done_def first_operand_def isnumeral_def hasjumps_def typed_def)
    qed (use rk c in blast)
  qed
qed

lemma posfix_typed:
  assumes h: "half_done opr fs base e1 mid" and t: "typed 0 fs mid e2" and "opr \<noteq> OPR_NOBINOPR"
    and p: "luaK_posfix pow fs opr e1 e2 = Inr (e1', e2', fs')"
  shows "typed 0 fs' base e1' \<and> fs_nactvar fs' = fs_nactvar fs"
proof -
  have logic: "typed 0 fs'' base (u e) \<and> fs_nactvar fs'' = fs_nactvar fs"
    if "mid = base" "luaK_dischargevars fs e2 = Inr (e, fs1)" "regs fs'' = regs fs1" "\<And>e. e_k (u e) = e_k e" "\<And>e. e_info (u e) = e_info e"
    for e fs1 fs'' u
  proof -
    have d: "typed 0 fs1 base e" "discharged e" "fs_nactvar fs1 = fs_nactvar fs" using dischargevars_typed [OF t that(2)] that(1) by simp_all
    then have "typed 0 fs1 base (u e)" using that(4,5) by (cases "e_k e") (auto simp: typed_def owns_def discharged_def)
    then show ?thesis using that(3,4) d owns_keep [of fs'' fs1 "u e"] regs_okI [of fs'' fs1] by (auto simp: typed_def regs_eq discharged_def)
  qed
  consider (con) "opr = OPR_AND" | (dis) "opr = OPR_OR" | (cat) "opr = OPR_CONCAT"
    | (arith) oper where "luaK_posfix pow fs opr e1 e2 = codearith pow fs oper e1 e2" "oper \<notin> {OP_UNM, OP_LEN}"
        "opr \<notin> {OPR_AND, OPR_OR, OPR_CONCAT}"
    | (comp) oper cd where "luaK_posfix pow fs opr e1 e2 = codecomp fs oper cd e1 e2" "opr \<notin> {OPR_AND, OPR_OR, OPR_CONCAT}"
    using assms(3) by (cases opr) (auto simp: luaK_posfix_def)
  then show ?thesis
  proof cases
    case con
    then obtain e fs1 f where 1: "luaK_dischargevars fs e2 = Inr (e, fs1)" "luaK_concat fs1 (e_f e) (e_f e1) = Inr (f, fs')"
        "e1' = e\<lparr>e_f := f\<rparr>"
      using p by (auto simp: luaK_posfix_def Let_def result_simps)
    with logic [of e fs1 fs' "\<lambda>e. e\<lparr>e_f := f\<rparr>"] h con concat_regs show ?thesis by (simp add: half_done_def)
  next
    case dis
    then obtain e fs1 f where 1: "luaK_dischargevars fs e2 = Inr (e, fs1)" "luaK_concat fs1 (e_t e) (e_t e1) = Inr (f, fs')"
        "e1' = e\<lparr>e_t := f\<rparr>"
      using p by (auto simp: luaK_posfix_def Let_def result_simps)
    with logic [of e fs1 fs' "\<lambda>e. e\<lparr>e_t := f\<rparr>"] h dis concat_regs show ?thesis by (simp add: half_done_def)
  next
    case arith
    then have f: "first_operand fs base e1 mid" and c: "codearith pow fs oper e1 e2 = Inr (e1', e2', fs')"
      using h p by (simp_all add: half_done_def)
    show ?thesis by (rule codearith_typed [OF f t arith(2) c])
  next
    case comp
    then have f: "first_operand fs base e1 mid" and c: "codecomp fs oper cd e1 e2 = Inr (e1', e2', fs')"
      using h p by (simp_all add: half_done_def)
    show ?thesis by (rule codecomp_typed [OF f t c])
  next
    case cat
    then obtain e fs1 where 1: "luaK_exp2val fs e2 = Inr (e, fs1)" using p by (auto simp: luaK_posfix_def result_simps)
    have v: "typed 0 fs1 mid e" "discharged e" "\<not> hasjumps e" "fs_nactvar fs1 = fs_nactvar fs" using exp2val_typed [OF t 1] by simp_all
    have f: "first_operand fs base e1 mid" "e_k e1 = VNONRELOC" using h cat by (simp_all add: half_done_def)
    have f1: "first_operand fs1 base e1 mid" using f v(4) by (simp add: first_operand_def owns_def)
    show ?thesis
    proof (cases "e_k e = VRELOCABLE \<and> e1' = e1\<lparr>e_k := VRELOCABLE, e_info := e_info e\<rparr> \<and> regs fs' = regs (freeexp fs1 e1)")
      case True
      have mid: "fs_freereg fs1 = mid" using v(1) True by (simp add: typed_plain)
      have "freeexp fs1 e1 = fs1\<lparr>fs_freereg := base\<rparr>"
        using freeexp_owns [of 0 fs1 base e1 mid] f1 f(2) typed_above [OF v(1)] mid by (simp add: first_operand_def discharged_def)
      moreover have "regs_ok (fs1\<lparr>fs_freereg := base\<rparr>)"
        using f1 owns_le [of 0 fs1 base e1 mid] free_to [of fs1 base] typed_above [OF v(1)] mid by (simp add: first_operand_def)
      ultimately show ?thesis using plain_typed [where fs = fs1 and base = base and fs' = fs' and e = e1'] True v(4) by simp
    next
      case False
      have "(\<exists>i. bind_result (setcode (freeexp fs1 e1) e i) (\<lambda>fs. Inr (e1\<lparr>e_k := VRELOCABLE, e_info := e_info e\<rparr>, e, fs)) = Inr (e1', e2', fs')
            \<and> e_k e = VRELOCABLE)
          \<or> bind_result (luaK_exp2nextreg fs1 e) (\<lambda>(e2, fs). codearith pow fs OP_CONCAT e1 e2) = Inr (e1', e2', fs')"
        using p cat 1 by (auto simp: luaK_posfix_def result_simps Let_def split: if_splits)
      then obtain e3 fs3 where 3: "luaK_exp2nextreg fs1 e = Inr (e3, fs3)" "codearith pow fs3 OP_CONCAT e1 e3 = Inr (e1', e2', fs')"
        using False by (auto simp: result_simps dest: regs_keep)
      have n: "typed 0 fs3 mid e3" "fs_nactvar fs3 = fs_nactvar fs" using exp2nextreg_typed [OF v(1) 3(1)] v(4) in_next_typed by auto
      have "first_operand fs3 base e1 mid" using f n(2) by (simp add: first_operand_def owns_def)
      from codearith_typed [OF this n(1) _ 3(2)] n(2) show ?thesis by simp
    qed
  qed
qed

subsection \<open>Fields and methods\<close>

lemma indexed_typed:
  assumes "fs_nactvar fs \<le> base" and "e_k e = VNONRELOC" and "owns 0 fs base e mid" and t: "typed 0 fs mid k"
    and i: "luaK_indexed fs e k = Inr (e', k', fs')"
  shows "typed 0 fs' base e' \<and> fs_nactvar fs' = fs_nactvar fs"
proof -
  obtain r k1 where 1: "luaK_exp2RK fs k = Inr (r, k1, fs')" "e' = e\<lparr>e_aux := r, e_k := VINDEXED\<rparr>"
    using i by (auto simp: luaK_indexed_def result_simps)
  have 2: "operand 0 fs' mid r k1" "fs_nactvar fs' = fs_nactvar fs" using exp2RK_typed [OF t 1(1)] by simp_all
  then have "ISK r \<and> fs_freereg fs' = mid \<or> in_reg 0 (fs_nactvar fs') mid r (fs_freereg fs')"
    by (auto simp: operand_def typed_plain typed_nonreloc)
  then show ?thesis using assms(1-3) 1(2) 2 operandD(3) [OF 2(1)] by (auto simp: typed_def owns_def)
qed

text \<open>The function and its first argument, as \<open>luaK_self\<close> leaves them.\<close>

lemma self_regs:
  assumes t: "typed 0 fs base e" and k: "e_k key = VK" and s: "luaK_self fs e key = Inr (e', key', fs')"
  shows "regs_ok fs' \<and> fs_nactvar fs' \<le> base \<and> fs_freereg fs' = base + 2 \<and> e_k e' = VNONRELOC \<and> e_info e' = base \<and> fs_nactvar fs' = fs_nactvar fs"
proof -
  from s obtain r e1 fs1 fs2 kr k1 fs3 pc fs4 where 1: "luaK_exp2anyreg fs e = Inr (r, e1, fs1)"
      "luaK_reserveregs (freeexp fs1 e1) 2 = Inr fs2" "luaK_exp2RK fs2 key = Inr (kr, k1, fs3)"
      "luaK_codeABC fs3 OP_SELF (fs_freereg (freeexp fs1 e1)) (e_info e1) kr = Inr (pc, fs4)"
      "e' = e1\<lparr>e_info := fs_freereg (freeexp fs1 e1), e_k := VNONRELOC\<rparr>" "fs' = freeexp fs4 k1"
    by (auto simp: luaK_self_def Let_def result_simps)
  have a: "in_any 0 fs1 base e1" "fs_nactvar fs1 = fs_nactvar fs" using exp2anyreg_typed [OF t 1(1)] by simp_all
  have f: "freed (freeexp fs1 e1) base" "fs_nactvar (freeexp fs1 e1) = fs_nactvar fs1"
    using freeexp_freed [of fs1 base e1] a by (simp_all add: in_any_def discharged_def)
  have r: "fs_freereg fs2 = base + 2" "fs_nactvar fs2 = fs_nactvar fs" "regs_ok fs2"
    using reserve_regs [OF 1(2)] f a(2) by (simp_all add: freed_def)
  have "typed 0 fs2 (base + 2) key" using r f k a(2) by (simp add: typed_plain freed_def)
  from exp2RK_typed [OF this 1(3)] have 2: "operand 0 fs3 (base + 2) kr k1" "fs_nactvar fs3 = fs_nactvar fs2" by simp_all
  note D = operandD [OF 2(1)]
  have 4: "regs fs4 = regs fs3" by (rule codeABC_regs(1) [OF 1(4)])
  then have "owns 0 fs4 (base + 2) k1 (fs_freereg fs4)" using D(2,7) owns_keep [of fs4 fs3 k1] by (auto simp: regs_eq)
  from freeexp_owns [OF this D(1)] D 4 have "fs' = fs4\<lparr>fs_freereg := base + 2\<rparr>" using 1(6) by (simp add: regs_eq)
  then show ?thesis using 1(5) f r 2(2) 4 D a(2) by (simp add: freed_def regs_ok_def regs_eq)
qed

section \<open>The parser\<close>

text \<open>
  The registers of the function being compiled before and after a parser. A parser leaves those of
  the functions around as they are.
\<close>

definition fs_of :: "PState \<Rightarrow> FuncState" where "fs_of ps = pf_fs (ps_func ps)"

definition outer :: "PState \<Rightarrow> FuncState list" where "outer ps = map pf_fs (ps_prev ps)"

definition triple :: "(FuncState \<Rightarrow> bool) \<Rightarrow> 'a parse \<Rightarrow> ('a \<Rightarrow> FuncState \<Rightarrow> bool) \<Rightarrow> bool" where
  "triple P m Q \<longleftrightarrow> (\<forall>ps x ps'. m ps = Inr (x, ps') \<longrightarrow> outer ps' = outer ps \<and> (P (fs_of ps) \<longrightarrow> Q x (fs_of ps')))"

abbreviation kept :: "'a parse \<Rightarrow> bool" where "kept m \<equiv> triple (\<lambda>_. False) m (\<lambda>_ _. False)"

text \<open>\<open>quiet m\<close>: the code generator is not called.\<close>

definition quiet :: "'a parse \<Rightarrow> bool" where
  "quiet m \<longleftrightarrow> (\<forall>ps x ps'. m ps = Inr (x, ps') \<longrightarrow> outer ps' = outer ps \<and> fs_of ps' = fs_of ps)"

lemma tripleI:
  "(\<And>ps x ps'. m ps = Inr (x, ps') \<Longrightarrow> outer ps' = outer ps \<and> (P (fs_of ps) \<longrightarrow> Q x (fs_of ps'))) \<Longrightarrow> triple P m Q"
  by (simp add: triple_def)

lemma tripleD: "triple P m Q \<Longrightarrow> m ps = Inr (x, ps') \<Longrightarrow> outer ps' = outer ps \<and> (P (fs_of ps) \<longrightarrow> Q x (fs_of ps'))"
  by (simp add: triple_def)

lemma triple_conseq: "triple P m Q \<Longrightarrow> (\<And>fs. P' fs \<Longrightarrow> P fs) \<Longrightarrow> (\<And>x fs. Q x fs \<Longrightarrow> Q' x fs) \<Longrightarrow> triple P' m Q'"
  by (fastforce simp: triple_def)

lemma triple_kept: "triple P m Q \<Longrightarrow> kept m" by (auto simp: triple_def)

lemma triple_bind: "triple P m R \<Longrightarrow> (\<And>x. triple (R x) (f x) Q) \<Longrightarrow> triple P (pbind m f) Q"
  by (rule tripleI, elim pbindE) (fastforce dest: tripleD)

lemma triple_then: "triple P m R \<Longrightarrow> (\<And>x. triple (R x) m' Q) \<Longrightarrow> triple P (pthen m m') Q"
  unfolding pthen_def by (rule triple_bind)

lemma triple_if: "(b \<Longrightarrow> triple P m Q) \<Longrightarrow> (\<not> b \<Longrightarrow> triple P m' Q) \<Longrightarrow> triple P (if b then m else m') Q" by simp

lemma triple_prod: "(\<And>a b. p = (a, b) \<Longrightarrow> triple P (f a b) Q) \<Longrightarrow> triple P (case p of (a, b) \<Rightarrow> f a b) Q" by (cases p) simp

lemma triple_when: "(b \<Longrightarrow> triple P m Q) \<Longrightarrow> (\<And>fs. \<not> b \<Longrightarrow> P fs \<Longrightarrow> Q () fs) \<Longrightarrow> triple P (pwhen b m) Q"
  by (auto simp: pwhen_def triple_def preturn_def)

lemma triple_return: "(\<And>fs. P fs \<Longrightarrow> Q x fs) \<Longrightarrow> triple P (preturn x) Q" by (simp add: triple_def preturn_def)

lemma triple_pure: "(\<And>fs. P fs \<Longrightarrow> b) \<Longrightarrow> (b \<Longrightarrow> triple P m Q) \<Longrightarrow> kept m \<Longrightarrow> triple P m Q"
  by (auto simp: triple_def)

lemma triple_conj: "kept m \<Longrightarrow> (c \<Longrightarrow> triple P m Q) \<Longrightarrow> triple (\<lambda>fs. c \<and> P fs) m Q"
  by (cases c) (auto simp: triple_def)

lemma triple_exists: "(\<And>y. triple (P y) m Q) \<Longrightarrow> triple (\<lambda>fs. \<exists>y. P y fs) m Q"
  by (auto simp: triple_def)

lemma quietD: "quiet m \<Longrightarrow> m ps = Inr (x, ps') \<Longrightarrow> outer ps' = outer ps \<and> fs_of ps' = fs_of ps" by (simp add: quiet_def)

lemma triple_quiet: "quiet m \<Longrightarrow> triple P m (\<lambda>_. P)" by (simp add: triple_def quiet_def)

lemma quiet_bind: "quiet m \<Longrightarrow> (\<And>x. quiet (f x)) \<Longrightarrow> quiet (pbind m f)"
  unfolding quiet_def by (metis pbindE)

lemma quiet_then: "quiet m \<Longrightarrow> quiet m' \<Longrightarrow> quiet (pthen m m')" by (simp add: pthen_def quiet_bind)
lemma quiet_when: "quiet m \<Longrightarrow> quiet (pwhen b m)" by (simp add: pwhen_def quiet_def preturn_def)
lemma quiet_if: "quiet m \<Longrightarrow> quiet m' \<Longrightarrow> quiet (if b then m else m')" by simp
lemma quiet_return [simp, intro]: "quiet (preturn x)" by (simp add: quiet_def preturn_def)
lemma quiet_reads [simp, intro]: "quiet (reads f)" by (simp add: quiet_def reads_def)

lemma quiet_read_ops [simp, intro]: "quiet (in_fs f)" "quiet (in_func g)" "quiet (in_ls h)" "quiet curtoken"
  by (simp_all add: in_fs_def in_func_def in_ls_def curtoken_def)

lemma quiet_error [simp, intro]: "quiet (LuaParser.syntax_error msg)" "quiet (error_expected t)" "quiet (\<lambda>_. Inl e)"
  by (simp_all add: quiet_def LuaParser.syntax_error_def error_expected_def luaX_syntaxerror_Inl)

lemma quiet_lexes [simp, intro]: "quiet (lexes f)"
  by (auto simp: quiet_def lexes_def result_simps fs_of_def outer_def)

lemma quiet_next [simp, intro]: "quiet p_next" "quiet p_lookahead"
  by (simp_all add: p_next_def p_lookahead_def)

lemma quiet_tokens [simp, intro]: "quiet (testnext c)" "quiet (check_token c)" "quiet (checknext c)" "quiet (check_condition b msg)"
  "quiet token_string" "quiet token_number" "quiet str_checkname" "quiet anchor_token" "quiet (check_match w h l)"
proof -
  show t: "quiet (testnext c)" and k: "quiet (check_token c)" for c
    unfolding testnext_def check_token_def by (intro quiet_bind quiet_if quiet_then quiet_next quiet_return quiet_read_ops quiet_error)+
  show "quiet (checknext c)" unfolding checknext_def by (intro quiet_then k quiet_next)
  show "quiet (check_condition b msg)" unfolding check_condition_def by (intro quiet_if quiet_error quiet_return)
  show s: "quiet token_string" "quiet token_number"
    by (auto simp: quiet_def token_string_def token_number_def split: SemInfo.splits)
  show "quiet str_checkname" unfolding str_checkname_def by (intro quiet_bind quiet_then k s quiet_next quiet_return)
  show "quiet anchor_token" unfolding anchor_token_def
    by (intro quiet_bind quiet_then quiet_when s quiet_lexes quiet_return quiet_read_ops)
  show "quiet (check_match w h l)" unfolding check_match_def
    by (intro quiet_bind quiet_if quiet_return quiet_error t quiet_read_ops)
qed

lemma quiet_func: "(\<And>ls f x f'. g ls f = Inr (x, f') \<Longrightarrow> pf_fs f' = pf_fs f) \<Longrightarrow> quiet (with_func g)"
  by (auto simp: quiet_def with_func_def result_simps fs_of_def outer_def)

lemma quiet_upd [intro]: "(\<And>f. pf_fs (g f) = pf_fs f) \<Longrightarrow> quiet (upd_func g)"
  unfolding upd_func_def by (rule quiet_func) auto

lemma quiet_limit [simp, intro]: "quiet (with_func (\<lambda>ls f. bind_result (luaY_checklimit ls f (v f) l m) (\<lambda>_. Inr ((), f))))"
  by (rule quiet_func) (auto simp: result_simps)

lemma triple_error: "triple P (LuaParser.syntax_error msg) Q"
  by (simp add: triple_def LuaParser.syntax_error_def luaX_syntaxerror_Inl)

text \<open>Calls of the code generator; the lexer plays no role for registers.\<close>

lemma kept_func [simp, intro]: "kept (with_func f)"
  by (auto simp: triple_def with_func_def result_simps outer_def)

lemma kept_upd [simp, intro]: "kept (upd_func f)" "kept (upd_fs g)"
  by (simp_all add: upd_fs_def upd_func_def)

lemma kept_codes [simp, intro]: "kept (codes f)" "kept (codes0 g)" "kept (codes2 h)"
  by (auto simp: triple_def codes0_def codes2_def codes_def result_simps outer_def)

lemma triple_codes:
  assumes "\<And>fs l. P fs \<Longrightarrow> P (fs\<lparr>fs_ls := l\<rparr>)" and "\<And>fs x fs'. P fs \<Longrightarrow> f fs = Inr (x, fs') \<Longrightarrow> Q x fs'"
  shows "triple P (codes f) Q"
  using assms by (fastforce simp: triple_def codes_def result_simps outer_def fs_of_def fstate_def)

lemma triple_codes0:
  assumes "\<And>fs l. P fs \<Longrightarrow> P (fs\<lparr>fs_ls := l\<rparr>)" and "\<And>fs fs'. P fs \<Longrightarrow> f fs = Inr fs' \<Longrightarrow> Q fs'"
  shows "triple P (codes0 f) (\<lambda>_. Q)"
  unfolding codes0_def using assms by (intro triple_codes) (auto simp: result_simps)

lemma triple_codes2:
  assumes "\<And>fs l. P fs \<Longrightarrow> P (fs\<lparr>fs_ls := l\<rparr>)" and "\<And>fs x y fs'. P fs \<Longrightarrow> f fs = Inr (x, y, fs') \<Longrightarrow> Q (x, y) fs'"
  shows "triple P (codes2 f) Q"
  unfolding codes2_def using assms by (intro triple_codes) (auto simp: result_simps)

lemma triple_upd_fs: "(\<And>fs. P fs \<Longrightarrow> Q (g fs)) \<Longrightarrow> triple P (upd_fs g) (\<lambda>_. Q)"
  by (auto simp: triple_def upd_fs_def upd_func_def with_func_def result_simps outer_def fs_of_def)

lemma triple_freereg:
  assumes "\<And>r. triple (\<lambda>fs. P fs \<and> fs_freereg fs = r) (f r) Q"
  shows "triple P (pbind (in_fs fs_freereg) f) Q"
proof (rule tripleI)
  fix ps x ps'
  assume "pbind (in_fs fs_freereg) f ps = Inr (x, ps')"
  then have "f (fs_freereg (fs_of ps)) ps = Inr (x, ps')"
    by (simp add: pbind_def in_fs_def reads_def result_simps fstate_def fs_of_def)
  from tripleD [OF assms this] show "outer ps' = outer ps \<and> (P (fs_of ps) \<longrightarrow> Q x (fs_of ps'))" by simp
qed

text \<open>Loops.\<close>

lemma triple_loop:
  assumes "\<And>s. triple (I s) (bd s) (\<lambda>r fs. case r of Inl s \<Rightarrow> I s fs | Inr x \<Rightarrow> Q x fs)"
  shows "triple (I s) (ploop R bd s) Q"
proof -
  have "triple (I s) (repeat_loop e n bd s) Q" for e n
  proof (induction n arbitrary: s)
    case 0
    then show ?case by (simp add: triple_def)
  next
    case (Suc n)
    have step: "triple (\<lambda>fs. case r of Inl s \<Rightarrow> I s fs | Inr x \<Rightarrow> Q x fs)
        (case r of Inl s \<Rightarrow> repeat_loop e n bd s | Inr x \<Rightarrow> preturn x) Q" for r
      by (cases r) (simp_all add: Suc.IH triple_return)
    show ?case unfolding repeat_loop.simps by (rule triple_bind [OF assms step])
  qed
  then show ?thesis by (simp add: triple_def ploop_def)
qed

subsection \<open>Statements leave the functions around alone\<close>

lemma kept_quiet: "quiet m \<Longrightarrow> kept m" by (rule triple_kept, rule triple_quiet)

lemma kept_error [simp, intro]: "kept (\<lambda>_. Inl e)" by (simp add: triple_def)

lemma kept_bind: "kept m \<Longrightarrow> (\<And>x. kept (f x)) \<Longrightarrow> kept (pbind m f)" by (rule triple_bind)
lemma kept_then: "kept m \<Longrightarrow> kept m' \<Longrightarrow> kept (pthen m m')" by (rule triple_then)
lemma kept_if: "kept m \<Longrightarrow> kept m' \<Longrightarrow> kept (if b then m else m')" by simp
lemma kept_when: "kept m \<Longrightarrow> kept (pwhen b m)" by (simp add: pwhen_def triple_def preturn_def)
lemma kept_prod: "(\<And>a b. kept (f a b)) \<Longrightarrow> kept (case p of (a, b) \<Rightarrow> f a b)" by (cases p) simp
lemma kept_let: "(\<And>x. kept (f x)) \<Longrightarrow> kept (Let x f)" by simp

lemma kept_list: "kept m \<Longrightarrow> (\<And>x xs. kept (f x xs)) \<Longrightarrow> kept (case ys of [] \<Rightarrow> m | x # xs \<Rightarrow> f x xs)" by (cases ys) simp_all

lemma kept_loop: "(\<And>s. kept (bd s)) \<Longrightarrow> kept (ploop R bd s)"
  using triple_loop [of "\<lambda>_ _. False" bd "\<lambda>_ _. False"] by (auto intro: triple_conseq split: sum.splits)

lemmas kepts = kept_bind kept_then kept_if kept_when kept_prod kept_list kept_let kept_loop kept_codes kept_upd kept_error
  quiet_return [THEN kept_quiet] quiet_reads [THEN kept_quiet] quiet_read_ops [THEN kept_quiet] quiet_error [THEN kept_quiet]
  quiet_lexes [THEN kept_quiet] quiet_next [THEN kept_quiet] quiet_tokens [THEN kept_quiet] kept_func

lemma kept_vars: "kept (new_localvar v n)" "kept (new_localvarliteral s n)" "kept (adjustlocalvars n)" "kept (removevars n)"
  "kept (adjust_assign m n e)" "kept (enterblock b)" "kept current_block" "kept leaveblock" "kept breakstat" "kept getlabel"
proof -
  show v: "kept (new_localvar v n)" and "kept (adjustlocalvars n)" and r: "kept (removevars n)" for v n
    by (simp_all add: new_localvar_def adjustlocalvars_def removevars_def)
  show "kept (new_localvarliteral s n)" unfolding new_localvarliteral_def by (intro kepts v)
  show "kept (adjust_assign m n e)" unfolding adjust_assign_def Let_def by (intro kepts)
  show "kept (enterblock b)" by (simp add: enterblock_def)
  show b: "kept current_block" by (auto simp: current_block_def triple_def split: list.splits)
  show "kept leaveblock" unfolding leaveblock_def by (intro kepts b r)
  show "kept breakstat" unfolding breakstat_def by (intro kepts)
  show "kept getlabel" unfolding getlabel_def by (intro kepts)
qed

subsection \<open>Expressions\<close>

text \<open>The states between the steps: no temporaries from \<open>b\<close> on, those of an expression, or any number.\<close>

definition free_at :: "int \<Rightarrow> int \<Rightarrow> FuncState \<Rightarrow> bool" where
  "free_at na b fs \<longleftrightarrow> freed fs b \<and> fs_nactvar fs = na"

definition holds :: "int \<Rightarrow> int \<Rightarrow> expdesc \<Rightarrow> FuncState \<Rightarrow> bool" where
  "holds na b v fs \<longleftrightarrow> typed 0 fs b v \<and> fs_nactvar fs = na"

definition above_at :: "int \<Rightarrow> int \<Rightarrow> FuncState \<Rightarrow> bool" where
  "above_at na b fs \<longleftrightarrow> regs_ok fs \<and> fs_nactvar fs = na \<and> na \<le> b \<and> b \<le> fs_freereg fs"

definition next_at :: "int \<Rightarrow> int \<Rightarrow> expdesc \<Rightarrow> FuncState \<Rightarrow> bool" where
  "next_at na b v fs \<longleftrightarrow> in_next 0 fs b v \<and> fs_nactvar fs = na"

text \<open>The register of a value below others.\<close>

definition reg_at :: "int \<Rightarrow> int \<Rightarrow> expdesc \<Rightarrow> int \<Rightarrow> bool" where
  "reg_at na b v mid \<longleftrightarrow> na \<le> b \<and> e_k v = VNONRELOC \<and> in_reg 0 na b (e_info v) mid"

lemma states_ls [simp]:
  "free_at na b (fs\<lparr>fs_ls := l\<rparr>) = free_at na b fs" "holds na b v (fs\<lparr>fs_ls := l\<rparr>) = holds na b v fs"
  "above_at na b (fs\<lparr>fs_ls := l\<rparr>) = above_at na b fs" "next_at na b v (fs\<lparr>fs_ls := l\<rparr>) = next_at na b v fs"
proof -
  have "regs_ok (fs\<lparr>fs_ls := l\<rparr>) = regs_ok fs" by (simp add: regs_ok_def)
  moreover have "owns 0 (fs\<lparr>fs_ls := l\<rparr>) b v hi = owns 0 fs b v hi" for hi by (rule owns_keep) simp_all
  ultimately show "free_at na b (fs\<lparr>fs_ls := l\<rparr>) = free_at na b fs" "holds na b v (fs\<lparr>fs_ls := l\<rparr>) = holds na b v fs"
    "above_at na b (fs\<lparr>fs_ls := l\<rparr>) = above_at na b fs" "next_at na b v (fs\<lparr>fs_ls := l\<rparr>) = next_at na b v fs"
    by (simp_all add: free_at_def holds_def above_at_def next_at_def freed_def in_next_def typed_def)
qed

lemma states_keep:
  assumes "regs fs' = regs fs"
  shows "free_at na b fs \<Longrightarrow> free_at na b fs'" "above_at na b fs \<Longrightarrow> above_at na b fs'"
  using assms freed_keep [of fs b fs'] regs_okI [of fs' fs] by (auto simp: free_at_def above_at_def regs_eq)

lemma free_above: "free_at na b fs \<Longrightarrow> h \<le> b \<Longrightarrow> na \<le> h \<Longrightarrow> above_at na h fs"
  by (auto simp: free_at_def above_at_def freed_def)

lemma above_free: "above_at na h fs \<Longrightarrow> h \<le> fs_freereg fs \<and> na \<le> h \<and> free_at na (fs_freereg fs) fs"
  by (auto simp: free_at_def above_at_def freed_def)

lemma holds_above: "holds na b v fs \<Longrightarrow> h \<le> b \<Longrightarrow> na \<le> h \<Longrightarrow> above_at na h fs"
  using typed_above [of 0 fs b v] by (auto simp: holds_def above_at_def)

lemma next_holds: "next_at na b v fs \<Longrightarrow> holds na b v fs"
  by (simp add: next_at_def holds_def in_next_typed)

lemma next_free: "next_at na b v fs \<Longrightarrow> free_at na (b + 1) fs \<and> e_info v = b \<and> e_k v = VNONRELOC \<and> na \<le> b"
  by (auto simp: next_at_def free_at_def in_next_def freed_def)

lemma holds_plain: "e_k v \<notin> {VVOID, VLOCAL, VINDEXED, VCALL, VNONRELOC} \<Longrightarrow> holds na b v fs \<longleftrightarrow> free_at na b fs"
  by (simp add: holds_def free_at_def typed_freed)

lemma any_reg: "in_any 0 fs b v \<Longrightarrow> fs_nactvar fs = na \<Longrightarrow> reg_at na b v (fs_freereg fs) \<and> free_at na (fs_freereg fs) fs"
  using typed_above [of 0 fs b v] by (auto simp: in_any_def typed_nonreloc reg_at_def free_at_def freed_def)

lemma reg_owns: "reg_at na b v mid \<Longrightarrow> fs_nactvar fs = na \<Longrightarrow> owns 0 fs b v mid"
  by (simp add: reg_at_def owns_def)

lemma triple_frame: "triple P m Q \<Longrightarrow> triple (\<lambda>fs. c \<and> P fs) m (\<lambda>x fs. c \<and> Q x fs)"
  by (auto simp: triple_def)

lemma codes_free:
  "(\<And>fs x fs'. f fs = Inr (x, fs') \<Longrightarrow> regs fs' = regs fs) \<Longrightarrow> triple (free_at na b) (codes f) (\<lambda>_. free_at na b)"
  by (rule triple_codes) (auto intro: states_keep)

lemma codes_above:
  "(\<And>fs x fs'. f fs = Inr (x, fs') \<Longrightarrow> regs fs' = regs fs) \<Longrightarrow> triple (above_at na b) (codes f) (\<lambda>_. above_at na b)"
  by (rule triple_codes) (auto intro: states_keep)

lemma codes0_above:
  "(\<And>fs fs'. f fs = Inr fs' \<Longrightarrow> regs fs' = regs fs) \<Longrightarrow> triple (above_at na b) (codes0 f) (\<lambda>_. above_at na b)"
  by (rule triple_codes0) (auto intro: states_keep)

lemma codes0_free:
  "(\<And>fs fs'. f fs = Inr fs' \<Longrightarrow> regs fs' = regs fs) \<Longrightarrow> triple (free_at na b) (codes0 f) (\<lambda>_. free_at na b)"
  by (rule triple_codes0) (auto intro: states_keep)

lemma exp2nextreg_holds: "triple (holds na b e) (exp2nextreg e) (next_at na b)"
  unfolding exp2nextreg_def
proof (rule triple_codes)
  fix fs x fs'
  assume "holds na b e fs" "luaK_exp2nextreg fs e = Inr (x, fs')"
  then show "next_at na b x fs'" using exp2nextreg_typed [of 0 fs b e x fs'] by (simp add: holds_def next_at_def)
qed simp

lemma exp2anyreg_holds:
  "triple (holds na b e) (exp2anyreg e) (\<lambda>x fs. \<exists>mid. reg_at na b (snd x) mid \<and> free_at na mid fs)"
  unfolding exp2anyreg_def
proof (rule triple_codes2)
  fix fs x y fs'
  assume "holds na b e fs" "luaK_exp2anyreg fs e = Inr (x, y, fs')"
  then show "\<exists>mid. reg_at na b (snd (x, y)) mid \<and> free_at na mid fs'"
    using exp2anyreg_typed [of 0 fs b e x y fs'] any_reg [of fs' b y na] by (auto simp: holds_def)
qed simp

lemma exp2val_holds: "triple (holds na b e) (codes (\<lambda>fs. luaK_exp2val fs e)) (holds na b)"
proof (rule triple_codes)
  fix fs x fs'
  assume "holds na b e fs" "luaK_exp2val fs e = Inr (x, fs')"
  then show "holds na b x fs'" using exp2val_typed [of 0 fs b e x fs'] by (simp add: holds_def)
qed simp

lemma dischargevars_holds: "triple (holds na b e) (codes (\<lambda>fs. luaK_dischargevars fs e)) (holds na b)"
proof (rule triple_codes)
  fix fs x fs'
  assume "holds na b e fs" "luaK_dischargevars fs e = Inr (x, fs')"
  then show "holds na b x fs'" using dischargevars_typed [of 0 fs b e x fs'] by (simp add: holds_def)
qed simp

lemma exp2RK_above:
  assumes "h \<le> b" and "na \<le> h"
  shows "triple (holds na b e) (codes2 (\<lambda>fs. luaK_exp2RK fs e)) (\<lambda>_. above_at na h)"
proof (rule triple_codes2)
  fix fs x y fs'
  assume "holds na b e fs" "luaK_exp2RK fs e = Inr (x, y, fs')"
  from exp2RK_typed [OF _ this(2), of 0 b] this(1) have "operand 0 fs' b x y" "fs_nactvar fs' = na" by (auto simp: holds_def)
  then show "above_at na h fs'" using operandD [of 0 fs' b x y] assms by (simp add: above_at_def)
qed simp

lemma codestring_free: "triple (free_at na b) (codestring s) (\<lambda>k fs. free_at na b fs \<and> e_k k = VK)"
  unfolding codestring_def
  by (rule triple_bind [OF codes_free [OF constants_regs(1)]]) (auto intro: triple_return simp: init_exp_def)

lemma checkname_free: "triple (free_at na b) checkname (\<lambda>k fs. free_at na b fs \<and> e_k k = VK)"
  unfolding checkname_def by (rule triple_bind [OF triple_quiet codestring_free]) simp

text \<open>A table in a register and its key.\<close>

lemma indexed_holds: "triple (\<lambda>fs. reg_at na b t mid \<and> holds na mid k fs) (indexed t k) (holds na b)"
  unfolding indexed_def
proof (rule triple_bind)
  show "triple (\<lambda>fs. reg_at na b t mid \<and> holds na mid k fs) (codes2 (\<lambda>fs. luaK_indexed fs t k)) (\<lambda>x. holds na b (fst x))"
  proof (rule triple_codes2)
    fix fs x y fs'
    assume 1: "reg_at na b t mid \<and> holds na mid k fs" and i: "luaK_indexed fs t k = Inr (x, y, fs')"
    then have "owns 0 fs b t mid" by (auto simp: holds_def intro: reg_owns)
    from indexed_typed [OF _ _ this _ i] 1 show "holds na b (fst (x, y)) fs'" by (simp add: holds_def reg_at_def)
  qed simp
qed (auto intro: triple_return)

lemma indexed_reg: "reg_at na b t mid \<Longrightarrow> triple (holds na mid k) (indexed t k) (holds na b)"
  by (rule triple_conseq [OF indexed_holds]) auto

lemma field_holds: "triple (holds na b v) (field v) (holds na b)"
  unfolding field_def
proof (rule triple_bind [OF exp2anyreg_holds], rule triple_prod, simp only: snd_conv, rule triple_exists)
  fix x r v' mid
  show "triple (\<lambda>fs. reg_at na b v' mid \<and> free_at na mid fs) (pthen p_next (pbind checkname (indexed v'))) (holds na b)"
    by (rule triple_then [OF triple_quiet], simp, rule triple_bind [OF triple_frame [OF checkname_free]],
        rule triple_conseq [OF indexed_holds]) (auto simp: holds_plain)
qed

text \<open>What the parsers of the recursion do.\<close>

definition good :: "parsers \<Rightarrow> bool" where
  "good R \<longleftrightarrow> (\<forall>l na b. na \<le> b \<longrightarrow> triple (free_at na b) (r_subexpr R l) (\<lambda>x. holds na b (snd x))) \<and> kept (r_chunk R)"

lemma expr_holds: "good R \<Longrightarrow> na \<le> b \<Longrightarrow> triple (free_at na b) (expr R) (holds na b)"
  unfolding expr_def good_def by (rule triple_bind, blast, rule triple_prod, rule triple_return) simp

lemma yindex_holds:
  assumes "good R" and "na \<le> b"
  shows "triple (free_at na b) (yindex R) (holds na b)"
  unfolding yindex_def
  by (rule triple_then [OF triple_quiet], simp, rule triple_bind [OF expr_holds [OF assms]], rule triple_bind [OF exp2val_holds],
      rule triple_then [OF triple_quiet], simp, rule triple_return)

text \<open>What only has to keep the functions around.\<close>

lemma chunk_kept: "good R \<Longrightarrow> kept (r_chunk R)" by (simp add: good_def)

lemma subexpr_kept: "good R \<Longrightarrow> kept (r_subexpr R l)"
  unfolding good_def using triple_kept [of "free_at 0 0" "r_subexpr R l"] by blast

lemma exp_ops_kept: "kept (exp2nextreg e)" "kept (exp2anyreg e)" "kept (indexed t k)" "kept (codestring s)" "kept checkname" "kept (field v)"
  by (rule triple_kept [OF exp2nextreg_holds] triple_kept [OF exp2anyreg_holds] triple_kept [OF indexed_holds]
      triple_kept [OF codestring_free] triple_kept [OF checkname_free] triple_kept [OF field_holds])+

lemma expr_kept: "good R \<Longrightarrow> kept (expr R)" "good R \<Longrightarrow> kept (yindex R)"
  by (rule triple_kept [OF expr_holds [of _ 0 0]] triple_kept [OF yindex_holds [of _ 0 0]]; simp)+

lemmas kept_exprs = kepts exp_ops_kept expr_kept chunk_kept subexpr_kept

lemma triple_free_freereg:
  assumes "triple (free_at na h) (f h) Q" and "\<And>r. kept (f r)"
  shows "triple (free_at na h) (pbind (in_fs fs_freereg) f) Q"
proof (rule triple_freereg)
  fix r
  show "triple (\<lambda>fs. free_at na h fs \<and> fs_freereg fs = r) (f r) Q"
  proof (cases "r = h")
    case True
    then show ?thesis using assms(1) by (auto simp: triple_def)
  next
    case False
    then show ?thesis using assms(2) [of r] by (auto simp: triple_def free_at_def freed_def)
  qed
qed

subsection \<open>Constructors\<close>

lemma triple_above_free:
  assumes "\<And>m. h \<le> m \<Longrightarrow> triple (free_at na m) f Q" and "kept f"
  shows "triple (above_at na h) f Q"
proof -
  have "triple (\<lambda>fs. \<exists>m. h \<le> m \<and> free_at na m fs) f Q"
    by (rule triple_exists) (use assms in \<open>auto simp: triple_def\<close>)
  then show ?thesis by (rule triple_conseq) (auto dest: above_free)
qed

lemma set_free: "triple (above_at na h) (upd_fs (\<lambda>fs. fs\<lparr>fs_freereg := h\<rparr>)) (\<lambda>_. free_at na h)"
  by (rule triple_upd_fs) (auto simp: above_at_def free_at_def freed_def regs_ok_def)

lemma drop_codeABC_above: "triple (above_at na h) (codes0 (\<lambda>fs. drop_pc (luaK_codeABC fs oper a b c))) (\<lambda>_. above_at na h)"
  by (rule codes0_above) (auto simp: drop_pc_def result_simps dest: regs_keep)

lemma recfield_free:
  assumes R: "good R" and na: "na \<le> h"
  shows "triple (free_at na h) (recfield R cc) (\<lambda>cc' fs. free_at na h fs \<and> cc' = cc\<lparr>cc_nh := cc_nh cc + 1\<rparr>)"
proof -
  have k: "triple (free_at na h) (if t = TK_NAME then pthen (with_func (\<lambda>ls f.
        bind_result (luaY_checklimit ls f (cc_nh cc) MAX_INT ''items in a constructor'') (\<lambda>_. Inr ((), f)))) checkname else yindex R)
      (holds na h)" for t
    by (intro triple_if yindex_holds [OF R na] triple_then [OF triple_quiet [OF quiet_limit]])
      (rule triple_conseq [OF checkname_free], auto simp: holds_plain)
  have v: "triple (above_at na h) (expr R) (\<lambda>v fs. \<exists>m \<ge> h. holds na m v fs)"
    by (rule triple_above_free [OF _ expr_kept(1) [OF R]], rule triple_conseq [OF expr_holds [OF R]]) (use na in auto)
  have rk: "triple (\<lambda>fs. \<exists>m \<ge> h. holds na m v fs) (codes2 (\<lambda>fs. luaK_exp2RK fs v)) (\<lambda>_. above_at na h)" for v
    by (intro triple_exists triple_conj kept_codes exp2RK_above na)
  show ?thesis
    unfolding recfield_def
    by (rule triple_free_freereg, rule triple_bind [OF triple_quiet], simp, rule triple_bind [OF k],
        rule triple_then [OF triple_quiet], simp, rule triple_bind [OF exp2RK_above [OF order_refl na]], rule triple_prod,
        rule triple_bind [OF v], rule triple_bind [OF rk], rule triple_prod, rule triple_then [OF drop_codeABC_above],
        rule triple_then [OF set_free], rule triple_return, simp) (intro kept_exprs R)
qed

lemma setlist_free:
  assumes "na \<le> b"
  shows "triple (above_at na (b + 1)) (codes0 (\<lambda>fs. luaK_setlist fs b n k)) (\<lambda>_. free_at na (b + 1))"
proof (rule triple_codes0)
  fix fs fs'
  assume p: "above_at na (b + 1) fs" and "luaK_setlist fs b n k = Inr fs'"
  then obtain fs1 where 1: "regs fs1 = regs fs" "fs' = fs1\<lparr>fs_freereg := b + 1\<rparr>"
    by (auto simp: luaK_setlist_def Let_def result_simps drop_pc_def split: if_splits dest!: regs_keep)
  then show "free_at na (b + 1) fs'" using p assms by (auto simp: above_at_def free_at_def freed_def regs_ok_def regs_eq)
qed simp

text \<open>The items that wait for the next \<open>OP_SETLIST\<close> are in registers, the last one as an expression.\<close>

definition items :: "int \<Rightarrow> int \<Rightarrow> ConsControl \<Rightarrow> FuncState \<Rightarrow> bool" where
  "items na b cc fs \<longleftrightarrow> e_info (cc_t cc) = b \<and> 0 \<le> cc_tostore cc \<and>
     (if e_k (cc_v cc) = VVOID then free_at na (b + 1 + cc_tostore cc) fs
      else 1 \<le> cc_tostore cc \<and> holds na (b + cc_tostore cc) (cc_v cc) fs)"

definition stored :: "int \<Rightarrow> int \<Rightarrow> ConsControl \<Rightarrow> FuncState \<Rightarrow> bool" where
  "stored na b cc fs \<longleftrightarrow> e_info (cc_t cc) = b \<and> 0 \<le> cc_tostore cc \<and> e_k (cc_v cc) = VVOID \<and> free_at na (b + 1 + cc_tostore cc) fs"

lemma closelistfield_stored:
  assumes na: "na \<le> b"
  shows "triple (items na b cc) (closelistfield cc) (stored na b)"
proof (cases "e_k (cc_v cc) = VVOID")
  case True
  then show ?thesis by (auto simp: closelistfield_def items_def stored_def triple_def preturn_def)
next
  case False
  have s: "triple (\<lambda>fs. e_info (cc_t cc) = b \<and> 1 \<le> cc_tostore cc \<and> next_at na (b + cc_tostore cc) v fs)
      (let cc = cc\<lparr>cc_v := v\<lparr>e_k := VVOID\<rparr>\<rparr>
       in if cc_tostore cc = LFIELDS_PER_FLUSH then
            pthen (codes0 (\<lambda>fs. luaK_setlist fs (e_info (cc_t cc)) (cc_na cc) (cc_tostore cc))) (preturn (cc\<lparr>cc_tostore := 0\<rparr>))
          else preturn cc) (stored na b)" for v
    unfolding Let_def
  proof (rule triple_if)
    show "triple (\<lambda>fs. e_info (cc_t cc) = b \<and> 1 \<le> cc_tostore cc \<and> next_at na (b + cc_tostore cc) v fs)
        (pthen (codes0 (\<lambda>fs. luaK_setlist fs (e_info (cc_t (cc\<lparr>cc_v := v\<lparr>e_k := VVOID\<rparr>\<rparr>)))
            (cc_na (cc\<lparr>cc_v := v\<lparr>e_k := VVOID\<rparr>\<rparr>)) (cc_tostore (cc\<lparr>cc_v := v\<lparr>e_k := VVOID\<rparr>\<rparr>))))
          (preturn (cc\<lparr>cc_v := v\<lparr>e_k := VVOID\<rparr>, cc_tostore := 0\<rparr>))) (stored na b)"
    proof (rule triple_conseq, rule triple_conj)
      assume True: "e_info (cc_t cc) = b \<and> 1 \<le> cc_tostore cc"
      have "triple (next_at na (b + cc_tostore cc) v) (codes0 (\<lambda>fs. luaK_setlist fs b (cc_na cc) (cc_tostore cc))) (\<lambda>_. free_at na (b + 1))"
        by (rule triple_conseq [OF setlist_free [OF na]]) (use True na in \<open>auto dest!: next_free intro: free_above\<close>)
      then show "triple (next_at na (b + cc_tostore cc) v)
        (pthen (codes0 (\<lambda>fs. luaK_setlist fs (e_info (cc_t (cc\<lparr>cc_v := v\<lparr>e_k := VVOID\<rparr>\<rparr>)))
            (cc_na (cc\<lparr>cc_v := v\<lparr>e_k := VVOID\<rparr>\<rparr>)) (cc_tostore (cc\<lparr>cc_v := v\<lparr>e_k := VVOID\<rparr>\<rparr>))))
          (preturn (cc\<lparr>cc_v := v\<lparr>e_k := VVOID\<rparr>, cc_tostore := 0\<rparr>))) (stored na b)"
        using True by (simp, intro triple_then) (auto simp: stored_def intro: triple_return)
    qed (auto intro: kept_then kept_quiet)
  qed (rule triple_return, auto simp: stored_def dest!: next_free, simp add: algebra_simps)
  have "triple (\<lambda>fs. (e_info (cc_t cc) = b \<and> 1 \<le> cc_tostore cc) \<and> holds na (b + cc_tostore cc) (cc_v cc) fs) (closelistfield cc) (stored na b)"
    by (subst closelistfield_def, subst if_not_P [OF False], rule triple_bind [OF triple_frame [OF exp2nextreg_holds]],
        rule triple_conseq [OF s]) auto
  then show ?thesis by (rule triple_conseq) (use False in \<open>auto simp: items_def\<close>)
qed

lemma triple_next:
  "kept m \<Longrightarrow> (e_k v = VNONRELOC \<and> e_info v = b \<Longrightarrow> triple (free_at na (b + 1)) m Q) \<Longrightarrow> triple (next_at na b v) m Q"
  by (rule triple_conseq [OF triple_conj [of m "e_k v = VNONRELOC \<and> e_info v = b"]]) (auto dest: next_free)

lemma setreturns_above:
  assumes "na \<le> m"
  shows "triple (holds na m e) (codes0 (\<lambda>fs. luaK_setreturns fs e n)) (\<lambda>_. above_at na m)"
proof (rule triple_codes0)
  fix fs fs'
  assume h: "holds na m e fs" and "luaK_setreturns fs e n = Inr fs'"
  then obtain fs1 where "regs fs1 = regs fs" "fs' = fs1 \<or> luaK_reserveregs fs1 1 = Inr fs'"
  proof (cases "e_k e = VVARARG")
    case True
    then obtain i1 fs1 i2 fs2 where "setcode fs e i1 = Inr fs1" "setcode fs1 e i2 = Inr fs2" "luaK_reserveregs fs2 1 = Inr fs'"
      using \<open>luaK_setreturns fs e n = Inr fs'\<close> by (auto simp: luaK_setreturns_def result_simps)
    then show ?thesis using that [of fs2] by (auto dest!: regs_keep)
  qed (use that [of fs'] in \<open>auto simp: luaK_setreturns_def result_simps split: if_splits dest: regs_keep\<close>)
  moreover have "above_at na m fs" by (rule holds_above [OF h order_refl assms])
  ultimately show "above_at na m fs'"
    using states_keep(2) [of fs1 fs na m] reserve_regs [of fs1 1 fs'] by (auto simp: above_at_def)
qed simp

lemma lastlistfield_free:
  assumes na: "na \<le> b"
  shows "triple (items na b cc) (lastlistfield cc) (\<lambda>_. free_at na (b + 1))"
proof -
  have 1: "above_at na (b + 1) fs" if "items na b cc fs" "e_k (cc_v cc) = VVOID" for fs
    using that na by (auto simp: items_def intro: free_above)
  have 2: "triple (items na b cc) (codes0 (\<lambda>fs. luaK_setreturns fs (cc_v cc) n)) (\<lambda>_ fs. e_info (cc_t cc) = b \<and> above_at na (b + 1) fs)"
    if "e_k (cc_v cc) \<noteq> VVOID" for n
  proof (rule triple_conseq, rule triple_conj)
    show "triple (holds na (b + cc_tostore cc) (cc_v cc)) (codes0 (\<lambda>fs. luaK_setreturns fs (cc_v cc) n))
        (\<lambda>_ fs. e_info (cc_t cc) = b \<and> above_at na (b + 1) fs)" if "e_info (cc_t cc) = b \<and> 1 \<le> cc_tostore cc"
      by (rule triple_conseq [OF setreturns_above]) (use that na in \<open>auto simp: above_at_def\<close>)
  qed (use that in \<open>auto simp: items_def\<close>)
  have item: "triple (\<lambda>fs. (e_info (cc_t cc) = b \<and> 1 \<le> cc_tostore cc) \<and> holds na (b + cc_tostore cc) (cc_v cc) fs)
      (exp2nextreg (cc_v cc)) (\<lambda>_ fs. e_info (cc_t cc) = b \<and> above_at na (b + 1) fs)"
    by (rule triple_conj, rule exp_ops_kept, rule triple_conseq [OF exp2nextreg_holds])
      (use na in \<open>auto dest!: next_free intro: free_above\<close>)
  have 3: "triple (items na b cc) (if e_k (cc_v cc) \<noteq> VVOID then exp2nextreg (cc_v cc) else preturn (cc_v cc))
      (\<lambda>_ fs. e_info (cc_t cc) = b \<and> above_at na (b + 1) fs)"
  proof (rule triple_if)
    assume "e_k (cc_v cc) \<noteq> VVOID"
    then show "triple (items na b cc) (exp2nextreg (cc_v cc)) (\<lambda>_ fs. e_info (cc_t cc) = b \<and> above_at na (b + 1) fs)"
      by (intro triple_conseq [OF item]) (auto simp: items_def)
  qed (rule triple_return, use 1 in \<open>auto simp: items_def\<close>)
  have l: "triple (\<lambda>fs. e_info (cc_t cc) = b \<and> above_at na (b + 1) fs)
      (pthen (codes0 (\<lambda>fs. luaK_setlist fs (e_info (cc_t cc)) n k)) (preturn x)) (\<lambda>_. free_at na (b + 1))" for n k and x :: ConsControl
    by (rule triple_conj, intro kept_then kept_codes kept_quiet quiet_return, simp)
      (rule triple_then [OF setlist_free [OF na]], rule triple_return)
  show ?thesis
    unfolding lastlistfield_def
  proof (intro triple_if)
    assume "cc_tostore cc = 0"
    then show "triple (items na b cc) (preturn cc) (\<lambda>_. free_at na (b + 1))"
      by (intro triple_return) (auto simp: items_def split: if_splits)
  next
    assume "hasmultret (e_k (cc_v cc))"
    then show "triple (items na b cc) (pthen (codes0 (\<lambda>fs. luaK_setreturns fs (cc_v cc) LUA_MULTRET))
        (pthen (codes0 (\<lambda>fs. luaK_setlist fs (e_info (cc_t cc)) (cc_na cc) LUA_MULTRET)) (preturn (cc\<lparr>cc_na := cc_na cc - 1\<rparr>))))
        (\<lambda>_. free_at na (b + 1))"
      by (intro triple_then [OF 2 l]) (auto simp: hasmultret_def)
  qed (rule triple_bind [OF 3 l])
qed

lemma listfield_items:
  assumes R: "good R" and na: "na \<le> b"
  shows "triple (stored na b cc) (listfield R cc) (items na b)"
proof -
  have "triple (\<lambda>fs. (e_info (cc_t cc) = b \<and> 0 \<le> cc_tostore cc) \<and> free_at na (b + 1 + cc_tostore cc) fs) (listfield R cc) (items na b)"
  proof (rule triple_conj)
    assume c: "e_info (cc_t cc) = b \<and> 0 \<le> cc_tostore cc"
    then have l: "na \<le> b + 1 + cc_tostore cc" using na by simp
    have i: "items na b (cc\<lparr>cc_v := v, cc_na := cc_na cc + 1, cc_tostore := cc_tostore cc + 1\<rparr>) fs"
      if "holds na (b + 1 + cc_tostore cc) v fs" for v fs
    proof -
      have "e_k v \<noteq> VVOID" using that typed_not_void by (auto simp: holds_def)
      moreover have "holds na (b + (cc_tostore cc + 1)) v fs" using that by (simp add: ac_simps)
      ultimately show ?thesis using c by (simp add: items_def)
    qed
    show "triple (free_at na (b + 1 + cc_tostore cc)) (listfield R cc) (items na b)"
      unfolding listfield_def
      by (rule triple_bind [OF expr_holds [OF R l]], rule triple_then [OF triple_quiet [OF quiet_limit]], rule triple_return, rule i)
  qed (auto simp: listfield_def intro!: kept_exprs quiet_limit [THEN kept_quiet] R)
  then show ?thesis by (rule triple_conseq) (auto simp: stored_def)
qed

lemma stored_items: "stored na b cc fs \<Longrightarrow> items na b cc fs" by (simp add: stored_def items_def)

lemma recfield_items:
  assumes R: "good R" and na: "na \<le> b"
  shows "triple (stored na b cc) (recfield R cc) (items na b)"
proof -
  have "triple (\<lambda>fs. (e_info (cc_t cc) = b \<and> 0 \<le> cc_tostore cc \<and> e_k (cc_v cc) = VVOID) \<and> free_at na (b + 1 + cc_tostore cc) fs)
      (recfield R cc) (items na b)"
  proof (rule triple_conj)
    assume c: "e_info (cc_t cc) = b \<and> 0 \<le> cc_tostore cc \<and> e_k (cc_v cc) = VVOID"
    then have l: "na \<le> b + 1 + cc_tostore cc" using na by simp
    show "triple (free_at na (b + 1 + cc_tostore cc)) (recfield R cc) (items na b)"
      by (rule triple_conseq [OF recfield_free [OF R l]]) (use c in \<open>auto simp: items_def\<close>)
  qed (rule triple_kept [OF recfield_free [OF R order_refl]])
  then show ?thesis by (rule triple_conseq) (auto simp: stored_def)
qed

lemma constructor_item_items:
  assumes R: "good R" and na: "na \<le> b"
  shows "triple (items na b cc) (constructor_item R cc) (\<lambda>r fs. case r of Inl cc \<Rightarrow> items na b cc fs | Inr cc \<Rightarrow> items na b cc fs)"
proof -
  have p: "triple (stored na b cc) (pthen p_lookahead (pbind (in_ls (\<lambda>ls. token (lookahead ls))) (\<lambda>t.
      if t \<noteq> tk CHR ''='' then listfield R cc else recfield R cc))) (items na b)" for cc
    by (rule triple_then [OF triple_quiet], simp, rule triple_bind [OF triple_quiet], simp,
        intro triple_if listfield_items recfield_items assms)
  show ?thesis
    unfolding constructor_item_def
    by (rule triple_bind [OF triple_quiet], simp, rule triple_if, rule triple_return, simp,
        rule triple_bind [OF closelistfield_stored [OF na]], rule triple_bind [OF triple_quiet], simp, rule triple_bind,
        (rule triple_if, rule p, rule triple_if, rule recfield_items [OF assms], rule listfield_items [OF assms]),
        rule triple_bind [OF triple_quiet], simp, rule triple_bind [OF triple_quiet], intro quiet_if quiet_return quiet_tokens,
        rule triple_return, simp)
qed

lemma constructor_holds:
  assumes R: "good R" and na: "na \<le> b"
  shows "triple (free_at na b) (constructor R) (holds na b)"
proof -
  have c: "triple (free_at na b) (codes (\<lambda>fs. luaK_codeABC fs OP_NEWTABLE 0 0 0)) (\<lambda>_. free_at na b)"
    by (rule codes_free) (rule regs_keep)
  have n: "triple (free_at na b) (exp2nextreg (init_exp VRELOCABLE pc)) (next_at na b)" for pc
    by (rule triple_conseq [OF exp2nextreg_holds]) (simp_all add: holds_plain init_exp_def)
  have s: "triple (free_at na (b + 1)) (codes0 (\<lambda>fs. bind_result (code_get fs pc) (\<lambda>i. bind_result (code_put fs pc (f i))
      (\<lambda>fs. bind_result (code_get fs pc) (\<lambda>i. code_put fs pc (g i)))))) (\<lambda>_. free_at na (b + 1))" for pc f g
    by (rule codes0_free) (auto simp: result_simps dest!: regs_keep)
  have i: "triple (free_at na (b + 1)) (ploop R (constructor_item R) \<lparr>cc_v = init_exp VVOID 0, cc_t = t, cc_nh = 0, cc_na = 0, cc_tostore = 0\<rparr>)
      (items na b)" if "e_info t = b" for t
    by (rule triple_conseq [OF triple_loop [where I = "items na b", OF constructor_item_items [OF assms]]])
      (use that in \<open>simp_all add: items_def init_exp_def\<close>)
  show ?thesis
    unfolding constructor_def
    by (rule triple_bind [OF triple_quiet], simp, rule triple_bind [OF c], rule triple_bind [OF n], rule triple_next,
        intro kept_exprs triple_kept [OF constructor_item_items [OF assms]] triple_kept [OF lastlistfield_free [OF na]],
        rule triple_then [OF triple_quiet], simp, rule triple_bind [OF i], simp,
        rule triple_then [OF triple_quiet], simp, rule triple_bind [OF lastlistfield_free [OF na]],
        rule triple_then [OF s], rule triple_return)
      (use na in \<open>auto simp: free_at_def freed_def holds_def typed_nonreloc in_reg_def\<close>)
qed

subsection \<open>Calls\<close>

lemma explist1_holds:
  assumes R: "good R" and na: "na \<le> b"
  shows "triple (free_at na b) (explist1 R) (\<lambda>x fs. \<exists>m \<ge> b. holds na m (snd x) fs)"
proof -
  have n: "triple (\<lambda>fs. \<exists>m \<ge> b. holds na m v fs) (exp2nextreg v) (\<lambda>_. above_at na b)" for v
    by (intro triple_exists triple_conj exp_ops_kept, rule triple_conseq [OF exp2nextreg_holds])
      (use na in \<open>auto dest!: next_free intro: free_above\<close>)
  have v: "triple (above_at na b) (expr R) (\<lambda>v fs. \<exists>m \<ge> b. holds na m v fs)"
    by (rule triple_above_free [OF _ expr_kept(1) [OF R]], rule triple_conseq [OF expr_holds [OF R]]) (use na in auto)
  show ?thesis
    unfolding explist1_def
    by (rule triple_bind [OF expr_holds [OF R na]], rule triple_conseq [OF triple_loop [where I = "\<lambda>x fs. \<exists>m \<ge> b. holds na m (snd x) fs"]],
        rule triple_prod, rule triple_bind [OF triple_quiet], simp, rule triple_if, simp only: snd_conv, rule triple_bind [OF n],
        rule triple_bind [OF v], rule triple_return, simp, rule triple_return) auto
qed

text \<open>The arguments are in registers above the function, the last one possibly as an expression.\<close>

definition args_at :: "int \<Rightarrow> int \<Rightarrow> expdesc \<Rightarrow> FuncState \<Rightarrow> bool" where
  "args_at na h e fs \<longleftrightarrow> above_at na h fs \<and> (e_k e = VVOID \<or> hasmultret (e_k e) \<or> (\<exists>m \<ge> h. holds na m e fs))"

lemma setreturns_args:
  assumes "na \<le> h"
  shows "triple (\<lambda>fs. \<exists>m \<ge> h. holds na m e fs) (codes0 (\<lambda>fs. luaK_setreturns fs e n)) (\<lambda>_. args_at na h e)"
proof (cases "hasmultret (e_k e)")
  case True
  have "triple (\<lambda>fs. \<exists>m \<ge> h. holds na m e fs) (codes0 (\<lambda>fs. luaK_setreturns fs e n)) (\<lambda>_. above_at na h)"
    by (intro triple_exists triple_conj kept_codes, rule triple_conseq [OF setreturns_above]) (use assms in \<open>auto simp: above_at_def\<close>)
  then show ?thesis by (rule triple_conseq) (auto simp: args_at_def True)
next
  case False
  then have "luaK_setreturns fs e n = Inr fs" for fs by (simp add: luaK_setreturns_def hasmultret_def)
  then show ?thesis
    by (intro triple_codes0) (use assms holds_above in \<open>auto simp: args_at_def\<close>)
qed

lemma call_holds:
  assumes "na \<le> b" and "b + 1 \<le> h" and "0 \<le> n" and "n < 512"
  shows "triple (above_at na h) (codes (\<lambda>fs. luaK_codeABC fs OP_CALL b n 2)) (\<lambda>pc fs. above_at na h fs \<and> call_at fs pc b)"
proof (rule triple_codes)
  fix fs pc fs'
  assume a: "above_at na h fs" and c: "luaK_codeABC fs OP_CALL b n 2 = Inr (pc, fs')"
  have "0 \<le> b" "b < 256" using a assms by (auto simp: above_at_def regs_ok_def MAXSTACK_def)
  then have "GETARG_A (CREATE_ABC (op_num OP_CALL) b n 2) = b" "GET_OPCODE (CREATE_ABC (op_num OP_CALL) b n 2) = op_num OP_CALL"
    using get_field_create [of "op_num OP_CALL" b n 2] assms by simp_all
  then show "above_at na h fs' \<and> call_at fs' pc b"
    using states_keep(2) [OF codeABC_regs(1) [OF c] a] code_calls(2,3) [of fs _ _ pc fs'] c
    by (simp add: call_at_def luaK_codeABC_def)
qed simp

lemma call_at_ls [simp]: "call_at (fs\<lparr>fs_ls := l\<rparr>) p a = call_at fs p a" "call_at (fs\<lparr>fs_freereg := r\<rparr>) p a = call_at fs p a"
  by (simp_all add: call_at_def code_get_def)

lemma funcargs_holds:
  assumes R: "good R" and na: "na \<le> b" "b + 1 \<le> h" and f: "e_info f = b"
  shows "triple (free_at na h) (funcargs R f) (holds na b)"
proof -
  have h: "na \<le> h" using na by simp
  have lst: "triple (free_at na h) (pbind (explist1 R) (\<lambda>(_, e). pthen (codes0 (\<lambda>fs. luaK_setreturns fs e LUA_MULTRET)) (preturn e)))
      (args_at na h)"
    by (rule triple_bind [OF explist1_holds [OF R h]], rule triple_prod, simp only: snd_conv, rule triple_then [OF setreturns_args [OF h]],
        rule triple_return)
  have void: "args_at na h (init_exp VVOID 0) fs" if "free_at na h fs" for fs
    using that free_above [OF that order_refl h] by (simp add: args_at_def init_exp_def)
  have paren: "triple (free_at na h) (pbind (in_ls lastline) (\<lambda>lastln. pthen (pwhen (line \<noteq> lastln) (LuaParser.syntax_error msg))
         (pthen p_next (pbind curtoken (\<lambda>t.
          pbind (if t = tk CHR '')'' then preturn (init_exp VVOID 0)
                 else pbind (explist1 R) (\<lambda>(_, e). pthen (codes0 (\<lambda>fs. luaK_setreturns fs e LUA_MULTRET)) (preturn e))) (\<lambda>e.
          pthen (check_match (tk CHR '')'') (tk CHR ''('') line) (preturn e))))))) (args_at na h)" for line msg
    by (rule triple_bind [OF triple_quiet], simp, rule triple_then [OF triple_quiet], intro quiet_when quiet_error,
        rule triple_then [OF triple_quiet], simp, rule triple_bind [OF triple_quiet], simp, rule triple_bind,
        (rule triple_if, rule triple_return, erule void, rule lst), rule triple_then [OF triple_quiet], simp, rule triple_return)
  have str: "triple (free_at na h) (pbind token_string (\<lambda>s. pbind (codestring s) (\<lambda>e. pthen p_next (preturn e)))) (args_at na h)"
    by (rule triple_bind [OF triple_quiet], simp, rule triple_bind [OF codestring_free], rule triple_then [OF triple_quiet], simp,
        rule triple_return) (use h in \<open>auto simp: args_at_def holds_plain intro: free_above\<close>)
  have con: "triple (free_at na h) (constructor R) (args_at na h)"
    by (rule triple_conseq [OF constructor_holds [OF R h]]) (use h in \<open>auto simp: args_at_def intro: holds_above\<close>)
  have nxt: "triple (\<lambda>fs. \<exists>m \<ge> h. holds na m e fs) (pbind (exp2nextreg e) (\<lambda>_. preturn ())) (\<lambda>_. above_at na h)" for e
  proof (rule triple_exists, rule triple_conj)
    fix m
    assume "h \<le> m"
    then show "triple (holds na m e) (pbind (exp2nextreg e) (\<lambda>_. preturn ())) (\<lambda>_. above_at na h)"
      by (intro triple_bind [OF exp2nextreg_holds] triple_return) (use h in \<open>auto dest!: next_free intro: free_above\<close>)
  qed (intro kept_exprs)
  have put: "triple (args_at na h e) (pwhen (e_k e \<noteq> VVOID) (pbind (exp2nextreg e) (\<lambda>_. preturn ()))) (\<lambda>_. above_at na h)"
    if m: "\<not> hasmultret (e_k e)" for e
  proof (rule triple_when)
    assume "e_k e \<noteq> VVOID"
    then show "triple (args_at na h e) (pbind (exp2nextreg e) (\<lambda>_. preturn ())) (\<lambda>_. above_at na h)"
      by (intro triple_conseq [OF nxt]) (use m in \<open>auto simp: args_at_def\<close>)
  qed (simp add: args_at_def)
  have np: "triple (args_at na h e) (if hasmultret (e_k e) then preturn LUA_MULTRET
        else pthen (pwhen (e_k e \<noteq> VVOID) (pbind (exp2nextreg e) (\<lambda>_. preturn ()))) (in_fs (\<lambda>fs. fs_freereg fs - (e_info f + 1))))
      (\<lambda>n fs. (0 \<le> n + 1 \<and> n + 1 < 512) \<and> above_at na h fs)" for e
  proof (rule triple_if)
    show "triple (args_at na h e) (preturn LUA_MULTRET) (\<lambda>n fs. (0 \<le> n + 1 \<and> n + 1 < 512) \<and> above_at na h fs)"
      by (rule triple_return) (simp add: LUA_MULTRET_def args_at_def)
  next
    assume m: "\<not> hasmultret (e_k e)"
    have "triple (above_at na h) (in_fs (\<lambda>fs. fs_freereg fs - (e_info f + 1))) (\<lambda>n fs. (0 \<le> n + 1 \<and> n + 1 < 512) \<and> above_at na h fs)"
      using na f by (auto simp: triple_def in_fs_def reads_def fs_of_def fstate_def above_at_def regs_ok_def MAXSTACK_def)
    then show "triple (args_at na h e) (pthen (pwhen (e_k e \<noteq> VVOID) (pbind (exp2nextreg e) (\<lambda>_. preturn ())))
          (in_fs (\<lambda>fs. fs_freereg fs - (e_info f + 1)))) (\<lambda>n fs. (0 \<le> n + 1 \<and> n + 1 < 512) \<and> above_at na h fs)"
      by (rule triple_then [OF put [OF m]])
  qed
  have line: "triple (\<lambda>fs. above_at na h fs \<and> call_at fs pc b) (codes0 (\<lambda>fs. luaK_fixline fs line)) (\<lambda>_ fs. above_at na h fs \<and> call_at fs pc b)"
    for pc line
    by (rule triple_codes0) (auto simp: luaK_fixline_def line_put_def call_at_def code_get_def above_at_def regs_ok_def split: if_splits)
  have res: "triple (\<lambda>fs. above_at na h fs \<and> call_at fs pc b) (upd_fs (\<lambda>fs. fs\<lparr>fs_freereg := e_info f + 1\<rparr>)) (\<lambda>_. holds na b (init_exp VCALL pc))"
    for pc
    by (rule triple_upd_fs) (use na f in \<open>auto simp: holds_def typed_call init_exp_def above_at_def regs_ok_def\<close>)
  have call: "triple (\<lambda>fs. (0 \<le> n + 1 \<and> n + 1 < 512) \<and> above_at na h fs) (codes (\<lambda>fs. luaK_codeABC fs OP_CALL (e_info f) (n + 1) 2))
      (\<lambda>pc fs. above_at na h fs \<and> call_at fs pc b)" for n
    unfolding f by (rule triple_conj, rule kept_codes, rule call_holds) (use na in simp_all)
  show ?thesis
    unfolding funcargs_def
    by (rule triple_bind [OF triple_quiet], simp, rule triple_bind [OF triple_quiet], simp, rule triple_bind,
        (rule triple_if, rule paren, rule triple_if, rule con, rule triple_if, rule str,
         rule triple_error),
        rule triple_bind [OF np], rule triple_bind [OF call], rule triple_then [OF line], rule triple_then [OF res], rule triple_return)
qed

subsection \<open>Variables, fields and calls\<close>

lemma singlevaraux_scope:
  "singlevaraux ls fs n b = Inr (k, v, fs') \<Longrightarrow> map pf_fs fs' = map pf_fs fs \<and> e_k v = k \<and> k \<in> {VLOCAL, VUPVAL, VGLOBAL}
    \<and> (k = VLOCAL \<longrightarrow> fs \<noteq> [] \<and> 0 \<le> e_info v \<and> e_info v < fs_nactvar (pf_fs (hd fs)))"
proof (induction ls fs n b arbitrary: k v fs' rule: singlevaraux.induct)
  case (2 ls f fs n b)
  from 2(2) obtain r where r: "searchvar f n = Inr r" by (auto simp: result_simps)
  show ?case
  proof (cases r)
    case (Some j)
    then show ?thesis
      using 2(2) r searchvar_innermost(2) [OF r Some] by (auto simp: result_simps init_exp_def markupval_def nactive_def)
  next
    case None
    obtain k1 v1 fs1 where 3: "singlevaraux ls fs n False = Inr (k1, v1, fs1)"
      using 2(2) r None by (auto simp: result_simps)
    have "pf_fs f' = pf_fs f" if "indexupvalue ls f n v1 = Inr (i, f')" for i f'
      using that by (auto simp: indexupvalue_def Let_def result_simps split: option.splits if_splits)
    then show ?thesis using 2(1) [OF r None 3] 2(2) r None 3 by (auto simp: result_simps split: if_splits)
  qed
qed (simp add: init_exp_def)

lemma singlevar_holds: "triple (free_at na b) singlevar (holds na b)"
proof -
  let ?search = "\<lambda>n ps. bind_result (singlevaraux (lexer ps) (ps_func ps # ps_prev ps) n True)
      (\<lambda>(k, var, fs). Inr ((k, var), ps\<lparr>ps_func := hd fs, ps_prev := tl fs\<rparr>))"
  have 1: "triple (free_at na b) (?search n) (\<lambda>x fs. free_at na b fs \<and> e_k (snd x) = fst x \<and> fst x \<in> {VLOCAL, VUPVAL, VGLOBAL}
      \<and> (fst x = VLOCAL \<longrightarrow> 0 \<le> e_info (snd x) \<and> e_info (snd x) < na))" for n
  proof (rule tripleI)
    fix ps x ps'
    assume "?search n ps = Inr (x, ps')"
    then obtain fs where s: "singlevaraux (lexer ps) (ps_func ps # ps_prev ps) n True = Inr (fst x, snd x, fs)"
        "ps' = ps\<lparr>ps_func := hd fs, ps_prev := tl fs\<rparr>"
      by (auto simp: result_simps)
    note q = singlevaraux_scope [OF s(1)]
    then obtain f gs where "fs = f # gs" "pf_fs f = pf_fs (ps_func ps)" "map pf_fs gs = map pf_fs (ps_prev ps)"
      by (cases fs) auto
    then show "outer ps' = outer ps \<and> (free_at na b (fs_of ps) \<longrightarrow> free_at na b (fs_of ps') \<and> e_k (snd x) = fst x
        \<and> fst x \<in> {VLOCAL, VUPVAL, VGLOBAL} \<and> (fst x = VLOCAL \<longrightarrow> 0 \<le> e_info (snd x) \<and> e_info (snd x) < na))"
      using q s(2) by (auto simp: outer_def fs_of_def free_at_def)
  qed
  have 2: "triple (free_at na b) (codes (\<lambda>fs. luaK_stringK fs n)) (\<lambda>_. free_at na b)" for n
    by (rule codes_free) (rule regs_keep)
  show ?thesis
    unfolding singlevar_def
  proof (rule triple_bind [OF triple_quiet], simp, rule triple_bind [OF 1], rule triple_prod, simp only: fst_conv snd_conv, rule triple_if)
    fix n k var and x :: "expkind \<times> expdesc"
    assume k: "k = VGLOBAL"
    have g: "triple (\<lambda>fs. e_k var = VGLOBAL \<and> free_at na b fs) (pbind (codes (\<lambda>fs. luaK_stringK fs n)) (\<lambda>i. preturn (var\<lparr>e_info := i\<rparr>)))
        (holds na b)"
      by (rule triple_conj, intro kept_exprs, rule triple_bind [OF 2 triple_return]) (simp add: holds_plain)
    show "triple (\<lambda>fs. free_at na b fs \<and> e_k var = k \<and> k \<in> {VLOCAL, VUPVAL, VGLOBAL} \<and> (k = VLOCAL \<longrightarrow> 0 \<le> e_info var \<and> e_info var < na))
        (pbind (codes (\<lambda>fs. luaK_stringK fs n)) (\<lambda>i. preturn (var\<lparr>e_info := i\<rparr>))) (holds na b)"
      by (rule triple_conseq [OF g]) (auto simp: k)
  next
    fix n k var and x :: "expkind \<times> expdesc"
    assume "k \<noteq> VGLOBAL"
    then show "triple (\<lambda>fs. free_at na b fs \<and> e_k var = k \<and> k \<in> {VLOCAL, VUPVAL, VGLOBAL} \<and> (k = VLOCAL \<longrightarrow> 0 \<le> e_info var \<and> e_info var < na))
        (preturn var) (holds na b)"
      by (intro triple_return) (auto simp: free_at_def freed_def holds_def typed_def owns_def)
  qed
qed

lemma prefixexp_holds:
  assumes R: "good R" and na: "na \<le> b"
  shows "triple (free_at na b) (prefixexp R) (holds na b)"
  unfolding prefixexp_def
  by (rule triple_bind [OF triple_quiet], simp, rule triple_if, rule triple_bind [OF triple_quiet], simp, rule triple_then [OF triple_quiet], simp,
      rule triple_bind [OF expr_holds [OF assms]], rule triple_then [OF triple_quiet], simp, rule dischargevars_holds,
      rule triple_if, rule singlevar_holds, rule triple_error)

lemma addk_frame: "addk fs k v = Inr (i, fs') \<Longrightarrow> fs_code fs' = fs_code fs \<and> fs_pc fs' = fs_pc fs"
proof -
  assume 1: "addk fs k v = Inr (i, fs')"
  then obtain idx h where "luaH_set (grow 2) (fs_h (fs_ls fs)) k = Inr (idx, h)"
    by (auto simp: addk_def result_simps)
  with 1 show ?thesis by (cases "slot_val h idx") (auto simp: addk_def result_simps Let_def split: if_splits)
qed

text \<open>The name of a method is a constant; the object may be any expression until then.\<close>

lemma checkname_keeps: "triple (holds na b v) checkname (\<lambda>k fs. e_k k = VK \<and> holds na b v fs)"
proof -
  have "triple (holds na b v) (codes (\<lambda>fs. luaK_stringK fs s)) (\<lambda>_. holds na b v)" for s
    by (rule triple_codes)
      (auto simp: holds_def luaK_stringK_def regs_eq dest: addk_regs addk_frame intro: typed_keep)
  note n = this
  show ?thesis
    unfolding checkname_def codestring_def
    by (rule triple_bind [OF triple_quiet], simp, rule triple_bind [OF n], rule triple_return) (simp add: init_exp_def)
qed

lemma self_free:
  assumes "e_k k = VK"
  shows "triple (holds na b v) (codes2 (\<lambda>fs. luaK_self fs v k)) (\<lambda>x fs. e_info (fst x) = b \<and> free_at na (b + 2) fs)"
proof (rule triple_codes2)
  fix fs x y fs'
  assume "holds na b v fs" "luaK_self fs v k = Inr (x, y, fs')"
  then show "e_info (fst (x, y)) = b \<and> free_at na (b + 2) fs'"
    using self_regs [of fs b v k x y fs'] assms by (auto simp: holds_def free_at_def freed_def)
qed simp

lemma funcargs_kept: "good R \<Longrightarrow> kept (funcargs R f)"
  by (rule triple_kept [OF funcargs_holds [of R "e_info f" "e_info f" "e_info f + 1" f]]) simp_all

lemma primary_suffix_holds:
  assumes R: "good R" and na: "na \<le> b"
  shows "triple (holds na b v) (primary_suffix R v) (\<lambda>r fs. case r of Inl v \<Rightarrow> holds na b v fs | Inr v \<Rightarrow> holds na b v fs)"
proof -
  have ret: "triple (holds na b v) (preturn (Inl v)) (\<lambda>r fs. case r of Inl v \<Rightarrow> holds na b v fs | Inr v \<Rightarrow> holds na b v fs)" for v
    by (rule triple_return) simp
  have call: "triple (\<lambda>fs. e_info f = b \<and> free_at na h fs) (funcargs R f) (holds na b)" if "b + 1 \<le> h" for f h
    by (rule triple_conj, rule funcargs_kept [OF R], rule funcargs_holds [OF R na that])
  have call': "triple (next_at na b f) (funcargs R f) (holds na b)" for f
    by (rule triple_next, rule funcargs_kept [OF R], rule funcargs_holds [OF R na]) simp_all
  have key: "triple (\<lambda>fs. \<exists>mid. reg_at na b v mid \<and> free_at na mid fs) (pbind (yindex R) (\<lambda>key. pbind (indexed v key) (\<lambda>v. preturn (Inl v))))
      (\<lambda>r fs. case r of Inl v \<Rightarrow> holds na b v fs | Inr v \<Rightarrow> holds na b v fs)" for v
  proof (rule triple_exists, rule triple_conj, intro kept_exprs R)
    fix mid
    assume r: "reg_at na b v mid"
    then have "na \<le> mid" by (auto simp: reg_at_def dest: in_reg_le)
    then show "triple (free_at na mid) (pbind (yindex R) (\<lambda>key. pbind (indexed v key) (\<lambda>v. preturn (Inl v))))
        (\<lambda>r fs. case r of Inl v \<Rightarrow> holds na b v fs | Inr v \<Rightarrow> holds na b v fs)"
      by (intro triple_bind [OF yindex_holds [OF R]] triple_bind [OF indexed_reg [OF r] ret])
  qed
  have meth: "triple (\<lambda>fs. e_k k = VK \<and> holds na b v fs) (pbind (codes2 (\<lambda>fs. luaK_self fs v k)) (\<lambda>(v, _). pbind (funcargs R v) (\<lambda>v. preturn (Inl v))))
      (\<lambda>r fs. case r of Inl v \<Rightarrow> holds na b v fs | Inr v \<Rightarrow> holds na b v fs)" for k
    by (rule triple_conj, intro kept_exprs funcargs_kept R, rule triple_bind [OF self_free], assumption, rule triple_prod, simp only: fst_conv,
        rule triple_bind [OF call], simp, rule ret)
  show ?thesis
    unfolding primary_suffix_def
    by (rule triple_bind [OF triple_quiet], simp, rule triple_if, rule triple_bind [OF field_holds ret], rule triple_if,
        rule triple_bind [OF exp2anyreg_holds], rule triple_prod, simp only: snd_conv, rule key, rule triple_if,
        rule triple_then [OF triple_quiet], simp, rule triple_bind [OF checkname_keeps], rule meth, rule triple_if,
        rule triple_bind [OF exp2nextreg_holds], rule triple_bind [OF call' ret], rule triple_return) simp
qed

lemma primaryexp_holds:
  assumes R: "good R" and na: "na \<le> b"
  shows "triple (free_at na b) (primaryexp R) (holds na b)"
  unfolding primaryexp_def
  by (rule triple_bind [OF prefixexp_holds [OF assms]], rule triple_loop [OF primary_suffix_holds [OF assms]])

subsection \<open>Statements and functions\<close>

lemma pieces_kept:
  assumes R: "good R"
  shows "kept (primaryexp R)" "kept (explist1 R)" "kept (constructor R)"
  by (rule triple_kept [OF primaryexp_holds [OF R order_refl]] triple_kept [OF explist1_holds [OF R order_refl]]
      triple_kept [OF constructor_holds [OF R order_refl]])+

lemma singlevar_kept: "kept singlevar" by (rule triple_kept [OF singlevar_holds])

lemmas kept_all = kept_exprs kept_vars pieces_kept singlevar_kept

lemma block_kept: "good R \<Longrightarrow> kept (block R)"
  unfolding block_def by (intro kept_all)

lemma stores_kept: "kept (storevar v e)" "kept (default_assign v)" "kept (check_conflict lhs v)"
  unfolding storevar_def default_assign_def check_conflict_def by (intro kept_all)+

lemma assignment_kept: "good R \<Longrightarrow> kept (assignment n R lhs nvars)"
  by (induction n arbitrary: lhs nvars) (simp, unfold assignment.simps, intro kept_all stores_kept, assumption+)

lemma cond_kept: "good R \<Longrightarrow> kept (cond R)" "good R \<Longrightarrow> kept (exp1 R)"
  unfolding cond_def exp1_def by (intro kept_all; assumption)+

text \<open>
  A parser that ends with \<open>close_func\<close> comes back to the function around, as \<open>open_func\<close> left it.
\<close>

definition returns :: "'a parse \<Rightarrow> (FuncState \<Rightarrow> bool) \<Rightarrow> ('a \<Rightarrow> FuncState \<Rightarrow> bool) \<Rightarrow> bool" where
  "returns m P Q \<longleftrightarrow> (\<forall>ps x ps' g gs. m ps = Inr (x, ps') \<longrightarrow> outer ps = g # gs \<longrightarrow> outer ps' = gs \<and> (P g \<longrightarrow> Q x (fs_of ps')))"

lemma returns_then: "kept m \<Longrightarrow> returns m' P Q \<Longrightarrow> returns (pthen m m') P Q"
  by (fastforce simp: returns_def triple_def elim: pthenE)

lemma returns_bind: "kept m \<Longrightarrow> (\<And>x. returns (f x) P Q) \<Longrightarrow> returns (pbind m f) P Q"
  by (fastforce simp: returns_def triple_def elim: pbindE)

lemma closing_returns:
  assumes "\<And>x. triple P (f x) Q"
  shows "returns (pbind close_func f) P Q"
  unfolding returns_def
proof (intro allI impI)
  fix ps y ps' g gs
  assume "pbind close_func f ps = Inr (y, ps')" and o: "outer ps = g # gs"
  then obtain x ps2 where 1: "close_func ps = Inr (x, ps2)" "f x ps2 = Inr (y, ps')" by (elim pbindE)
  from 1(1) obtain u ps3 w ps4 where 2: "removevars 0 ps = Inr (u, ps3)" "codes0 (\<lambda>fs. luaK_ret fs 0 0) ps3 = Inr (w, ps4)"
      "pbind (reads (\<lambda>ps. (ps_func ps, ps_prev ps))) (\<lambda>(f, prevs). case prevs of
       [] \<Rightarrow> pbind curtoken (\<lambda>t. if t = TK_NAME \<or> t = TK_STRING then (\<lambda>_. Inl OutOfBounds) else preturn (f, closed_proto f))
     | g # gs \<Rightarrow> pthen (\<lambda>ps. Inr ((), ps\<lparr>ps_func := g, ps_prev := gs\<rparr>)) (pthen anchor_token (preturn (f, closed_proto f)))) ps4
       = Inr (x, ps2)"
    unfolding close_func_def by (elim pthenE)
  have "outer ps4 = g # gs" using tripleD [OF kept_vars(4) 2(1)] tripleD [OF kept_codes(2) 2(2)] o by simp
  then obtain pf pfs where p: "ps_prev ps4 = pf # pfs" "pf_fs pf = g" "map pf_fs pfs = gs" by (auto simp: outer_def)
  have "pthen anchor_token (preturn (ps_func ps4, closed_proto (ps_func ps4))) (ps4\<lparr>ps_func := pf, ps_prev := pfs\<rparr>) = Inr (x, ps2)"
    using 2(3) p(1) by (simp add: pbind_def reads_def pthen_def result_simps)
  moreover have "quiet (pthen anchor_token (preturn (ps_func ps4, closed_proto (ps_func ps4))))" by (intro quiet_then quiet_tokens quiet_return)
  ultimately have "outer ps2 = gs" "fs_of ps2 = g" using quietD p(2,3) by (fastforce simp: outer_def fs_of_def)+
  then show "outer ps' = gs \<and> (P g \<longrightarrow> Q y (fs_of ps'))" using tripleD [OF assms 1(2)] by simp
qed

lemma open_returns:
  assumes "returns m P Q"
  shows "triple P (pthen open_func m) Q"
proof (rule tripleI, elim pthenE)
  fix ps x ps' u ps1
  assume 1: "open_func ps = Inr (u, ps1)" "m ps1 = Inr (x, ps')"
  then have "outer ps1 = fs_of ps # outer ps" by (auto simp: open_func_def result_simps outer_def fs_of_def)
  with assms 1(2) show "outer ps' = outer ps \<and> (P (fs_of ps) \<longrightarrow> Q x (fs_of ps'))" by (auto simp: returns_def)
qed

lemma code_upvalues_regs: "code_upvalues n us fs = Inr fs' \<Longrightarrow> regs fs' = regs fs"
proof (induction n arbitrary: us fs)
  case (Suc n)
  then show ?case by (auto simp: result_simps split: list.splits dest!: codeABC_regs(1))
qed simp

lemma pushclosure_holds: "triple (free_at na b) (pushclosure f p) (holds na b)"
proof -
  have q: "quiet (with_func (\<lambda>_ f. bind_result (luaM_growvector None (pf_p f) (pf_np f) MAXARG_Bx ''constant table overflow'') (\<lambda>ps.
         let n = pf_np f in if 0 \<le> n \<and> n < int (length ps) then Inr (n, f\<lparr>pf_p := ps[nat n := Some p], pf_np := n + 1\<rparr>)
            else Inl OutOfBounds)))"
    by (rule quiet_func) (auto simp: result_simps Let_def split: if_splits)
  have c: "triple (free_at na b) (codes (\<lambda>fs. luaK_codeABx fs OP_CLOSURE 0 n)) (\<lambda>_. free_at na b)" for n
    by (rule codes_free) (rule regs_keep)
  have u: "triple (free_at na b) (codes0 (code_upvalues n us)) (\<lambda>_. free_at na b)" for n us
    by (rule codes0_free) (rule code_upvalues_regs)
  show ?thesis
    unfolding pushclosure_def
    by (rule triple_bind [OF triple_quiet [OF q]], rule triple_bind [OF c], rule triple_then [OF u], rule triple_return)
      (simp add: holds_plain init_exp_def)
qed

lemma parlist_kept: "kept (parlist R)"
proof -
  have "kept (parlist_item n)" for n unfolding parlist_item_def by (intro kept_all)
  then show ?thesis unfolding parlist_def by (intro kept_all)
qed

lemma body_holds:
  assumes R: "good R"
  shows "triple (free_at na b) (body R needself line) (holds na b)"
  unfolding body_def
  by (rule open_returns, intro returns_then returns_bind closing_returns triple_prod pushclosure_holds kept_all parlist_kept R)

lemma body_kept: "good R \<Longrightarrow> kept (body R needself line)" by (rule triple_kept [OF body_holds [of _ 0 0]])

lemma funcname_kept: "kept (funcname R)" unfolding funcname_def by (intro kept_all)

lemma fors_kept:
  assumes R: "good R"
  shows "kept (forbody R base line n isnum)" "kept (fornum R v line)" "kept (forlist R v)" "kept (forstat R line)"
proof -
  show b: "kept (forbody R base line n isnum)" for base line n isnum
    unfolding forbody_def by (intro kept_all block_kept R)
  show n: "kept (fornum R v line)" for v line unfolding fornum_def by (intro kept_all b cond_kept R)
  show l: "kept (forlist R v)" for v unfolding forlist_def by (intro kept_all b R)
  show "kept (forstat R line)" unfolding forstat_def by (intro kept_all n l)
qed

lemma stats_kept:
  assumes R: "good R"
  shows "kept (whilestat R line)" "kept (repeatstat R line)" "kept (ifstat R line)" "kept (localfunc R)" "kept (localstat R)"
    "kept (funcstat R line)" "kept (exprstat R)" "kept (retstat R)"
proof -
  show "kept (whilestat R line)" unfolding whilestat_def by (intro kept_all block_kept cond_kept R)
  show "kept (repeatstat R line)" unfolding repeatstat_def by (intro kept_all cond_kept R)
  have t: "kept (test_then_block R)" unfolding test_then_block_def by (intro kept_all block_kept cond_kept R)
  have e: "kept (escape_jump l)" for l unfolding escape_jump_def by (intro kept_all)
  show "kept (ifstat R line)" unfolding ifstat_def by (intro kept_all t e block_kept R)
  show "kept (localfunc R)" unfolding localfunc_def by (intro kept_all body_kept stores_kept R)
  show "kept (localstat R)" unfolding localstat_def by (intro kept_all R)
  show "kept (funcstat R line)" unfolding funcstat_def by (intro kept_all body_kept stores_kept funcname_kept R)
  have a: "kept (\<lambda>ps. pbind (assignment (r_rounds R ps) R [v] 1) (\<lambda>_. preturn ()) ps)" for v
    using kept_bind [of "assignment n R [v] 1" "\<lambda>_. preturn ()" for n, OF assignment_kept [OF R] kept_quiet [OF quiet_return]]
    by (simp add: triple_def)
  show "kept (exprstat R)" unfolding exprstat_def by (intro kept_all a R)
  show "kept (retstat R)" unfolding retstat_def by (intro kept_all R)
qed

lemma statement_kept: "good R \<Longrightarrow> kept (statement R)"
  unfolding statement_def by (intro kept_all block_kept fors_kept stats_kept)

text \<open>Levels change nothing here.\<close>

lemma triple_nested: "triple P m Q \<Longrightarrow> triple P (nested m) Q"
  by (auto simp: triple_def nested_run result_simps outer_def fs_of_def split: if_splits)

lemma chunk_keeps:
  assumes "good R"
  shows "kept (chunk R)"
proof -
  have "kept (chunk_step R b)" for b unfolding chunk_step_def by (intro kept_all statement_kept assms)
  then show ?thesis unfolding chunk_def by (intro triple_nested kept_loop)
qed

subsection \<open>Expressions with operators\<close>

lemma simpleexp_holds:
  assumes R: "good R" and na: "na \<le> b"
  shows "triple (free_at na b) (simpleexp R) (holds na b)"
proof -
  have plain: "triple (free_at na b) (pthen p_next (preturn v)) (holds na b)" if "e_k v \<notin> {VVOID, VLOCAL, VINDEXED, VCALL, VNONRELOC}" for v
    by (rule triple_then [OF triple_quiet], simp, rule triple_return) (simp add: holds_plain [OF that])
  have str: "triple (\<lambda>fs. free_at na b fs \<and> e_k v = VK) (pthen p_next (preturn v)) (holds na b)" for v
    by (rule triple_then [OF triple_quiet], simp, rule triple_return) (simp add: holds_plain)
  have va: "triple (free_at na b) (codes (\<lambda>fs. luaK_codeABC fs OP_VARARG 0 1 0)) (\<lambda>_. free_at na b)"
    by (rule codes_free) (rule regs_keep)
  show ?thesis
    unfolding simpleexp_def
    by (rule triple_bind [OF triple_quiet], simp, rule triple_if, rule triple_bind [OF triple_quiet], simp, rule plain, simp add: init_exp_def,
        rule triple_if, rule triple_bind [OF triple_quiet], simp, rule triple_bind [OF codestring_free], rule str,
        rule triple_if, rule plain, simp add: init_exp_def, rule triple_if, rule plain, simp add: init_exp_def,
        rule triple_if, rule plain, simp add: init_exp_def, rule triple_if, rule triple_bind [OF triple_quiet], simp,
        rule triple_then [OF triple_quiet], simp, rule triple_then [OF triple_quiet], rule quiet_upd, simp,
        rule triple_bind [OF va], rule plain, simp add: init_exp_def, rule triple_if, rule constructor_holds [OF assms],
        rule triple_if, rule triple_then [OF triple_quiet], simp, rule triple_bind [OF triple_quiet], simp, rule body_holds [OF R],
        rule primaryexp_holds [OF assms])
qed

lemma prefix_holds: "triple (holds na b v) (codes (\<lambda>fs. luaK_prefix pow fs opr v)) (holds na b)"
proof (rule triple_codes)
  fix fs x fs'
  assume "holds na b v fs" "luaK_prefix pow fs opr v = Inr (x, fs')"
  then show "holds na b x fs'" using prefix_typed [of fs b v pow opr x fs'] by (simp add: holds_def)
qed simp

lemma infix_half:
  assumes "opr \<noteq> OPR_NOBINOPR"
  shows "triple (holds na b v) (codes (\<lambda>fs. luaK_infix fs opr v))
    (\<lambda>v fs. \<exists>mid. (\<forall>fs'. fs_nactvar fs' = na \<longrightarrow> half_done opr fs' b v mid) \<and> na \<le> mid \<and> free_at na mid fs)"
proof (rule triple_codes)
  fix fs x fs'
  assume h: "holds na b v fs" and i: "luaK_infix fs opr v = Inr (x, fs')"
  then have 1: "half_done opr fs' b x (fs_freereg fs')" "fs_nactvar fs' = na" "regs_ok fs'"
    using infix_half_done [OF _ assms i] by (auto simp: holds_def)
  have "half_done opr fs'' b x (fs_freereg fs')" if "fs_nactvar fs'' = na" for fs''
    using 1(1,2) that owns_keep [of fs'' fs' x 0 b] by (auto simp: half_done_def first_operand_def split: if_splits)
  then show "\<exists>mid. (\<forall>fs'. fs_nactvar fs' = na \<longrightarrow> half_done opr fs' b x mid) \<and> na \<le> mid \<and> free_at na mid fs'"
    using 1(2,3) by (intro exI [of _ "fs_freereg fs'"]) (auto simp: free_at_def freed_def regs_ok_def)
qed simp

lemma posfix_holds:
  assumes "opr \<noteq> OPR_NOBINOPR" and "\<forall>fs'. fs_nactvar fs' = na \<longrightarrow> half_done opr fs' b v mid"
  shows "triple (holds na mid v2) (codes2 (\<lambda>fs. luaK_posfix pow fs opr v v2)) (\<lambda>x. holds na b (fst x))"
proof (rule triple_codes2)
  fix fs x y fs'
  assume "holds na mid v2 fs" "luaK_posfix pow fs opr v v2 = Inr (x, y, fs')"
  then show "holds na b (fst (x, y)) fs'" using posfix_typed [of opr fs b v mid v2 pow x y fs'] assms by (simp add: holds_def)
qed simp

lemma subexpr_step_holds:
  assumes R: "good R"
  shows "triple (holds na b (snd s)) (subexpr_step pow R l s)
    (\<lambda>r fs. case r of Inl s \<Rightarrow> holds na b (snd s) fs | Inr s \<Rightarrow> holds na b (snd s) fs)"
proof -
  obtain opr v where s: "s = (opr, v)" by (cases s)
  have sub: "triple (\<lambda>fs. \<exists>mid. (\<forall>fs'. fs_nactvar fs' = na \<longrightarrow> half_done opr fs' b v mid) \<and> na \<le> mid \<and> free_at na mid fs)
      (pbind (r_subexpr R q) (\<lambda>(nextop, v2). pbind (codes2 (\<lambda>fs. luaK_posfix pow fs opr v v2)) (\<lambda>(v, _). preturn (Inl (nextop, v)))))
      (\<lambda>r fs. case r of Inl s \<Rightarrow> holds na b (snd s) fs | Inr s \<Rightarrow> holds na b (snd s) fs)" if o: "opr \<noteq> OPR_NOBINOPR" for v q
  proof (intro triple_exists triple_conj)
    fix mid
    assume h: "\<forall>fs'. fs_nactvar fs' = na \<longrightarrow> half_done opr fs' b v mid" and "na \<le> mid"
    then have 1: "triple (free_at na mid) (r_subexpr R q) (\<lambda>x. holds na mid (snd x))" using R by (simp add: good_def)
    show "triple (free_at na mid)
      (pbind (r_subexpr R q) (\<lambda>(nextop, v2). pbind (codes2 (\<lambda>fs. luaK_posfix pow fs opr v v2)) (\<lambda>(v, _). preturn (Inl (nextop, v)))))
      (\<lambda>r fs. case r of Inl s \<Rightarrow> holds na b (snd s) fs | Inr s \<Rightarrow> holds na b (snd s) fs)"
      by (rule triple_bind [OF 1], rule triple_prod, simp only: snd_conv, rule triple_bind [OF posfix_holds [OF o h]], rule triple_prod,
          rule triple_return) simp
  qed (intro kept_exprs R)+
  show ?thesis
    unfolding subexpr_step_def s
    by (simp only: prod.case snd_conv, rule triple_if, rule triple_then [OF triple_quiet], simp, rule triple_bind [OF infix_half], simp,
        rule sub, simp, rule triple_return) simp
qed

lemma subexpr_body_holds:
  assumes R: "good R" and na: "na \<le> b"
  shows "triple (free_at na b) (subexpr_body pow R l) (\<lambda>s. holds na b (snd s))"
proof -
  have sub: "triple (free_at na b) (r_subexpr R q) (\<lambda>x. holds na b (snd x))" for q using assms by (simp add: good_def)
  have pre: "triple (free_at na b) (pbind (r_subexpr R q) (\<lambda>(_, v). codes (\<lambda>fs. luaK_prefix pow fs opr v))) (holds na b)" for q opr
    by (rule triple_bind [OF sub], intro triple_prod, simp only: snd_conv, rule prefix_holds)
  show ?thesis
    unfolding subexpr_body_def Let_def
    by (rule triple_bind [OF triple_quiet], simp, rule triple_bind, rule triple_if, rule triple_then [OF triple_quiet], simp, rule pre,
        rule simpleexp_holds [OF assms], rule triple_bind [OF triple_quiet], simp,
        rule triple_conseq [OF triple_loop [where I = "\<lambda>s. holds na b (snd s)", OF subexpr_step_holds [OF R]]]) simp_all
qed

lemma parsers_at_good: "good (parsers_at pow F e d)"
proof (induction d)
  case 0
  show ?case by (simp add: good_def triple_def)
next
  case (Suc d)
  have "triple (free_at na b) (subexpr pow (parsers_at pow F e d) l) (\<lambda>x. holds na b (snd x))" if "na \<le> b" for na b l
    unfolding subexpr_def by (rule triple_nested, rule triple_conseq [OF subexpr_body_holds [OF Suc that]]) auto
  then show ?case by (simp add: good_def Let_def chunk_keeps [OF Suc])
qed

section \<open>Property\<close>

text \<open>
  Claim \<open>C5\<close>: Every expression is typed by its kind. If the registers of the function are in order
  when \<open>subexpr\<close> starts, then whatever it parses, at any depth and with any functions, calls,
  constructors and operators inside, the registers are in order at the end, the local variables are
  the same, and the expression it returns holds exactly the registers from the one that was free
  first up to the one that is: none for a constant, a jump, a global variable or an instruction
  without a register yet; its own for a value or a call; those of table and key for an indexed
  variable. Moving it to the next register, as for an argument, then gives exactly that register.
\<close>

theorem expression_registers:
  assumes "regs_ok (fstate ps)" and "subexpr pow (parsers_at pow F e d) limit ps = Inr ((opr, v), ps')"
  shows "typed 0 (fstate ps') (fs_freereg (fstate ps)) v \<and> fs_nactvar (fstate ps') = fs_nactvar (fstate ps)
    \<and> (\<forall>v' fs. luaK_exp2nextreg (fstate ps') v = Inr (v', fs) \<longrightarrow>
         e_k v' = VNONRELOC \<and> e_info v' = fs_freereg (fstate ps) \<and> fs_freereg fs = fs_freereg (fstate ps) + 1 \<and> regs_ok fs)"
proof -
  let ?b = "fs_freereg (fstate ps)" and ?na = "fs_nactvar (fstate ps)"
  have b: "?na \<le> ?b" using assms(1) by (simp add: regs_ok_def)
  have r: "r_subexpr (parsers_at pow F e (Suc d)) limit ps = Inr ((opr, v), ps')" using assms(2) by (simp add: Let_def)
  have g: "triple (free_at ?na ?b) (r_subexpr (parsers_at pow F e (Suc d)) limit) (\<lambda>x. holds ?na ?b (snd x))"
    using parsers_at_good [of pow F e "Suc d"] b by (simp add: good_def del: parsers_at.simps)
  have "free_at ?na ?b (fstate ps)" using assms(1) b by (simp add: free_at_def freed_def)
  then have "free_at ?na ?b (fs_of ps)" by (simp add: fstate_def fs_of_def)
  then have "holds ?na ?b v (fs_of ps')" using tripleD [OF g r] by simp
  then have h: "holds ?na ?b v (fstate ps')" by (simp add: fstate_def fs_of_def)
  then have t: "typed 0 (fstate ps') ?b v" "fs_nactvar (fstate ps') = ?na" by (simp_all add: holds_def)
  have "e_k v' = VNONRELOC \<and> e_info v' = ?b \<and> fs_freereg fs = ?b + 1 \<and> regs_ok fs"
    if "luaK_exp2nextreg (fstate ps') v = Inr (v', fs)" for v' fs
    using exp2nextreg_typed [OF t(1) that] by (simp add: in_next_def)
  then show ?thesis using t by blast
qed

lemma expression_registers_witness:
  "case at_expression ''{nil}'' of Inl _ \<Rightarrow> False
   | Inr ps \<Rightarrow> (\<exists>opr v ps'. subexpr (\<lambda>_ _. 0) (parsers_at (\<lambda>_ _. 0) loop_rounds NoFuel 2) 0 ps = Inr ((opr, v), ps')
       \<and> e_k v = VNONRELOC \<and> typed 0 (fstate ps') 0 v)"
proof -
  have r: "case at_expression ''{nil}'' of Inl _ \<Rightarrow> False
    | Inr ps \<Rightarrow> fs_nactvar (fstate ps) = 0 \<and> fs_freereg (fstate ps) = 0 \<and> fs_maxstacksize (fstate ps) = 2"
    by code_simp
  have e: "case at_expression ''{nil}'' of Inl _ \<Rightarrow> False
    | Inr ps \<Rightarrow> (case subexpr (\<lambda>_ _. 0) (parsers_at (\<lambda>_ _. 0) loop_rounds NoFuel 2) 0 ps of Inl _ \<Rightarrow> False
         | Inr ((opr, v), ps') \<Rightarrow> e_k v = VNONRELOC)"
    by code_simp
  from r obtain ps where 1: "at_expression ''{nil}'' = Inr ps"
      "fs_nactvar (fstate ps) = 0" "fs_freereg (fstate ps) = 0" "fs_maxstacksize (fstate ps) = 2"
    by (cases "at_expression ''{nil}''") simp_all
  with e obtain opr v ps' where 3: "subexpr (\<lambda>_ _. 0) (parsers_at (\<lambda>_ _. 0) loop_rounds NoFuel 2) 0 ps = Inr ((opr, v), ps')"
      "e_k v = VNONRELOC"
    by (cases "subexpr (\<lambda>_ _. 0) (parsers_at (\<lambda>_ _. 0) loop_rounds NoFuel 2) 0 ps") (simp, simp split: prod.splits)
  have "regs_ok (fstate ps)" using 1 by (simp add: regs_ok_def MAXSTACK_def)
  note t = expression_registers [OF this 3(1)]
  show ?thesis unfolding 1(1) sum.case using 3 t 1(3) by (intro exI [of _ opr] exI [of _ v] exI [of _ ps']) simp
qed

end
