(* ===== verification/Spec2Isabelle.thy ===== *)
theory Spec2Isabelle
  imports LuaUndump LuaString LuaTableSpec LuaLexSpec LuaSearchSpec LuaStrfunSpec LuaCodeSpec LuaVMSpec LuaTablibSpec LuaExprSpec
begin

text \<open>
  A verification development of the Lua engine under \<open>src/Scripting/\<close>.
\<close>

end
